(* ===== verification/Prelude.thy ===== *)
theory Prelude
  imports Main "HOL-Library.List_Lexorder" "HOL-Library.Product_Lexorder" "HOL-Library.AList"
begin

text \<open>
  Shared vocabulary of the development: Python text as a list of code points, results of fallible
  code as a sum, sequencing of such results, and the generic lemmas on association lists, indexed
  lists and stacks that several components use.
\<close>

section \<open>Python text\<close>

text \<open>
  A Python \<open>str\<close> is a sequence of Unicode code points; comparison is lexicographic on them, which
  is the order of \<open>List_Lexorder\<close>. \<open>pstr\<close> turns an ASCII literal into that representation.
\<close>

type_synonym pystr = "nat list"

definition pstr :: "string \<Rightarrow> pystr" where
  "pstr s = map of_char s"

lemma pstr_eq_iff [simp]: "pstr s = pstr t \<longleftrightarrow> s = t"
  unfolding pstr_def by (rule inj_map_eq_map) (auto simp: inj_def)

lemma length_pstr [simp]: "length (pstr s) = length s"
  by (simp add: pstr_def)

section \<open>Results of code that may raise\<close>

text \<open>\<open>Inl e\<close> is a raised error, \<open>Inr v\<close> a returned value; \<open>bindE\<close> is sequencing.\<close>

named_theorems result_simps \<open>inversion of successful results\<close>

fun bindE :: "'e + 'a \<Rightarrow> ('a \<Rightarrow> 'e + 'b) \<Rightarrow> 'e + 'b" where
  "bindE (Inl e) f = Inl e"
| "bindE (Inr a) f = f a"

lemma bindE_eq_Inr [result_simps]: "bindE m f = Inr b \<longleftrightarrow> (\<exists>a. m = Inr a \<and> f a = Inr b)"
  by (cases m) auto

lemma bindE_eq_Inl [result_simps]:
  "bindE m f = Inl e \<longleftrightarrow> m = Inl e \<or> (\<exists>a. m = Inr a \<and> f a = Inl e)"
  by (cases m) auto

lemma bindE_cong [fundef_cong]:
  "m = m' \<Longrightarrow> (\<And>a. m' = Inr a \<Longrightarrow> f a = g a) \<Longrightarrow> bindE m f = bindE m' g"
  by (cases m') auto

lemma if_Inl_eq_Inr [result_simps]: "(if c then Inl e else m) = Inr b \<longleftrightarrow> \<not> c \<and> m = Inr b"
  by auto

lemma not_Inl_iff_Inr: "(\<forall>e. m \<noteq> Inl e) \<longleftrightarrow> (\<exists>a. m = Inr a)"
  by (cases m) auto

subsection \<open>Methods of an object\<close>

text \<open>
  A method of a stateful object maps its state to a result and the state afterwards; an error keeps
  what was changed before it was raised.
\<close>

fun return_m :: "'a \<Rightarrow> 's \<Rightarrow> ('e + 'a) \<times> 's" where
  "return_m a s = (Inr a, s)"

definition bind_m :: "('s \<Rightarrow> ('e + 'a) \<times> 's) \<Rightarrow> ('a \<Rightarrow> 's \<Rightarrow> ('e + 'b) \<times> 's) \<Rightarrow> 's \<Rightarrow> ('e + 'b) \<times> 's" where
  "bind_m m f s = (case m s of (Inl e, s') \<Rightarrow> (Inl e, s') | (Inr a, s') \<Rightarrow> f a s')"

fun raise_m :: "'e \<Rightarrow> 's \<Rightarrow> ('e + 'a) \<times> 's" where
  "raise_m e s = (Inl e, s)"

lemma bind_m_assoc: "bind_m (bind_m m f) g s = bind_m m (\<lambda>a. bind_m (f a) g) s"
  by (simp add: bind_m_def split: prod.split sum.split)

lemma bind_m_return [simp]: "bind_m (return_m a) f s = f a s" "bind_m m return_m s = m s"
  by (simp_all add: bind_m_def split: prod.split sum.split)

lemma bind_m_Inr [simp]: "m s = (Inr a, s') \<Longrightarrow> bind_m m f s = f a s'"
  and bind_m_Inl [simp]: "m s = (Inl e, s') \<Longrightarrow> bind_m m f s = (Inl e, s')"
  by (simp_all add: bind_m_def)

lemma bind_m_cong:
  assumes "m s = m' s'" and "\<And>a t. m' s' = (Inr a, t) \<Longrightarrow> f a t = g a t"
  shows "bind_m m f s = bind_m m' g s'"
  using assms by (simp add: bind_m_def split: prod.split sum.split)

text \<open>
  \<open>wp m Q E s\<close>: the method started in \<open>s\<close> returns with \<open>Q\<close> or raises with \<open>E\<close>. Sequencing is
  decomposed by simplification, so an invariant of an operation is proved on its branches.
\<close>

definition wp :: "('s \<Rightarrow> ('e + 'a) \<times> 's) \<Rightarrow> ('a \<Rightarrow> 's \<Rightarrow> bool) \<Rightarrow> ('e \<Rightarrow> 's \<Rightarrow> bool) \<Rightarrow> 's \<Rightarrow> bool" where
  "wp m Q E s = (case m s of (Inl e, s') \<Rightarrow> E e s' | (Inr a, s') \<Rightarrow> Q a s')"


lemma wp_bind [simp]: "wp (bind_m m f) Q E = wp m (\<lambda>a. wp (f a) Q E) E"
  by (rule ext) (simp add: wp_def bind_m_def split: prod.split sum.split)

lemma wp_return [simp]: "wp (return_m a) Q E = Q a"
  by (rule ext) (simp add: wp_def)

lemma wp_fun [simp]:
  "wp (\<lambda>s. if c s then m1 s else m2 s) Q E = (\<lambda>s. if c s then wp m1 Q E s else wp m2 Q E s)"
  "wp (\<lambda>s. (Inr (f s), g s)) Q E = (\<lambda>s. Q (f s) (g s))"
  "wp (\<lambda>s. (Inl (h s), g s)) Q E = (\<lambda>s. E (h s) (g s))"
  by (rule ext, simp add: wp_def)+

lemma wp_step: "wp m' Q E s' \<Longrightarrow> m s = m' s' \<Longrightarrow> wp m Q E s"
  and wp_returns: "Q a s' \<Longrightarrow> m s = (Inr a, s') \<Longrightarrow> wp m Q E s"
  and wp_raises: "E e s' \<Longrightarrow> m s = (Inl e, s') \<Longrightarrow> wp m Q E s"
  by (simp_all add: wp_def)

lemma wp_mono:
  assumes "wp m Q E s" and "\<And>a s'. Q a s' \<Longrightarrow> Q' a s'" and "\<And>e s'. E e s' \<Longrightarrow> E' e s'"
  shows "wp m Q' E' s"
  using assms by (auto simp: wp_def split: prod.splits sum.splits)

lemma wp_InrD: "wp m Q E s \<Longrightarrow> m s = (Inr a, s') \<Longrightarrow> Q a s'"
  and wp_InlD: "wp m Q E s \<Longrightarrow> m s = (Inl e, s') \<Longrightarrow> E e s'"
  by (simp_all add: wp_def)

section \<open>Association lists standing for Python dictionaries\<close>

lemma map_of_update [simp]: "map_of (AList.update k v al) = (map_of al)(k \<mapsto> v)"
  by (simp add: update_conv')

lemma length_update_fresh: "map_of al k = None \<Longrightarrow> length (AList.update k v al) = Suc (length al)"
  by (induction al) (auto split: if_splits)

lemma length_update_present: "map_of al k \<noteq> None \<Longrightarrow> length (AList.update k v al) = length al"
  by (induction al) (auto split: if_splits)

section \<open>Lists\<close>

lemma list_all_snoc [simp]: "list_all P (xs @ [x]) \<longleftrightarrow> list_all P xs \<and> P x"
  by auto

lemma distinct_map_appendI:
  "distinct (map f xs) \<Longrightarrow> distinct (map f ys) \<Longrightarrow> \<forall>y \<in> set ys. f y \<notin> f ` set xs \<Longrightarrow>
    distinct (map f (xs @ ys))"
  by (simp add: disjoint_iff) blast

lemma take_upt_min: "take m [i..<n] = [i..<min (i + m) n]"
  by (rule nth_equalityI) auto

lemma take_drop_append: "take m (drop k xs) @ take n (drop (k + m) xs) = take (m + n) (drop k xs)"
  by (metis add.commute drop_drop take_add)

end
