(* ===== verification/Bounded_Input.thy ===== *)
theory Bounded_Input
  imports Prelude
begin

text \<open>
  The traversal guard \<open>bounded\<close> of \<open>stores/_core.py\<close>: before any dump, validation or hash of a
  data transfer object the store walks its object graph with an explicit stack and refuses it when
  it has too many nodes, is too deep or too large. The graph is given by a function from object
  references to one object each, so that shared and cyclic structures (forged objects) are covered;
  \<open>pytree\<close> is the tree-shaped case, used for the typed objects of the store.
\<close>

section \<open>Objects\<close>

text \<open>
  One object as \<open>bounded\<close> sees it through \<open>isinstance\<close>, with references \<open>'v\<close> to the objects it
  holds. \<open>OModel\<close> is a pydantic \<open>BaseModel\<close> (class name and field values in order), \<open>OOther\<close> a
  value of any class that the guard does not list.
\<close>

datatype 'v pyobj =
    ONone
  | OStr pystr
  | OBytes "nat list"
  | OModel string "'v list"
  | OMap "('v \<times> 'v) list"
  | OSeq "'v list"
  | OInt int
  | ODecimal bool "nat list" "int option"   \<comment> \<open>finite, digits, exponent when an int\<close>
  | ODate int
  | OFloat nat
  | OOther

datatype pytree = PyVal (py_obj: "pytree pyobj")

datatype staging_error =
    STAGING_INPUT_INVALID | STAGING_LIMIT_EXCEEDED | STAGING_CLOCK_INVALID
  | STAGING_CONTEXT_MISMATCH | STAGING_RUN_NOT_FOUND | STAGING_RETENTION_MISMATCH
  | STAGING_REFERENCE_EXPIRES | STAGING_RUN_EXISTS | STAGING_EXPIRED | STAGING_STATE_INVALID
  | STAGING_CONTENT_MISMATCH | STAGING_BATCH_ORDER_INVALID | STAGING_INCOMPLETE
  | STAGING_RECORD_DUPLICATE | STAGING_REVISION_CONFLICT | STAGING_PURGED

record staging_limits =
  max_records :: nat
  max_batches :: nat
  max_batch_records :: nat
  max_page_records :: nat
  max_input_bytes :: nat
  max_nodes :: nat
  timeout_seconds :: nat
  cleanup_seconds :: nat

section \<open>The guard\<close>

fun bit_len :: "nat \<Rightarrow> nat" where
  "bit_len n = (if n = 0 then 0 else Suc (bit_len (n div 2)))"

declare bit_len.simps [simp del]

lemma bit_len_0 [simp]: "bit_len 0 = 0"
  by (simp add: bit_len.simps)

text \<open>The body of the loop for one popped item: extra bytes and children, or the error raised.\<close>

fun visit :: "staging_limits \<Rightarrow> 'v pyobj \<Rightarrow> staging_error + (nat \<times> 'v list)" where
  "visit L (OStr s) = Inr (length s * 4, [])"
| "visit L (OBytes b) = Inr (length b * 4, [])"
| "visit L (OModel _ vs) = Inr (0, vs)"
| "visit L (OMap kvs) =
     (if length kvs > max_nodes L then Inl STAGING_LIMIT_EXCEEDED
      else Inr (0, map fst kvs @ map snd kvs))"
| "visit L (OSeq vs) =
     (if length vs > max_nodes L then Inl STAGING_LIMIT_EXCEEDED else Inr (0, vs))"
| "visit L (OInt i) =
     (if bit_len (nat \<bar>i\<bar>) > 4096 then Inl STAGING_LIMIT_EXCEEDED else Inr (0, []))"
| "visit L (ODecimal is_finite digits exponent) =
     (if \<not> is_finite \<or> length digits > 1000 \<or>
         (case exponent of None \<Rightarrow> True | Some e \<Rightarrow> \<bar>e\<bar> > 10000)
      then Inl STAGING_LIMIT_EXCEEDED else Inr (0, []))"
| "visit L ONone = Inr (0, [])"
| "visit L (ODate _) = Inr (0, [])"
| "visit L (OFloat _) = Inr (0, [])"
| "visit L OOther = Inl STAGING_INPUT_INVALID"

text \<open>
  The \<open>while pending\<close> loop. The head of the list is the top of Python's stack: \<open>pop()\<close> takes the
  last element and \<open>extend\<close> adds the children after it.
\<close>

function bounded_loop ::
  "('v \<Rightarrow> 'v pyobj) \<Rightarrow> staging_limits \<Rightarrow> ('v \<times> nat) list \<Rightarrow> nat \<Rightarrow> nat \<Rightarrow> staging_error + unit" where
  "bounded_loop obj L [] nodes used =
     (if used > max_input_bytes L then Inl STAGING_LIMIT_EXCEEDED else Inr ())"
| "bounded_loop obj L ((item, depth) # pending) nodes used =
     (if Suc nodes > max_nodes L \<or> depth > 64 \<or> used + 16 > max_input_bytes L
      then Inl STAGING_LIMIT_EXCEEDED
      else case visit L (obj item) of
        Inl e \<Rightarrow> Inl e
      | Inr (extra, children) \<Rightarrow>
          if length pending + length children + Suc nodes > max_nodes L
          then Inl STAGING_LIMIT_EXCEEDED
          else bounded_loop obj L (rev (map (\<lambda>c. (c, Suc depth)) children) @ pending)
                 (Suc nodes) (used + 16 + extra))"
  by pat_completeness auto
termination
  by (relation "measure (\<lambda>(obj, L, pending, nodes, used).
        (max_nodes L - nodes) + (if pending = [] then 0 else 1))") auto

declare bounded_loop.simps(2) [simp del]

definition bounded :: "('v \<Rightarrow> 'v pyobj) \<Rightarrow> staging_limits \<Rightarrow> 'v \<Rightarrow> staging_error + unit" where
  "bounded obj L value = bounded_loop obj L [(value, 0)] 0 0"

section \<open>What the guard admits\<close>

text \<open>Size measures of a tree: nodes, bytes as counted by the guard, depth, admissible leaves.\<close>

fun obj_children :: "'v pyobj \<Rightarrow> 'v list" where
  "obj_children (OModel _ vs) = vs"
| "obj_children (OMap kvs) = map fst kvs @ map snd kvs"
| "obj_children (OSeq vs) = vs"
| "obj_children _ = []"

fun obj_extra :: "'v pyobj \<Rightarrow> nat" where
  "obj_extra (OStr s) = length s * 4"
| "obj_extra (OBytes b) = length b * 4"
| "obj_extra _ = 0"

fun obj_ok :: "'v pyobj \<Rightarrow> bool" where
  "obj_ok (OInt i) = (bit_len (nat \<bar>i\<bar>) \<le> 4096)"
| "obj_ok (ODecimal is_finite digits exponent) =
     (is_finite \<and> length digits \<le> 1000 \<and> (case exponent of None \<Rightarrow> False | Some e \<Rightarrow> \<bar>e\<bar> \<le> 10000))"
| "obj_ok OOther = False"
| "obj_ok _ = True"

lemma visit_Inr: "visit L ob = Inr (extra, cs) \<Longrightarrow> obj_ok ob \<and> extra = obj_extra ob \<and> cs = obj_children ob"
  by (cases ob) (auto split: if_splits option.splits)

lemma visit_total:
  "obj_ok ob \<Longrightarrow> length (obj_children ob) \<le> max_nodes L \<Longrightarrow>
    visit L ob = Inr (obj_extra ob, obj_children ob)"
  by (cases ob) (auto split: option.splits)

lemma size_obj_child: "c \<in> set (obj_children ob) \<Longrightarrow> size c < size (PyVal ob)"
  by (cases ob) (fastforce dest: size_list_estimation' [where f = size, OF _ order_refl]
    size_list_estimation' [where f = "size_prod size size"])+

lemma size_obj_children:
  "(c :: pytree) \<in> set (obj_children ob) \<Longrightarrow> size c < Suc (size_pyobj size ob)"
  using size_obj_child by simp

function tree_nodes :: "pytree \<Rightarrow> nat" where
  "tree_nodes (PyVal ob) = Suc (sum_list (map tree_nodes (obj_children ob)))"
  by pat_completeness auto
termination by (relation "measure size") (auto simp: size_obj_children)

function tree_bytes :: "pytree \<Rightarrow> nat" where
  "tree_bytes (PyVal ob) = 16 + obj_extra ob + sum_list (map tree_bytes (obj_children ob))"
  by pat_completeness auto
termination by (relation "measure size") (auto simp: size_obj_children)

function tree_height :: "pytree \<Rightarrow> nat" where
  "tree_height (PyVal ob) = foldr max (map (\<lambda>c. Suc (tree_height c)) (obj_children ob)) 0"
  by pat_completeness auto
termination by (relation "measure size") (auto simp: size_obj_children)

function tree_ok :: "pytree \<Rightarrow> bool" where
  "tree_ok (PyVal ob) = (obj_ok ob \<and> list_all tree_ok (obj_children ob))"
  by pat_completeness auto
termination by (relation "measure size") (auto simp: size_obj_children)


lemma foldr_max_le: "foldr max xs (0::nat) \<le> k \<longleftrightarrow> (\<forall>x \<in> set xs. x \<le> k)"
  by (induction xs) auto

lemma height_le: "tree_height (PyVal ob) + d \<le> 64 \<longleftrightarrow>
    d \<le> 64 \<and> (\<forall>c \<in> set (obj_children ob). tree_height c + Suc d \<le> 64)"
proof (cases "d \<le> 64")
  case True
  then have "tree_height (PyVal ob) + d \<le> 64 \<longleftrightarrow> tree_height (PyVal ob) \<le> 64 - d" by arith
  also have "\<dots> \<longleftrightarrow> (\<forall>c \<in> set (obj_children ob). Suc (tree_height c) \<le> 64 - d)"
    by (simp add: foldr_max_le)
  also have "\<dots> \<longleftrightarrow> (\<forall>c \<in> set (obj_children ob). tree_height c + Suc d \<le> 64)"
    using True by (intro ball_cong refl) arith
  finally show ?thesis using True by blast
qed simp

lemma length_le_nodes: "length vs \<le> sum_list (map tree_nodes vs)"
proof (induction vs)
  case (Cons v vs)
  then show ?case by (cases v) auto
qed simp

text \<open>The pending work of the loop is exactly what remains of the totals.\<close>

definition pend_fits :: "staging_limits \<Rightarrow> (pytree \<times> nat) list \<Rightarrow> nat \<Rightarrow> nat \<Rightarrow> bool" where
  "pend_fits L pending nodes used \<longleftrightarrow>
     nodes + sum_list (map (tree_nodes \<circ> fst) pending) \<le> max_nodes L \<and>
     used + sum_list (map (tree_bytes \<circ> fst) pending) \<le> max_input_bytes L \<and>
     (\<forall>(v, d) \<in> set pending. tree_height v + d \<le> 64 \<and> tree_ok v)"

lemma pend_fits_step:
  "pend_fits L ((PyVal ob, d) # pending) nodes used \<longleftrightarrow>
     d \<le> 64 \<and> obj_ok ob \<and>
     pend_fits L (rev (map (\<lambda>c. (c, Suc d)) (obj_children ob)) @ pending) (Suc nodes)
       (used + 16 + obj_extra ob)"
  unfolding pend_fits_def using height_le [of ob d]
  by (auto simp: rev_map [symmetric] comp_def list_all_iff ball_Un simp del: tree_height.simps)

lemma pend_fits_bounds:
  "pend_fits L ((PyVal ob, d) # pending) nodes used \<Longrightarrow>
     Suc nodes \<le> max_nodes L \<and> used + 16 \<le> max_input_bytes L \<and>
     length pending + length (obj_children ob) + Suc nodes \<le> max_nodes L"
  using length_le_nodes [of "obj_children ob"] length_le_nodes [of "map fst pending"]
  by (auto simp: pend_fits_def comp_def)

lemma bounded_loop_iff:
  "nodes \<le> max_nodes L \<Longrightarrow>
     bounded_loop py_obj L pending nodes used = Inr () \<longleftrightarrow> pend_fits L pending nodes used"
proof (induction "py_obj :: pytree \<Rightarrow> _" L pending nodes used rule: bounded_loop.induct)
  case (1 L nodes used)
  then show ?case by (auto simp: pend_fits_def)
next
  case (2 L item depth pending nodes used)
  obtain ob where item: "item = PyVal ob" by (cases item)
  show ?case
  proof (cases "Suc nodes > max_nodes L \<or> depth > 64 \<or> used + 16 > max_input_bytes L")
    case True
    then show ?thesis using pend_fits_bounds [of L ob depth pending nodes used] pend_fits_step
      by (auto simp: item bounded_loop.simps(2))
  next
    case guard: False
    show ?thesis
    proof (cases "visit L ob")
      case (Inl e)
      then have "\<not> (obj_ok ob \<and> length (obj_children ob) \<le> max_nodes L)"
        using visit_total by fastforce
      then show ?thesis using guard Inl pend_fits_bounds [of L ob depth pending nodes used]
          pend_fits_step [of L ob depth pending nodes used]
        by (auto simp: item bounded_loop.simps(2))
    next
      case (Inr r)
      obtain extra cs where r: "r = (extra, cs)" by fastforce
      have v: "obj_ok ob" "extra = obj_extra ob" "cs = obj_children ob"
        using visit_Inr Inr r by metis+
      show ?thesis
      proof (cases "length pending + length cs + Suc nodes > max_nodes L")
        case True
        then show ?thesis using guard Inr r v pend_fits_bounds [of L ob depth pending nodes used]
          by (auto simp: item bounded_loop.simps(2))
      next
        case False
        have "bounded_loop py_obj L (rev (map (\<lambda>c. (c, Suc depth)) cs) @ pending) (Suc nodes)
            (used + 16 + extra) = Inr () \<longleftrightarrow>
          pend_fits L (rev (map (\<lambda>c. (c, Suc depth)) cs) @ pending) (Suc nodes) (used + 16 + extra)"
          by (intro "2"(1)) (use guard Inr r False item in auto)
        then show ?thesis using guard Inr r v False pend_fits_step
          by (simp add: item bounded_loop.simps(2))
      qed
    qed
  qed
qed

text \<open>
  C38: on a tree-shaped value the guard accepts exactly when the node count, the byte count and the
  depth are within the limits and every leaf is one it admits; the explicit stack, the early exits
  and the per-container checks change which error comes first, never the verdict.
\<close>

theorem bounded_tree_iff:
  "bounded py_obj L v = Inr () \<longleftrightarrow>
     tree_nodes v \<le> max_nodes L \<and> tree_bytes v \<le> max_input_bytes L \<and> tree_height v \<le> 64 \<and>
     tree_ok v"
  by (auto simp: bounded_def bounded_loop_iff pend_fits_def)

lemma bounded_accept:
  "tree_nodes v \<le> max_nodes L \<Longrightarrow> tree_bytes v \<le> max_input_bytes L \<Longrightarrow> tree_height v \<le> 64 \<Longrightarrow>
     tree_ok v \<Longrightarrow> bounded py_obj L v = Inr ()"
  by (simp add: bounded_def bounded_loop_iff pend_fits_def)

lemma bounded_loop_cycle:
  "\<forall>x \<in> S. \<exists>y \<in> S. y \<in> set (obj_children (obj x)) \<Longrightarrow> fst ` set pending \<inter> S \<noteq> {} \<Longrightarrow>
     bounded_loop obj L pending nodes used \<noteq> Inr ()"
proof (induction obj L pending nodes used rule: bounded_loop.induct)
  case (2 obj L item depth pending nodes used)
  show ?case
  proof (cases "visit L (obj item)")
    case (Inl e)
    then show ?thesis by (simp add: bounded_loop.simps(2))
  next
    case (Inr r)
    obtain extra cs where r: "r = (extra, cs)" by fastforce
    have cs: "cs = obj_children (obj item)" using visit_Inr Inr r by metis
    let ?next = "rev (map (\<lambda>c. (c, Suc depth)) cs) @ pending"
    have "fst ` set ?next \<inter> S \<noteq> {}"
    proof (cases "item \<in> S")
      case True
      then obtain y where "y \<in> S" "y \<in> set cs" using "2.prems"(1) cs by blast
      then have "y \<in> fst ` set ?next \<inter> S" by force
      then show ?thesis by blast
    next
      case False
      then show ?thesis using "2.prems"(2) by (auto simp: image_Un)
    qed
    then have "length pending + length cs + Suc nodes \<le> max_nodes L \<Longrightarrow>
        \<not> (Suc nodes > max_nodes L \<or> depth > 64 \<or> used + 16 > max_input_bytes L) \<Longrightarrow>
        bounded_loop obj L ?next (Suc nodes) (used + 16 + extra) \<noteq> Inr ()"
      by (intro "2.IH") (use "2.prems"(1) Inr r in auto)
    then show ?thesis using Inr r by (auto simp: bounded_loop.simps(2))
  qed
qed simp

text \<open>
  a value from which a cycle of container objects can be followed forever is refused, whatever
  the limits: the walk ends (it is a total function) and never with acceptance.
\<close>

theorem bounded_rejects_cycle:
  assumes "\<forall>x \<in> S. \<exists>y \<in> S. y \<in> set (obj_children (obj x))" and "v \<in> S"
  shows "bounded obj L v \<noteq> Inr ()"
  using assms by (simp add: bounded_def bounded_loop_cycle)

theorem bounded_rejects_cycle_witness:
  "bounded (\<lambda>n::nat. if n = 0 then OSeq [2, 1] else if n = 1 then OModel ''M'' [0] else OInt 5)
     \<lparr>max_records = 1, max_batches = 1, max_batch_records = 1, max_page_records = 1,
      max_input_bytes = 1000, max_nodes = 50,
      timeout_seconds = 30, cleanup_seconds = 5\<rparr> 0 \<noteq> Inr ()"
  by (rule bounded_rejects_cycle [where S = "{0, 1}"]) auto

end
