(* ===== verification/Staging_Store.thy ===== *)
theory Staging_Store
  imports Bounded_Input
begin

text \<open>
  The staging store: the contracts of \<open>contracts/staging.py\<close> as records, the lifecycle operations
  of \<open>stores/_core.py\<close> (\<open>StagingOperations\<close>) as functions on one run's state, and the in-memory
  backend of \<open>stores/memory.py\<close>. An operation is its checks on the arguments followed by the
  closure it hands to \<open>_access\<close>; the backend runs that closure on the stored state of the run and
  keeps the new state only when the closure returns.
\<close>

section \<open>Contracts\<close>

datatype artifact_kind = RAW | NORMALIZED | MAPPING | VALIDATION | PROVENANCE

datatype run_status =
    OPEN | SEALED | EXECUTING | COMMITTED | QUARANTINED | ROLLED_BACK | FAILED | CANCELLED
  | UNKNOWN | EXPIRED

text \<open>Instants are microseconds since 0001-01-01T00:00:00Z, the range of Python's \<open>datetime\<close>.\<close>

type_synonym instant = int

definition datetime_max :: instant where
  "datetime_max = 315537897599999999"

record artifact_ref =
  ref_kind :: artifact_kind
  ref_artifact_id :: pystr
  ref_fingerprint :: pystr
  ref_retained_until :: instant

record retention_policy =
  retain_kinds :: "artifact_kind list"
  success_seconds :: nat
  failure_seconds :: nat
  max_run_seconds :: nat

record staging_context =
  ctx_run_id :: pystr
  ctx_staging_id :: pystr
  ctx_target_id :: pystr
  ctx_database_fingerprint :: pystr
  ctx_target_policy_fingerprint :: pystr
  ctx_normalized_fingerprint :: pystr
  ctx_expires_at :: instant
  ctx_max_records :: nat

record run_spec =
  spec_context :: staging_context
  spec_source_fingerprint :: pystr
  spec_extraction_fingerprint :: pystr
  spec_parse_plan_fingerprint :: pystr
  spec_mapping_plan_fingerprint :: pystr
  spec_batch_count :: nat
  spec_record_count :: nat
  spec_references :: "artifact_ref list"

record staging_run =
  run_spec_of :: run_spec
  run_spec_fingerprint :: pystr
  run_retention_fingerprint :: pystr
  run_status :: run_status
  run_revision :: nat
  run_batch_count :: nat
  run_record_count :: nat
  run_created_at :: instant
  run_updated_at :: instant
  run_sealed_fingerprint :: "pystr option"
  run_cleanup_after :: "instant option"
  run_purged :: bool

text \<open>
  A normalized batch and its summary. Fields the store only copies (source artifact, extraction
  id, producer, record payloads) are kept as one \<open>pytree\<close> each.
\<close>

record batch_summary =
  sum_batch_index :: nat
  sum_batch_fingerprint :: pystr
  sum_source_fingerprint :: pystr
  sum_extraction_fingerprint :: pystr
  sum_parse_plan_fingerprint :: pystr
  sum_record_count :: nat
  sum_entity_count :: nat
  sum_value_count :: nat
  sum_rest :: pytree

record dataset_manifest =
  man_normalized_fingerprint :: pystr
  man_batches :: "batch_summary list"
  man_record_count :: nat
  man_rest :: pytree

record normalized_record =
  nr_record_id :: pystr
  nr_entity_count :: nat
  nr_value_count :: nat
  nr_payload :: pytree

record normalized_batch =
  nb_schema_version :: string
  nb_source_fingerprint :: pystr
  nb_extraction_fingerprint :: pystr
  nb_parse_plan_fingerprint :: pystr
  nb_batch_index :: nat
  nb_batch_fingerprint :: pystr
  nb_records :: "normalized_record list"
  nb_is_last :: bool
  nb_manifest :: "dataset_manifest option"
  nb_rest :: pytree
  nb_rest_valid :: bool   \<comment> \<open>outcome of the validators on the fields in \<open>nb_rest\<close>\<close>

record staged_batch =
  sb_summary :: batch_summary
  sb_created_at :: instant

record staged_record =
  sr_record_id :: pystr
  sr_record_index :: nat
  sr_batch_index :: nat
  sr_index_in_batch :: nat
  sr_record_fingerprint :: pystr
  sr_references :: "artifact_ref list"
  sr_created_at :: instant

record run_state =
  st_run :: staging_run
  st_batches :: "staged_batch list"
  st_records :: "staged_record list"

section \<open>Object graphs of the contracts\<close>

text \<open>What the traversal guard and the canonical serialiser see of each object.\<close>

definition py_str :: "pystr \<Rightarrow> pytree" where "py_str s = PyVal (OStr s)"
definition py_nat :: "nat \<Rightarrow> pytree" where "py_nat n = PyVal (OInt (int n))"
definition py_date :: "instant \<Rightarrow> pytree" where "py_date t = PyVal (ODate t)"
definition py_bool :: "bool \<Rightarrow> pytree" where "py_bool b = PyVal (OInt (if b then 1 else 0))"
definition py_seq :: "('a \<Rightarrow> pytree) \<Rightarrow> 'a list \<Rightarrow> pytree" where
  "py_seq f xs = PyVal (OSeq (map f xs))"
definition py_opt :: "('a \<Rightarrow> pytree) \<Rightarrow> 'a option \<Rightarrow> pytree" where
  "py_opt f x = (case x of None \<Rightarrow> PyVal ONone | Some y \<Rightarrow> f y)"

fun kind_name :: "artifact_kind \<Rightarrow> pystr" where
  "kind_name RAW = pstr ''raw''"
| "kind_name NORMALIZED = pstr ''normalized''"
| "kind_name MAPPING = pstr ''mapping''"
| "kind_name VALIDATION = pstr ''validation''"
| "kind_name PROVENANCE = pstr ''provenance''"

fun status_name :: "run_status \<Rightarrow> pystr" where
  "status_name OPEN = pstr ''open''"
| "status_name SEALED = pstr ''sealed''"
| "status_name EXECUTING = pstr ''executing''"
| "status_name COMMITTED = pstr ''committed''"
| "status_name QUARANTINED = pstr ''quarantined''"
| "status_name ROLLED_BACK = pstr ''rolled_back''"
| "status_name FAILED = pstr ''failed''"
| "status_name CANCELLED = pstr ''cancelled''"
| "status_name UNKNOWN = pstr ''unknown''"
| "status_name EXPIRED = pstr ''expired''"

definition py_ref :: "artifact_ref \<Rightarrow> pytree" where
  "py_ref r = PyVal (OModel ''StagingArtifactReference''
     [py_str (kind_name (ref_kind r)), py_str (ref_artifact_id r), py_str (ref_fingerprint r),
      py_date (ref_retained_until r)])"

definition py_retention :: "retention_policy \<Rightarrow> pytree" where
  "py_retention p = PyVal (OModel ''StagingRetentionPolicy''
     [py_seq (py_str \<circ> kind_name) (retain_kinds p), py_nat (success_seconds p),
      py_nat (failure_seconds p), py_nat (max_run_seconds p)])"

definition py_context :: "staging_context \<Rightarrow> pytree" where
  "py_context c = PyVal (OModel ''StagingContext''
     [py_str (ctx_run_id c), py_str (ctx_staging_id c), py_str (ctx_target_id c),
      py_str (ctx_database_fingerprint c), py_str (ctx_target_policy_fingerprint c),
      py_str (ctx_normalized_fingerprint c), py_date (ctx_expires_at c),
      py_nat (ctx_max_records c)])"

definition py_spec :: "run_spec \<Rightarrow> pytree" where
  "py_spec s = PyVal (OModel ''StagingRunSpec''
     [py_str (pstr ''1.0.0''), py_context (spec_context s), py_str (spec_source_fingerprint s),
      py_str (spec_extraction_fingerprint s), py_str (spec_parse_plan_fingerprint s),
      py_str (spec_mapping_plan_fingerprint s), py_nat (spec_batch_count s),
      py_nat (spec_record_count s), py_seq py_ref (spec_references s)])"

definition py_run :: "staging_run \<Rightarrow> pytree" where
  "py_run r = PyVal (OModel ''StagingRun''
     [py_spec (run_spec_of r), py_str (run_spec_fingerprint r), py_str (run_retention_fingerprint r),
      py_str (status_name (run_status r)), py_nat (run_revision r), py_nat (run_batch_count r),
      py_nat (run_record_count r), py_date (run_created_at r), py_date (run_updated_at r),
      py_opt py_str (run_sealed_fingerprint r), py_opt py_date (run_cleanup_after r),
      py_bool (run_purged r)])"

definition py_summary :: "batch_summary \<Rightarrow> pytree" where
  "py_summary b = PyVal (OModel ''NormalizedBatchSummary''
     [py_nat (sum_batch_index b), py_str (sum_batch_fingerprint b),
      py_str (sum_source_fingerprint b), py_str (sum_extraction_fingerprint b),
      py_str (sum_parse_plan_fingerprint b), py_nat (sum_record_count b),
      py_nat (sum_entity_count b), py_nat (sum_value_count b), sum_rest b])"

definition py_manifest :: "dataset_manifest \<Rightarrow> pytree" where
  "py_manifest m = PyVal (OModel ''NormalizedDatasetManifest''
     [py_str (man_normalized_fingerprint m), py_seq py_summary (man_batches m),
      py_nat (man_record_count m), man_rest m])"

definition py_record :: "normalized_record \<Rightarrow> pytree" where
  "py_record r = PyVal (OModel ''NormalizedRecord'' [py_str (nr_record_id r), nr_payload r])"

definition py_batch :: "normalized_batch \<Rightarrow> pytree" where
  "py_batch b = PyVal (OModel ''NormalizedBatch''
     [py_str (pstr (nb_schema_version b)), py_str (nb_source_fingerprint b),
      py_str (nb_extraction_fingerprint b), py_str (nb_parse_plan_fingerprint b),
      py_nat (nb_batch_index b), py_str (nb_batch_fingerprint b),
      py_seq py_record (nb_records b), py_bool (nb_is_last b),
      py_opt py_manifest (nb_manifest b), nb_rest b])"

definition py_staged_batch :: "staged_batch \<Rightarrow> pytree" where
  "py_staged_batch b = PyVal (OModel ''StagedBatch'' [py_summary (sb_summary b), py_date (sb_created_at b)])"

definition py_staged_record :: "staged_record \<Rightarrow> pytree" where
  "py_staged_record r = PyVal (OModel ''StagedRecord''
     [py_str (sr_record_id r), py_nat (sr_record_index r), py_nat (sr_batch_index r),
      py_nat (sr_index_in_batch r), py_str (sr_record_fingerprint r), py_str (pstr ''staged''),
      py_seq py_ref (sr_references r), py_date (sr_created_at r)])"

definition py_limits :: "staging_limits \<Rightarrow> pytree" where
  "py_limits l = PyVal (OModel ''StagingLimits''
     [py_nat (max_records l), py_nat (max_batches l), py_nat (max_batch_records l),
      py_nat (max_page_records l), py_nat (max_input_bytes l), py_nat (max_nodes l),
      py_nat (timeout_seconds l), py_nat (cleanup_seconds l)])"

section \<open>Revalidation\<close>

text \<open>
  \<open>checked\<close> bounds the object graph and validates the dumped object again. Pydantic's own
  field-level checks (string patterns, strictness) are a parameter of the environment
  (\<open>e_fields_ok\<close>); numeric field bounds and the model validators of the source are the \<open>validate_\<close>
  functions, which also return the value a validator normalises.
\<close>

record store_env =
  e_target_id :: pystr
  e_retention :: retention_policy
  e_limits :: staging_limits
  e_fields_ok :: "pytree \<Rightarrow> bool"    \<comment> \<open>pydantic field validation of the dumped object\<close>
  e_sha :: "pytree \<Rightarrow> pystr"          \<comment> \<open>\<open>canonical_sha256_value\<close>\<close>
  e_json :: "pytree \<Rightarrow> pystr"         \<comment> \<open>\<open>canonical_json\<close> of a contract\<close>

definition default_limits :: staging_limits where
  "default_limits = \<lparr>max_records = 10000, max_batches = 1000, max_batch_records = 500,
     max_page_records = 500, max_input_bytes = 8388608, max_nodes = 100000,
     timeout_seconds = 30, cleanup_seconds = 5\<rparr>"

definition validate_limits :: "staging_limits \<Rightarrow> staging_limits option" where
  "validate_limits l =
     (if 0 < max_records l \<and> max_records l \<le> 100000 \<and> 0 < max_batches l \<and> max_batches l \<le> 10000 \<and>
         0 < max_batch_records l \<and> max_batch_records l \<le> 10000 \<and>
         0 < max_page_records l \<and> max_page_records l \<le> 10000 \<and>
         0 < max_input_bytes l \<and> max_input_bytes l \<le> 67108864 \<and>
         0 < max_nodes l \<and> max_nodes l \<le> 1000000 \<and>
         0 < timeout_seconds l \<and> timeout_seconds l \<le> 300 \<and>
         0 < cleanup_seconds l \<and> cleanup_seconds l \<le> 30
      then Some l else None)"

definition all_kinds :: "artifact_kind list" where
  "all_kinds = [RAW, NORMALIZED, MAPPING, VALIDATION, PROVENANCE]"

definition validate_retention :: "retention_policy \<Rightarrow> retention_policy option" where
  "validate_retention p =
     (if success_seconds p \<le> 31536000 \<and> failure_seconds p \<le> 31536000 \<and>
         0 < max_run_seconds p \<and> max_run_seconds p \<le> 604800
      then Some (p\<lparr>retain_kinds := filter (\<lambda>k. k \<in> set (retain_kinds p)) all_kinds\<rparr>)
      else None)"

definition validate_context :: "staging_context \<Rightarrow> staging_context option" where
  "validate_context c = (if 0 < ctx_max_records c then Some c else None)"

definition ref_matches :: "run_spec \<Rightarrow> artifact_ref \<Rightarrow> bool" where
  "ref_matches s r \<longleftrightarrow>
     (ref_kind r = NORMALIZED \<longrightarrow> ref_fingerprint r = ctx_normalized_fingerprint (spec_context s)) \<and>
     (ref_kind r = MAPPING \<longrightarrow> ref_fingerprint r = spec_mapping_plan_fingerprint s)"

definition validate_spec :: "run_spec \<Rightarrow> run_spec option" where
  "validate_spec s =
     (if validate_context (spec_context s) \<noteq> None \<and>
         0 < spec_batch_count s \<and> spec_batch_count s \<le> 10000 \<and> spec_record_count s \<le> 100000 \<and>
         length (spec_references s) \<le> 5 \<and>
         distinct (map ref_kind (spec_references s)) \<and>
         spec_record_count s \<le> ctx_max_records (spec_context s) \<and>
         list_all (ref_matches s) (spec_references s)
      then Some (s\<lparr>spec_references := sort_key (kind_name \<circ> ref_kind) (spec_references s)\<rparr>)
      else None)"

text \<open>Of the validators of \<open>NormalizedBatch\<close>, those on fields the store reads.\<close>

definition validate_batch :: "normalized_batch \<Rightarrow> normalized_batch option" where
  "validate_batch b =
     (if nb_schema_version b \<in> set [''1.0.0'', ''1.1.0'', ''1.2.0''] \<and>
         (nb_is_last b \<longleftrightarrow> nb_manifest b \<noteq> None) \<and>
         distinct (map nr_record_id (nb_records b)) \<and> nb_rest_valid b
      then Some b else None)"

definition checked ::
  "staging_limits \<Rightarrow> (pytree \<Rightarrow> bool) \<Rightarrow> ('a \<Rightarrow> pytree) \<Rightarrow> ('a \<Rightarrow> 'a option) \<Rightarrow> 'a \<Rightarrow> staging_error + 'a"
where
  "checked L fields_ok py validate v =
     bindE (bounded py_obj L (py v)) (\<lambda>_.
       if \<not> fields_ok (py v) then Inl STAGING_INPUT_INVALID
       else case validate v of None \<Rightarrow> Inl STAGING_INPUT_INVALID | Some v' \<Rightarrow> Inr v')"

text \<open>\<open>StagingOperations.__init__\<close>.\<close>

definition init_store ::
  "pystr \<Rightarrow> retention_policy \<Rightarrow> staging_limits option \<Rightarrow> (pytree \<Rightarrow> bool) \<Rightarrow> (pytree \<Rightarrow> pystr) \<Rightarrow>
     (pytree \<Rightarrow> pystr) \<Rightarrow> staging_error + store_env" where
  "init_store target retention limits fields_ok sha json =
     bindE (checked default_limits fields_ok py_limits validate_limits
              (case limits of None \<Rightarrow> default_limits | Some l \<Rightarrow> l)) (\<lambda>L.
     bindE (checked L fields_ok py_retention validate_retention retention) (\<lambda>R.
     Inr \<lparr>e_target_id = target, e_retention = R, e_limits = L, e_fields_ok = fields_ok,
          e_sha = sha, e_json = json\<rparr>))"

definition checked_env ::
  "store_env \<Rightarrow> ('a \<Rightarrow> pytree) \<Rightarrow> ('a \<Rightarrow> 'a option) \<Rightarrow> 'a \<Rightarrow> staging_error + 'a" where
  "checked_env E = checked (e_limits E) (e_fields_ok E)"

section \<open>Clock, context and state checks\<close>

text \<open>
  The clock is trusted to return something, not to be monotone: \<open>clk i\<close> is the \<open>i\<close>-th reading an
  operation takes, \<open>None\<close> a reading that is no UTC datetime.
\<close>

type_synonym clock = "nat \<Rightarrow> instant option"

definition now_at :: "clock \<Rightarrow> nat \<Rightarrow> staging_error + instant" where
  "now_at clk i = (case clk i of None \<Rightarrow> Inl STAGING_CLOCK_INVALID | Some t \<Rightarrow> Inr t)"

definition later :: "instant \<Rightarrow> nat \<Rightarrow> staging_error + instant" where
  "later t seconds =
     (if t + int seconds * 1000000 > datetime_max then Inl STAGING_INPUT_INVALID
      else Inr (t + int seconds * 1000000))"

definition check_context :: "store_env \<Rightarrow> staging_context \<Rightarrow> staging_error + staging_context" where
  "check_context E c =
     bindE (checked_env E py_context validate_context c) (\<lambda>c'.
       if ctx_target_id c' \<noteq> e_target_id E then Inl STAGING_CONTEXT_MISMATCH else Inr c')"

definition retention_fp :: "store_env \<Rightarrow> pystr" where
  "retention_fp E = e_sha E (py_retention (e_retention E))"

definition check_state ::
  "store_env \<Rightarrow> run_state option \<Rightarrow> staging_context \<Rightarrow> staging_error + run_state" where
  "check_state E st c = (case st of
       None \<Rightarrow> Inl STAGING_RUN_NOT_FOUND
     | Some s \<Rightarrow>
         if spec_context (run_spec_of (st_run s)) \<noteq> c then Inl STAGING_CONTEXT_MISMATCH
         else if run_retention_fingerprint (st_run s) \<noteq> retention_fp E
         then Inl STAGING_RETENTION_MISMATCH
         else Inr s)"

definition check_revision :: "staging_run \<Rightarrow> int \<Rightarrow> staging_error + unit" where
  "check_revision r expected =
     (if int (run_revision r) \<noteq> expected then Inl STAGING_REVISION_CONFLICT else Inr ())"

definition to_summary :: "normalized_batch \<Rightarrow> batch_summary" where
  "to_summary b =
     \<lparr>sum_batch_index = nb_batch_index b, sum_batch_fingerprint = nb_batch_fingerprint b,
      sum_source_fingerprint = nb_source_fingerprint b,
      sum_extraction_fingerprint = nb_extraction_fingerprint b,
      sum_parse_plan_fingerprint = nb_parse_plan_fingerprint b,
      sum_record_count = length (nb_records b),
      sum_entity_count = sum_list (map nr_entity_count (nb_records b)),
      sum_value_count = sum_list (map nr_value_count (nb_records b)),
      sum_rest = nb_rest b\<rparr>"

section \<open>Lifecycle operations on one run\<close>

text \<open>Each \<open>_apply\<close> is the closure of the operation: from the stored state (if any) to the new one.\<close>

type_synonym 'a operation = "run_state option \<Rightarrow> staging_error + (run_state \<times> 'a)"

definition new_run :: "store_env \<Rightarrow> run_spec \<Rightarrow> instant \<Rightarrow> staging_run" where
  "new_run E spec now =
     \<lparr>run_spec_of = spec, run_spec_fingerprint = e_sha E (py_spec spec),
      run_retention_fingerprint = retention_fp E, run_status = OPEN, run_revision = 0,
      run_batch_count = 0, run_record_count = 0, run_created_at = now, run_updated_at = now,
      run_sealed_fingerprint = None, run_cleanup_after = None, run_purged = False\<rparr>"

definition begin_apply :: "store_env \<Rightarrow> clock \<Rightarrow> run_spec \<Rightarrow> staging_run operation" where
  "begin_apply E clk spec = (\<lambda>st.
     let context = spec_context spec; fingerprint = e_sha E (py_spec spec) in
     bindE (now_at clk 0) (\<lambda>now.
     case st of
       Some s0 \<Rightarrow>
         bindE (check_state E (Some s0) context) (\<lambda>s.
           if run_spec_fingerprint (st_run s) \<noteq> fingerprint \<or> run_purged (st_run s)
           then Inl STAGING_RUN_EXISTS
           else Inr (s, st_run s))
     | None \<Rightarrow>
         if \<not> now < ctx_expires_at context then Inl STAGING_EXPIRED
         else bindE (later now (max_run_seconds (e_retention E))) (\<lambda>last.
           if \<not> ctx_expires_at context \<le> last then Inl STAGING_EXPIRED
           else Inr (\<lparr>st_run = new_run E spec now, st_batches = [], st_records = []\<rparr>,
                     new_run E spec now))))"

definition begin_check :: "store_env \<Rightarrow> run_spec \<Rightarrow> staging_error + run_spec" where
  "begin_check E spec0 =
     bindE (checked_env E py_spec validate_spec spec0) (\<lambda>spec.
     bindE (check_context E (spec_context spec)) (\<lambda>context.
       if spec_record_count spec > max_records (e_limits E) \<or>
          spec_batch_count spec > max_batches (e_limits E)
       then Inl STAGING_LIMIT_EXCEEDED
       else if set (map ref_kind (spec_references spec)) \<noteq> set (retain_kinds (e_retention E))
       then Inl STAGING_RETENTION_MISMATCH
       else bindE (later (ctx_expires_at context)
              (max (success_seconds (e_retention E)) (failure_seconds (e_retention E)))) (\<lambda>keep.
         if list_ex (\<lambda>r. ref_retained_until r < keep) (spec_references spec)
         then Inl STAGING_REFERENCE_EXPIRES
         else Inr spec)))"

definition get_run_apply :: "store_env \<Rightarrow> staging_context \<Rightarrow> staging_run operation" where
  "get_run_apply E context = (\<lambda>st.
     bindE (check_state E st context) (\<lambda>s. Inr (s, st_run s)))"

definition staged_records ::
  "store_env \<Rightarrow> staging_run \<Rightarrow> normalized_batch \<Rightarrow> instant \<Rightarrow> staged_record list" where
  "staged_records E run batch now =
     map (\<lambda>(index, r).
        \<lparr>sr_record_id = nr_record_id r, sr_record_index = run_record_count run + index,
         sr_batch_index = nb_batch_index batch, sr_index_in_batch = index,
         sr_record_fingerprint = e_sha E (py_record r),
         sr_references = spec_references (run_spec_of run), sr_created_at = now\<rparr>)
       (enumerate 0 (nb_records batch))"

definition stage_commit ::
  "store_env \<Rightarrow> run_state \<Rightarrow> normalized_batch \<Rightarrow> instant \<Rightarrow> run_state" where
  "stage_commit E s batch now =
     (let run = st_run s; records = staged_records E run batch now in
      \<lparr>st_run = run\<lparr>run_revision := run_revision run + 1,
                     run_batch_count := run_batch_count run + 1,
                     run_record_count := run_record_count run + length records,
                     run_updated_at := now\<rparr>,
       st_batches = st_batches s @ [\<lparr>sb_summary = to_summary batch, sb_created_at = now\<rparr>],
       st_records = st_records s @ records\<rparr>)"

definition py_state :: "run_state \<Rightarrow> pytree" where
  "py_state s = PyVal (OSeq [py_run (st_run s), py_seq py_staged_batch (st_batches s),
                             py_seq py_staged_record (st_records s)])"

definition stage_apply ::
  "store_env \<Rightarrow> clock \<Rightarrow> normalized_batch \<Rightarrow> staging_context \<Rightarrow> unit operation" where
  "stage_apply E clk batch context = (\<lambda>st.
     bindE (check_state E st context) (\<lambda>s.
     let run = st_run s; spec = run_spec_of run in
     bindE (now_at clk 0) (\<lambda>now.
       if run_status run \<noteq> OPEN then Inl STAGING_STATE_INVALID
       else if now \<ge> ctx_expires_at context then Inl STAGING_EXPIRED
       else if (nb_source_fingerprint batch, nb_extraction_fingerprint batch,
                nb_parse_plan_fingerprint batch) \<noteq>
               (spec_source_fingerprint spec, spec_extraction_fingerprint spec,
                spec_parse_plan_fingerprint spec)
       then Inl STAGING_CONTEXT_MISMATCH
       else if nb_batch_index batch < length (st_batches s)
       then if sb_summary (st_batches s ! nb_batch_index batch) \<noteq> to_summary batch
            then Inl STAGING_CONTENT_MISMATCH
            else Inr (s, ())
       else if nb_batch_index batch \<noteq> length (st_batches s) \<or>
               nb_batch_index batch \<ge> spec_batch_count spec
       then Inl STAGING_BATCH_ORDER_INVALID
       else if nb_is_last batch \<noteq> (int (nb_batch_index batch) = int (spec_batch_count spec) - 1)
       then Inl STAGING_INCOMPLETE
       else if run_record_count run + length (nb_records batch) > spec_record_count spec
       then Inl STAGING_LIMIT_EXCEEDED
       else if list_ex (\<lambda>r. nr_record_id r \<in> set (map sr_record_id (st_records s))) (nb_records batch)
       then Inl STAGING_RECORD_DUPLICATE
       else if (case nb_manifest batch of None \<Rightarrow> False | Some m \<Rightarrow>
                  man_normalized_fingerprint m \<noteq> ctx_normalized_fingerprint context \<or>
                  man_batches m \<noteq> map sb_summary (st_batches s) @ [to_summary batch] \<or>
                  man_record_count m \<noteq> spec_record_count spec)
       then Inl STAGING_CONTEXT_MISMATCH
       else
         let result = stage_commit E s batch now in
         bindE (bounded py_obj (e_limits E) (py_state result)) (\<lambda>_. Inr (result, ())))))"

definition stage_check :: "store_env \<Rightarrow> normalized_batch \<Rightarrow> staging_error + normalized_batch" where
  "stage_check E batch0 =
     bindE (checked_env E py_batch validate_batch batch0) (\<lambda>batch.
       if nb_schema_version batch = ''1.0.0'' then Inl STAGING_INPUT_INVALID
       else if length (nb_records batch) > max_batch_records (e_limits E)
       then Inl STAGING_LIMIT_EXCEEDED
       else Inr batch)"

definition seal_apply ::
  "store_env \<Rightarrow> clock \<Rightarrow> staging_context \<Rightarrow> int \<Rightarrow> staging_run operation" where
  "seal_apply E clk context expected = (\<lambda>st.
     bindE (check_state E st context) (\<lambda>s.
     let run = st_run s in
     bindE (check_revision run expected) (\<lambda>_.
       if run_status run \<noteq> OPEN then Inl STAGING_STATE_INVALID
       else bindE (now_at clk 0) (\<lambda>now.
         if now \<ge> ctx_expires_at context then Inl STAGING_EXPIRED
         else if (run_batch_count run, run_record_count run) \<noteq>
                 (spec_batch_count (run_spec_of run), spec_record_count (run_spec_of run))
         then Inl STAGING_INCOMPLETE
         else
           let fingerprint = e_sha E (PyVal (OSeq
                 [py_str (run_spec_fingerprint run),
                  py_seq (py_str \<circ> e_json E \<circ> py_summary \<circ> sb_summary) (st_batches s),
                  py_seq (py_str \<circ> sr_record_fingerprint) (st_records s)]))
           in bindE (now_at clk 1) (\<lambda>updated_at.
             let updated = run\<lparr>run_status := SEALED, run_revision := run_revision run + 1,
                   run_updated_at := updated_at, run_sealed_fingerprint := Some fingerprint\<rparr>
             in Inr (s\<lparr>st_run := updated\<rparr>, updated))))))"

definition check_page :: "store_env \<Rightarrow> int \<Rightarrow> int \<Rightarrow> staging_error + unit" where
  "check_page E offset limit =
     (if offset < 0 \<or> \<not> (1 \<le> limit \<and> limit \<le> int (max_page_records (e_limits E)))
      then Inl STAGING_LIMIT_EXCEEDED else Inr ())"

definition page :: "int \<Rightarrow> int \<Rightarrow> 'a list \<Rightarrow> 'a list" where
  "page offset limit xs = take (nat limit) (drop (nat offset) xs)"

text \<open>\<open>any(r.retained_until <= self._now() for r in refs)\<close>: one clock reading per reference.\<close>

fun any_ref_expired :: "clock \<Rightarrow> nat \<Rightarrow> artifact_ref list \<Rightarrow> staging_error + bool" where
  "any_ref_expired clk i [] = Inr False"
| "any_ref_expired clk i (r # rs) =
     bindE (now_at clk i) (\<lambda>now.
       if ref_retained_until r \<le> now then Inr True else any_ref_expired clk (Suc i) rs)"

text \<open>
  \<open>run.cleanup_after is not None and self._now() >= run.cleanup_after\<close>, with the number of clock
  readings taken.
\<close>

definition retention_over :: "clock \<Rightarrow> staging_run \<Rightarrow> staging_error + (bool \<times> nat)" where
  "retention_over clk run = (case run_cleanup_after run of
       None \<Rightarrow> Inr (False, 0)
     | Some t \<Rightarrow> bindE (now_at clk 0) (\<lambda>now. Inr (now \<ge> t, 1)))"

definition read_records_apply ::
  "store_env \<Rightarrow> clock \<Rightarrow> staging_context \<Rightarrow> int \<Rightarrow> int \<Rightarrow> staged_record list operation" where
  "read_records_apply E clk context offset limit = (\<lambda>st.
     bindE (check_state E st context) (\<lambda>s.
       if run_purged (st_run s) then Inl STAGING_PURGED
       else if run_status (st_run s) = OPEN then Inl STAGING_STATE_INVALID
       else bindE (retention_over clk (st_run s)) (\<lambda>(over, i).
         if over then Inl STAGING_EXPIRED
         else bindE (any_ref_expired clk i (spec_references (run_spec_of (st_run s)))) (\<lambda>expired.
           if expired then Inl STAGING_REFERENCE_EXPIRES
           else Inr (s, page offset limit (st_records s))))))"

definition read_batches_apply ::
  "store_env \<Rightarrow> clock \<Rightarrow> staging_context \<Rightarrow> int \<Rightarrow> int \<Rightarrow> staged_batch list operation" where
  "read_batches_apply E clk context offset limit = (\<lambda>st.
     bindE (check_state E st context) (\<lambda>s.
       if run_purged (st_run s) then Inl STAGING_PURGED
       else bindE (retention_over clk (st_run s)) (\<lambda>(over, _).
         if over then Inl STAGING_EXPIRED
         else Inr (s, page offset limit (st_batches s)))))"

fun allowed_next :: "run_status \<Rightarrow> run_status list" where
  "allowed_next OPEN = [FAILED, CANCELLED]"
| "allowed_next SEALED = [EXECUTING, FAILED, CANCELLED]"
| "allowed_next EXECUTING = [COMMITTED, QUARANTINED, ROLLED_BACK, FAILED, CANCELLED, UNKNOWN]"
| "allowed_next UNKNOWN = [COMMITTED, QUARANTINED, ROLLED_BACK]"
| "allowed_next _ = []"

definition transition_apply ::
  "store_env \<Rightarrow> clock \<Rightarrow> staging_context \<Rightarrow> int \<Rightarrow> run_status \<Rightarrow> staging_run operation" where
  "transition_apply E clk context expected status = (\<lambda>st.
     bindE (check_state E st context) (\<lambda>s.
     let run = st_run s in
     bindE (check_revision run expected) (\<lambda>_.
       if status \<notin> set (allowed_next (run_status run)) \<or> run_purged run
       then Inl STAGING_STATE_INVALID
       else bindE (now_at clk 0) (\<lambda>now.
         if status = EXECUTING \<and> now \<ge> ctx_expires_at context then Inl STAGING_EXPIRED
         else bindE (if status \<notin> set [EXECUTING, UNKNOWN]
                     then bindE (later now (if status = COMMITTED
                            then success_seconds (e_retention E)
                            else failure_seconds (e_retention E))) (\<lambda>t. Inr (Some t))
                     else Inr None) (\<lambda>cleanup_after.
           let updated = run\<lparr>run_status := status, run_revision := run_revision run + 1,
                 run_updated_at := now, run_cleanup_after := cleanup_after\<rparr>
           in Inr (s\<lparr>st_run := updated\<rparr>, updated))))))"

text \<open>First half of \<open>cleanup\<close>: an expired \<open>OPEN\<close> or \<open>SEALED\<close> run becomes \<open>EXPIRED\<close>.\<close>

definition expire ::
  "store_env \<Rightarrow> clock \<Rightarrow> staging_context \<Rightarrow> run_state \<Rightarrow> staging_error + (run_state \<times> nat)" where
  "expire E clk context s =
     (let run = st_run s in
      if run_status run \<in> set [OPEN, SEALED]
      then bindE (now_at clk 0) (\<lambda>now.
        if now \<ge> ctx_expires_at context
        then bindE (now_at clk 1) (\<lambda>updated_at.
             bindE (later (ctx_expires_at context) (failure_seconds (e_retention E))) (\<lambda>t.
               Inr (s\<lparr>st_run := run\<lparr>run_status := EXPIRED, run_revision := run_revision run + 1,
                      run_updated_at := updated_at, run_cleanup_after := Some t\<rparr>\<rparr>, 2)))
        else Inr (s, 1))
      else Inr (s, 0))"

definition purge :: "run_state \<Rightarrow> instant \<Rightarrow> run_state" where
  "purge s updated_at =
     (let run = st_run s in
      \<lparr>st_run = run\<lparr>run_spec_of := (run_spec_of run)\<lparr>spec_references := []\<rparr>, run_purged := True,
                     run_revision := run_revision run + 1, run_updated_at := updated_at\<rparr>,
       st_batches = [], st_records = []\<rparr>)"

definition cleanup_apply ::
  "store_env \<Rightarrow> clock \<Rightarrow> staging_context \<Rightarrow> staging_run operation" where
  "cleanup_apply E clk context = (\<lambda>st.
     bindE (check_state E st context) (\<lambda>s0.
     bindE (expire E clk context s0) (\<lambda>(s, i).
     let run = st_run s in
       if run_purged run then Inr (s, run)
       else case run_cleanup_after run of
         None \<Rightarrow> Inr (s, run)
       | Some t \<Rightarrow> bindE (now_at clk i) (\<lambda>now.
           if now < t then Inr (s, run)
           else bindE (now_at clk (Suc i)) (\<lambda>updated_at.
             let s' = purge s updated_at in Inr (s', st_run s'))))))"

section \<open>Requests and the backend\<close>

datatype request =
    Begin run_spec
  | Get_Run staging_context
  | Stage normalized_batch staging_context
  | Seal staging_context int
  | Read_Records staging_context int int
  | Read_Batches staging_context int int
  | Transition staging_context int run_status
  | Cleanup staging_context

datatype reply =
    Run_Reply staging_run
  | Unit_Reply
  | Records_Reply "staged_record list"
  | Batches_Reply "staged_batch list"

definition as_reply :: "('a \<Rightarrow> reply) \<Rightarrow> 'a operation \<Rightarrow> reply operation" where
  "as_reply f operation = (\<lambda>st. bindE (operation st) (\<lambda>(s, r). Inr (s, f r)))"

text \<open>The checks of a request before \<open>_access\<close>: the context it runs in and its closure.\<close>

fun prepare ::
  "store_env \<Rightarrow> clock \<Rightarrow> request \<Rightarrow> staging_error + (staging_context \<times> reply operation)" where
  "prepare E clk (Begin spec0) =
     bindE (begin_check E spec0) (\<lambda>spec.
       Inr (spec_context spec, as_reply Run_Reply (begin_apply E clk spec)))"
| "prepare E clk (Get_Run c0) =
     bindE (check_context E c0) (\<lambda>c. Inr (c, as_reply Run_Reply (get_run_apply E c)))"
| "prepare E clk (Stage batch0 c0) =
     bindE (check_context E c0) (\<lambda>c. bindE (stage_check E batch0) (\<lambda>batch.
       Inr (c, as_reply (\<lambda>_. Unit_Reply) (stage_apply E clk batch c))))"
| "prepare E clk (Seal c0 expected) =
     bindE (check_context E c0) (\<lambda>c. Inr (c, as_reply Run_Reply (seal_apply E clk c expected)))"
| "prepare E clk (Read_Records c0 offset limit) =
     bindE (check_context E c0) (\<lambda>c. bindE (check_page E offset limit) (\<lambda>_.
       Inr (c, as_reply Records_Reply (read_records_apply E clk c offset limit))))"
| "prepare E clk (Read_Batches c0 offset limit) =
     bindE (check_context E c0) (\<lambda>c. bindE (check_page E offset limit) (\<lambda>_.
       Inr (c, as_reply Batches_Reply (read_batches_apply E clk c offset limit))))"
| "prepare E clk (Transition c0 expected status) =
     bindE (check_context E c0) (\<lambda>c.
       Inr (c, as_reply Run_Reply (transition_apply E clk c expected status)))"
| "prepare E clk (Cleanup c0) =
     bindE (check_context E c0) (\<lambda>c. Inr (c, as_reply Run_Reply (cleanup_apply E clk c)))"

text \<open>\<open>MemoryStagingStore\<close>: one dictionary from run id to state, at most 100 runs.\<close>

type_synonym memory_store = "(pystr \<times> run_state) list"

definition memory_access ::
  "memory_store \<Rightarrow> pystr \<Rightarrow> 'a operation \<Rightarrow> staging_error + (memory_store \<times> 'a)" where
  "memory_access runs run_id operation =
     (let prior = map_of runs run_id in
      if prior = None \<and> length runs \<ge> 100 then Inl STAGING_LIMIT_EXCEEDED
      else bindE (operation prior) (\<lambda>(state, result).
        Inr (AList.update run_id state runs, result)))"

text \<open>A request against any backend: the checks, then \<open>_access\<close>.\<close>

definition run_request ::
  "('b \<Rightarrow> pystr \<Rightarrow> reply operation \<Rightarrow> staging_error + ('b \<times> reply)) \<Rightarrow> store_env \<Rightarrow> clock \<Rightarrow> 'b \<Rightarrow>
     request \<Rightarrow> staging_error + ('b \<times> reply)" where
  "run_request access E clk b req =
     bindE (prepare E clk req) (\<lambda>(c, operation). access b (ctx_run_id c) operation)"

definition memory_exec ::
  "store_env \<Rightarrow> clock \<Rightarrow> memory_store \<Rightarrow> request \<Rightarrow> staging_error + (memory_store \<times> reply)" where
  "memory_exec = run_request memory_access"

end
