(* ===== verification/Staging_Lifecycle.thy ===== *)
theory Staging_Lifecycle
  imports Staging_Store "HOL-Library.Transitive_Closure_Table"
begin

text \<open>
  What the staging store promises. An abstract lifecycle (status, revision, number of staged
  batches, purged flag) with one rule per kind of change; the invariant of one run's state; the
  lemmas that every closure of the store keeps the invariant and moves the abstract lifecycle by
  its rules; and the interface of a backend, as a locale, through which these facts are lifted to
  whole stores and histories of requests, interpreted on the in-memory backend.
\<close>

section \<open>The abstract lifecycle\<close>

record life =
  life_status :: run_status
  life_revision :: nat
  life_batches :: nat
  life_purged :: bool

definition settled :: "run_status \<Rightarrow> bool" where
  "settled st \<longleftrightarrow> st \<in> set [COMMITTED, QUARANTINED, ROLLED_BACK, FAILED, CANCELLED, EXPIRED]"

inductive life_step :: "nat \<Rightarrow> life \<Rightarrow> life \<Rightarrow> bool" for expected :: nat where
  stage: "life_status a = OPEN \<Longrightarrow> life_batches a < expected \<Longrightarrow> \<not> life_purged a \<Longrightarrow>
    life_step expected a (a\<lparr>life_revision := Suc (life_revision a),
                            life_batches := Suc (life_batches a)\<rparr>)"
| seal: "life_status a = OPEN \<Longrightarrow> life_batches a = expected \<Longrightarrow> \<not> life_purged a \<Longrightarrow>
    life_step expected a (a\<lparr>life_status := SEALED, life_revision := Suc (life_revision a)\<rparr>)"
| move: "st \<in> set (allowed_next (life_status a)) \<Longrightarrow> \<not> life_purged a \<Longrightarrow>
    life_step expected a (a\<lparr>life_status := st, life_revision := Suc (life_revision a)\<rparr>)"
| expire: "life_status a = OPEN \<or> life_status a = SEALED \<Longrightarrow> \<not> life_purged a \<Longrightarrow>
    life_step expected a (a\<lparr>life_status := EXPIRED, life_revision := Suc (life_revision a)\<rparr>)"
| purge: "settled (life_status a) \<Longrightarrow> \<not> life_purged a \<Longrightarrow>
    life_step expected a (a\<lparr>life_purged := True, life_revision := Suc (life_revision a)\<rparr>)"

inductive_cases life_step_elim: "life_step n a b"

abbreviation life_steps :: "nat \<Rightarrow> life \<Rightarrow> life \<Rightarrow> bool" where
  "life_steps n \<equiv> (life_step n)\<^sup>*\<^sup>*"

definition life_of :: "run_state \<Rightarrow> life" where
  "life_of s = \<lparr>life_status = run_status (st_run s), life_revision = run_revision (st_run s),
     life_batches = run_batch_count (st_run s), life_purged = run_purged (st_run s)\<rparr>"

lemma allowed_next_settled: "settled st \<Longrightarrow> allowed_next st = []"
  by (auto simp: settled_def)

lemma allowed_next_cases:
  "st' \<in> set (allowed_next st) \<Longrightarrow> settled st' \<or> st' = UNKNOWN \<or> (st = SEALED \<and> st' = EXECUTING)"
  by (cases st) (auto simp: settled_def)

lemma life_step_revision: "life_step n a b \<Longrightarrow> life_revision b = Suc (life_revision a)"
  by (erule life_step_elim) auto

lemma life_steps_revision: "life_steps n a b \<Longrightarrow> a = b \<or> life_revision a < life_revision b"
  by (induction rule: rtranclp_induct) (auto dest: life_step_revision)

lemma life_step_settled:
  "life_step n a b \<Longrightarrow> settled (life_status a) \<Longrightarrow> life_status b = life_status a \<and> life_batches b = life_batches a"
  by (erule life_step_elim) (auto simp: settled_def)

lemma life_steps_settled:
  "life_steps n a b \<Longrightarrow> settled (life_status a) \<Longrightarrow> life_status b = life_status a \<and> life_batches b = life_batches a"
  by (induction rule: rtranclp_induct) (auto dest: life_step_settled)

section \<open>The invariant of one run\<close>

text \<open>Statuses only reachable through a seal, which checked that the run is complete.\<close>

definition past_seal :: "run_status \<Rightarrow> bool" where
  "past_seal st \<longleftrightarrow> st \<in> set [SEALED, EXECUTING, COMMITTED, QUARANTINED, ROLLED_BACK, UNKNOWN]"

definition index_inv :: "run_state \<Rightarrow> bool" where
  "index_inv s \<longleftrightarrow>
     run_batch_count (st_run s) = length (st_batches s) \<and>
     run_record_count (st_run s) = length (st_records s) \<and>
     distinct (map sr_record_id (st_records s)) \<and>
     map sr_record_index (st_records s) = [0..<length (st_records s)] \<and>
     map (sum_batch_index \<circ> sb_summary) (st_batches s) = [0..<length (st_batches s)] \<and>
     sum_list (map (sum_record_count \<circ> sb_summary) (st_batches s)) = length (st_records s)"

definition purged_inv :: "run_state \<Rightarrow> bool" where
  "purged_inv s \<longleftrightarrow> st_batches s = [] \<and> st_records s = [] \<and>
     spec_references (run_spec_of (st_run s)) = [] \<and> settled (run_status (st_run s))"

definition run_inv :: "run_state \<Rightarrow> bool" where
  "run_inv s \<longleftrightarrow>
     (let run = st_run s; spec = run_spec_of run in
       (if run_purged run then purged_inv s else index_inv s) \<and>
       run_batch_count run \<le> spec_batch_count spec \<and>
       run_record_count run \<le> spec_record_count spec \<and>
       (past_seal (run_status run) \<longrightarrow>
          run_batch_count run = spec_batch_count spec \<and>
          run_record_count run = spec_record_count spec \<and> run_sealed_fingerprint run \<noteq> None) \<and>
       (run_status run = OPEN \<longrightarrow>
          run_sealed_fingerprint run = None \<and> run_revision run = run_batch_count run) \<and>
       (run_cleanup_after run \<noteq> None \<longleftrightarrow> settled (run_status run)))"

lemmas run_inv_defs = run_inv_def index_inv_def purged_inv_def Let_def

text \<open>
  What a closure guarantees: the new state is filed under the context's run id, keeps the
  specification it was opened with (up to the purge of its references), keeps the invariant, and a
  stored run moves by lifecycle steps only.
\<close>

definition run_of_context :: "staging_context \<Rightarrow> run_state \<Rightarrow> bool" where
  "run_of_context c s \<longleftrightarrow> spec_context (run_spec_of (st_run s)) = c"

definition good_closure :: "staging_context \<Rightarrow> 'a operation \<Rightarrow> bool" where
  "good_closure c f \<longleftrightarrow> (\<forall>st s r. f st = Inr (s, r) \<longrightarrow>
     run_of_context c s \<and> (\<forall>s0. st = Some s0 \<longrightarrow> run_of_context c s0) \<and>
     ((\<forall>s0. st = Some s0 \<longrightarrow> run_inv s0) \<longrightarrow> run_inv s) \<and>
     (\<forall>s0. st = Some s0 \<longrightarrow> run_inv s0 \<longrightarrow>
        spec_batch_count (run_spec_of (st_run s)) = spec_batch_count (run_spec_of (st_run s0)) \<and>
        life_steps (spec_batch_count (run_spec_of (st_run s0))) (life_of s0) (life_of s)))"

lemma good_closureI:
  assumes "\<And>st s r. f st = Inr (s, r) \<Longrightarrow>
        run_of_context c s \<and> (\<forall>s0. st = Some s0 \<longrightarrow> run_of_context c s0)"
    and "\<And>st s r. f st = Inr (s, r) \<Longrightarrow> (\<And>s0. st = Some s0 \<Longrightarrow> run_inv s0) \<Longrightarrow> run_inv s"
    and "\<And>s0 s r. f (Some s0) = Inr (s, r) \<Longrightarrow> run_inv s0 \<Longrightarrow>
        spec_batch_count (run_spec_of (st_run s)) = spec_batch_count (run_spec_of (st_run s0)) \<and>
        life_steps (spec_batch_count (run_spec_of (st_run s0))) (life_of s0) (life_of s)"
  shows "good_closure c f"
  unfolding good_closure_def
proof (intro allI impI)
  fix st s r assume f: "f st = Inr (s, r)"
  have "life_steps (spec_batch_count (run_spec_of (st_run s0))) (life_of s0) (life_of s)"
    "spec_batch_count (run_spec_of (st_run s)) = spec_batch_count (run_spec_of (st_run s0))"
    if "st = Some s0" "run_inv s0" for s0
    using assms(3) [of s0 s r] f that by simp_all
  then show "run_of_context c s \<and> (\<forall>s0. st = Some s0 \<longrightarrow> run_of_context c s0) \<and>
     ((\<forall>s0. st = Some s0 \<longrightarrow> run_inv s0) \<longrightarrow> run_inv s) \<and>
     (\<forall>s0. st = Some s0 \<longrightarrow> run_inv s0 \<longrightarrow>
        spec_batch_count (run_spec_of (st_run s)) = spec_batch_count (run_spec_of (st_run s0)) \<and>
        life_steps (spec_batch_count (run_spec_of (st_run s0))) (life_of s0) (life_of s))"
    using assms(1) [OF f] assms(2) [OF f] by simp
qed

lemma good_closure_as_reply: "good_closure c f \<Longrightarrow> good_closure c (as_reply g f)"
  unfolding good_closure_def as_reply_def by (auto simp: result_simps)

lemma check_state_Inr [result_simps]:
  "check_state E st c = Inr s \<longleftrightarrow>
     st = Some s \<and> run_of_context c s \<and> run_retention_fingerprint (st_run s) = retention_fp E"
  by (auto simp: check_state_def run_of_context_def split: option.splits if_splits)

lemma check_revision_Inr [result_simps]:
  "check_revision r e = Inr u \<longleftrightarrow> e = int (run_revision r)"
  by (auto simp: check_revision_def)

text \<open>A closure that returns the stored state unchanged is good.\<close>

lemma good_closure_readonly:
  assumes "\<And>st s r. f st = Inr (s, r) \<Longrightarrow> st = Some s \<and> run_of_context c s"
  shows "good_closure c f"
  unfolding good_closure_def using assms by fastforce

section \<open>Every operation of the store is good\<close>

lemma begin_apply_cases:
  assumes "begin_apply E clk spec st = Inr (s, r)"
  obtains (same) "st = Some s" "run_of_context (spec_context spec) s" "r = st_run s"
  | (new) now where "st = None" "r = new_run E spec now"
      "s = \<lparr>st_run = new_run E spec now, st_batches = [], st_records = []\<rparr>"
  using assms
  by (cases st) (auto simp: begin_apply_def Let_def result_simps)

lemma new_run_inv: "run_inv \<lparr>st_run = new_run E spec now, st_batches = [], st_records = []\<rparr>"
  by (simp add: run_inv_defs new_run_def past_seal_def settled_def)

lemma begin_good: "good_closure (spec_context spec) (begin_apply E clk spec)"
proof (rule good_closureI)
  fix st s r assume "begin_apply E clk spec st = Inr (s, r)"
  then show "run_of_context (spec_context spec) s \<and>
      (\<forall>s0. st = Some s0 \<longrightarrow> run_of_context (spec_context spec) s0)"
    by (cases rule: begin_apply_cases) (auto simp: new_run_def run_of_context_def)
next
  fix st s r assume "begin_apply E clk spec st = Inr (s, r)" "\<And>s0. st = Some s0 \<Longrightarrow> run_inv s0"
  then show "run_inv s"
    by (cases rule: begin_apply_cases) (auto simp: new_run_inv)
next
  fix s0 s r assume "begin_apply E clk spec (Some s0) = Inr (s, r)"
  then show "spec_batch_count (run_spec_of (st_run s)) = spec_batch_count (run_spec_of (st_run s0)) \<and>
      life_steps (spec_batch_count (run_spec_of (st_run s0))) (life_of s0) (life_of s)"
    by (cases rule: begin_apply_cases) auto
qed

lemma get_run_good: "good_closure c (get_run_apply E c)"
  by (rule good_closure_readonly) (auto simp: get_run_apply_def result_simps)

lemma read_records_good: "good_closure c (read_records_apply E clk c offset limit)"
  by (rule good_closure_readonly) (auto simp: read_records_apply_def result_simps split: prod.splits)

lemma read_batches_good: "good_closure c (read_batches_apply E clk c offset limit)"
  by (rule good_closure_readonly) (auto simp: read_batches_apply_def result_simps split: prod.splits)

text \<open>Staging: either the batch was already there, or it is committed after all checks.\<close>

lemma stage_apply_cases:
  assumes "stage_apply E clk batch c st = Inr (s, u)"
  obtains (same) "st = Some s" "run_of_context c s"
  | (new) s0 now where "st = Some s0" "run_of_context c s0" "s = stage_commit E s0 batch now"
      "run_status (st_run s0) = OPEN" "nb_batch_index batch = length (st_batches s0)"
      "nb_batch_index batch < spec_batch_count (run_spec_of (st_run s0))"
      "run_record_count (st_run s0) + length (nb_records batch)
         \<le> spec_record_count (run_spec_of (st_run s0))"
      "\<forall>r \<in> set (nb_records batch). nr_record_id r \<notin> sr_record_id ` set (st_records s0)"
  using assms
  by (auto simp: stage_apply_def Let_def result_simps not_le not_less list_ex_iff split: if_splits)

lemma staged_records_ids: "map sr_record_id (staged_records E run b now) = map nr_record_id (nb_records b)"
  by (rule nth_equalityI) (auto simp: staged_records_def nth_enumerate_eq)

lemma staged_records_length [simp]: "length (staged_records E run b now) = length (nb_records b)"
  by (simp add: staged_records_def)

lemma staged_records_index:
  "map sr_record_index (staged_records E run b now) =
     [run_record_count run ..< run_record_count run + length (nb_records b)]"
  by (rule nth_equalityI) (auto simp: staged_records_def nth_enumerate_eq)

lemma to_summary_simps [simp]:
  "sum_batch_index (to_summary b) = nb_batch_index b"
  "sum_record_count (to_summary b) = length (nb_records b)"
  by (simp_all add: to_summary_def)

lemma stage_commit_simps [simp]:
  "run_spec_of (st_run (stage_commit E s b now)) = run_spec_of (st_run s)"
  "run_status (st_run (stage_commit E s b now)) = run_status (st_run s)"
  "run_purged (st_run (stage_commit E s b now)) = run_purged (st_run s)"
  "run_revision (st_run (stage_commit E s b now)) = Suc (run_revision (st_run s))"
  "run_batch_count (st_run (stage_commit E s b now)) = Suc (run_batch_count (st_run s))"
  "run_record_count (st_run (stage_commit E s b now)) =
     run_record_count (st_run s) + length (nb_records b)"
  "run_sealed_fingerprint (st_run (stage_commit E s b now)) = run_sealed_fingerprint (st_run s)"
  "run_cleanup_after (st_run (stage_commit E s b now)) = run_cleanup_after (st_run s)"
  "st_batches (stage_commit E s b now) =
     st_batches s @ [\<lparr>sb_summary = to_summary b, sb_created_at = now\<rparr>]"
  "st_records (stage_commit E s b now) = st_records s @ staged_records E (st_run s) b now"
  by (simp_all add: stage_commit_def Let_def)

lemma open_not_purged: "run_inv s \<Longrightarrow> run_status (st_run s) = OPEN \<Longrightarrow> \<not> run_purged (st_run s)"
  by (auto simp: run_inv_defs settled_def split: if_splits)

lemma run_inv_index: "run_inv s \<Longrightarrow> \<not> run_purged (st_run s) \<Longrightarrow> index_inv s"
  unfolding run_inv_def Let_def by (metis (full_types))

lemma run_inv_bounds:
  "run_inv s \<Longrightarrow> run_batch_count (st_run s) \<le> spec_batch_count (run_spec_of (st_run s)) \<and>
     run_record_count (st_run s) \<le> spec_record_count (run_spec_of (st_run s))"
  unfolding run_inv_def Let_def by blast

lemma run_inv_complete:
  "run_inv s \<Longrightarrow> past_seal (run_status (st_run s)) \<Longrightarrow>
     run_batch_count (st_run s) = spec_batch_count (run_spec_of (st_run s)) \<and>
     run_record_count (st_run s) = spec_record_count (run_spec_of (st_run s)) \<and>
     run_sealed_fingerprint (st_run s) \<noteq> None"
  unfolding run_inv_def Let_def by blast

lemma run_inv_cleanup:
  "run_inv s \<Longrightarrow> run_cleanup_after (st_run s) \<noteq> None \<longleftrightarrow> settled (run_status (st_run s))"
  unfolding run_inv_def Let_def by blast

lemma stage_commit_index:
  assumes "index_inv s" and "distinct (map nr_record_id (nb_records b))"
    and "nb_batch_index b = length (st_batches s)"
    and "\<forall>r \<in> set (nb_records b). nr_record_id r \<notin> sr_record_id ` set (st_records s)"
  shows "index_inv (stage_commit E s b now)"
proof -
  have "distinct (map sr_record_id (st_records s @ staged_records E (st_run s) b now))"
    unfolding map_append staged_records_ids using assms
    by (simp add: index_inv_def disjoint_iff) blast
  moreover have "map sr_record_index (st_records s @ staged_records E (st_run s) b now) =
      [0..<length (st_records s) + length (nb_records b)]"
    using assms(1) upt_add_eq_append [of 0 "length (st_records s)" "length (nb_records b)"]
    by (simp add: index_inv_def staged_records_index)
  ultimately show ?thesis using assms(1,3) by (simp add: index_inv_def)
qed

lemma stage_good:
  assumes batch: "distinct (map nr_record_id (nb_records batch))"
  shows "good_closure c (stage_apply E clk batch c)"
proof (rule good_closureI)
  fix st s r assume "stage_apply E clk batch c st = Inr (s, r)"
  then show "run_of_context c s \<and> (\<forall>s0. st = Some s0 \<longrightarrow> run_of_context c s0)"
    by (cases rule: stage_apply_cases) (auto simp: run_of_context_def)
next
  fix st s r
  assume "stage_apply E clk batch c st = Inr (s, r)" and inv: "\<And>s0. st = Some s0 \<Longrightarrow> run_inv s0"
  then show "run_inv s"
  proof (cases rule: stage_apply_cases)
    case (new s0 now)
    have "run_inv s0" using inv new(1) .
    then have "index_inv s0" using open_not_purged new(4) run_inv_index by blast
    then have "index_inv s" unfolding new(3) using batch new(5,8) by (rule stage_commit_index)
    moreover have "\<not> run_purged (st_run s0)" "\<not> past_seal OPEN" "\<not> settled OPEN"
      using open_not_purged [OF \<open>run_inv s0\<close> new(4)] by (simp_all add: past_seal_def settled_def)
    moreover have "run_batch_count (st_run s0) = length (st_batches s0)"
      using \<open>index_inv s0\<close> by (simp add: index_inv_def)
    ultimately show ?thesis using \<open>run_inv s0\<close> new(3-7) by (simp add: run_inv_def Let_def)
  qed (use inv in auto)
next
  fix s0 s r
  assume "stage_apply E clk batch c (Some s0) = Inr (s, r)" and inv: "run_inv s0"
  then show "spec_batch_count (run_spec_of (st_run s)) = spec_batch_count (run_spec_of (st_run s0)) \<and>
      life_steps (spec_batch_count (run_spec_of (st_run s0))) (life_of s0) (life_of s)"
  proof (cases rule: stage_apply_cases)
    case (new s1 now)
    have "life_of s = (life_of s1)\<lparr>life_revision := Suc (life_revision (life_of s1)),
        life_batches := Suc (life_batches (life_of s1))\<rparr>"
      using new by (simp add: life_of_def)
    moreover have "life_step (spec_batch_count (run_spec_of (st_run s1))) (life_of s1) \<dots>"
    proof (rule life_step.stage)
      have "run_inv s1" using inv new(1) by simp
      then have "\<not> run_purged (st_run s1)" "run_batch_count (st_run s1) = length (st_batches s1)"
        using open_not_purged new(4) run_inv_index by (blast, simp add: index_inv_def)
      then show "life_status (life_of s1) = OPEN" "\<not> life_purged (life_of s1)"
        "life_batches (life_of s1) < spec_batch_count (run_spec_of (st_run s1))"
        using new(4-6) by (simp_all add: life_of_def)
    qed
    ultimately show ?thesis using new by auto
  qed simp
qed

lemma seal_apply_cases:
  assumes "seal_apply E clk c expected st = Inr (s, r)"
  obtains s0 fp t where "st = Some s0" "run_of_context c s0" "expected = int (run_revision (st_run s0))"
    "run_status (st_run s0) = OPEN"
    "run_batch_count (st_run s0) = spec_batch_count (run_spec_of (st_run s0))"
    "run_record_count (st_run s0) = spec_record_count (run_spec_of (st_run s0))"
    "s = s0\<lparr>st_run := (st_run s0)\<lparr>run_status := SEALED, run_revision := run_revision (st_run s0) + 1,
            run_updated_at := t, run_sealed_fingerprint := Some fp\<rparr>\<rparr>" "r = st_run s"
  using assms by (auto simp: seal_apply_def Let_def result_simps)

lemma seal_good: "good_closure c (seal_apply E clk c expected)"
proof (rule good_closureI)
  fix st s r assume "seal_apply E clk c expected st = Inr (s, r)"
  then show "run_of_context c s \<and> (\<forall>s0. st = Some s0 \<longrightarrow> run_of_context c s0)"
    by (cases rule: seal_apply_cases) (simp add: run_of_context_def)
next
  fix st s r
  assume "seal_apply E clk c expected st = Inr (s, r)" and inv: "\<And>s0. st = Some s0 \<Longrightarrow> run_inv s0"
  then show "run_inv s"
  proof (cases rule: seal_apply_cases)
    case (1 s0 fp t)
    have s0: "run_inv s0" using inv 1(1) .
    then have open0: "\<not> run_purged (st_run s0)" "index_inv s0" "run_cleanup_after (st_run s0) = None"
      using 1(4) open_not_purged [OF s0] run_inv_index [OF s0] run_inv_cleanup [OF s0]
      by (simp_all add: settled_def)
    then have "index_inv s" unfolding 1(7) by (simp add: index_inv_def)
    then show ?thesis using open0 1(5-7) by (simp add: run_inv_def settled_def)
  qed
next
  fix s0 s r assume "seal_apply E clk c expected (Some s0) = Inr (s, r)" and inv: "run_inv s0"
  then show "spec_batch_count (run_spec_of (st_run s)) = spec_batch_count (run_spec_of (st_run s0)) \<and>
      life_steps (spec_batch_count (run_spec_of (st_run s0))) (life_of s0) (life_of s)"
  proof (cases rule: seal_apply_cases)
    case (1 s1 fp t)
    have "life_of s = (life_of s1)\<lparr>life_status := SEALED, life_revision := Suc (life_revision (life_of s1))\<rparr>"
      using 1(7) by (simp add: life_of_def)
    moreover have "life_step (spec_batch_count (run_spec_of (st_run s1))) (life_of s1) \<dots>"
      using 1(1,4,5) open_not_purged [OF inv] by (intro life_step.seal) (simp_all add: life_of_def)
    ultimately show ?thesis using 1(1,7) by auto
  qed
qed

lemma transition_apply_cases:
  assumes "transition_apply E clk c expected status st = Inr (s, r)"
  obtains s0 now cleanup where "st = Some s0" "run_of_context c s0"
    "expected = int (run_revision (st_run s0))"
    "status \<in> set (allowed_next (run_status (st_run s0)))" "\<not> run_purged (st_run s0)"
    "cleanup \<noteq> None \<longleftrightarrow> status \<noteq> EXECUTING \<and> status \<noteq> UNKNOWN"
    "s = s0\<lparr>st_run := (st_run s0)\<lparr>run_status := status, run_revision := run_revision (st_run s0) + 1,
            run_updated_at := now, run_cleanup_after := cleanup\<rparr>\<rparr>" "r = st_run s"
proof -
  have keep: "cleanup \<noteq> None \<longleftrightarrow> status \<noteq> EXECUTING \<and> status \<noteq> UNKNOWN"
    if "(if status \<notin> set [EXECUTING, UNKNOWN] then bindE (later now k) (\<lambda>t. Inr (Some t))
         else Inr None) = Inr cleanup" for now k cleanup
    using that by (auto simp: result_simps split: if_splits)
  show thesis using assms
    by (clarsimp simp: transition_apply_def Let_def result_simps simp del: set_simps)
      (rule that, assumption, assumption, simp, assumption, assumption, erule keep, auto)
qed

lemma allowed_next_facts:
  assumes "st' \<in> set (allowed_next st)"
  shows "settled st' \<longleftrightarrow> st' \<noteq> EXECUTING \<and> st' \<noteq> UNKNOWN" "past_seal st' \<Longrightarrow> past_seal st" "st' \<noteq> OPEN"
  using assms by (cases st; auto simp: settled_def past_seal_def)+

lemma transition_good: "good_closure c (transition_apply E clk c expected status)"
proof (rule good_closureI)
  fix st s r assume "transition_apply E clk c expected status st = Inr (s, r)"
  then show "run_of_context c s \<and> (\<forall>s0. st = Some s0 \<longrightarrow> run_of_context c s0)"
    by (cases rule: transition_apply_cases) (simp add: run_of_context_def)
next
  fix st s r
  assume "transition_apply E clk c expected status st = Inr (s, r)"
    and inv: "\<And>s0. st = Some s0 \<Longrightarrow> run_inv s0"
  then show "run_inv s"
  proof (cases rule: transition_apply_cases)
    case (1 s0 now cleanup)
    have s0: "run_inv s0" using inv 1(1) .
    have "index_inv s" using run_inv_index [OF s0 1(5)] unfolding 1(7) by (simp add: index_inv_def)
    moreover note run_inv_complete [OF s0] run_inv_bounds [OF s0] allowed_next_facts [OF 1(4)]
    ultimately show ?thesis using 1(5-7) by (auto simp: run_inv_def Let_def)
  qed
next
  fix s0 s r
  assume "transition_apply E clk c expected status (Some s0) = Inr (s, r)"
  then show "spec_batch_count (run_spec_of (st_run s)) = spec_batch_count (run_spec_of (st_run s0)) \<and>
      life_steps (spec_batch_count (run_spec_of (st_run s0))) (life_of s0) (life_of s)"
  proof (cases rule: transition_apply_cases)
    case (1 s1 now cleanup)
    have "life_of s = (life_of s1)\<lparr>life_status := status, life_revision := Suc (life_revision (life_of s1))\<rparr>"
      using 1(7) by (simp add: life_of_def)
    moreover have "life_step (spec_batch_count (run_spec_of (st_run s1))) (life_of s1) \<dots>"
      using 1(4,5) by (intro life_step.move) (simp_all add: life_of_def)
    ultimately show ?thesis using 1(1,7) by auto
  qed
qed

text \<open>Cleanup is an optional expiry followed by an optional purge.\<close>

lemma expire_cases:
  assumes "expire E clk c s0 = Inr (s, i)"
  obtains (same) "s = s0"
  | (expired) t now where "run_status (st_run s0) = OPEN \<or> run_status (st_run s0) = SEALED"
      "s = s0\<lparr>st_run := (st_run s0)\<lparr>run_status := EXPIRED, run_revision := run_revision (st_run s0) + 1,
             run_updated_at := now, run_cleanup_after := Some t\<rparr>\<rparr>"
  using assms by (auto simp: expire_def Let_def result_simps split: if_splits)

lemma cleanup_apply_cases:
  assumes "cleanup_apply E clk c st = Inr (s, r)"
  obtains s0 s1 i where "st = Some s0" "run_of_context c s0" "expire E clk c s0 = Inr (s1, i)"
    "r = st_run s"
    "s = s1 \<or> (\<exists>now j due t. \<not> run_purged (st_run s1) \<and> run_cleanup_after (st_run s1) = Some t \<and>
       clk j = Some due \<and> t \<le> due \<and> s = purge s1 now)"
proof -
  obtain s0 s1 i where b: "st = Some s0" "run_of_context c s0" "expire E clk c s0 = Inr (s1, i)"
    and rest: "(let run = st_run s1 in
       if run_purged run then Inr (s1, run)
       else case run_cleanup_after run of None \<Rightarrow> Inr (s1, run)
       | Some t \<Rightarrow> bindE (now_at clk i) (\<lambda>now. if now < t then Inr (s1, run)
           else bindE (now_at clk (Suc i)) (\<lambda>u. let s' = purge s1 u in Inr (s', st_run s')))) = Inr (s, r)"
    using assms by (auto simp: cleanup_apply_def result_simps)
  have "r = st_run s \<and> (s = s1 \<or> (\<exists>now j due t. \<not> run_purged (st_run s1) \<and>
      run_cleanup_after (st_run s1) = Some t \<and> clk j = Some due \<and> t \<le> due \<and> s = purge s1 now))"
  proof (cases "run_purged (st_run s1) \<or> run_cleanup_after (st_run s1) = None")
    case True
    then show ?thesis using rest by (auto simp: Let_def split: if_splits)
  next
    case False
    then obtain t where t: "run_cleanup_after (st_run s1) = Some t" "\<not> run_purged (st_run s1)" by auto
    then obtain due where due: "clk i = Some due"
      using rest by (cases "clk i") (auto simp: Let_def now_at_def)
    show ?thesis
    proof (cases "due < t")
      case True
      then show ?thesis using rest t due by (auto simp: Let_def now_at_def)
    next
      case False
      then obtain u where "s = purge s1 u" "r = st_run s"
        using rest t due by (auto simp: Let_def now_at_def result_simps)
      then show ?thesis using False t due by (auto simp: not_less)
    qed
  qed
  then show thesis using that b by blast
qed

lemma expire_good:
  assumes "expire E clk c s0 = Inr (s, i)" and inv: "run_inv s0"
  shows "run_inv s \<and> run_spec_of (st_run s) = run_spec_of (st_run s0) \<and>
    life_steps (spec_batch_count (run_spec_of (st_run s0))) (life_of s0) (life_of s)"
  using assms(1)
proof (cases rule: expire_cases)
  case same
  then show ?thesis using inv by simp
next
  case (expired t now)
  have np: "\<not> run_purged (st_run s0)"
    using inv expired(1) by (auto simp: run_inv_def purged_inv_def settled_def Let_def split: if_splits)
  have "index_inv s" using run_inv_index [OF inv np] unfolding expired(2) by (simp add: index_inv_def)
  then have "run_inv s" using np run_inv_bounds [OF inv] expired(2)
    by (simp add: run_inv_def settled_def past_seal_def)
  moreover have "life_of s = (life_of s0)\<lparr>life_status := EXPIRED, life_revision := Suc (life_revision (life_of s0))\<rparr>"
    using expired(2) by (simp add: life_of_def)
  moreover have "life_step (spec_batch_count (run_spec_of (st_run s0))) (life_of s0) \<dots>"
    using np expired(1) by (intro life_step.expire) (simp_all add: life_of_def)
  ultimately show ?thesis using expired(2) by auto
qed

lemma purge_good:
  assumes inv: "run_inv s" and np: "\<not> run_purged (st_run s)" and due: "run_cleanup_after (st_run s) \<noteq> None"
  shows "run_inv (purge s now) \<and>
    life_step n (life_of s) (life_of (purge s now))"
proof -
  have st: "settled (run_status (st_run s))" using run_inv_cleanup [OF inv] due by simp
  then have "run_inv (purge s now)"
    using due run_inv_bounds [OF inv] run_inv_complete [OF inv]
    by (auto simp: run_inv_def purged_inv_def purge_def Let_def settled_def)
  moreover have "life_of (purge s now) =
      (life_of s)\<lparr>life_purged := True, life_revision := Suc (life_revision (life_of s))\<rparr>"
    by (simp add: life_of_def purge_def Let_def)
  ultimately show ?thesis using st np life_step.purge [of "life_of s" n] by (simp add: life_of_def)
qed

lemma purge_spec:
  "run_spec_of (st_run (purge s now)) = (run_spec_of (st_run s))\<lparr>spec_references := []\<rparr>"
  by (simp add: purge_def Let_def)

lemma cleanup_good: "good_closure c (cleanup_apply E clk c)"
  unfolding good_closure_def
proof (intro allI impI)
  fix st s r assume "cleanup_apply E clk c st = Inr (s, r)"
  then show "run_of_context c s \<and> (\<forall>s0. st = Some s0 \<longrightarrow> run_of_context c s0) \<and> ((\<forall>s0. st = Some s0 \<longrightarrow> run_inv s0) \<longrightarrow> run_inv s) \<and>
     (\<forall>s0. st = Some s0 \<longrightarrow> run_inv s0 \<longrightarrow>
        spec_batch_count (run_spec_of (st_run s)) = spec_batch_count (run_spec_of (st_run s0)) \<and>
        life_steps (spec_batch_count (run_spec_of (st_run s0))) (life_of s0) (life_of s))"
  proof (cases rule: cleanup_apply_cases)
    case (1 s0 s1 i)
    have spec: "run_spec_of (st_run s1) = run_spec_of (st_run s0)"
      using 1(3) by (cases rule: expire_cases) auto
    have ctx: "run_of_context c s"
      using 1(2,5) spec by (auto simp: run_of_context_def purge_spec)
    have "run_inv s \<and> spec_batch_count (run_spec_of (st_run s)) = spec_batch_count (run_spec_of (st_run s0)) \<and>
        life_steps (spec_batch_count (run_spec_of (st_run s0))) (life_of s0) (life_of s)"
      if inv: "run_inv s0"
    proof -
      note e = expire_good [OF 1(3) inv]
      from 1(5) show ?thesis
      proof
        assume "\<exists>now j due t. \<not> run_purged (st_run s1) \<and> run_cleanup_after (st_run s1) = Some t \<and>
          clk j = Some due \<and> t \<le> due \<and> s = purge s1 now"
        then obtain now where p: "\<not> run_purged (st_run s1)" "run_cleanup_after (st_run s1) \<noteq> None"
          "s = purge s1 now" by blast
        note g = purge_good [OF _ p(1,2), where n = "spec_batch_count (run_spec_of (st_run s0))" and now = now]
        show ?thesis using e g p(3) spec by (auto simp: purge_spec)
      qed (use e in simp)
    qed
    then show ?thesis using ctx 1(1,2) by blast
  qed
qed

section \<open>Requests\<close>

lemma validate_context_Some: "validate_context c = Some c' \<Longrightarrow> c' = c"
  by (auto simp: validate_context_def split: if_splits)

lemma check_context_Inr: "check_context E c = Inr c' \<Longrightarrow> c' = c"
  by (auto simp: check_context_def checked_env_def checked_def result_simps split: option.splits if_splits
      dest: validate_context_Some)

lemma validate_batch_Some: "validate_batch b = Some b' \<Longrightarrow> b' = b \<and> distinct (map nr_record_id (nb_records b))"
  by (auto simp: validate_batch_def split: if_splits)

lemma stage_check_Inr: "stage_check E b = Inr b' \<Longrightarrow> b' = b \<and> distinct (map nr_record_id (nb_records b))"
  by (auto simp: stage_check_def checked_env_def checked_def result_simps split: option.splits if_splits
      dest: validate_batch_Some)

lemma prepare_good: "prepare E clk req = Inr (c, f) \<Longrightarrow> good_closure c f"
  by (cases req) (auto simp: result_simps dest!: stage_check_Inr intro!: good_closure_as_reply
      begin_good get_run_good stage_good seal_good read_records_good read_batches_good
      transition_good cleanup_good)

text \<open>Requests that carry an expected revision.\<close>

fun cas_expectation :: "request \<Rightarrow> (pystr \<times> int) option" where
  "cas_expectation (Seal c e) = Some (ctx_run_id c, e)"
| "cas_expectation (Transition c e _) = Some (ctx_run_id c, e)"
| "cas_expectation _ = None"

lemma cas_closure:
  assumes "cas_expectation req = Some (rid, e)" and "prepare E clk req = Inr (c, f)"
    and "f st = Inr (s, r)"
  shows "ctx_run_id c = rid \<and> (\<exists>s0. st = Some s0 \<and> int (run_revision (st_run s0)) = e \<and>
    int (run_revision (st_run s)) = e + 1)"
proof (cases req)
  case (Seal c0 e0)
  then obtain q where "c = c0" "seal_apply E clk c0 e0 st = Inr (s, q)" "ctx_run_id c0 = rid" "e0 = e"
    using assms by (auto simp: result_simps as_reply_def dest!: check_context_Inr)
  then show ?thesis by (auto elim!: seal_apply_cases)
next
  case (Transition c0 e0 status)
  then obtain q where "c = c0" "transition_apply E clk c0 e0 status st = Inr (s, q)"
      "ctx_run_id c0 = rid" "e0 = e"
    using assms by (auto simp: result_simps as_reply_def dest!: check_context_Inr)
  then show ?thesis by (auto elim!: transition_apply_cases)
qed (use assms in auto)

section \<open>Backends\<close>

text \<open>
  A history of a store: requests that returned, in any order, with any clock. A request that raises
  leaves the store as it was, so it is no step.
\<close>

inductive evolves ::
  "('b \<Rightarrow> pystr \<Rightarrow> reply operation \<Rightarrow> staging_error + ('b \<times> reply)) \<Rightarrow> store_env \<Rightarrow> 'b \<Rightarrow> 'b \<Rightarrow> bool"
  for access E where
  start: "evolves access E b b"
| request: "evolves access E b b' \<Longrightarrow> run_request access E clk b' req = Inr (b'', r) \<Longrightarrow>
    evolves access E b b''"

definition store_inv :: "('b \<Rightarrow> pystr \<Rightarrow> run_state option) \<Rightarrow> 'b \<Rightarrow> bool" where
  "store_inv lookup b \<longleftrightarrow> (\<forall>rid s. lookup b rid = Some s \<longrightarrow>
     run_inv s \<and> ctx_run_id (spec_context (run_spec_of (st_run s))) = rid)"

text \<open>How a stored run may differ later: same context and size, some lifecycle steps further.\<close>

definition run_later :: "run_state \<Rightarrow> run_state \<Rightarrow> bool" where
  "run_later s s' \<longleftrightarrow>
     spec_context (run_spec_of (st_run s')) = spec_context (run_spec_of (st_run s)) \<and>
     spec_batch_count (run_spec_of (st_run s')) = spec_batch_count (run_spec_of (st_run s)) \<and>
     life_steps (spec_batch_count (run_spec_of (st_run s))) (life_of s) (life_of s')"

lemma run_later_refl [simp]: "run_later s s"
  by (simp add: run_later_def)

lemma run_later_trans: "run_later s t \<Longrightarrow> run_later t u \<Longrightarrow> run_later s u"
  by (auto simp: run_later_def)

locale staging_backend =
  fixes lookup :: "'b \<Rightarrow> pystr \<Rightarrow> run_state option"
    and access :: "'b \<Rightarrow> pystr \<Rightarrow> reply operation \<Rightarrow> staging_error + ('b \<times> reply)"
  assumes access_runs: "access b rid f = Inr (b', r) \<Longrightarrow>
    \<exists>s. f (lookup b rid) = Inr (s, r) \<and> lookup b' = (lookup b)(rid \<mapsto> s)"
begin

lemma request_obtain:
  assumes "run_request access E clk b req = Inr (b', r)"
  obtains c f s where "prepare E clk req = Inr (c, f)" "good_closure c f"
    "f (lookup b (ctx_run_id c)) = Inr (s, r)" "lookup b' = (lookup b)(ctx_run_id c \<mapsto> s)"
  using assms by (auto simp: run_request_def result_simps dest!: access_runs) (metis prepare_good)

lemma request_inv:
  assumes "run_request access E clk b req = Inr (b', r)" and inv: "store_inv lookup b"
  shows "store_inv lookup b'"
  using assms(1)
proof (cases rule: request_obtain)
  case (1 c f s)
  have "run_of_context c s" "run_inv s"
    using 1(2,3) inv unfolding good_closure_def store_inv_def by blast+
  then show ?thesis using inv 1(4) by (auto simp: store_inv_def run_of_context_def)
qed

lemma request_later:
  assumes "run_request access E clk b req = Inr (b', r)" and inv: "store_inv lookup b"
    and rid: "lookup b rid = Some s"
  obtains s' where "lookup b' rid = Some s'" "run_later s s'"
  using assms(1)
proof (cases rule: request_obtain)
  case (1 c f s1)
  show ?thesis
  proof (cases "rid = ctx_run_id c")
    case True
    have "run_inv s" using inv rid by (auto simp: store_inv_def)
    moreover have "f (Some s) = Inr (s1, r)" using 1(3) rid True by simp
    moreover have "run_of_context c s" using 1(2) \<open>f (Some s) = Inr (s1, r)\<close>
      unfolding good_closure_def by blast
    ultimately show ?thesis using that [of s1] 1(2,4) True
      unfolding good_closure_def run_later_def run_of_context_def by simp
  next
    case False
    then show ?thesis using that [of s] 1(4) rid by simp
  qed
qed


lemma evolves_inv: "evolves access E b b' \<Longrightarrow> store_inv lookup b \<Longrightarrow> store_inv lookup b'"
  by (induction rule: evolves.induct) (auto intro: request_inv)

lemma evolves_later:
  "evolves access E b b' \<Longrightarrow> store_inv lookup b \<Longrightarrow> lookup b rid = Some s \<Longrightarrow>
    \<exists>s'. lookup b' rid = Some s' \<and> run_later s s'"
proof (induction rule: evolves.induct)
  case (start b)
  then show ?case by auto
next
  case (request b b' clk req b'' r)
  then obtain s' where s': "lookup b' rid = Some s'" "run_later s s'" by blast
  have "store_inv lookup b'" using evolves_inv request.hyps(1) request.prems(1) .
  with request.hyps(2) show ?case using s' by (meson request_later run_later_trans)
qed

lemma cas_request:
  assumes "run_request access E clk b req = Inr (b', r)" and "cas_expectation req = Some (rid, e)"
  shows "\<exists>s s'. lookup b rid = Some s \<and> int (run_revision (st_run s)) = e \<and>
    lookup b' rid = Some s' \<and> int (run_revision (st_run s')) = e + 1"
  using assms(1)
proof (cases rule: request_obtain)
  case (1 c f s)
  then show ?thesis using cas_closure [OF assms(2) 1(1,3)] by auto
qed

text \<open>Two compare-and-set requests with the same expected revision never both return.\<close>

lemma cas_exclusive:
  assumes "store_inv lookup b0"
    and "run_request access E clk b0 req = Inr (b1, r)" and "cas_expectation req = Some (rid, e)"
    and "evolves access E b1 b2" and "cas_expectation req' = Some (rid, e)"
  shows "\<exists>err. run_request access E clk' b2 req' = Inl err"
proof (rule ccontr)
  assume "\<nexists>err. run_request access E clk' b2 req' = Inl err"
  then obtain b3 r' where "run_request access E clk' b2 req' = Inr (b3, r')"
    by (metis not_Inl_iff_Inr surj_pair)
  from cas_request [OF this assms(5)] obtain s2 where s2: "lookup b2 rid = Some s2"
    "int (run_revision (st_run s2)) = e" by blast
  from cas_request [OF assms(2,3)] obtain s1 where s1: "lookup b1 rid = Some s1"
    "int (run_revision (st_run s1)) = e + 1" by blast
  have "store_inv lookup b1" using assms(2,1) by (rule request_inv)
  from evolves_later [OF assms(4) this s1(1)] s2(1)
  have "life_steps (spec_batch_count (run_spec_of (st_run s1))) (life_of s1) (life_of s2)"
    by (auto simp: run_later_def)
  then have "run_revision (st_run s1) \<le> run_revision (st_run s2)"
    by (auto simp: life_of_def dest!: life_steps_revision)
  then show False using s1(2) s2(2) by linarith
qed

end

interpretation memory: staging_backend map_of memory_access
  by unfold_locales
    (auto simp: memory_access_def Let_def result_simps split: if_splits)

lemma memory_start: "store_inv map_of []"
  by (simp add: store_inv_def)

end
