(* ===== verification/Staging_Properties.thy ===== *)
theory Staging_Properties
  imports Staging_Lifecycle
begin

text \<open>
  The properties of the in-memory staging store, from the backend interface interpreted on it, and
  one small concrete history (a one-batch run that is begun, staged, sealed, executed, committed and
  purged) on which their hypotheses are shown to hold.
\<close>

section \<open>A concrete history\<close>

definition ex_env :: store_env where
  "ex_env = \<lparr>e_target_id = pstr ''t'',
     e_retention = \<lparr>retain_kinds = [], success_seconds = 10, failure_seconds = 20, max_run_seconds = 100\<rparr>,
     e_limits = default_limits, e_fields_ok = (\<lambda>_. True), e_sha = (\<lambda>_. pstr ''h''),
     e_json = (\<lambda>_. pstr ''j'')\<rparr>"

definition ex_ctx :: staging_context where
  "ex_ctx = \<lparr>ctx_run_id = pstr ''r'', ctx_staging_id = pstr ''s'', ctx_target_id = pstr ''t'',
     ctx_database_fingerprint = pstr ''d'', ctx_target_policy_fingerprint = pstr ''p'',
     ctx_normalized_fingerprint = pstr ''n'', ctx_expires_at = 1000, ctx_max_records = 5\<rparr>"

definition ex_spec :: run_spec where
  "ex_spec = \<lparr>spec_context = ex_ctx, spec_source_fingerprint = pstr ''src'',
     spec_extraction_fingerprint = pstr ''ext'', spec_parse_plan_fingerprint = pstr ''pp'',
     spec_mapping_plan_fingerprint = pstr ''mp'', spec_batch_count = 1, spec_record_count = 2,
     spec_references = []\<rparr>"

definition ex_unit :: pytree where "ex_unit = PyVal ONone"

definition ex_batch :: normalized_batch where
  "ex_batch =
     (let b = \<lparr>nb_schema_version = ''1.1.0'', nb_source_fingerprint = pstr ''src'',
        nb_extraction_fingerprint = pstr ''ext'', nb_parse_plan_fingerprint = pstr ''pp'',
        nb_batch_index = 0, nb_batch_fingerprint = pstr ''b0'',
        nb_records =
          [\<lparr>nr_record_id = pstr ''a'', nr_entity_count = 1, nr_value_count = 1, nr_payload = ex_unit\<rparr>,
           \<lparr>nr_record_id = pstr ''b'', nr_entity_count = 1, nr_value_count = 1, nr_payload = ex_unit\<rparr>],
        nb_is_last = True, nb_manifest = None, nb_rest = ex_unit, nb_rest_valid = True\<rparr>
      in b\<lparr>nb_manifest := Some \<lparr>man_normalized_fingerprint = pstr ''n'',
             man_batches = [to_summary b], man_record_count = 2, man_rest = ex_unit\<rparr>\<rparr>)"

definition at :: "instant \<Rightarrow> clock" where "at t = (\<lambda>_. Some t)"

definition ex_open :: run_state where
  "ex_open = \<lparr>st_run = new_run ex_env ex_spec 1, st_batches = [], st_records = []\<rparr>"

definition ex_staged :: run_state where
  "ex_staged = stage_commit ex_env ex_open ex_batch 2"

definition ex_sealed :: run_state where
  "ex_sealed = ex_staged\<lparr>st_run := (st_run ex_staged)\<lparr>run_status := SEALED, run_revision := 2,
     run_updated_at := 3, run_sealed_fingerprint := Some (pstr ''h'')\<rparr>\<rparr>"

definition ex_executing :: run_state where
  "ex_executing = ex_sealed\<lparr>st_run := (st_run ex_sealed)\<lparr>run_status := EXECUTING, run_revision := 3,
     run_updated_at := 4\<rparr>\<rparr>"

definition ex_committed :: run_state where
  "ex_committed = ex_executing\<lparr>st_run := (st_run ex_executing)\<lparr>run_status := COMMITTED, run_revision := 4,
     run_updated_at := 5, run_cleanup_after := Some 10000005\<rparr>\<rparr>"

definition ex_store :: "run_state \<Rightarrow> memory_store" where
  "ex_store s = [(pstr ''r'', s)]"

lemmas py_defs = py_str_def py_nat_def py_date_def py_bool_def py_seq_def py_opt_def py_ref_def
  py_retention_def py_context_def py_spec_def py_run_def py_summary_def py_manifest_def
  py_record_def py_batch_def py_staged_batch_def py_staged_record_def py_state_def

lemma bit_len_small: "n < 8 \<Longrightarrow> bit_len n \<le> 4096"
  by (simp add: bit_len.simps [of n] bit_len.simps [of "n div 2"] bit_len.simps [of "n div 2 div 2"]
      bit_len.simps [of "n div 2 div 2 div 2"])

lemmas ex_defs = ex_env_def ex_ctx_def ex_spec_def ex_unit_def ex_batch_def ex_store_def at_def
  default_limits_def to_summary_def new_run_def retention_fp_def

lemmas exec_defs = memory_exec_def run_request_def memory_access_def as_reply_def checked_env_def
  checked_def check_context_def check_state_def now_at_def later_def datetime_max_def Let_def

lemma ex_begin:
  "memory_exec ex_env (at 1) [] (Begin ex_spec) = Inr (ex_store ex_open, Run_Reply (st_run ex_open))"
  by (simp add: exec_defs begin_check_def begin_apply_def validate_spec_def validate_context_def
      ex_defs ex_open_def bounded_accept py_defs bit_len_small)

lemmas ex_states = ex_open_def ex_staged_def ex_sealed_def ex_executing_def ex_committed_def
  stage_commit_def staged_records_def

lemma ex_stage:
  "memory_exec ex_env (at 2) (ex_store ex_open) (Stage ex_batch ex_ctx) =
     Inr (ex_store ex_staged, Unit_Reply)"
  by (simp add: exec_defs stage_check_def stage_apply_def validate_batch_def validate_context_def
      ex_defs ex_states bounded_accept py_defs bit_len_small)

lemma ex_seal:
  "memory_exec ex_env (at 3) (ex_store ex_staged) (Seal ex_ctx 1) =
     Inr (ex_store ex_sealed, Run_Reply (st_run ex_sealed))"
  by (simp add: exec_defs seal_apply_def check_revision_def validate_context_def
      ex_defs ex_states bounded_accept py_defs bit_len_small)

lemma ex_execute:
  "memory_exec ex_env (at 4) (ex_store ex_sealed) (Transition ex_ctx 2 EXECUTING) =
     Inr (ex_store ex_executing, Run_Reply (st_run ex_executing))"
  by (simp add: exec_defs transition_apply_def check_revision_def validate_context_def
      ex_defs ex_states bounded_accept py_defs bit_len_small)

lemma ex_commit:
  "memory_exec ex_env (at 5) (ex_store ex_executing) (Transition ex_ctx 3 COMMITTED) =
     Inr (ex_store ex_committed, Run_Reply (st_run ex_committed))"
  by (simp add: exec_defs transition_apply_def check_revision_def validate_context_def
      ex_defs ex_states bounded_accept py_defs bit_len_small)

lemma memory_evolves:
  "evolves memory_access E b runs \<Longrightarrow> memory_exec E clk runs req = Inr (runs', r) \<Longrightarrow>
     evolves memory_access E b runs'"
  unfolding memory_exec_def by (rule evolves.request)

lemma ex_evolves:
  "evolves memory_access ex_env [] (ex_store ex_staged)"
  "evolves memory_access ex_env (ex_store ex_staged) (ex_store ex_committed)"
  by (meson evolves.start memory_evolves ex_begin ex_stage ex_seal ex_execute ex_commit)+

section \<open>Properties\<close>

lemma staging_inv: "evolves memory_access E [] runs \<Longrightarrow> map_of runs rid = Some s \<Longrightarrow> run_inv s"
  using memory.evolves_inv [OF _ memory_start] by (auto simp: store_inv_def)

text \<open>
  C5: in every store reached from the empty one by any requests with any clock readings, each run is
  filed under its own id and keeps its invariant: the counters equal the index sizes, record ids are
  unique and records are numbered without gaps, counts stay within the specification, a run past
  \<open>SEALED\<close> is complete and carries its seal, a clean-up deadline exists exactly for settled runs,
  and a purged run holds no batches, records or references.
\<close>

theorem staging_store_invariant:
  assumes "evolves memory_access E [] runs" and "map_of runs rid = Some s"
  shows "run_inv s \<and> ctx_run_id (spec_context (run_spec_of (st_run s))) = rid"
  using memory.evolves_inv [OF assms(1) memory_start] assms(2) by (simp add: store_inv_def)

theorem staging_store_invariant_witness: "run_inv ex_staged"
  using staging_store_invariant [OF ex_evolves(1), of "pstr ''r''" ex_staged] by (simp add: ex_store_def)

text \<open>
  C4: the store refines the abstract lifecycle. Whatever request returns, every run that was stored
  is still stored, with the same context and size, and its status, revision, batch count and purged
  flag moved by lifecycle steps only (each of which adds one to the revision); runs other than the
  one the request names are untouched.
\<close>

theorem staging_refines_lifecycle:
  assumes "evolves memory_access E [] runs" and "memory_exec E clk runs req = Inr (runs', r)"
    and "map_of runs rid = Some s"
  shows "\<exists>s'. map_of runs' rid = Some s' \<and> run_later s s' \<and>
    (\<exists>c f. prepare E clk req = Inr (c, f) \<and> (ctx_run_id c \<noteq> rid \<longrightarrow> s' = s))"
proof -
  have inv: "store_inv map_of runs" using assms(1) memory_start by (rule memory.evolves_inv)
  have run: "run_request memory_access E clk runs req = Inr (runs', r)"
    using assms(2) by (simp add: memory_exec_def)
  obtain s' where s': "map_of runs' rid = Some s'" "run_later s s'"
    using memory.request_later [OF run inv assms(3)] .
  from run show ?thesis
  proof (cases rule: memory.request_obtain)
    case (1 c f t)
    then show ?thesis using s' assms(3) by auto
  qed
qed

theorem staging_refines_lifecycle_witness:
  "\<exists>s'. map_of (ex_store ex_sealed) (pstr ''r'') = Some s' \<and> run_later ex_staged s'"
  using staging_refines_lifecycle [OF ex_evolves(1) ex_seal, of "pstr ''r''" ex_staged]
  by (auto simp: ex_store_def)

text \<open>
  C21: optimistic concurrency control. After a \<open>seal\<close> or \<open>transition\<close> with an expected revision has
  returned, and after any further requests, every \<open>seal\<close> or \<open>transition\<close> of that run with the same
  expected revision raises: of two writers that read the same revision at most one succeeds.
\<close>

theorem staging_cas_exclusive:
  assumes "evolves memory_access E [] runs0"
    and "memory_exec E clk runs0 req = Inr (runs1, r)" and "cas_expectation req = Some (rid, e)"
    and "evolves memory_access E runs1 runs2" and "cas_expectation req' = Some (rid, e)"
  shows "\<exists>err. memory_exec E clk' runs2 req' = Inl err"
  unfolding memory_exec_def
  by (rule memory.cas_exclusive [OF memory.evolves_inv [OF assms(1) memory_start]
        assms(2) [unfolded memory_exec_def] assms(3,4,5)])

theorem staging_cas_exclusive_witness:
  "\<exists>err. memory_exec ex_env (at 9) (ex_store ex_sealed) (Transition ex_ctx 1 FAILED) = Inl err"
  by (rule staging_cas_exclusive [OF ex_evolves(1) ex_seal _ evolves.start]) auto

text \<open>
  a settled outcome is final. Once a run is committed, quarantined, rolled back, failed,
  cancelled or expired, no sequence of requests changes its status or its batch count.
\<close>

theorem staging_settled_final:
  assumes "evolves memory_access E [] runs" and "map_of runs rid = Some s"
    and "settled (run_status (st_run s))" and "evolves memory_access E runs runs'"
  shows "\<exists>s'. map_of runs' rid = Some s' \<and> run_status (st_run s') = run_status (st_run s) \<and>
    run_batch_count (st_run s') = run_batch_count (st_run s)"
proof -
  have "store_inv map_of runs" using assms(1) memory_start by (rule memory.evolves_inv)
  then obtain s' where s': "map_of runs' rid = Some s'" "run_later s s'"
    using memory.evolves_later assms(2,4) by blast
  then show ?thesis
    using life_steps_settled [of _ "life_of s" "life_of s'"] assms(3)
    by (auto simp: run_later_def life_of_def)
qed

theorem staging_settled_final_witness:
  "\<exists>s'. map_of (ex_store ex_committed) (pstr ''r'') = Some s' \<and> run_status (st_run s') = COMMITTED"
proof -
  have "evolves memory_access ex_env [] (ex_store ex_committed)"
    by (meson evolves.start memory_evolves ex_begin ex_stage ex_seal ex_execute ex_commit)
  from staging_settled_final [OF this _ _ evolves.start, of "pstr ''r''" ex_committed]
  show ?thesis by (auto simp: ex_store_def ex_committed_def settled_def)
qed

lemma stage_apply_retry:
  assumes "stage_apply E clk b c st = Inr (s, u)" and "now_at clk' 0 = Inr t" and "t < ctx_expires_at c"
  shows "stage_apply E clk' b c (Some s) = Inr (s, ())"
proof -
  obtain s0 where s0: "run_of_context c s0" "run_retention_fingerprint (st_run s0) = retention_fp E"
      "run_status (st_run s0) = OPEN"
      "(nb_source_fingerprint b, nb_extraction_fingerprint b, nb_parse_plan_fingerprint b) =
       (spec_source_fingerprint (run_spec_of (st_run s0)), spec_extraction_fingerprint (run_spec_of (st_run s0)),
        spec_parse_plan_fingerprint (run_spec_of (st_run s0)))"
    and result: "s = s0 \<and> nb_batch_index b < length (st_batches s0) \<and>
         sb_summary (st_batches s0 ! nb_batch_index b) = to_summary b \<or>
       (\<exists>now. s = stage_commit E s0 b now \<and> nb_batch_index b = length (st_batches s0))"
    using assms(1) by (auto simp: stage_apply_def Let_def result_simps split: if_splits)
  have ret: "run_retention_fingerprint (st_run (stage_commit E s0 b now)) = run_retention_fingerprint (st_run s0)" for now
    by (simp add: stage_commit_def Let_def)
  have "run_of_context c s" "run_retention_fingerprint (st_run s) = retention_fp E"
      "run_status (st_run s) = OPEN" "run_spec_of (st_run s) = run_spec_of (st_run s0)"
      "nb_batch_index b < length (st_batches s)"
      "sb_summary (st_batches s ! nb_batch_index b) = to_summary b"
    using s0 result ret by (auto simp: run_of_context_def nth_append)
  then show ?thesis using assms(2,3) s0(4)
    by (simp add: stage_apply_def Let_def check_state_def run_of_context_def)
qed



text \<open>
  A page of records is exact. A successful \<open>read_records\<close> changes nothing and returns, in order
  and without gaps, exactly the stored records whose record index lies in
  \<open>[offset, offset + limit)\<close>; the run is closed for appends and not purged.
\<close>

theorem read_records_page:
  assumes "evolves memory_access E [] runs"
    and "memory_exec E clk runs (Read_Records c offset limit) = Inr (runs', reply)"
  shows "runs' = runs \<and> (\<exists>s recs. map_of runs (ctx_run_id c) = Some s \<and> reply = Records_Reply recs \<and>
    run_status (st_run s) \<noteq> OPEN \<and> \<not> run_purged (st_run s) \<and> set recs \<subseteq> set (st_records s) \<and>
    map sr_record_index recs =
      [nat offset ..< min (nat offset + nat limit) (run_record_count (st_run s))])"
proof -
  obtain c' where p: "check_context E c = Inr c'"
    and run: "memory_access runs (ctx_run_id c')
        (as_reply Records_Reply (read_records_apply E clk c' offset limit)) = Inr (runs', reply)"
    using assms(2) by (auto simp: memory_exec_def run_request_def result_simps)
  have eq: "c' = c" using p by (rule check_context_Inr)
  obtain s recs where s: "read_records_apply E clk c offset limit (map_of runs (ctx_run_id c)) = Inr (s, recs)"
    and r: "runs' = AList.update (ctx_run_id c) s runs" "reply = Records_Reply recs"
    using run unfolding eq by (auto simp: memory_access_def as_reply_def Let_def result_simps)
  have st: "map_of runs (ctx_run_id c) = Some s" "run_status (st_run s) \<noteq> OPEN" "\<not> run_purged (st_run s)"
      "recs = page offset limit (st_records s)"
    using s by (auto simp: read_records_apply_def result_simps split: prod.splits)
  have "run_inv s" using staging_inv [OF assms(1) st(1)] .
  then have "index_inv s" using st(3) run_inv_index by blast
  then have "map sr_record_index recs =
      [nat offset ..< min (nat offset + nat limit) (run_record_count (st_run s))]"
    using st(4) by (simp add: page_def index_inv_def take_upt_min flip: take_map drop_map)
  moreover have "set recs \<subseteq> set (st_records s)"
    using st(4) set_take_subset set_drop_subset unfolding page_def by (metis subset_trans)
  ultimately show ?thesis using st r by (simp add: update_triv)
qed

theorem read_records_page_witness:
  "\<exists>recs. memory_exec ex_env (at 4) (ex_store ex_sealed) (Read_Records ex_ctx 1 5) =
     Inr (ex_store ex_sealed, Records_Reply recs) \<and> map sr_record_index recs = [1]"
proof -
  obtain recs where run: "memory_exec ex_env (at 4) (ex_store ex_sealed) (Read_Records ex_ctx 1 5) =
      Inr (ex_store ex_sealed, Records_Reply recs)"
    by (simp add: exec_defs check_page_def read_records_apply_def retention_over_def validate_context_def
        ex_defs ex_states bounded_accept py_defs bit_len_small)
  have "evolves memory_access ex_env [] (ex_store ex_sealed)"
    using ex_evolves(1) ex_seal by (rule memory_evolves)
  from read_records_page [OF this run] show ?thesis using run
    by (auto simp: ex_store_def ex_ctx_def ex_states ex_env_def ex_spec_def new_run_def ex_batch_def
        Let_def ex_unit_def upt_conv_Cons)
qed

text \<open>
  C39: clean-up never destroys a live run. If a \<open>cleanup\<close> request purges a run that was not purged,
  the run was not executing and its outcome not unknown, it ends in a settled status, its retention
  deadline had been reached by one of the clock readings, and only the tombstone is left.
\<close>

theorem cleanup_purges_settled_only:
  assumes "evolves memory_access E [] runs" and "map_of runs rid = Some s"
    and "\<not> run_purged (st_run s)"
    and "memory_exec E clk runs (Cleanup c) = Inr (runs', reply)"
    and "map_of runs' rid = Some s'" and "run_purged (st_run s')"
  shows "run_status (st_run s) \<notin> {EXECUTING, UNKNOWN} \<and> settled (run_status (st_run s')) \<and>
    (\<exists>i now t. clk i = Some now \<and> run_cleanup_after (st_run s') = Some t \<and> t \<le> now) \<and>
    st_batches s' = [] \<and> st_records s' = [] \<and> spec_references (run_spec_of (st_run s')) = [] \<and>
    run_record_count (st_run s') = run_record_count (st_run s)"
proof -
  obtain c' where p: "check_context E c = Inr c'"
    and run: "memory_access runs (ctx_run_id c') (as_reply Run_Reply (cleanup_apply E clk c')) = Inr (runs', reply)"
    using assms(4) by (auto simp: memory_exec_def run_request_def result_simps)
  have eq: "c' = c" using p by (rule check_context_Inr)
  obtain t q where q: "cleanup_apply E clk c (map_of runs (ctx_run_id c)) = Inr (t, q)"
    and r: "runs' = AList.update (ctx_run_id c) t runs"
    using run unfolding eq by (auto simp: memory_access_def as_reply_def Let_def result_simps)
  have rid: "rid = ctx_run_id c" "t = s'" using assms(2,3,5,6) r by (auto split: if_splits)
  have inv: "run_inv s" using staging_inv [OF assms(1,2)] .
  from q show ?thesis
  proof (cases rule: cleanup_apply_cases)
    case (1 s0 s1 i)
    have s0: "s0 = s" using 1(1) rid assms(2) by simp
    note e = expire_good [OF 1(3) [unfolded s0] inv]
    have np: "\<not> run_purged (st_run s1)" and st1: "run_status (st_run s1) = run_status (st_run s) \<or>
        run_status (st_run s) = OPEN \<or> run_status (st_run s) = SEALED"
        and n1: "run_record_count (st_run s1) = run_record_count (st_run s)"
      using 1(3) assms(3) unfolding s0 by (cases rule: expire_cases; auto)+
    obtain now j due d where g: "run_cleanup_after (st_run s1) = Some d" "clk j = Some due" "d \<le> due"
        "s' = purge s1 now"
      using 1(5) np assms(6) rid(2) by auto
    have "settled (run_status (st_run s1))" using e g(1) run_inv_cleanup by force
    moreover have "run_status (st_run s') = run_status (st_run s1)"
      "run_cleanup_after (st_run s') = Some d" "st_batches s' = []" "st_records s' = []"
      "spec_references (run_spec_of (st_run s')) = []"
      "run_record_count (st_run s') = run_record_count (st_run s1)"
      using g by (simp_all add: purge_def Let_def)
    ultimately show ?thesis using st1 n1 g(2,3) by (auto simp: settled_def)
  qed
qed

theorem cleanup_purges_settled_only_witness:
  "\<exists>s'. memory_exec ex_env (at 10000005) (ex_store ex_committed) (Cleanup ex_ctx) =
       Inr (ex_store s', Run_Reply (st_run s')) \<and> st_records s' = [] \<and> settled (run_status (st_run s'))"
proof -
  let ?s = "purge ex_committed 10000005"
  have run: "memory_exec ex_env (at 10000005) (ex_store ex_committed) (Cleanup ex_ctx) =
      Inr (ex_store ?s, Run_Reply (st_run ?s))"
    by (simp add: exec_defs cleanup_apply_def expire_def purge_def validate_context_def
        ex_defs ex_states bounded_accept py_defs bit_len_small)
  have "evolves memory_access ex_env [] (ex_store ex_committed)"
    by (meson evolves.start memory_evolves ex_begin ex_stage ex_seal ex_execute ex_commit)
  from cleanup_purges_settled_only [OF this _ _ run, of "pstr ''r''" ex_committed ?s]
  have "st_records ?s = [] \<and> settled (run_status (st_run ?s))"
    by (auto simp: ex_store_def purge_def ex_states new_run_def ex_open_def Let_def)
  then show ?thesis using run by blast
qed

end
