(* ===== verification/Dependency_Order.thy ===== *)
theory Dependency_Order
  imports Prelude "HOL-Library.Multiset"
begin

text \<open>
  \<open>dependency_order\<close> of \<open>domain/database_graph.py\<close>: Kahn's algorithm over the foreign-key edges of
  the selected tables, with a heap of sort keys so that the order is deterministic. Dictionaries are
  association lists in insertion order, the sets of children lists without repetition, the binary
  heap a sorted list (\<open>heapify\<close> sorts, \<open>heappush\<close> inserts, \<open>heappop\<close> takes the head).
\<close>

section \<open>The algorithm\<close>

type_synonym table_key = "pystr \<times> pystr \<times> pystr"

record fk_edge =
  parent_table_id :: pystr
  child_table_id :: pystr
  edge_key_id :: pystr
  parent_column_ids :: "pystr list"
  child_column_ids :: "pystr list"

definition lookup_list :: "('n \<times> 'n list) list \<Rightarrow> 'n \<Rightarrow> 'n list" where
  "lookup_list al n = (case map_of al n of None \<Rightarrow> [] | Some xs \<Rightarrow> xs)"

definition key_of :: "(pystr \<times> table_key) list \<Rightarrow> pystr \<Rightarrow> table_key" where
  "key_of tk n = (case map_of tk n of None \<Rightarrow> ([], [], n) | Some k \<Rightarrow> k)"

text \<open>One iteration of \<open>for edge in edges\<close>: both ends selected and the pair not seen yet.\<close>

definition link_edge ::
  "(pystr \<times> pystr list) list \<times> (pystr \<Rightarrow> int) \<Rightarrow> fk_edge \<Rightarrow>
     (pystr \<times> pystr list) list \<times> (pystr \<Rightarrow> int)" where
  "link_edge s e = (case s of (children, indegrees) \<Rightarrow>
     let parent = parent_table_id e; child = child_table_id e in
     if parent \<in> set (map fst children) \<and> child \<in> set (map fst children) \<and>
        child \<notin> set (lookup_list children parent)
     then (AList.update parent (child # lookup_list children parent) children,
           indegrees(child := indegrees child + 1))
     else (children, indegrees))"

definition link_edges ::
  "(pystr \<times> table_key) list \<Rightarrow> fk_edge list \<Rightarrow> (pystr \<times> pystr list) list \<times> (pystr \<Rightarrow> int)" where
  "link_edges tk edges = foldl link_edge (map (\<lambda>(n, _). (n, [])) tk, \<lambda>_. 0) edges"

text \<open>\<open>for child in sorted(...)\<close>: decrement, push the child when its indegree reaches zero.\<close>

fun release ::
  "(pystr \<Rightarrow> table_key) \<Rightarrow> pystr list \<Rightarrow> table_key list \<times> (pystr \<Rightarrow> int) \<Rightarrow>
     table_key list \<times> (pystr \<Rightarrow> int)" where
  "release key [] s = s"
| "release key (c # cs) (heap, ind) =
     (let ind' = ind(c := ind c - 1) in
      release key cs (if ind' c = 0 then insort (key c) heap else heap, ind'))"

text \<open>Nodes that some list of children mentions and whose indegree is still positive.\<close>

definition blocked :: "('n \<times> 'n list) list \<Rightarrow> ('n \<Rightarrow> int) \<Rightarrow> 'n set" where
  "blocked children ind = {c \<in> \<Union> (set ` snd ` set children). ind c > 0}"

lemma finite_blocked [simp]: "finite (blocked children ind)"
  by (simp add: blocked_def)

lemma set_lookup_list: "set (lookup_list al n) \<subseteq> \<Union> (set ` snd ` set al)"
proof (cases "map_of al n")
  case (Some xs)
  then have "(n, xs) \<in> set al" by (rule map_of_SomeD)
  then show ?thesis using Some by (force simp: lookup_list_def)
qed (simp add: lookup_list_def)

lemma release_measure:
  assumes "release key cs (heap, ind) = (heap', ind')" and "set cs \<subseteq> \<Union> (set ` snd ` set children)"
  shows "2 * card (blocked children ind') + length heap' \<le> 2 * card (blocked children ind) + length heap"
  using assms
proof (induction cs arbitrary: heap ind)
  case (Cons c cs)
  let ?ind = "ind(c := ind c - 1)"
  let ?heap = "if ?ind c = 0 then insort (key c) heap else heap"
  have "release key cs (?heap, ?ind) = (heap', ind')"
    using Cons.prems(1) by (simp only: release.simps Let_def)
  then have IH: "2 * card (blocked children ind') + length heap' \<le> 2 * card (blocked children ?ind) + length ?heap"
    by (rule Cons.IH) (use Cons.prems(2) in simp)
  show ?case
  proof (cases "ind c = 1")
    case True
    have "blocked children ind = insert c (blocked children ?ind)" "c \<notin> blocked children ?ind"
      using Cons.prems(2) True by (auto simp: blocked_def)
    then have "card (blocked children ind) = Suc (card (blocked children ?ind))" by simp
    then show ?thesis using IH True by simp
  next
    case False
    have "blocked children ?ind \<subseteq> blocked children ind" by (auto simp: blocked_def)
    then have "card (blocked children ?ind) \<le> card (blocked children ind)" by (simp add: card_mono)
    then show ?thesis using IH False by simp
  qed
qed simp

function kahn ::
  "(pystr \<Rightarrow> table_key) \<Rightarrow> (pystr \<times> pystr list) list \<Rightarrow> table_key list \<Rightarrow> (pystr \<Rightarrow> int) \<Rightarrow>
     pystr list \<Rightarrow> pystr list" where
  "kahn key children [] ind order = order"
| "kahn key children ((s, t, node) # heap) ind order =
     (case release key (sort_key key (lookup_list children node)) (heap, ind) of
        (heap', ind') \<Rightarrow> kahn key children heap' ind' (order @ [node]))"
  by pat_completeness auto
termination
proof (relation "measure (\<lambda>(key, children, heap, ind, order).
    2 * card (blocked children ind) + length heap)", goal_cases)
  case (2 key children s t node heap ind order heap' ind')
  then show ?case
    using release_measure [OF 2 [symmetric], of children] set_lookup_list [of children node] by simp
qed simp

definition dependency_order :: "(pystr \<times> table_key) list \<Rightarrow> fk_edge list \<Rightarrow> pystr list option" where
  "dependency_order tk edges =
     (case link_edges tk edges of (children, indegrees) \<Rightarrow>
        let ready = sort (map snd (filter (\<lambda>(n, _). indegrees n = 0) tk));
            order = kahn (key_of tk) children ready indegrees []
        in if length order = length tk then Some order else None)"

section \<open>What it promises\<close>

text \<open>
  The selected dependencies, the nodes that may come next after a set of placed ones, and the
  specification: each position holds the available node with the least sort key.
\<close>

definition selected :: "(pystr \<times> table_key) list \<Rightarrow> fk_edge list \<Rightarrow> (pystr \<times> pystr) set" where
  "selected tk edges = {(p, c). p \<in> fst ` set tk \<and> c \<in> fst ` set tk \<and>
     (\<exists>e \<in> set edges. parent_table_id e = p \<and> child_table_id e = c)}"

definition available :: "'n set \<Rightarrow> ('n \<times> 'n) set \<Rightarrow> 'n set \<Rightarrow> 'n set" where
  "available N R placed = {n \<in> N. n \<notin> placed \<and> (\<forall>p. (p, n) \<in> R \<longrightarrow> p \<in> placed)}"

definition picks_least ::
  "'n set \<Rightarrow> ('n \<times> 'n) set \<Rightarrow> ('n \<Rightarrow> 'k::linorder) \<Rightarrow> 'n list \<Rightarrow> bool" where
  "picks_least N R key order \<longleftrightarrow> (\<forall>i < length order.
     order ! i \<in> available N R (set (take i order)) \<and>
     (\<forall>n \<in> available N R (set (take i order)). key (order ! i) \<le> key n))"

text \<open>Keys as the caller builds them: one per table, ending in the table id.\<close>

definition keyed :: "(pystr \<times> table_key) list \<Rightarrow> bool" where
  "keyed tk \<longleftrightarrow> distinct (map fst tk) \<and> (\<forall>(n, k) \<in> set tk. snd (snd k) = n)"

subsection \<open>Edges\<close>

definition link_inv ::
  "pystr set \<Rightarrow> (pystr \<times> pystr) set \<Rightarrow> (pystr \<times> pystr list) list \<times> (pystr \<Rightarrow> int) \<Rightarrow> bool" where
  "link_inv N R s \<longleftrightarrow> (case s of (children, indegrees) \<Rightarrow>
     set (map fst children) = N \<and> R \<subseteq> N \<times> N \<and>
     (\<forall>p. set (lookup_list children p) = {c. (p, c) \<in> R} \<and> distinct (lookup_list children p)) \<and>
     (\<forall>c. indegrees c = int (card {p. (p, c) \<in> R})))"

lemma lookup_list_update:
  "lookup_list (AList.update p xs al) q = (if q = p then xs else lookup_list al q)"
  by (simp add: lookup_list_def)

lemma link_edge_inv:
  assumes "link_inv N R s" and "finite N"
  shows "link_inv N (R \<union> ({(parent_table_id e, child_table_id e)} \<inter> N \<times> N)) (link_edge s e)"
proof -
  obtain ch ind where s: "s = (ch, ind)" by fastforce
  let ?p = "parent_table_id e" and ?c = "child_table_id e"
  note inv = assms(1) [unfolded link_inv_def s prod.case]
  have mem: "?c \<in> set (lookup_list ch ?p) \<longleftrightarrow> (?p, ?c) \<in> R" using inv by auto
  show ?thesis
  proof (cases "?p \<in> N \<and> ?c \<in> N \<and> (?p, ?c) \<notin> R")
    case True
    have fin: "finite {p. (p, c) \<in> R}" for c
      using inv assms(2) by (auto intro: finite_subset [of _ N])
    have "{p. p = ?p \<and> c = ?c \<or> (p, c) \<in> R} = (if c = ?c then insert ?p {p. (p, c) \<in> R} else {p. (p, c) \<in> R})" for c
      by auto
    then show ?thesis using True inv mem fin
      by (auto simp: link_inv_def link_edge_def s Let_def lookup_list_update update_keys
          simp del: set_map)
  next
    case False
    then have "R \<union> ({(?p, ?c)} \<inter> N \<times> N) = R" by auto
    moreover have "link_edge s e = s"
      using False inv mem by (auto simp: link_edge_def s Let_def)
    ultimately show ?thesis using assms(1) by simp
  qed
qed

lemma link_edges_inv:
  "link_inv (fst ` set tk) (selected tk edges) (link_edges tk edges)"
proof -
  have "link_inv N R s \<Longrightarrow> finite N \<Longrightarrow>
      link_inv N (R \<union> ({(p, c). \<exists>e \<in> set edges. parent_table_id e = p \<and> child_table_id e = c} \<inter> N \<times> N))
        (foldl link_edge s edges)" for N R s
  proof (induction edges arbitrary: R s)
    case (Cons e edges)
    have "link_inv N (R \<union> ({(parent_table_id e, child_table_id e)} \<inter> N \<times> N)) (link_edge s e)"
      using Cons.prems by (rule link_edge_inv)
    note IH = Cons.IH [OF this Cons.prems(2)]
    have "R \<union> ({(parent_table_id e, child_table_id e)} \<inter> N \<times> N) \<union>
        ({(p, c). \<exists>e \<in> set edges. parent_table_id e = p \<and> child_table_id e = c} \<inter> N \<times> N) =
        R \<union> ({(p, c). \<exists>e \<in> set (e # edges). parent_table_id e = p \<and> child_table_id e = c} \<inter> N \<times> N)"
      by auto
    then show ?case using IH by simp
  qed simp
  moreover have "link_inv (fst ` set tk) {} (map (\<lambda>(n, _). (n, [])) tk, \<lambda>_. 0)"
  proof -
    have "lookup_list (map (\<lambda>(n, _). (n, [])) tk) p = []" for p
      by (induction tk) (auto simp: lookup_list_def)
    then show ?thesis by (force simp: link_inv_def)
  qed
  ultimately have "link_inv (fst ` set tk)
      ({} \<union> ({(p, c). \<exists>e \<in> set edges. parent_table_id e = p \<and> child_table_id e = c} \<inter> (fst ` set tk) \<times> (fst ` set tk)))
      (link_edges tk edges)"
    unfolding link_edges_def by blast
  moreover have "{} \<union> ({(p, c). \<exists>e \<in> set edges. parent_table_id e = p \<and> child_table_id e = c} \<inter> (fst ` set tk) \<times> (fst ` set tk)) = selected tk edges"
    by (auto simp: selected_def)
  ultimately show ?thesis by simp
qed

subsection \<open>The main loop\<close>

lemma release_effect:
  assumes "release key cs (heap, ind) = (heap', ind')" and "distinct cs"
  shows "(\<forall>c. ind' c = ind c - (if c \<in> set cs then 1 else 0)) \<and>
    mset heap' = mset heap + mset (map key (filter (\<lambda>c. ind c = 1) cs)) \<and>
    (sorted heap \<longrightarrow> sorted heap')"
  using assms
proof (induction cs arbitrary: heap ind)
  case (Cons a cs)
  let ?ind = "ind(a := ind a - 1)"
  let ?heap = "if ?ind a = 0 then insort (key a) heap else heap"
  have "release key cs (?heap, ?ind) = (heap', ind')"
    using Cons.prems(1) by (simp only: release.simps Let_def)
  note IH = Cons.IH [OF this]
  have "filter (\<lambda>c. ?ind c = 1) cs = filter (\<lambda>c. ind c = 1) cs"
    using Cons.prems(2) by (intro filter_cong) auto
  then show ?case using IH Cons.prems(2) by (auto simp: sorted_insort)
qed simp

definition kahn_inv ::
  "pystr set \<Rightarrow> (pystr \<times> pystr) set \<Rightarrow> (pystr \<Rightarrow> table_key) \<Rightarrow> table_key list \<Rightarrow> (pystr \<Rightarrow> int) \<Rightarrow>
     pystr list \<Rightarrow> bool" where
  "kahn_inv N R key heap ind order \<longleftrightarrow>
     sorted heap \<and> distinct heap \<and> distinct order \<and> set order \<subseteq> N \<and>
     (\<forall>n. ind n = int (card {p. (p, n) \<in> R \<and> p \<notin> set order})) \<and>
     set heap = key ` available N R (set order) \<and> picks_least N R key order"

lemma picks_least_snoc:
  "picks_least N R key (order @ [x]) \<longleftrightarrow> picks_least N R key order \<and>
     x \<in> available N R (set order) \<and> (\<forall>n \<in> available N R (set order). key x \<le> key n)"
  by (auto simp: picks_least_def nth_append less_Suc_eq all_conj_distrib imp_disjL)

lemma kahn_step:
  assumes inv: "kahn_inv N R key (k # heap) ind order"
    and rel: "release key (sort_key key cs) (heap, ind) = (heap', ind')"
    and cs: "set cs = {c. (node, c) \<in> R}" "distinct cs"
    and k: "snd (snd k) = node" and key: "\<forall>n \<in> N. snd (snd (key n)) = n"
    and R: "R \<subseteq> N \<times> N" "finite N"
  shows "kahn_inv N R key heap' ind' (order @ [node])"
proof -
  note I = inv [unfolded kahn_inv_def]
  obtain n where "n \<in> available N R (set order)" "key n = k" using I by force
  then have node: "node \<in> available N R (set order)" "key node = k"
    using key k by (auto simp: available_def)
  then have N: "node \<in> N" "node \<notin> set order" by (auto simp: available_def)
  have least: "\<forall>n \<in> available N R (set order). key node \<le> key n"
  proof
    fix n assume "n \<in> available N R (set order)"
    then have "key n \<in> set (k # heap)" using I by blast
    then show "key node \<le> key n" using I node(2) by auto
  qed
  have fin: "finite {p. (p, c) \<in> R \<and> p \<notin> A}" for c A
    using R by (auto intro: finite_subset [of _ N])
  have dist: "distinct (sort_key key cs)" using cs(2) by simp
  have eff: "ind' c = ind c - (if c \<in> set (sort_key key cs) then 1 else 0)"
    "mset heap' = mset heap + mset (map key (filter (\<lambda>c. ind c = 1) (sort_key key cs)))"
    "sorted heap \<Longrightarrow> sorted heap'" for c
    using release_effect [OF rel dist] by blast+
  have card: "int (card {p. (p, c) \<in> R \<and> p \<notin> set order}) =
      int (card {p. (p, c) \<in> R \<and> p \<notin> set (order @ [node])}) + (if (node, c) \<in> R then 1 else 0)" for c
  proof -
    have "{p. (p, c) \<in> R \<and> p \<notin> set order} = {p. (p, c) \<in> R \<and> p \<notin> set (order @ [node])} \<union>
        (if (node, c) \<in> R then {node} else {})" using N by auto
    then show ?thesis using fin [of c "set (order @ [node])"] by (auto simp: card_insert_if)
  qed
  have ind': "ind' c = int (card {p. (p, c) \<in> R \<and> p \<notin> set (order @ [node])})" for c
    using eff(1) [of c] I card [of c] cs(1) by auto
  have zero: "n \<in> available N R A \<longleftrightarrow> n \<in> N \<and> n \<notin> A \<and> card {p. (p, n) \<in> R \<and> p \<notin> A} = 0" for n A
    using fin [of n A] by (auto simp: available_def)
  define new where "new = filter (\<lambda>c. ind c = 1) (sort_key key cs)"
  have new: "set new = {c. (node, c) \<in> R \<and> card {p. (p, c) \<in> R \<and> p \<notin> set (order @ [node])} = 0}"
    using I card cs(1) by (auto simp: new_def split: if_splits)
  have heap': "mset heap' = mset heap + mset (map key new)" using eff(2) by (simp add: new_def)
  have inj: "inj_on key N" using key by (metis inj_onI)
  have placed: "c \<in> N \<and> c \<notin> set (order @ [node])" if "c \<in> set new" for c
  proof -
    have c: "(node, c) \<in> R" using that new by auto
    have "c \<notin> set order"
    proof
      assume "c \<in> set order"
      then obtain i where i: "i < length order" "order ! i = c" by (auto simp: in_set_conv_nth)
      then have "c \<in> available N R (set (take i order))" using I by (auto simp: picks_least_def)
      then show False using c N(2) by (auto simp: available_def dest: in_set_takeD)
    qed
    moreover have "c \<noteq> node" using c node(1) N(2) by (auto simp: available_def)
    ultimately show ?thesis using c R(1) by auto
  qed
  have avail: "available N R (set (order @ [node])) = (available N R (set order) - {node}) \<union> set new"
  proof (intro set_eqI iffI)
    fix n assume n: "n \<in> available N R (set (order @ [node]))"
    then have "n \<noteq> node" "n \<notin> set order" "n \<in> N" by (auto simp: available_def)
    then show "n \<in> (available N R (set order) - {node}) \<union> set new"
      using n card [of n] by (auto simp: zero new split: if_splits)
  next
    fix n assume "n \<in> (available N R (set order) - {node}) \<union> set new"
    then consider "n \<in> set new" | "n \<in> available N R (set order)" "n \<noteq> node" by auto
    then show "n \<in> available N R (set (order @ [node]))"
    proof cases
      case 1
      then show ?thesis using placed [OF 1] new unfolding zero by auto
    next
      case 2
      then show ?thesis by (auto simp: available_def)
    qed
  qed
  have heap_set: "set heap = key ` (available N R (set order) - {node})"
  proof -
    have "set heap = set (k # heap) - {k}" using I by auto
    also have "\<dots> = key ` available N R (set order) - {key node}" using I node(2) by simp
    also have "\<dots> = key ` (available N R (set order) - {node})"
      using inj node(1) by (intro inj_on_image_set_diff [symmetric, where C = N, of key _ "{node}", simplified])
        (auto simp: available_def)
    finally show ?thesis .
  qed
  have disj: "set heap \<inter> key ` set new = {}"
  proof -
    have "n \<notin> set new" if "n \<in> available N R (set order)" for n
      using that new N(2) by (auto simp: available_def)
    then have "(available N R (set order) - {node}) \<inter> set new = {}" by blast
    moreover have "available N R (set order) - {node} \<subseteq> N" "set new \<subseteq> N"
      using placed by (auto simp: available_def)
    ultimately show ?thesis
      using heap_set inj_on_image_Int [OF inj, of "available N R (set order) - {node}" "set new"] by simp
  qed
  have "distinct new" using dist by (simp add: new_def)
  then have "distinct (map key new)" using placed inj by (auto simp: distinct_map intro: inj_on_subset)
  then have "distinct (heap @ map key new)" using I disj by auto
  moreover have "mset (heap @ map key new) = mset heap'" using heap' by simp
  ultimately have "distinct heap'" by (metis mset_eq_imp_distinct_iff)
  moreover have "set heap' = key ` available N R (set (order @ [node]))"
    using arg_cong [OF heap', of set_mset] heap_set avail by (simp add: image_Un)
  moreover have "sorted heap'" using eff(3) I by simp
  moreover have "picks_least N R key (order @ [node])"
    using I node(1) least by (simp add: picks_least_snoc)
  ultimately show ?thesis using I N ind' by (simp add: kahn_inv_def)
qed

lemma kahn_run:
  assumes "kahn_inv N R key heap ind order" and "\<forall>p. set (lookup_list children p) = {c. (p, c) \<in> R} \<and> distinct (lookup_list children p)"
    and "\<forall>n \<in> N. snd (snd (key n)) = n" and "R \<subseteq> N \<times> N" "finite N"
  shows "\<exists>ind'. kahn_inv N R key [] ind' (kahn key children heap ind order)"
  using assms
proof (induction key children heap ind order rule: kahn.induct)
  case (2 key children s t node heap ind order)
  obtain heap' ind' where rel: "release key (sort_key key (lookup_list children node)) (heap, ind) = (heap', ind')"
    by fastforce
  have "kahn_inv N R key heap' ind' (order @ [node])"
    using "2.prems" rel by (intro kahn_step [where k = "(s, t, node)" and cs = "lookup_list children node"]) auto
  then show ?case using "2.IH" [OF rel [symmetric]] "2.prems" rel by simp
qed auto

lemma kahn_start:
  assumes "keyed tk"
  shows "case link_edges tk edges of (children, indegrees) \<Rightarrow>
    kahn_inv (fst ` set tk) (selected tk edges) (key_of tk)
      (sort (map snd (filter (\<lambda>(n, _). indegrees n = 0) tk))) indegrees []"
proof -
  obtain ch ind where s: "link_edges tk edges = (ch, ind)" by fastforce
  let ?N = "fst ` set tk" and ?R = "selected tk edges"
  have ind: "ind n = int (card {p. (p, n) \<in> ?R})" for n
    using link_edges_inv [of tk edges] by (auto simp: link_inv_def s)
  have fin: "finite {p. (p, n) \<in> ?R}" for n
    by (rule finite_subset [of _ ?N]) (auto simp: selected_def)
  have dk: "distinct (map fst tk)" using assms by (simp add: keyed_def)
  have key: "(n, k) \<in> set tk \<Longrightarrow> key_of tk n = k" for n k
    using dk by (simp add: key_of_def)
  have last: "snd (snd (snd x)) = fst x" if "x \<in> set tk" for x
    using assms that by (auto simp: keyed_def)
  have "inj_on snd (set tk)"
  proof (rule inj_onI)
    fix x y assume "x \<in> set tk" "y \<in> set tk" "snd x = snd y"
    then show "x = y" using last [of x] last [of y] by (simp add: prod_eq_iff)
  qed
  then have "distinct (map snd tk)"
    using dk by (simp add: distinct_map)
  then have dist: "distinct (map snd (filter (\<lambda>(n, _). ind n = 0) tk))"
    by (rule distinct_map_filter)
  have avail: "available ?N ?R {} = {n \<in> ?N. ind n = 0}"
    using fin by (auto simp: available_def ind)
  have "snd ` set (filter (\<lambda>(n, _). ind n = 0) tk) = key_of tk ` available ?N ?R {}"
    unfolding avail by (force simp: key image_iff)
  then show ?thesis using dist
    by (simp add: kahn_inv_def s ind picks_least_def)
qed

lemma dependency_order_run:
  assumes "keyed tk"
  shows "\<exists>order. dependency_order tk edges = (if length order = length tk then Some order else None) \<and>
    distinct order \<and> set order \<subseteq> fst ` set tk \<and>
    available (fst ` set tk) (selected tk edges) (set order) = {} \<and>
    picks_least (fst ` set tk) (selected tk edges) (key_of tk) order"
proof -
  obtain ch ind where s: "link_edges tk edges = (ch, ind)" by fastforce
  let ?heap = "sort (map snd (filter (\<lambda>(n, _). ind n = 0) tk))"
  have start: "kahn_inv (fst ` set tk) (selected tk edges) (key_of tk) ?heap ind []"
    using kahn_start [OF assms, of edges] by (simp add: s)
  have "\<forall>n \<in> fst ` set tk. snd (snd (key_of tk n)) = n"
    using assms by (auto simp: keyed_def key_of_def split: option.splits dest!: map_of_SomeD)
  then obtain ind' where
    "kahn_inv (fst ` set tk) (selected tk edges) (key_of tk) [] ind' (kahn (key_of tk) ch ?heap ind [])"
    using kahn_run [OF start, of ch] link_edges_inv [of tk edges] by (auto simp: link_inv_def s)
  then show ?thesis
    by (intro exI [of _ "kahn (key_of tk) ch ?heap ind []"])
      (simp add: dependency_order_def s kahn_inv_def Let_def)
qed

subsection \<open>Uniqueness and cycles\<close>

lemma picks_least_unique:
  assumes "picks_least N R key xs" "available N R (set xs) = {}"
    and "picks_least N R key ys" "available N R (set ys) = {}" and "inj_on key N"
  shows "xs = ys"
proof -
  have same: "take i xs = take i ys" if "i \<le> length xs" "i \<le> length ys" for i
    using that
  proof (induction i)
    case (Suc i)
    then have i: "i < length xs" "i < length ys" and eq: "take i xs = take i ys" by auto
    have "xs ! i \<in> available N R (set (take i xs))" "ys ! i \<in> available N R (set (take i xs))"
      "key (xs ! i) \<le> key (ys ! i)" "key (ys ! i) \<le> key (xs ! i)"
      using assms(1,3) i eq by (auto simp: picks_least_def)
    then have "xs ! i = ys ! i"
      using assms(5) by (auto simp: available_def inj_on_def)
    then show ?case using i eq by (simp add: take_Suc_conv_app_nth)
  qed simp
  have no_longer: "length vs \<le> length us"
    if "picks_least N R key vs" "available N R (set us) = {}" "length us \<le> length vs \<Longrightarrow> take (length us) vs = us" for us vs
  proof (rule ccontr)
    assume "\<not> length vs \<le> length us"
    then have "vs ! length us \<in> available N R (set us)"
      using that(1,3) unfolding picks_least_def by (metis not_le_imp_less less_imp_le)
    then show False using that(2) by simp
  qed
  have "length ys \<le> length xs"
    by (rule no_longer [OF assms(3,2)]) (use same [of "length xs"] in simp)
  moreover have "length xs \<le> length ys"
    by (rule no_longer [OF assms(1,4)]) (use same [of "length ys"] in simp)
  ultimately have "length xs = length ys" by simp
  then show ?thesis using same [of "length xs"] by simp
qed

lemma available_empty_cycle:
  assumes "available N R A = {}" and "A \<subseteq> N" "finite N" "R \<subseteq> N \<times> N" and "acyclic R"
  shows "A = N"
proof (rule ccontr)
  assume "A \<noteq> N"
  then obtain x where x: "x \<in> N - A" using assms(2) by auto
  have "finite R" using assms(3,4) by (auto intro: finite_subset)
  then have "wf R" using assms(5) by (rule finite_acyclic_wf)
  then obtain z where z: "z \<in> N - A" "\<And>p. (p, z) \<in> R \<Longrightarrow> p \<notin> N - A"
    using x by (rule wfE_min) blast
  then have "z \<in> available N R A" using assms(4) by (auto simp: available_def)
  then show False using assms(1) by simp
qed

lemma picks_least_parents_first:
  assumes "picks_least N R key order" and "(p, order ! j) \<in> R" and "j < length order"
  shows "\<exists>i < j. order ! i = p"
proof -
  have "p \<in> set (take j order)" using assms by (auto simp: picks_least_def available_def)
  then show ?thesis using assms(3) by (auto simp: in_set_conv_nth)
qed

lemma picks_least_acyclic:
  assumes "picks_least N R key order" and "R \<subseteq> set order \<times> set order" and "distinct order"
  shows "acyclic R"
proof -
  have "R \<subseteq> inv_image less_than (\<lambda>n. THE i. i < length order \<and> order ! i = n)"
  proof
    fix e assume e: "e \<in> R"
    obtain p c where pc: "e = (p, c)" by fastforce
    then obtain j where j: "j < length order" "order ! j = c"
      using assms(2) e by (metis SigmaD2 in_set_conv_nth subsetD)
    then obtain i where i: "i < j" "order ! i = p"
      using picks_least_parents_first [OF assms(1), of p j] e pc by auto
    have "(THE k. k < length order \<and> order ! k = order ! m) = m" if "m < length order" for m
      using that assms(3) by (auto simp: nth_eq_iff_index_eq intro!: the_equality)
    then show "e \<in> inv_image less_than (\<lambda>n. THE i. i < length order \<and> order ! i = n)"
      using i j pc by (auto simp: in_inv_image dest!: sym [of "order ! _"])
  qed
  then have "wf R" by (rule wf_subset [rotated]) simp
  then show ?thesis by (rule wf_acyclic)
qed

lemma keyed_inj: "keyed tk \<Longrightarrow> inj_on (key_of tk) (fst ` set tk)"
  by (rule inj_on_inverseI [of _ "\<lambda>k. snd (snd k)"])
    (auto simp: keyed_def key_of_def split: option.splits dest!: map_of_SomeD)

lemma keyed_card: "keyed tk \<Longrightarrow> card (fst ` set tk) = length tk"
  by (metis distinct_card keyed_def length_map set_map)

lemma selected_sub: "selected tk edges \<subseteq> fst ` set tk \<times> fst ` set tk"
  by (auto simp: selected_def)

section \<open>Properties\<close>

text \<open>C23: A load order lists every selected table exactly once, every parent before all its children
  (edges that leave the selection ignored), and at each position it takes the table with the least
  (schema, name, id) key of those whose parents are all placed.\<close>

theorem dependency_order_parents_first:
  assumes "keyed tk" and "dependency_order tk edges = Some order"
  shows "distinct order \<and> set order = fst ` set tk \<and>
    (\<forall>j < length order. \<forall>p. (p, order ! j) \<in> selected tk edges \<longrightarrow> (\<exists>i < j. order ! i = p)) \<and>
    picks_least (fst ` set tk) (selected tk edges) (key_of tk) order"
proof -
  have run: "distinct order" "set order \<subseteq> fst ` set tk" "length order = length tk"
    "picks_least (fst ` set tk) (selected tk edges) (key_of tk) order"
    using dependency_order_run [OF assms(1), of edges] assms(2) by (auto split: if_splits)
  then have "card (set order) = card (fst ` set tk)"
    using keyed_card [OF assms(1)] by (simp add: distinct_card)
  then have "set order = fst ` set tk" using run(2) by (simp add: card_subset_eq)
  then show ?thesis using run picks_least_parents_first [OF run(4)] by blast
qed

definition ex_tables :: "(pystr \<times> table_key) list" where
  "ex_tables = [([3], [0], [2], [3]), ([1], [0], [1], [1]), ([2], [0], [0], [2])]"

definition ex_edge :: "pystr \<Rightarrow> pystr \<Rightarrow> fk_edge" where
  "ex_edge p c = \<lparr>parent_table_id = p, child_table_id = c, edge_key_id = [], parent_column_ids = [],
     child_column_ids = []\<rparr>"

lemmas order_simps = ex_tables_def ex_edge_def dependency_order_def link_edges_def link_edge_def
  lookup_list_def key_of_def keyed_def Let_def

theorem dependency_order_parents_first_witness:
  "let order = [[1], [3], [2]] in distinct order \<and> set order = fst ` set ex_tables \<and>
    (\<forall>j < length order. \<forall>p. (p, order ! j) \<in> selected ex_tables [ex_edge [3] [2], ex_edge [3] [2], ex_edge [9] [1]] \<longrightarrow>
       (\<exists>i < j. order ! i = p)) \<and>
    picks_least (fst ` set ex_tables) (selected ex_tables [ex_edge [3] [2], ex_edge [3] [2], ex_edge [9] [1]])
      (key_of ex_tables) order"
  unfolding Let_def
  by (rule dependency_order_parents_first) (simp_all add: order_simps)

text \<open>C24: No order is returned exactly when the selected dependencies have a cycle, a table that
  references itself included.\<close>

theorem dependency_order_none_iff_cycle:
  assumes "keyed tk"
  shows "dependency_order tk edges = None \<longleftrightarrow> \<not> acyclic (selected tk edges)"
proof -
  obtain order where run: "dependency_order tk edges = (if length order = length tk then Some order else None)"
    "distinct order" "set order \<subseteq> fst ` set tk"
    "available (fst ` set tk) (selected tk edges) (set order) = {}"
    "picks_least (fst ` set tk) (selected tk edges) (key_of tk) order"
    using dependency_order_run [OF assms, of edges] by blast
  have full: "length order = length tk \<longleftrightarrow> set order = fst ` set tk"
    using run(3) keyed_card [OF assms] distinct_card [OF run(2)]
      card_subset_eq [of "fst ` set tk" "set order"] by auto
  have "set order = fst ` set tk" if "acyclic (selected tk edges)"
    using available_empty_cycle [OF run(4,3) _ selected_sub that] by simp
  moreover have "acyclic (selected tk edges)" if "set order = fst ` set tk"
    using picks_least_acyclic [OF run(5) _ run(2)] selected_sub [of tk edges] that by simp
  ultimately show ?thesis using run(1) full by auto
qed

theorem dependency_order_none_iff_cycle_witness:
  "\<not> acyclic (selected ex_tables [ex_edge [3] [2], ex_edge [2] [3]])"
proof -
  have "keyed ex_tables" by (simp add: order_simps)
  moreover have "dependency_order ex_tables [ex_edge [3] [2], ex_edge [2] [3]] = None"
    by (simp add: order_simps)
  ultimately show ?thesis using dependency_order_none_iff_cycle by blast
qed

text \<open>The order depends only on the set of tables with their keys and on the set of selected
  pairs: neither the order in which they come nor repeated foreign keys change it.\<close>

theorem dependency_order_deterministic:
  assumes "keyed tk" and "keyed tk'" and "set tk = set tk'" and "selected tk edges = selected tk' edges'"
  shows "dependency_order tk edges = dependency_order tk' edges'"
proof -
  have "map_of tk = map_of tk'"
    using assms(1,2,3) by (intro map_of_inject_set [THEN iffD2]) (simp_all add: keyed_def)
  then have key: "key_of tk = key_of tk'" by (simp add: key_of_def fun_eq_iff)
  have len: "length tk = length tk'"
    using assms(3) keyed_card [OF assms(1)] keyed_card [OF assms(2)] by simp
  obtain us vs where
    us: "dependency_order tk edges = (if length us = length tk then Some us else None)"
      "available (fst ` set tk) (selected tk edges) (set us) = {}"
      "picks_least (fst ` set tk) (selected tk edges) (key_of tk) us" and
    vs: "dependency_order tk' edges' = (if length vs = length tk then Some vs else None)"
      "available (fst ` set tk) (selected tk edges) (set vs) = {}"
      "picks_least (fst ` set tk) (selected tk edges) (key_of tk) vs"
    using dependency_order_run [OF assms(1), of edges] dependency_order_run [OF assms(2), of edges']
    by (auto simp: assms(3,4) key len simp del: if_split)
  have "us = vs" using picks_least_unique [OF us(3,2) vs(3,2) keyed_inj [OF assms(1)]] .
  then show ?thesis using us(1) vs(1) by simp
qed

theorem dependency_order_deterministic_witness:
  "dependency_order ex_tables [ex_edge [3] [2], ex_edge [1] [2], ex_edge [3] [2]] =
   dependency_order (rev ex_tables) [ex_edge [1] [2], ex_edge [3] [2]]"
  by (rule dependency_order_deterministic) (auto simp: keyed_def ex_tables_def ex_edge_def selected_def)

end
