(* ===== verification/Pipeline_State.thy ===== *)
theory Pipeline_State
  imports Prelude
begin

text \<open>
  The run status machine of \<open>pipeline/state.py\<close>: the statuses of \<open>contracts/common.py\<close>, the terminal
  ones, the table of edges and \<open>check_transition\<close>, which every stage of a run passes through.
\<close>

section \<open>The machine\<close>

datatype pipeline_status =
    CREATED | SOURCE_PROBING | TECHNICAL_PARSING | STRUCTURE_PROFILING | STRUCTURE_ANALYZING
  | PARSE_PLAN_CREATED | PARSE_PLAN_VALIDATING | SEMANTIC_PARSING | NORMALIZED_DATA_PROFILING
  | DATABASE_INSPECTING | MAPPING | MAPPING_PLAN_CREATED | MAPPING_PLAN_VALIDATING | NORMALIZING
  | VALIDATING | STAGING | LOADING | COMPLETED | COMPLETED_WITH_WARNINGS | NEEDS_REVIEW
  | REJECTED_SECURITY | ROLLED_BACK | FAILED | CANCELLED

datatype pipeline_error = SDK_INVALID_TRANSITION

definition terminal_statuses :: "pipeline_status list" where
  "terminal_statuses = [COMPLETED, COMPLETED_WITH_WARNINGS, NEEDS_REVIEW, REJECTED_SECURITY,
     ROLLED_BACK, FAILED, CANCELLED]"

definition edges :: "(pipeline_status \<times> pipeline_status list) list" where
  "edges =
    [(CREATED, [SOURCE_PROBING, DATABASE_INSPECTING]),
     (SOURCE_PROBING, [TECHNICAL_PARSING]),
     (TECHNICAL_PARSING, [STRUCTURE_PROFILING]),
     (STRUCTURE_PROFILING, [STRUCTURE_ANALYZING]),
     (STRUCTURE_ANALYZING, [PARSE_PLAN_CREATED]),
     (PARSE_PLAN_CREATED, [PARSE_PLAN_VALIDATING]),
     (PARSE_PLAN_VALIDATING, [SEMANTIC_PARSING]),
     (SEMANTIC_PARSING, [NORMALIZED_DATA_PROFILING]),
     (NORMALIZED_DATA_PROFILING, [DATABASE_INSPECTING]),
     (DATABASE_INSPECTING, [MAPPING, MAPPING_PLAN_CREATED]),
     (MAPPING, [MAPPING_PLAN_CREATED]),
     (MAPPING_PLAN_CREATED, [MAPPING_PLAN_VALIDATING]),
     (MAPPING_PLAN_VALIDATING, [NORMALIZING]),
     (NORMALIZING, [VALIDATING]),
     (VALIDATING, [STAGING]),
     (STAGING, [LOADING]),
     (LOADING, [])]"

definition check_transition :: "pipeline_status \<Rightarrow> pipeline_status \<Rightarrow> pipeline_error + unit" where
  "check_transition current following =
     (let allowed = (case find (\<lambda>(source, _). source = current) edges of
                       None \<Rightarrow> [] | Some (_, targets) \<Rightarrow> targets) in
      if current \<in> set terminal_statuses \<or>
         (following \<notin> set allowed \<and> following \<notin> set terminal_statuses)
      then Inl SDK_INVALID_TRANSITION else Inr ())"

section \<open>Runs\<close>

inductive pipeline_step :: "pipeline_status \<Rightarrow> pipeline_status \<Rightarrow> bool" where
  "check_transition a b = Inr () \<Longrightarrow> pipeline_step a b"

inductive_cases pipeline_step_elim: "pipeline_step a b"

text \<open>How far a status is from the start: every permitted transition increases it.\<close>

fun stage_rank :: "pipeline_status \<Rightarrow> nat" where
  "stage_rank CREATED = 0" | "stage_rank SOURCE_PROBING = 1" | "stage_rank TECHNICAL_PARSING = 2"
| "stage_rank STRUCTURE_PROFILING = 3" | "stage_rank STRUCTURE_ANALYZING = 4"
| "stage_rank PARSE_PLAN_CREATED = 5" | "stage_rank PARSE_PLAN_VALIDATING = 6"
| "stage_rank SEMANTIC_PARSING = 7" | "stage_rank NORMALIZED_DATA_PROFILING = 8"
| "stage_rank DATABASE_INSPECTING = 9" | "stage_rank MAPPING = 10"
| "stage_rank MAPPING_PLAN_CREATED = 11" | "stage_rank MAPPING_PLAN_VALIDATING = 12"
| "stage_rank NORMALIZING = 13" | "stage_rank VALIDATING = 14" | "stage_rank STAGING = 15"
| "stage_rank LOADING = 16" | "stage_rank _ = 17"

lemmas transition_simps = check_transition_def edges_def terminal_statuses_def Let_def

lemma transition_targets:
  assumes "check_transition a b = Inr ()"
  shows "a \<notin> set terminal_statuses \<and> ((\<exists>ts. (a, ts) \<in> set edges \<and> b \<in> set ts) \<or> b \<in> set terminal_statuses)"
  using assms
  by (fastforce simp: check_transition_def Let_def find_Some_iff in_set_conv_nth split: if_splits option.splits)

lemma edges_rank: "list_all (\<lambda>(a, ts). list_all (\<lambda>b. stage_rank a < stage_rank b) ts) edges"
  by (simp add: edges_def)

lemma terminal_rank: "stage_rank a \<le> 17 \<and> (stage_rank a = 17 \<longleftrightarrow> a \<in> set terminal_statuses)"
  by (cases a) (simp_all add: terminal_statuses_def)

lemma transition_rank: "check_transition a b = Inr () \<Longrightarrow> stage_rank a < stage_rank b"
  using transition_targets [of a b] edges_rank terminal_rank [of a] terminal_rank [of b]
  by (fastforce simp: list_all_iff)

lemma transition_from_terminal: "a \<in> set terminal_statuses \<Longrightarrow> check_transition a b \<noteq> Inr ()"
  by (simp add: transition_simps)

text \<open>The gate between two statuses: \<open>LOADING\<close> is entered from \<open>STAGING\<close>, that from \<open>VALIDATING\<close>, \<dots>\<close>

fun load_gate :: "pipeline_status \<Rightarrow> pipeline_status option" where
  "load_gate LOADING = Some STAGING"
| "load_gate STAGING = Some VALIDATING"
| "load_gate VALIDATING = Some NORMALIZING"
| "load_gate NORMALIZING = Some MAPPING_PLAN_VALIDATING"
| "load_gate MAPPING_PLAN_VALIDATING = Some MAPPING_PLAN_CREATED"
| "load_gate _ = None"

lemma edges_gate: "list_all (\<lambda>(a, ts). list_all (\<lambda>b. load_gate b = None \<or> load_gate b = Some a) ts) edges"
  by (simp add: edges_def)

lemma terminal_gate: "list_all (\<lambda>b. load_gate b = None) terminal_statuses"
  by (simp add: terminal_statuses_def)

lemma transition_gate: "check_transition a b = Inr () \<Longrightarrow> load_gate b = Some g \<Longrightarrow> a = g"
  using transition_targets [of a b] edges_gate terminal_gate by (fastforce simp: list_all_iff)

text \<open>A run as the list of its statuses, newest first.\<close>

inductive pipeline_run :: "pipeline_status list \<Rightarrow> bool" where
  start: "pipeline_run [CREATED]"
| step: "pipeline_run (a # trace) \<Longrightarrow> pipeline_step a b \<Longrightarrow> pipeline_run (b # a # trace)"

lemma pipeline_run_sorted: "pipeline_run trace \<Longrightarrow> sorted_wrt (>) (map stage_rank trace)"
proof (induction rule: pipeline_run.induct)
  case (step a trace b)
  then have "stage_rank a < stage_rank b" by (auto elim: pipeline_step_elim dest: transition_rank)
  then show ?case using step.IH by auto
qed simp

lemma pipeline_run_gate:
  "pipeline_run trace \<Longrightarrow> b \<in> set trace \<Longrightarrow> load_gate b = Some g \<Longrightarrow> g \<in> set trace"
proof (induction rule: pipeline_run.induct)
  case (step a trace c)
  then show ?case by (auto elim!: pipeline_step_elim dest: transition_gate)
qed simp

lemma pipeline_run_head:
  assumes "pipeline_run (b # ws)" and "load_gate b = Some g"
  shows "\<exists>vs. ws = g # vs \<and> pipeline_run (g # vs)"
  using assms(1)
proof (cases rule: pipeline_run.cases)
  case start
  then show ?thesis using assms(2) by simp
next
  case (step a vs)
  then have "a = g" using assms(2) by (auto elim!: pipeline_step_elim dest: transition_gate)
  then show ?thesis using step by simp
qed

section \<open>Properties\<close>


lemma ex_failed_run:
  "pipeline_run [FAILED, MAPPING, DATABASE_INSPECTING, CREATED]"
  by (intro pipeline_run.intros pipeline_step.intros) (simp_all add: transition_simps)


text \<open>C33: No run reaches \<open>LOADING\<close> without having passed, in this order, the creation and the
  validation of its mapping plan, normalisation, validation and staging.\<close>

theorem loading_passes_gates:
  assumes "pipeline_run trace" and "LOADING \<in> set trace"
  shows "\<exists>pre post. trace = pre @ [LOADING, STAGING, VALIDATING, NORMALIZING, MAPPING_PLAN_VALIDATING,
    MAPPING_PLAN_CREATED] @ post"
proof -
  have gate: "\<exists>us vs. t = us @ [b, g] @ vs \<and> pipeline_run (g # vs)"
    if "pipeline_run t" "b \<in> set t" "load_gate b = Some g" for t b g
    using that
  proof (induction rule: pipeline_run.induct)
    case (step a trace c)
    show ?case
    proof (cases "b = c")
      case True
      then have "a = g" using step.hyps(2) step.prems(2) by (auto elim!: pipeline_step_elim dest: transition_gate)
      then show ?thesis using True step.hyps(1) by (metis append_Cons append_Nil)
    next
      case False
      then obtain us vs where "a # trace = us @ [b, g] @ vs" "pipeline_run (g # vs)"
        using step by auto
      then show ?thesis by (metis append_Cons)
    qed
  qed simp
  note hd = pipeline_run_head
  obtain us v1 where 1: "trace = us @ [LOADING, STAGING] @ v1" "pipeline_run (STAGING # v1)"
    using gate [OF assms, of STAGING] by auto
  obtain v2 where 2: "v1 = VALIDATING # v2" "pipeline_run (VALIDATING # v2)"
    using hd [OF 1(2), of VALIDATING] by auto
  obtain v3 where 3: "v2 = NORMALIZING # v3" "pipeline_run (NORMALIZING # v3)"
    using hd [OF 2(2), of NORMALIZING] by auto
  obtain v4 where 4: "v3 = MAPPING_PLAN_VALIDATING # v4" "pipeline_run (MAPPING_PLAN_VALIDATING # v4)"
    using hd [OF 3(2), of MAPPING_PLAN_VALIDATING] by auto
  obtain v5 where 5: "v4 = MAPPING_PLAN_CREATED # v5"
    using hd [OF 4(2), of MAPPING_PLAN_CREATED] by auto
  show ?thesis using 1(1) 2(1) 3(1) 4(1) 5 by (intro exI [of _ us] exI [of _ v5]) simp
qed

definition ex_loading_run :: "pipeline_status list" where
  "ex_loading_run = [COMPLETED, LOADING, STAGING, VALIDATING, NORMALIZING, MAPPING_PLAN_VALIDATING,
     MAPPING_PLAN_CREATED, DATABASE_INSPECTING, CREATED]"

theorem loading_passes_gates_witness:
  "\<exists>pre post. ex_loading_run = pre @ [LOADING, STAGING, VALIDATING, NORMALIZING,
     MAPPING_PLAN_VALIDATING, MAPPING_PLAN_CREATED] @ post"
proof (rule loading_passes_gates)
  show "pipeline_run ex_loading_run"
    unfolding ex_loading_run_def
    by (intro pipeline_run.intros pipeline_step.intros) (simp_all add: transition_simps)
qed (simp add: ex_loading_run_def)

end
