(* ===== verification/LLM_Contracts.thy ===== *)
theory LLM_Contracts
  imports Prelude
begin

text \<open>
  Contracts of the LLM boundary: \<open>contracts/llm.py\<close>, the provider capabilities, request and response
  of \<open>contracts/reports.py\<close>, and the boundary checks of \<open>llm/_boundary.py\<close>. Content hashes are
  parameters; the canonical JSON of payloads is opaque text.
\<close>

section \<open>Enumerations\<close>

datatype environment = ENV_UNKNOWN | ENV_LOCAL | ENV_CLOUD | ENV_DISABLED

datatype llm_code =
    LLM_TIMEOUT | LLM_RATE_LIMIT | LLM_UNAVAILABLE | LLM_INVALID_RESPONSE | LLM_REQUEST_INVALID
  | LLM_CAPABILITY_MISMATCH | LLM_CONTEXT_LIMIT | LLM_POLICY_DENIED | LLM_SCRIPT_EXHAUSTED
  | LLM_SCRIPT_MISMATCH | LLM_AUTHENTICATION_FAILED | LLM_SCHEMA_VIOLATION | LLM_BUDGET_EXCEEDED
  | LLM_UNKNOWN_SOURCE_REFERENCE | LLM_UNSAFE_CONTENT | LLM_SECURITY_REVIEW_REQUIRED

datatype classification = PUBLIC | INTERNAL | CONFIDENTIAL | RESTRICTED

datatype llm_purpose = Semantic_Parsing | Semantic_Mapping

datatype injection_action = OBSERVE | LOCAL_ONLY_ROUTE | REVIEW_INJECTION | BLOCK_INJECTION

datatype routing_mode = FIXED | NO_LLM | LOCAL_ONLY | PRIVACY_FIRST | FALLBACK

datatype call_outcome = Call_Success | Call_Failed | Call_Cancelled

section \<open>Routing policy\<close>

record llm_budget =
  max_calls :: int
  max_tokens :: int
  max_time_ms :: int

record route_policy =
  capabilities_fingerprint :: pystr
  allowed_classifications :: "classification list"

record routing_policy =
  policy_id :: pystr
  mode :: routing_mode
  routes :: "route_policy list"
  budget :: llm_budget

definition valid_budget :: "llm_budget \<Rightarrow> bool" where
  "valid_budget b \<longleftrightarrow> 0 < max_calls b \<and> max_calls b \<le> 1000 \<and>
     0 < max_tokens b \<and> max_tokens b \<le> 100000000 \<and> 0 < max_time_ms b \<and> max_time_ms b \<le> 300000"

definition valid_route :: "route_policy \<Rightarrow> bool" where
  "valid_route r \<longleftrightarrow> allowed_classifications r \<noteq> [] \<and> distinct (allowed_classifications r)"

definition valid_routing_policy :: "routing_policy \<Rightarrow> bool" where
  "valid_routing_policy p \<longleftrightarrow> valid_budget (budget p) \<and> list_all valid_route (routes p) \<and>
     length (routes p) \<le> 16 \<and>
     (if mode p = NO_LLM then routes p = []
      else routes p \<noteq> [] \<and> (mode p = FIXED \<longrightarrow> length (routes p) = 1) \<and>
           distinct (map capabilities_fingerprint (routes p)))"

section \<open>Providers\<close>

record capabilities =
  provider_id :: pystr
  provider_version :: pystr
  model_id :: pystr
  deployment_fingerprint :: "pystr option"
  structured_output :: bool
  supported_purposes :: "llm_purpose list"
  cap_max_input_bytes :: int
  cap_max_output_bytes :: int
  json_schema :: bool
  tool_calling :: bool
  execution_environment :: environment
  max_input_tokens :: "int option"
  max_output_tokens :: "int option"
  context_window_tokens :: "int option"

definition token_field :: "int option \<Rightarrow> bool" where
  "token_field x = (case x of None \<Rightarrow> True | Some n \<Rightarrow> 0 < n \<and> n \<le> 10000000)"

definition within_window :: "int option \<Rightarrow> int \<Rightarrow> bool" where
  "within_window x window = (case x of None \<Rightarrow> True | Some n \<Rightarrow> n \<le> window)"

definition valid_capabilities :: "capabilities \<Rightarrow> bool" where
  "valid_capabilities c \<longleftrightarrow>
     0 \<le> cap_max_input_bytes c \<and> cap_max_input_bytes c \<le> 1048576 \<and>
     0 \<le> cap_max_output_bytes c \<and> cap_max_output_bytes c \<le> 1048576 \<and>
     token_field (max_input_tokens c) \<and> token_field (max_output_tokens c) \<and>
     token_field (context_window_tokens c) \<and>
     (if execution_environment c = ENV_DISABLED
      then \<not> structured_output c \<and> \<not> json_schema c \<and> \<not> tool_calling c \<and> supported_purposes c = [] \<and>
           cap_max_input_bytes c = 0 \<and> cap_max_output_bytes c = 0 \<and> max_input_tokens c = None \<and>
           max_output_tokens c = None \<and> context_window_tokens c = None
      else structured_output c \<and> supported_purposes c \<noteq> [] \<and> distinct (supported_purposes c) \<and>
           cap_max_input_bytes c \<noteq> 0 \<and> cap_max_output_bytes c \<noteq> 0 \<and>
           (case context_window_tokens c of None \<Rightarrow> True
            | Some w \<Rightarrow> within_window (max_input_tokens c) w \<and> within_window (max_output_tokens c) w))"

section \<open>Requests and responses\<close>

record llm_prompt =
  prompt_id :: pystr
  prompt_version :: pystr
  prompt_hash :: pystr

text \<open>The fields of the approving \<open>SecurityReport\<close> that the request and the routes are checked against.\<close>

record approval =
  ap_run_id :: pystr
  ap_purpose :: string
  ap_decision :: string
  ap_content_fingerprint :: pystr
  ap_payload_fingerprint :: pystr
  ap_classification :: classification
  ap_routing_policy_id :: pystr
  ap_routing_policy_fingerprint :: pystr
  ap_redaction_fingerprint :: pystr
  ap_injection :: "injection_action option"

record llm_request =
  request_id :: pystr
  req_run_id :: pystr
  purpose :: llm_purpose
  response_schema_id :: pystr
  response_schema_version :: pystr
  payload_json :: pystr
  payload_fingerprint :: pystr
  content_fingerprint :: pystr
  data_classification :: classification
  routing_policy_id :: pystr
  routing_policy_fingerprint :: pystr
  redaction_fingerprint :: pystr
  security_approval :: approval
  prompt_fingerprint :: pystr
  prompt :: "llm_prompt option"
  max_output_bytes :: int

record llm_response =
  resp_request_id :: pystr
  resp_provider_id :: pystr
  resp_provider_version :: pystr
  resp_model_id :: pystr
  resp_schema_id :: pystr
  resp_schema_version :: pystr
  output_json :: pystr
  output_bytes :: int            \<comment> \<open>\<open>len(output_json.encode())\<close>\<close>
  resp_prompt_fingerprint :: pystr
  resp_prompt :: "llm_prompt option"
  generation_fingerprint :: pystr
  input_tokens :: int
  output_tokens :: int

definition valid_request :: "(pystr \<Rightarrow> pystr) \<Rightarrow> llm_request \<Rightarrow> bool" where
  "valid_request json_hash r \<longleftrightarrow>
     (case prompt r of None \<Rightarrow> True | Some p \<Rightarrow> prompt_hash p = prompt_fingerprint r) \<and>
     payload_fingerprint r = json_hash (payload_json r) \<and>
     ap_decision (security_approval r) = ''allowed'' \<and>
     ap_run_id (security_approval r) = req_run_id r \<and>
     ap_purpose (security_approval r) = ''llm_input'' \<and>
     ap_content_fingerprint (security_approval r) = content_fingerprint r \<and>
     ap_payload_fingerprint (security_approval r) = payload_fingerprint r \<and>
     ap_classification (security_approval r) = data_classification r \<and>
     ap_routing_policy_id (security_approval r) = routing_policy_id r \<and>
     ap_routing_policy_fingerprint (security_approval r) = routing_policy_fingerprint r \<and>
     ap_redaction_fingerprint (security_approval r) = redaction_fingerprint r"

definition valid_response :: "(pystr \<Rightarrow> pystr) \<Rightarrow> llm_response \<Rightarrow> bool" where
  "valid_response json_hash r \<longleftrightarrow>
     (case resp_prompt r of None \<Rightarrow> True | Some p \<Rightarrow> prompt_hash p = resp_prompt_fingerprint r) \<and>
     generation_fingerprint r = json_hash (output_json r) \<and> 0 \<le> input_tokens r \<and> 0 \<le> output_tokens r"

section \<open>Call records\<close>

record call_record =
  rec_attempt :: int
  rec_request_fingerprint :: pystr
  rec_capabilities_fingerprint :: pystr
  rec_prompt :: llm_prompt
  rec_outcome :: call_outcome
  rec_error_code :: "llm_code option"
  rec_generation_fingerprint :: "pystr option"
  rec_input_tokens :: "int option"
  rec_output_tokens :: "int option"
  rec_elapsed_ms :: int
  rec_started_at :: int      \<comment> \<open>microseconds\<close>
  rec_finished_at :: int
  rec_provider_id :: "pystr option"
  rec_provider_version :: "pystr option"
  rec_model_id :: "pystr option"
  rec_fallback_reason :: "llm_code option"
  rec_reserved_tokens :: int

text \<open>Field bounds and \<open>_validate_outcome\<close>.\<close>

definition valid_call_record :: "call_record \<Rightarrow> bool" where
  "valid_call_record c \<longleftrightarrow>
     0 < rec_attempt c \<and> 0 \<le> rec_elapsed_ms c \<and> rec_elapsed_ms c \<le> 300000 \<and>
     0 \<le> rec_reserved_tokens c \<and>
     (case rec_input_tokens c of None \<Rightarrow> True | Some n \<Rightarrow> 0 \<le> n) \<and>
     (case rec_output_tokens c of None \<Rightarrow> True | Some n \<Rightarrow> 0 \<le> n) \<and>
     rec_finished_at c - rec_started_at c = rec_elapsed_ms c * 1000 \<and>
     (if rec_outcome c = Call_Success
      then rec_error_code c = None \<and> rec_generation_fingerprint c \<noteq> None
      else rec_generation_fingerprint c = None) \<and>
     (rec_outcome c = Call_Failed \<longleftrightarrow> rec_error_code c \<noteq> None) \<and>
     (rec_input_tokens c = None \<longleftrightarrow> rec_output_tokens c = None) \<and>
     (rec_provider_id c = None \<longleftrightarrow> rec_provider_version c = None) \<and>
     (rec_provider_id c = None \<longleftrightarrow> rec_model_id c = None)"

definition make_call_record ::
  "(llm_request \<Rightarrow> pystr) \<Rightarrow> (capabilities \<Rightarrow> pystr) \<Rightarrow> llm_request \<Rightarrow> capabilities \<Rightarrow> int \<Rightarrow> int \<Rightarrow> int \<Rightarrow>
     llm_response option \<Rightarrow> llm_code option \<Rightarrow> llm_code option \<Rightarrow> int \<Rightarrow> call_record option" where
  "make_call_record sha_request sha_caps req caps attempt started_at elapsed_ms response error
       fallback_reason reserved =
     (case prompt req of None \<Rightarrow> None
      | Some p \<Rightarrow> Some
         \<lparr>rec_attempt = attempt, rec_request_fingerprint = sha_request req,
          rec_capabilities_fingerprint = sha_caps caps, rec_prompt = p,
          rec_outcome = (if response \<noteq> None then Call_Success
                         else if error \<noteq> None then Call_Failed else Call_Cancelled),
          rec_error_code = error,
          rec_generation_fingerprint = map_option generation_fingerprint response,
          rec_input_tokens = map_option input_tokens response,
          rec_output_tokens = map_option output_tokens response,
          rec_elapsed_ms = elapsed_ms, rec_started_at = started_at,
          rec_finished_at = started_at + elapsed_ms * 1000,
          rec_provider_id = Some (provider_id caps),
          rec_provider_version = Some (provider_version caps), rec_model_id = Some (model_id caps),
          rec_fallback_reason = fallback_reason, rec_reserved_tokens = reserved\<rparr>)"

section \<open>Boundary checks\<close>

definition checked_request :: "(pystr \<Rightarrow> pystr) \<Rightarrow> llm_request \<Rightarrow> llm_code + llm_request" where
  "checked_request json_hash r =
     (if \<not> valid_request json_hash r then Inl LLM_REQUEST_INVALID
      else if prompt r = None then Inl LLM_REQUEST_INVALID else Inr r)"

definition checked_capabilities :: "capabilities \<Rightarrow> llm_code + capabilities" where
  "checked_capabilities c = (if valid_capabilities c then Inr c else Inl LLM_POLICY_DENIED)"

definition injection_local_only :: "llm_request \<Rightarrow> bool" where
  "injection_local_only r \<longleftrightarrow> ap_injection (security_approval r) = Some LOCAL_ONLY_ROUTE"

definition enforce_security_route :: "llm_request \<Rightarrow> capabilities \<Rightarrow> llm_code + unit" where
  "enforce_security_route r c =
     (if execution_environment c \<notin> set [ENV_LOCAL, ENV_CLOUD] \<or> tool_calling c \<or>
         (data_classification r = RESTRICTED \<and> execution_environment c \<noteq> ENV_LOCAL) \<or>
         (injection_local_only r \<and> execution_environment c \<noteq> ENV_LOCAL)
      then Inl LLM_POLICY_DENIED else Inr ())"

text \<open>
  What a provider does when asked: return a response, raise a provider error (\<open>None\<close> is a code that
  is not in the list of codes), time out by itself, or fail in another way.
\<close>

datatype provider_reply =
    Reply llm_response
  | Provider_Raises "llm_code option"
  | Provider_Times_Out
  | Provider_Crashes
  | Provider_Cancelled     \<comment> \<open>\<open>CancelledError\<close>, or a \<open>BaseException\<close> that is no \<open>Exception\<close>\<close>

datatype generation = Generated llm_response | Refused llm_code | Interrupted

fun sanitized :: "llm_code option \<Rightarrow> llm_code" where
  "sanitized None = LLM_INVALID_RESPONSE"
| "sanitized (Some c) = c"

definition checked_generation :: "llm_request \<Rightarrow> capabilities \<Rightarrow> provider_reply \<Rightarrow> generation" where
  "checked_generation r caps reply =
     (case checked_capabilities caps of
        Inl e \<Rightarrow> Refused e
      | Inr c \<Rightarrow> (case enforce_security_route r c of
          Inl e \<Rightarrow> Refused e
        | Inr _ \<Rightarrow> (case reply of
            Reply response \<Rightarrow> Generated response
          | Provider_Raises code \<Rightarrow> Refused (sanitized code)
          | Provider_Times_Out \<Rightarrow> Refused LLM_TIMEOUT
          | Provider_Crashes \<Rightarrow> Refused LLM_UNAVAILABLE
          | Provider_Cancelled \<Rightarrow> Interrupted)))"

lemma enforce_ok_local:
  "enforce_security_route r c = Inr () \<Longrightarrow> data_classification r = RESTRICTED \<or> injection_local_only r \<Longrightarrow>
     execution_environment c = ENV_LOCAL"
  by (auto simp: enforce_security_route_def split: if_splits)

lemma make_call_record_valid:
  assumes "make_call_record sr sc req caps attempt started elapsed response error reason reserved = Some c"
    and "0 < attempt" "0 \<le> elapsed" "elapsed \<le> 300000" "0 \<le> reserved"
    and "response = None \<or> error = None"
    and "\<forall>r. response = Some r \<longrightarrow> 0 \<le> input_tokens r \<and> 0 \<le> output_tokens r"
  shows "valid_call_record c"
proof -
  obtain p where p: "prompt req = Some p" using assms(1) by (auto simp: make_call_record_def split: option.splits)
  show ?thesis
  proof (cases response)
    case None
    show ?thesis using assms(1-5) p None
      by (cases error) (simp_all only: make_call_record_def valid_call_record_def option.case option.inject
        option.map simp_thms, clarsimp+)
  next
    case (Some r)
    then have "error = None" "0 \<le> input_tokens r" "0 \<le> output_tokens r" using assms(6,7) by simp_all
    then show ?thesis using assms(1-5) p Some
      by (simp only: make_call_record_def valid_call_record_def option.case option.inject option.map, clarsimp)
  qed
qed

end
