(* ===== verification/LLM_Router.thy ===== *)
theory LLM_Router
  imports LLM_Contracts Complex_Main
begin

text \<open>
  \<open>PolicyAwareLLMRouter\<close> of \<open>llm/router.py\<close>: route selection under the policy, the run budget, one
  attempt and the fallback loop. The world outside the router is an environment: monotonic readings,
  and for each attempt what the provider declares, when it starts and what it does. A shared
  \<open>LLMResourceGuard\<close> is an optional pair of methods on a state \<open>'g\<close> of its own.
\<close>

section \<open>State and environment\<close>

record attempt_env =
  ae_caps_before :: capabilities     \<comment> \<open>\<open>provider.capabilities\<close> in the loop\<close>
  ae_caps_during :: capabilities     \<comment> \<open>the same in \<open>checked_generation\<close>\<close>
  ae_reply :: provider_reply
  ae_deadline_fires :: bool          \<comment> \<open>\<open>asyncio.timeout\<close> ends the await\<close>
  ae_started_at :: int

record 'g guard =
  guard_reserve :: "int \<Rightarrow> 'g \<Rightarrow> (unit + unit) \<times> 'g"
  guard_remaining :: "'g \<Rightarrow> (unit + rat) \<times> 'g"

record 'g router_env =
  re_policy :: routing_policy
  re_caps :: "capabilities list"
  re_run_id :: pystr
  re_mono :: "nat \<Rightarrow> rat"
  re_attempt :: "nat \<Rightarrow> nat \<Rightarrow> attempt_env"   \<comment> \<open>route index, readings taken so far\<close>
  re_guard :: "'g guard option"
  re_json_hash :: "pystr \<Rightarrow> pystr"
  re_sha_policy :: "routing_policy \<Rightarrow> pystr"
  re_sha_caps :: "capabilities \<Rightarrow> pystr"
  re_sha_request :: "llm_request \<Rightarrow> pystr"

record 'g router =
  r_start :: rat
  r_busy :: bool
  r_calls :: "call_record list"
  r_reserved_tokens :: int
  r_attempt_count :: int
  r_reads :: nat
  r_guard :: 'g

datatype router_error =
    LLM_Error llm_code "call_record option"   \<comment> \<open>\<open>LLMProviderError\<close> with its attached call\<close>
  | Guard_Error                               \<comment> \<open>\<open>SecurityPolicyError\<close> of the shared guard\<close>
  | Await_Cancelled
  | Assertion_Failed

definition new_router :: "'g router_env \<Rightarrow> 'g \<Rightarrow> 'g router option" where
  "new_router E g =
     (if \<not> valid_routing_policy (re_policy E) \<or> length (re_caps E) \<noteq> length (routes (re_policy E)) \<or>
         \<not> list_all valid_capabilities (re_caps E) \<or>
         list_ex (\<lambda>(caps, route). re_sha_caps E caps \<noteq> capabilities_fingerprint route)
           (zip (re_caps E) (routes (re_policy E))) \<or>
         re_run_id E = [] \<or> length (re_run_id E) > 128
      then None
      else Some \<lparr>r_start = re_mono E 0, r_busy = False, r_calls = [], r_reserved_tokens = 0,
                 r_attempt_count = 0, r_reads = 1, r_guard = g\<rparr>)"

type_synonym ('g, 'a) router_method = "'g router \<Rightarrow> (router_error + 'a) \<times> 'g router"

definition monotonic :: "'g router_env \<Rightarrow> ('g, rat) router_method" where
  "monotonic E s = (Inr (re_mono E (r_reads s)), s\<lparr>r_reads := r_reads s + 1\<rparr>)"

text \<open>Python's \<open>int\<close> on a finite float truncates toward zero.\<close>

definition py_int :: "rat \<Rightarrow> int" where
  "py_int x = (if x < 0 then - \<lfloor>- x\<rfloor> else \<lfloor>x\<rfloor>)"

definition remaining_ms :: "'g router_env \<Rightarrow> ('g, int) router_method" where
  "remaining_ms E =
     bind_m (monotonic E) (\<lambda>now s.
       let remaining = max_time_ms (budget (re_policy E)) - max 0 (py_int ((now - r_start s) * 1000)) in
       case re_guard E of
         None \<Rightarrow> (Inr remaining, s)
       | Some g \<Rightarrow> (case guard_remaining g (r_guard s) of
           (Inl _, g') \<Rightarrow> (Inl Guard_Error, s\<lparr>r_guard := g'\<rparr>)
         | (Inr left, g') \<Rightarrow> (Inr (min remaining (py_int (left * 1000))), s\<lparr>r_guard := g'\<rparr>)))"

section \<open>Route selection\<close>

definition approved :: "'g router_env \<Rightarrow> llm_request \<Rightarrow> llm_code + unit" where
  "approved E r =
     (if req_run_id r \<noteq> re_run_id E \<or> routing_policy_id r \<noteq> policy_id (re_policy E) \<or>
         routing_policy_fingerprint r \<noteq> re_sha_policy E (re_policy E)
      then Inl LLM_POLICY_DENIED else Inr ())"

text \<open>The \<open>continue\<close> conditions of the loop over routes, in order.\<close>

definition skipped :: "routing_policy \<Rightarrow> llm_request \<Rightarrow> route_policy \<Rightarrow> capabilities \<Rightarrow> bool" where
  "skipped p r route caps =
     (let env = execution_environment caps in
      (tool_calling caps \<or> (injection_local_only r \<and> env \<noteq> ENV_LOCAL)) \<or>
      (data_classification r \<notin> set (allowed_classifications route) \<or> env \<notin> set [ENV_LOCAL, ENV_CLOUD]) \<or>
      (data_classification r = RESTRICTED \<and> env \<noteq> ENV_LOCAL) \<or>
      (mode p = LOCAL_ONLY \<and> env \<noteq> ENV_LOCAL) \<or>
      (mode p = PRIVACY_FIRST \<and> data_classification r \<in> set [CONFIDENTIAL, RESTRICTED] \<and> env \<noteq> ENV_LOCAL))"

definition has_token_limits :: "capabilities \<Rightarrow> bool" where
  "has_token_limits c \<longleftrightarrow> max_input_tokens c \<noteq> None \<and> max_output_tokens c \<noteq> None \<and>
     context_window_tokens c \<noteq> None"

definition candidates :: "'g router_env \<Rightarrow> llm_request \<Rightarrow> llm_code + nat list" where
  "candidates E r =
     (let p = re_policy E;
          allowed = filter (\<lambda>i. \<not> skipped p r (routes p ! i) (re_caps E ! i)) [0..<length (routes p)] in
      if allowed = [] then Inl LLM_POLICY_DENIED
      else let ordered = (if mode p = PRIVACY_FIRST
                 then sort_key (\<lambda>i. execution_environment (re_caps E ! i) \<noteq> ENV_LOCAL) allowed
                 else allowed);
               compatible = filter (\<lambda>i. purpose r \<in> set (supported_purposes (re_caps E ! i)) \<and>
                                        has_token_limits (re_caps E ! i)) ordered
        in if compatible = [] then Inl LLM_CAPABILITY_MISMATCH else Inr compatible)"

section \<open>One attempt\<close>

definition lift_code :: "llm_code + 'a \<Rightarrow> ('g, 'a) router_method" where
  "lift_code m s = (case m of Inl c \<Rightarrow> (Inl (LLM_Error c None), s) | Inr a \<Rightarrow> (Inr a, s))"

definition reserve_attempt :: "'g router_env \<Rightarrow> capabilities \<Rightarrow> ('g, int) router_method" where
  "reserve_attempt E caps s =
     (case (max_input_tokens caps, max_output_tokens caps) of
        (Some i, Some j) \<Rightarrow>
          let reservation = i + j; b = budget (re_policy E) in
          if r_attempt_count s \<ge> max_calls b \<or> r_reserved_tokens s + reservation > max_tokens b
          then (Inl (LLM_Error LLM_BUDGET_EXCEEDED None), s)
          else bind_m (remaining_ms E) (\<lambda>left s.
            if left \<le> 0 then (Inl (LLM_Error LLM_BUDGET_EXCEEDED None), s)
            else bind_m (\<lambda>s. case re_guard E of
                   None \<Rightarrow> (Inr (), s)
                 | Some g \<Rightarrow> (case guard_reserve g reservation (r_guard s) of
                     (Inl _, g') \<Rightarrow> (Inl Guard_Error, s\<lparr>r_guard := g'\<rparr>)
                   | (Inr _, g') \<Rightarrow> (Inr (), s\<lparr>r_guard := g'\<rparr>)))
              (\<lambda>_ s. (Inr reservation, s\<lparr>r_attempt_count := r_attempt_count s + 1,
                       r_reserved_tokens := r_reserved_tokens s + reservation\<rparr>)) s) s
      | _ \<Rightarrow> (Inl Assertion_Failed, s))"

definition checked_response ::
  "'g router_env \<Rightarrow> llm_response \<Rightarrow> llm_request \<Rightarrow> capabilities \<Rightarrow> llm_code + llm_response" where
  "checked_response E response r caps =
     (if \<not> valid_response (re_json_hash E) response then Inl LLM_INVALID_RESPONSE
      else if (resp_request_id response, resp_schema_id response, resp_schema_version response,
               resp_prompt response, resp_prompt_fingerprint response, resp_provider_id response,
               resp_provider_version response, resp_model_id response) \<noteq>
              (request_id r, response_schema_id r, response_schema_version r, prompt r,
               prompt_fingerprint r, provider_id caps, provider_version caps, model_id caps)
      then Inl LLM_INVALID_RESPONSE
      else case (max_input_tokens caps, max_output_tokens caps, context_window_tokens caps) of
        (Some i, Some j, Some window) \<Rightarrow>
          if output_bytes response > min (max_output_bytes r) (cap_max_output_bytes caps) \<or>
             input_tokens response > i \<or> output_tokens response > j \<or>
             input_tokens response + output_tokens response > window
          then Inl LLM_INVALID_RESPONSE else Inr response
      | _ \<Rightarrow> Inl LLM_INVALID_RESPONSE)"

text \<open>How the body of the \<open>try\<close> in the loop ends.\<close>

datatype attempt_end =
    Attempt_Ok llm_response
  | Attempt_Failed llm_code
  | Attempt_Guard_Error
  | Attempt_Cancelled

definition attempt_body ::
  "'g router_env \<Rightarrow> llm_request \<Rightarrow> capabilities \<Rightarrow> attempt_env \<Rightarrow> 'g router \<Rightarrow> attempt_end \<times> 'g router" where
  "attempt_body E r caps a s =
     (case remaining_ms E s of
        (Inl _, s1) \<Rightarrow> (Attempt_Guard_Error, s1)
      | (Inr _, s1) \<Rightarrow>
          if ae_deadline_fires a then (Attempt_Failed LLM_BUDGET_EXCEEDED, s1)
          else (case checked_generation r (ae_caps_during a) (ae_reply a) of
              Refused c \<Rightarrow> (Attempt_Failed c, s1)
            | Interrupted \<Rightarrow> (Attempt_Cancelled, s1)
            | Generated response \<Rightarrow>
                (case checked_response E response r caps of
                   Inl c \<Rightarrow> (Attempt_Failed c, s1)
                 | Inr result \<Rightarrow>
                     (case remaining_ms E s1 of
                        (Inl _, s2) \<Rightarrow> (Attempt_Guard_Error, s2)
                      | (Inr left, s2) \<Rightarrow>
                          if left \<le> 0 then (Attempt_Failed LLM_BUDGET_EXCEEDED, s2)
                          else (Attempt_Ok result, s2)))))"

fun end_response :: "attempt_end \<Rightarrow> llm_response option" where
  "end_response (Attempt_Ok x) = Some x"
| "end_response _ = None"

fun end_error :: "attempt_end \<Rightarrow> llm_code option" where
  "end_error (Attempt_Failed c) = Some c"
| "end_error Attempt_Guard_Error = Some LLM_BUDGET_EXCEEDED"
| "end_error _ = None"

definition transient :: "llm_code \<Rightarrow> bool" where
  "transient c \<longleftrightarrow> c \<in> set [LLM_TIMEOUT, LLM_RATE_LIMIT, LLM_UNAVAILABLE]"

text \<open>The body of the loop up to the end of its \<open>finally\<close> block: how the attempt ended and its record.\<close>

definition attempt ::
  "'g router_env \<Rightarrow> llm_request \<Rightarrow> llm_code option \<Rightarrow> nat \<Rightarrow> ('g, attempt_end \<times> call_record) router_method" where
  "attempt E r previous i s0 =
     (let caps = re_caps E ! i; a = re_attempt E i (r_reads s0) in
      bind_m (lift_code (checked_request (re_json_hash E) r)) (\<lambda>r'.
      bind_m (lift_code (approved E r')) (\<lambda>_.
      bind_m (lift_code (checked_capabilities (ae_caps_before a))) (\<lambda>now s.
        if re_sha_caps E now \<noteq> re_sha_caps E caps then (Inl (LLM_Error LLM_POLICY_DENIED None), s)
        else bind_m (lift_code (enforce_security_route r caps)) (\<lambda>_.
          bind_m (reserve_attempt E caps) (\<lambda>reservation.
          bind_m (monotonic E) (\<lambda>start s1.
            case attempt_body E r caps a s1 of (ended, s2) \<Rightarrow>
            bind_m (monotonic E) (\<lambda>now s3.
              case make_call_record (re_sha_request E) (re_sha_caps E) r caps (r_attempt_count s3)
                     (ae_started_at a) (min 300000 (max 0 (py_int ((now - start) * 1000))))
                     (end_response ended) (end_error ended) previous reservation of
                None \<Rightarrow> (Inl Assertion_Failed, s3)
              | Some rec \<Rightarrow> (Inr (ended, rec), s3\<lparr>r_calls := r_calls s3 @ [rec]\<rparr>)) s2))) s))) s0)"

section \<open>The fallback loop\<close>

fun fallback ::
  "'g router_env \<Rightarrow> llm_request \<Rightarrow> llm_code option \<Rightarrow> nat list \<Rightarrow> ('g, llm_response) router_method" where
  "fallback E r previous [] s = (Inl (LLM_Error LLM_POLICY_DENIED None), s)"
| "fallback E r previous (i # rest) s =
     (case attempt E r previous i s of
        (Inl e, s') \<Rightarrow> (Inl e, s')
      | (Inr (ended, rec), s') \<Rightarrow> (case ended of
          Attempt_Ok result \<Rightarrow> (Inr result, s')
        | Attempt_Guard_Error \<Rightarrow> (Inl Guard_Error, s')
        | Attempt_Cancelled \<Rightarrow> (Inl Await_Cancelled, s')
        | Attempt_Failed code \<Rightarrow>
            if mode (re_policy E) = FIXED \<or> \<not> transient code \<or> rest = []
            then (Inl (LLM_Error code (Some rec)), s')
            else fallback E r (Some code) rest s'))"

definition generate :: "'g router_env \<Rightarrow> llm_request \<Rightarrow> ('g, llm_response) router_method" where
  "generate E request =
     (if mode (re_policy E) = NO_LLM then raise_m (LLM_Error LLM_POLICY_DENIED None)
      else bind_m (lift_code (checked_request (re_json_hash E) request)) (\<lambda>r.
           bind_m (lift_code (approved E r)) (\<lambda>_ s.
             if r_busy s then (Inl (LLM_Error LLM_BUDGET_EXCEEDED None), s)
             else bind_m (lift_code (candidates E r)) (\<lambda>is s.
               case fallback E r None is (s\<lparr>r_busy := True\<rparr>) of
                 (result, s') \<Rightarrow> (result, s'\<lparr>r_busy := False\<rparr>)) s)))"

text \<open>A run: the requests in the order they are made.\<close>

fun generate_all :: "'g router_env \<Rightarrow> llm_request list \<Rightarrow> 'g router \<Rightarrow> 'g router" where
  "generate_all E [] s = s"
| "generate_all E (r # rs) s = generate_all E rs (snd (generate E r s))"

end
