(* ===== verification/Resource_Session.thy ===== *)
theory Resource_Session
  imports Prelude Complex_Main
begin

text \<open>
  Run-local resource accounting: the limits and policies of \<open>contracts/security.py\<close> and the
  \<open>SecuritySession\<close> of \<open>security/session.py\<close>. A session method is a function from the session to
  its result (an error or a value) and the session afterwards: a refusal both raises and closes the
  session. The monotonic clock is a parameter, read at the position \<open>s_reads\<close> counts; its float
  seconds are rational numbers. The re-entrant lock makes methods atomic, so concurrent use of a
  session is some sequence of them.
\<close>

section \<open>Limits and policies\<close>

datatype resource =
    FILE_BYTES | STREAM_BYTES | RECORDS | COLUMNS | NESTING_DEPTH | TEXT_CHARS | CHUNKS
  | PARSER_TIME_MS | LLM_CALLS | LLM_TOKENS | LLM_TIME_MS | DB_BATCH_ROWS | DB_BATCH_BYTES
  | DB_QUERIES | PROCESSING_TIME_MS

record security_limits =
  max_file_bytes :: int
  max_stream_bytes :: int
  max_records :: int
  max_columns :: int
  max_nesting_depth :: int
  max_text_chars :: int
  max_chunks :: int
  max_parser_time_ms :: int
  max_llm_calls :: int
  max_llm_tokens :: int
  max_llm_time_ms :: int
  max_db_batch_rows :: int
  max_db_batch_bytes :: int
  max_db_queries :: int
  max_processing_time_ms :: int
  read_chunk_bytes :: int

fun maximum :: "security_limits \<Rightarrow> resource \<Rightarrow> int" where
  "maximum l FILE_BYTES = max_file_bytes l"
| "maximum l STREAM_BYTES = max_stream_bytes l"
| "maximum l RECORDS = max_records l"
| "maximum l COLUMNS = max_columns l"
| "maximum l NESTING_DEPTH = max_nesting_depth l"
| "maximum l TEXT_CHARS = max_text_chars l"
| "maximum l CHUNKS = max_chunks l"
| "maximum l PARSER_TIME_MS = max_parser_time_ms l"
| "maximum l LLM_CALLS = max_llm_calls l"
| "maximum l LLM_TOKENS = max_llm_tokens l"
| "maximum l LLM_TIME_MS = max_llm_time_ms l"
| "maximum l DB_BATCH_ROWS = max_db_batch_rows l"
| "maximum l DB_BATCH_BYTES = max_db_batch_bytes l"
| "maximum l DB_QUERIES = max_db_queries l"
| "maximum l PROCESSING_TIME_MS = max_processing_time_ms l"

text \<open>The fields with their absolute caps, in declaration order.\<close>

definition limit_fields :: "security_limits \<Rightarrow> (int \<times> int) list" where
  "limit_fields l =
    [(max_file_bytes l, 1000000000), (max_stream_bytes l, 1000000000), (max_records l, 1000000),
     (max_columns l, 10000), (max_nesting_depth l, 128), (max_text_chars l, 100000000),
     (max_chunks l, 10000), (max_parser_time_ms l, 300000), (max_llm_calls l, 1000),
     (max_llm_tokens l, 100000000), (max_llm_time_ms l, 300000), (max_db_batch_rows l, 1000),
     (max_db_batch_bytes l, 16777216), (max_db_queries l, 1000000),
     (max_processing_time_ms l, 300000), (read_chunk_bytes l, 1048576)]"

definition valid_limits :: "security_limits \<Rightarrow> bool" where
  "valid_limits l \<longleftrightarrow> list_all (\<lambda>(v, cap). 0 < v \<and> v \<le> cap) (limit_fields l)"

definition default_security_limits :: security_limits where
  "default_security_limits = \<lparr>max_file_bytes = 50000000, max_stream_bytes = 50000000,
     max_records = 1000000, max_columns = 500, max_nesting_depth = 30, max_text_chars = 5000000,
     max_chunks = 10000, max_parser_time_ms = 300000, max_llm_calls = 10, max_llm_tokens = 50000,
     max_llm_time_ms = 300000, max_db_batch_rows = 100, max_db_batch_bytes = 1048576,
     max_db_queries = 10000, max_processing_time_ms = 300000, read_chunk_bytes = 65536\<rparr>"

datatype parser_format =
    Txt | Log | Markdown | Csv | Tsv | Json | Jsonl | Xml | Html | Yaml | Xlsx | Pdf | Docx

datatype parser_trust = Sandbox_Required | Trusted

record security_policy =
  pol_limits :: security_limits
  allowed_formats :: "parser_format list"
  pol_parser_trust :: parser_trust
  strict_mode :: bool
  risky_formats :: "parser_format list"

definition valid_policy :: "security_policy \<Rightarrow> bool" where
  "valid_policy p \<longleftrightarrow> valid_limits (pol_limits p) \<and> length (allowed_formats p) \<le> 13 \<and>
     length (risky_formats p) \<le> 13 \<and> distinct (allowed_formats p)"

text \<open>\<open>narrow\<close>: \<open>None\<close> is the \<open>ValueError\<close>.\<close>

definition narrow :: "security_policy \<Rightarrow> security_limits \<Rightarrow> security_policy option" where
  "narrow p l =
     (if \<not> valid_limits l then None
      else if list_ex (\<lambda>(new, old). fst new > fst old) (zip (limit_fields l) (limit_fields (pol_limits p)))
      then None
      else Some (p\<lparr>pol_limits := l\<rparr>))"

section \<open>The session\<close>

datatype security_code =
    SECURITY_LIMIT_EXCEEDED | SECURITY_INPUT_REJECTED | SECURITY_POLICY_INVALID
  | SECURITY_SANDBOX_REQUIRED | PROCESSING_TIMEOUT | SECURITY_RUN_CLOSED
  | SECURITY_OPERATION_FAILED | SECURITY_OPERATION_CANCELLED

datatype audit_outcome = Rejected | Failed | Cancelled

record audit_event =
  ev_run_id :: pystr
  ev_policy_fingerprint :: pystr
  ev_occurred_at :: int
  ev_outcome :: audit_outcome
  ev_code :: security_code
  ev_resource :: "resource option"
  ev_limit :: "int option"
  ev_observed :: "int option"

record session_env =
  se_policy :: security_policy
  se_policy_fingerprint :: pystr
  se_run_id :: pystr
  se_mono :: "nat \<Rightarrow> rat option"   \<comment> \<open>monotonic readings; \<open>None\<close> is no finite number\<close>
  se_utc :: "nat \<Rightarrow> int"           \<comment> \<open>trusted UTC clock for the event\<close>

record session =
  s_start :: rat
  s_last_tick :: rat
  s_stage_starts :: "resource \<Rightarrow> rat option"
  s_counts :: "resource \<Rightarrow> int option"
  s_event :: "audit_event option"
  s_reads :: nat

text \<open>
  What may be raised through a session: its own \<open>SecurityPolicyError\<close>, another SDK error with the
  details the session looks at, and the exceptions of the awaited operation.
\<close>

datatype call_error =
    Security security_code "resource option" "int option" "int option"
  | Sdk_Error (sdk_code: string) (sdk_resource: "string option") (sdk_limit: "int option")
      (sdk_is_security: bool)
  | Timeout_Error      \<comment> \<open>\<open>TimeoutError\<close>\<close>
  | Cancelled_Error    \<comment> \<open>\<open>asyncio.CancelledError\<close>\<close>
  | Python_Error       \<comment> \<open>\<open>ValueError\<close>, \<open>TypeError\<close>, \<open>AttributeError\<close>, \<open>RuntimeError\<close>, \<open>OSError\<close>\<close>
  | Other_Error        \<comment> \<open>any other exception\<close>

type_synonym 'a session_op = "session \<Rightarrow> (call_error + 'a) \<times> session"

definition new_session :: "session_env \<Rightarrow> session option" where
  "new_session E =
     (if \<not> valid_policy (se_policy E) then None
      else case se_mono E 0 of None \<Rightarrow> None
        | Some t \<Rightarrow> Some \<lparr>s_start = t, s_last_tick = t, s_stage_starts = (\<lambda>_. None),
                         s_counts = (\<lambda>_. None), s_event = None, s_reads = 1\<rparr>)"

definition limits_of :: "session_env \<Rightarrow> security_limits" where
  "limits_of E = pol_limits (se_policy E)"

definition used :: "session \<Rightarrow> resource \<Rightarrow> int" where
  "used s r = (case s_counts s r of None \<Rightarrow> 0 | Some n \<Rightarrow> n)"

fun event_outcome :: "security_code \<Rightarrow> audit_outcome" where
  "event_outcome SECURITY_OPERATION_CANCELLED = Cancelled"
| "event_outcome PROCESSING_TIMEOUT = Failed"
| "event_outcome SECURITY_OPERATION_FAILED = Failed"
| "event_outcome _ = Rejected"

definition record_event ::
  "session_env \<Rightarrow> security_code \<Rightarrow> resource option \<Rightarrow> int option \<Rightarrow> int option \<Rightarrow> session \<Rightarrow> session" where
  "record_event E code r limit observed s =
     (if s_event s \<noteq> None then s
      else s\<lparr>s_event := Some \<lparr>ev_run_id = se_run_id E,
             ev_policy_fingerprint = se_policy_fingerprint E, ev_occurred_at = se_utc E (s_reads s),
             ev_outcome = event_outcome code, ev_code = code, ev_resource = r, ev_limit = limit,
             ev_observed = observed\<rparr>\<rparr>)"

definition deny ::
  "session_env \<Rightarrow> security_code \<Rightarrow> resource option \<Rightarrow> int option \<Rightarrow> int option \<Rightarrow> 'a session_op" where
  "deny E code r limit observed s =
     (Inl (Security code r limit observed), record_event E code r limit observed s)"

definition record_cancelled :: "session_env \<Rightarrow> unit session_op" where
  "record_cancelled E s = (Inr (), record_event E SECURITY_OPERATION_CANCELLED None None None s)"

definition record_failure :: "session_env \<Rightarrow> string \<Rightarrow> unit session_op" where
  "record_failure E code s =
     (let known = if length code \<le> 64 \<and> code = ''SECURITY_LIMIT_EXCEEDED'' then SECURITY_LIMIT_EXCEEDED
                  else if length code \<le> 64 \<and> code = ''PROCESSING_TIMEOUT'' then PROCESSING_TIMEOUT
                  else SECURITY_OPERATION_FAILED
      in (Inr (), record_event E known None None None s))"

definition active :: "unit session_op" where
  "active s = (if s_event s \<noteq> None then (Inl (Security SECURITY_RUN_CLOSED None None None), s)
               else (Inr (), s))"

definition tick :: "session_env \<Rightarrow> rat session_op" where
  "tick E s0 =
     (let s = s0\<lparr>s_reads := s_reads s0 + 1\<rparr> in
      case se_mono E (s_reads s0) of
        None \<Rightarrow> deny E SECURITY_POLICY_INVALID None None None s
      | Some now \<Rightarrow>
          if now < s_last_tick s then deny E SECURITY_POLICY_INVALID None None None s
          else (Inr now, s\<lparr>s_last_tick := now\<rparr>))"

definition check_value :: "session_env \<Rightarrow> resource \<Rightarrow> int \<Rightarrow> unit session_op" where
  "check_value E r value =
     bind_m active (\<lambda>_ s.
       if \<not> (0 \<le> value \<and> value < 2 ^ 63) then deny E SECURITY_POLICY_INVALID None None None s
       else if value > maximum (limits_of E) r
       then deny E SECURITY_LIMIT_EXCEEDED (Some r) (Some (maximum (limits_of E) r)) (Some value) s
       else (Inr (), s))"

definition set_count :: "resource \<Rightarrow> int \<Rightarrow> unit session_op" where
  "set_count r n s = (Inr (), s\<lparr>s_counts := (s_counts s)(r \<mapsto> n)\<rparr>)"

definition reserve :: "session_env \<Rightarrow> resource \<Rightarrow> int \<Rightarrow> unit session_op" where
  "reserve E r amount s =
     (if \<not> (0 \<le> amount \<and> amount < 2 ^ 63) then deny E SECURITY_POLICY_INVALID None None None s
      else let value = used s r + amount in
        bind_m (check_value E r value) (\<lambda>_. set_count r value) s)"

definition set_stage :: "resource \<Rightarrow> rat \<Rightarrow> rat session_op" where
  "set_stage r now s = (case s_stage_starts s r of
       Some t \<Rightarrow> (Inr t, s)
     | None \<Rightarrow> (Inr now, s\<lparr>s_stage_starts := (s_stage_starts s)(r \<mapsto> now)\<rparr>))"

definition remaining_seconds :: "session_env \<Rightarrow> resource \<Rightarrow> rat session_op" where
  "remaining_seconds E r =
     bind_m active (\<lambda>_ s.
       if r \<notin> set [PARSER_TIME_MS, LLM_TIME_MS, PROCESSING_TIME_MS]
       then deny E SECURITY_POLICY_INVALID None None None s
       else bind_m (tick E) (\<lambda>now. bind_m (set_stage r now) (\<lambda>start s.
         let overall = of_int (max_processing_time_ms (limits_of E)) / 1000 - (now - s_start s);
             remaining = of_int (maximum (limits_of E) r) / 1000 - (now - start)
         in if min overall remaining \<le> 0
            then let expired = if remaining \<le> overall then r else PROCESSING_TIME_MS in
              deny E PROCESSING_TIMEOUT (Some expired) (Some (maximum (limits_of E) expired)) None s
            else (Inr (min overall remaining), s))) s)"

definition before_query :: "session_env \<Rightarrow> unit session_op" where
  "before_query E =
     bind_m (remaining_seconds E PROCESSING_TIME_MS) (\<lambda>_. reserve E DB_QUERIES 1)"

definition check_deadline :: "session_env \<Rightarrow> unit session_op" where
  "check_deadline E = bind_m (remaining_seconds E PROCESSING_TIME_MS) (\<lambda>_. return_m ())"

definition reserve_llm :: "session_env \<Rightarrow> int \<Rightarrow> unit session_op" where
  "reserve_llm E tokens =
     bind_m (remaining_seconds E LLM_TIME_MS) (\<lambda>_ s.
     bind_m (check_value E LLM_CALLS (used s LLM_CALLS + 1)) (\<lambda>_ s.
       if tokens \<le> 0 then deny E SECURITY_POLICY_INVALID None None None s
       else bind_m (check_value E LLM_TOKENS (used s LLM_TOKENS + tokens)) (\<lambda>_ s.
         bind_m (set_count LLM_CALLS (used s LLM_CALLS + 1)) (\<lambda>_ s.
           set_count LLM_TOKENS (used s LLM_TOKENS + tokens) s) s) s) s)"

subsection \<open>Guarded awaits\<close>

fun resource_value :: "resource \<Rightarrow> string" where
  "resource_value FILE_BYTES = ''file_bytes''"
| "resource_value STREAM_BYTES = ''stream_bytes''"
| "resource_value RECORDS = ''records''"
| "resource_value COLUMNS = ''columns''"
| "resource_value NESTING_DEPTH = ''nesting_depth''"
| "resource_value TEXT_CHARS = ''text_chars''"
| "resource_value CHUNKS = ''chunks''"
| "resource_value PARSER_TIME_MS = ''parser_time_ms''"
| "resource_value LLM_CALLS = ''llm_calls''"
| "resource_value LLM_TOKENS = ''llm_tokens''"
| "resource_value LLM_TIME_MS = ''llm_time_ms''"
| "resource_value DB_BATCH_ROWS = ''db_batch_rows''"
| "resource_value DB_BATCH_BYTES = ''db_batch_bytes''"
| "resource_value DB_QUERIES = ''db_queries''"
| "resource_value PROCESSING_TIME_MS = ''processing_time_ms''"

definition all_resources :: "resource list" where
  "all_resources = [FILE_BYTES, STREAM_BYTES, RECORDS, COLUMNS, NESTING_DEPTH, TEXT_CHARS, CHUNKS,
     PARSER_TIME_MS, LLM_CALLS, LLM_TOKENS, LLM_TIME_MS, DB_BATCH_ROWS, DB_BATCH_BYTES, DB_QUERIES,
     PROCESSING_TIME_MS]"

definition known_resource :: "string \<Rightarrow> resource option" where
  "known_resource name =
     map_of ([(''source_bytes'', FILE_BYTES), (''batch_count'', CHUNKS), (''batches'', CHUNKS),
              (''line_count'', RECORDS)] @ map (\<lambda>r. (resource_value r, r)) all_resources) name"

fun code_name :: "security_code \<Rightarrow> string" where
  "code_name SECURITY_LIMIT_EXCEEDED = ''SECURITY_LIMIT_EXCEEDED''"
| "code_name SECURITY_INPUT_REJECTED = ''SECURITY_INPUT_REJECTED''"
| "code_name SECURITY_POLICY_INVALID = ''SECURITY_POLICY_INVALID''"
| "code_name SECURITY_SANDBOX_REQUIRED = ''SECURITY_SANDBOX_REQUIRED''"
| "code_name PROCESSING_TIMEOUT = ''PROCESSING_TIMEOUT''"
| "code_name SECURITY_RUN_CLOSED = ''SECURITY_RUN_CLOSED''"
| "code_name SECURITY_OPERATION_FAILED = ''SECURITY_OPERATION_FAILED''"
| "code_name SECURITY_OPERATION_CANCELLED = ''SECURITY_OPERATION_CANCELLED''"

text \<open>A session error seen as any SDK error: its code and the details \<open>deny\<close> attaches.\<close>

fun as_sdk :: "call_error \<Rightarrow> call_error" where
  "as_sdk (Security code r limit observed) =
     (if code = SECURITY_RUN_CLOSED then Sdk_Error (code_name code) None None True
      else Sdk_Error (code_name code) (Some (case r of None \<Rightarrow> ''operation'' | Some r' \<Rightarrow> resource_value r'))
             limit True)"
| "as_sdk e = e"

definition sdk_error_closes :: "session_env \<Rightarrow> resource \<Rightarrow> call_error \<Rightarrow> 'a session_op" where
  "sdk_error_closes E r original s =
     (let e = as_sdk original in
      case s_event s of
        Some ev \<Rightarrow> deny E (ev_code ev) (ev_resource ev) (ev_limit ev) (ev_observed ev) s
      | None \<Rightarrow>
          if sdk_code e \<in> set [''SECURITY_LIMIT_EXCEEDED'', ''LLM_BUDGET_EXCEEDED'']
          then deny E SECURITY_LIMIT_EXCEEDED
                 (case sdk_resource e of None \<Rightarrow> None
                  | Some name \<Rightarrow> if length name \<le> 64 then known_resource name else None)
                 (case sdk_limit e of None \<Rightarrow> None
                  | Some b \<Rightarrow> if 0 \<le> b \<and> b < 2 ^ 63 then Some b else None) None s
          else if sdk_code e \<in> set [''PROCESSING_TIMEOUT'', ''LLM_TIMEOUT'']
          then deny E PROCESSING_TIMEOUT (Some r) None None s
          else if sdk_is_security e \<or> sdk_code e \<in> set [''PARSER_FORMAT_UNSUPPORTED'',
                    ''PARSER_UNSUPPORTED_FORMAT'', ''PARSER_FORMAT_CONFLICT'', ''LLM_POLICY_DENIED'']
          then deny E SECURITY_INPUT_REJECTED None None None s
          else (Inl original, record_event E SECURITY_OPERATION_FAILED None None None s))"

fun handle_error :: "session_env \<Rightarrow> resource \<Rightarrow> call_error \<Rightarrow> 'a session_op" where
  "handle_error E r Cancelled_Error s =
     (Inl Cancelled_Error, record_event E SECURITY_OPERATION_CANCELLED (Some r) None None s)"
| "handle_error E r Timeout_Error s =
     bind_m (remaining_seconds E r)
       (\<lambda>_. deny E PROCESSING_TIMEOUT (Some r) (Some (maximum (limits_of E) r)) None) s"
| "handle_error E r Python_Error s = deny E SECURITY_OPERATION_FAILED None None None s"
| "handle_error E r Other_Error s = (Inl Other_Error, s)"
| "handle_error E r e s = sdk_error_closes E r e s"

text \<open>
  \<open>call\<close>: the awaited operation is itself a method, since it may use the session; a timer that fires
  is the operation raising \<open>Timeout_Error\<close>.
\<close>

definition call :: "session_env \<Rightarrow> resource \<Rightarrow> 'a session_op \<Rightarrow> 'a session_op" where
  "call E r operation =
     bind_m (remaining_seconds E r) (\<lambda>_ s.
       case bind_m operation (\<lambda>result. bind_m (remaining_seconds E r) (\<lambda>_. return_m result)) s of
         (Inr result, s') \<Rightarrow> (Inr result, s')
       | (Inl e, s') \<Rightarrow> handle_error E r e s')"

section \<open>Histories\<close>

text \<open>
  Requests on one session. An awaited operation makes any requests of its own, whose errors it may
  swallow, and then returns or raises.
\<close>

datatype session_request =
    Check resource int
  | Reserve resource int
  | Remaining resource
  | Reserve_LLM int
  | Before_Query
  | Check_Deadline
  | Deny security_code "resource option" "int option" "int option"
  | Record_Cancelled
  | Record_Failure string
  | Call resource "session_request list" "call_error option"

fun run_method :: "session_env \<Rightarrow> session_request \<Rightarrow> unit session_op"
  and run_methods :: "session_env \<Rightarrow> session_request list \<Rightarrow> session \<Rightarrow> session" where
  "run_method E (Check r v) s = check_value E r v s"
| "run_method E (Reserve r n) s = reserve E r n s"
| "run_method E (Remaining r) s = bind_m (remaining_seconds E r) (\<lambda>_. return_m ()) s"
| "run_method E (Reserve_LLM n) s = reserve_llm E n s"
| "run_method E Before_Query s = before_query E s"
| "run_method E Check_Deadline s = check_deadline E s"
| "run_method E (Deny c r l v) s = deny E c r l v s"
| "run_method E Record_Cancelled s = record_cancelled E s"
| "run_method E (Record_Failure c) s = record_failure E c s"
| "run_method E (Call r inner raised) s =
     call E r (\<lambda>s'. (case raised of None \<Rightarrow> Inr () | Some e \<Rightarrow> Inl e, run_methods E inner s')) s"
| "run_methods E [] s = s"
| "run_methods E (q # qs) s = run_methods E qs (snd (run_method E q s))"

fun guarded :: "session_request \<Rightarrow> bool" where
  "guarded Record_Cancelled = False"
| "guarded (Record_Failure _) = False"
| "guarded _ = True"

end
