(* ===== verification/Session_Properties.thy ===== *)
theory Session_Properties
  imports Resource_Session
begin

text \<open>
  What a security session guarantees: the step relation every method stays in (a closed session is
  frozen, accepted counts stay within the limits), the contract of a budget a client charges before
  it acts, as a locale interpreted by the session, and the properties.
\<close>

section \<open>Steps of a session\<close>

definition within_limits :: "session_env \<Rightarrow> session \<Rightarrow> bool" where
  "within_limits E s \<longleftrightarrow> (\<forall>r. 0 \<le> used s r \<and> used s r \<le> max 0 (maximum (limits_of E) r)) \<and>
     s_start s \<le> s_last_tick s \<and>
     (\<forall>r t. s_stage_starts s r = Some t \<longrightarrow> s_start s \<le> t \<and> t \<le> s_last_tick s)"

definition session_step :: "session_env \<Rightarrow> session \<Rightarrow> session \<Rightarrow> bool" where
  "session_step E s s' \<longleftrightarrow> (s_event s \<noteq> None \<longrightarrow> s' = s) \<and>
     (within_limits E s \<longrightarrow> within_limits E s') \<and> s_start s' = s_start s \<and>
     s_last_tick s \<le> s_last_tick s' \<and> (\<forall>r. used s r \<le> used s' r)"

definition respectful :: "session_env \<Rightarrow> 'a session_op \<Rightarrow> bool" where
  "respectful E m \<longleftrightarrow> (\<forall>s. session_step E s (snd (m s)))"

text \<open>A sound method closes the session whenever it raises anything but a foreign exception.\<close>

definition sound_method :: "session_env \<Rightarrow> 'a session_op \<Rightarrow> bool" where
  "sound_method E m \<longleftrightarrow> respectful E m \<and>
     (\<forall>s e s'. m s = (Inl e, s') \<and> e \<noteq> Other_Error \<longrightarrow> s_event s' \<noteq> None)"

named_theorems session_rules \<open>methods that respect the step relation\<close>

lemma session_step_refl [simp]: "session_step E s s"
  by (simp add: session_step_def)

lemma session_step_trans: "session_step E s s' \<Longrightarrow> session_step E s' s'' \<Longrightarrow> session_step E s s''"
  unfolding session_step_def by (metis order_trans)

lemma sound_respectful: "sound_method E m \<Longrightarrow> respectful E m"
  by (simp add: sound_method_def)

lemma respectful_bind:
  assumes "respectful E m" and "\<And>a. respectful E (f a)"
  shows "respectful E (bind_m m f)"
  unfolding respectful_def
proof
  fix s
  obtain r s' where m: "m s = (r, s')" by fastforce
  then have "session_step E s s'" using assms(1) by (metis respectful_def snd_conv)
  moreover have "session_step E s' (snd (f a s'))" for a
    using assms(2) by (simp add: respectful_def)
  ultimately show "session_step E s (snd (bind_m m f s))"
    using m by (cases r) (auto simp: bind_m_def intro: session_step_trans)
qed

lemma sound_bind [session_rules]:
  assumes "sound_method E m" and "\<And>a. sound_method E (f a)"
  shows "sound_method E (bind_m m f)"
  using assms respectful_bind [of E m f]
  by (auto simp: sound_method_def bind_m_def split: prod.splits sum.splits)

lemma sound_return [session_rules]: "sound_method E (return_m a)"
  by (auto simp: sound_method_def respectful_def)

lemma used_record_event [simp]: "used (record_event E c r l v s) q = used s q"
  by (simp add: record_event_def used_def)

lemma record_event_step [simp]: "session_step E s (record_event E c r l v s)"
  by (auto simp: session_step_def record_event_def within_limits_def used_def)

lemma record_event_closes [simp]: "\<exists>ev. s_event (record_event E c r l v s) = Some ev"
  by (simp add: record_event_def)

lemma sound_deny [session_rules]: "sound_method E (deny E c r l v)"
  by (auto simp: sound_method_def respectful_def deny_def)

lemma sound_record_cancelled [session_rules]: "sound_method E (record_cancelled E)"
  by (auto simp: sound_method_def respectful_def record_cancelled_def)

lemma sound_record_failure [session_rules]: "sound_method E (record_failure E c)"
  by (auto simp: sound_method_def respectful_def record_failure_def Let_def)

lemma active_cases: "active s = (if s_event s = None then (Inr (), s)
    else (Inl (Security SECURITY_RUN_CLOSED None None None), s))"
  by (simp add: active_def)

lemma sound_active [session_rules]: "sound_method E active"
  by (auto simp: sound_method_def respectful_def active_def split: if_splits)

lemma check_value_cases:
  "check_value E r v s =
     (if s_event s \<noteq> None then (Inl (Security SECURITY_RUN_CLOSED None None None), s)
      else if \<not> (0 \<le> v \<and> v < 2 ^ 63) then deny E SECURITY_POLICY_INVALID None None None s
      else if v > maximum (limits_of E) r
      then deny E SECURITY_LIMIT_EXCEEDED (Some r) (Some (maximum (limits_of E) r)) (Some v) s
      else (Inr (), s))"
  by (auto simp: check_value_def bind_m_def active_cases)

lemma sound_check_value [session_rules]: "sound_method E (check_value E r v)"
  by (auto simp: sound_method_def respectful_def check_value_cases deny_def split: if_splits)

lemma check_value_ok: "check_value E r v s = (Inr u, s') \<longleftrightarrow>
    s' = s \<and> s_event s = None \<and> 0 \<le> v \<and> v < 2 ^ 63 \<and> v \<le> maximum (limits_of E) r"
  by (auto simp: check_value_cases deny_def)

lemma used_set_count [simp]:
  "used (s\<lparr>s_counts := (s_counts s)(r \<mapsto> n)\<rparr>) q = (if q = r then n else used s q)"
  by (simp add: used_def)

lemma set_count_step:
  assumes "s_event s = None" and "used s r \<le> n" and "n \<le> maximum (limits_of E) r"
  shows "session_step E s (s\<lparr>s_counts := (s_counts s)(r \<mapsto> n)\<rparr>)"
proof -
  have "0 \<le> n" if "within_limits E s"
    using that assms(2) unfolding within_limits_def by (meson order_trans)
  then show ?thesis using assms by (auto simp: session_step_def within_limits_def)
qed

lemma reserve_cases:
  "reserve E r amount s =
     (if \<not> (0 \<le> amount \<and> amount < 2 ^ 63) then deny E SECURITY_POLICY_INVALID None None None s
      else if s_event s \<noteq> None then (Inl (Security SECURITY_RUN_CLOSED None None None), s)
      else if \<not> (0 \<le> used s r + amount \<and> used s r + amount < 2 ^ 63)
      then deny E SECURITY_POLICY_INVALID None None None s
      else if used s r + amount > maximum (limits_of E) r
      then deny E SECURITY_LIMIT_EXCEEDED (Some r) (Some (maximum (limits_of E) r)) (Some (used s r + amount)) s
      else (Inr (), s\<lparr>s_counts := (s_counts s)(r \<mapsto> used s r + amount)\<rparr>))"
  by (simp add: reserve_def Let_def bind_m_def set_count_def check_value_cases deny_def)

lemma sound_reserve [session_rules]: "sound_method E (reserve E r amount)"
  unfolding sound_method_def respectful_def reserve_cases deny_def
  by (auto simp: set_count_step split: if_splits)

subsection \<open>Deadlines\<close>

definition timed :: "resource \<Rightarrow> bool" where
  "timed r \<longleftrightarrow> r \<in> set [PARSER_TIME_MS, LLM_TIME_MS, PROCESSING_TIME_MS]"

definition stage_start :: "session \<Rightarrow> resource \<Rightarrow> rat \<Rightarrow> rat" where
  "stage_start s r now = (case s_stage_starts s r of None \<Rightarrow> now | Some t \<Rightarrow> t)"

definition ticked :: "session \<Rightarrow> resource \<Rightarrow> rat \<Rightarrow> session" where
  "ticked s r now = s\<lparr>s_reads := s_reads s + 1, s_last_tick := now,
     s_stage_starts := (s_stage_starts s)(r \<mapsto> stage_start s r now)\<rparr>"

definition budget_left :: "session_env \<Rightarrow> session \<Rightarrow> resource \<Rightarrow> rat \<Rightarrow> rat" where
  "budget_left E s r now =
     min (of_int (max_processing_time_ms (limits_of E)) / 1000 - (now - s_start s))
         (of_int (maximum (limits_of E) r) / 1000 - (now - stage_start s r now))"

definition expired_resource :: "session_env \<Rightarrow> session \<Rightarrow> resource \<Rightarrow> rat \<Rightarrow> resource" where
  "expired_resource E s r now =
     (if of_int (maximum (limits_of E) r) / 1000 - (now - stage_start s r now) \<le>
         of_int (max_processing_time_ms (limits_of E)) / 1000 - (now - s_start s)
      then r else PROCESSING_TIME_MS)"

lemma remaining_cases:
  "remaining_seconds E r s =
     (if s_event s \<noteq> None then (Inl (Security SECURITY_RUN_CLOSED None None None), s)
      else if \<not> timed r then deny E SECURITY_POLICY_INVALID None None None s
      else case se_mono E (s_reads s) of
          None \<Rightarrow> deny E SECURITY_POLICY_INVALID None None None (s\<lparr>s_reads := s_reads s + 1\<rparr>)
        | Some now \<Rightarrow>
            if now < s_last_tick s
            then deny E SECURITY_POLICY_INVALID None None None (s\<lparr>s_reads := s_reads s + 1\<rparr>)
            else if budget_left E s r now \<le> 0
            then deny E PROCESSING_TIMEOUT (Some (expired_resource E s r now))
                   (Some (maximum (limits_of E) (expired_resource E s r now))) None (ticked s r now)
            else (Inr (budget_left E s r now), ticked s r now))"
proof -
  have "set_stage r now (s\<lparr>s_reads := Suc (s_reads s), s_last_tick := now\<rparr>) =
      (Inr (stage_start s r now), ticked s r now)" for now
    by (auto simp: set_stage_def ticked_def stage_start_def fun_upd_idem split: option.split)
  moreover have "s_start (ticked s r now) = s_start s" for now by (simp add: ticked_def)
  ultimately show ?thesis
    unfolding remaining_seconds_def timed_def [symmetric]
    by (cases "s_event s"; cases "timed r"; cases "se_mono E (s_reads s)")
      (simp_all add: bind_m_def active_cases tick_def deny_def Let_def
        budget_left_def [symmetric] expired_resource_def)
qed

lemma reads_step: "s_event s = None \<Longrightarrow> session_step E s (s\<lparr>s_reads := n\<rparr>)"
  by (simp add: session_step_def within_limits_def used_def)

lemma ticked_step:
  assumes "s_event s = None" and "s_last_tick s \<le> now"
  shows "session_step E s (ticked s r now)"
proof -
  have "used (ticked s r now) q = used s q" for q by (simp add: ticked_def used_def)
  moreover have "within_limits E (ticked s r now)" if w: "within_limits E s"
  proof -
    have "s_start s \<le> s_last_tick s" using w by (simp add: within_limits_def)
    then show ?thesis using w assms(2)
      by (fastforce simp: within_limits_def ticked_def used_def stage_start_def split: option.splits)
  qed
  ultimately show ?thesis using assms by (simp add: session_step_def ticked_def)
qed

lemma sound_remaining [session_rules]: "sound_method E (remaining_seconds E r)"
proof -
  have "session_step E s (snd (remaining_seconds E r s))" for s
    unfolding remaining_cases
    by (auto simp: deny_def ticked_step split: option.split
        intro: session_step_trans [OF reads_step record_event_step]
          session_step_trans [OF ticked_step record_event_step])
  moreover have "s_event s' \<noteq> None" if "remaining_seconds E r s = (Inl e, s')" for s e s'
    using that unfolding remaining_cases by (auto simp: deny_def split: if_splits option.splits)
  ultimately show ?thesis unfolding sound_method_def respectful_def by blast
qed

lemma sound_before_query [session_rules]: "sound_method E (before_query E)"
  unfolding before_query_def by (intro session_rules)

lemma sound_check_deadline [session_rules]: "sound_method E (check_deadline E)"
  unfolding check_deadline_def by (intro session_rules)

text \<open>The joint reservation of a call and its tokens, once the deadline has been checked.\<close>

definition llm_charge :: "session \<Rightarrow> int \<Rightarrow> session" where
  "llm_charge s tokens = s\<lparr>s_counts := (s_counts s)(LLM_CALLS \<mapsto> used s LLM_CALLS + 1,
     LLM_TOKENS \<mapsto> used s LLM_TOKENS + tokens)\<rparr>"

definition llm_fits :: "session_env \<Rightarrow> session \<Rightarrow> int \<Rightarrow> bool" where
  "llm_fits E s tokens \<longleftrightarrow> 0 < tokens \<and>
     0 \<le> used s LLM_CALLS + 1 \<and> used s LLM_CALLS + 1 < 2 ^ 63 \<and>
     used s LLM_CALLS + 1 \<le> maximum (limits_of E) LLM_CALLS \<and>
     0 \<le> used s LLM_TOKENS + tokens \<and> used s LLM_TOKENS + tokens < 2 ^ 63 \<and>
     used s LLM_TOKENS + tokens \<le> maximum (limits_of E) LLM_TOKENS"

lemma reserve_llm_cases:
  "reserve_llm E tokens s = (case remaining_seconds E LLM_TIME_MS s of
     (Inl e, s') \<Rightarrow> (Inl e, s')
   | (Inr _, s') \<Rightarrow>
       if s_event s' = None \<and> llm_fits E s' tokens then (Inr (), llm_charge s' tokens)
       else bind_m (check_value E LLM_CALLS (used s' LLM_CALLS + 1)) (\<lambda>_ s.
              if tokens \<le> 0 then deny E SECURITY_POLICY_INVALID None None None s
              else check_value E LLM_TOKENS (used s' LLM_TOKENS + tokens) s) s')"
  unfolding reserve_llm_def bind_m_def
  by (cases "remaining_seconds E LLM_TIME_MS s" rule: prod.exhaust; cases "fst (remaining_seconds E LLM_TIME_MS s)")
    (auto simp: check_value_cases deny_def set_count_def llm_fits_def llm_charge_def)

lemma llm_charge_step:
  assumes "s_event s = None" and "llm_fits E s tokens"
  shows "session_step E s (llm_charge s tokens)"
proof -
  let ?a = "s\<lparr>s_counts := (s_counts s)(LLM_CALLS \<mapsto> used s LLM_CALLS + 1)\<rparr>"
  have "session_step E s ?a" using assms by (intro set_count_step) (simp_all add: llm_fits_def)
  moreover have "llm_charge s tokens = ?a\<lparr>s_counts := (s_counts ?a)(LLM_TOKENS \<mapsto> used s LLM_TOKENS + tokens)\<rparr>"
    by (simp add: llm_charge_def)
  moreover have "session_step E ?a \<dots>"
    using assms by (intro set_count_step) (simp_all add: llm_fits_def used_def)
  ultimately show ?thesis using session_step_trans by metis
qed

lemma sound_reserve_llm [session_rules]: "sound_method E (reserve_llm E tokens)"
proof -
  let ?m = "\<lambda>s'. bind_m (check_value E LLM_CALLS (used s' LLM_CALLS + 1)) (\<lambda>_ s.
              if tokens \<le> 0 then deny E SECURITY_POLICY_INVALID None None None s
              else check_value E LLM_TOKENS (used s' LLM_TOKENS + tokens) s)"
  have "sound_method E (\<lambda>s. if tokens \<le> 0 then deny E SECURITY_POLICY_INVALID None None None s
              else check_value E LLM_TOKENS v s)" for v
    by (cases "tokens \<le> 0") (simp_all add: session_rules)
  then have tail: "sound_method E (?m s')" for s' by (intro session_rules)
  have rem: "session_step E s s'" if "remaining_seconds E LLM_TIME_MS s = (x, s')" for s x s'
    using sound_remaining [of E LLM_TIME_MS] that by (auto simp: sound_method_def respectful_def) (metis snd_conv)
  have rem_err: "s_event s' \<noteq> None" if "remaining_seconds E LLM_TIME_MS s = (Inl e, s')" "e \<noteq> Other_Error" for s e s'
    using sound_remaining [of E LLM_TIME_MS] that by (auto simp: sound_method_def)
  show ?thesis unfolding sound_method_def respectful_def
  proof (intro conjI allI impI)
    fix s
    obtain x s' where r: "remaining_seconds E LLM_TIME_MS s = (x, s')" by fastforce
    have "session_step E s' (snd (?m s' s'))" using tail [of s'] unfolding sound_method_def respectful_def by blast
    then show "session_step E s (snd (reserve_llm E tokens s))"
      unfolding reserve_llm_cases using rem [OF r] r
      by (auto split: sum.split intro: session_step_trans [OF _ llm_charge_step] session_step_trans)
  next
    fix s e s'' assume a: "reserve_llm E tokens s = (Inl e, s'') \<and> e \<noteq> Other_Error"
    obtain x s' where r: "remaining_seconds E LLM_TIME_MS s = (x, s')" by fastforce
    have t: "s_event s'' \<noteq> None" if "?m s' s' = (Inl e, s'')"
      using tail [of s'] that a unfolding sound_method_def by blast
    show "s_event s'' \<noteq> None"
    proof (cases x)
      case (Inl e')
      then show ?thesis using a r rem_err [of s e' s'] by (simp add: reserve_llm_cases)
    next
      case (Inr v)
      then have "?m s' s' = (Inl e, s'')"
        using a r unfolding reserve_llm_cases by (auto split: if_splits)
      then show ?thesis by (rule t)
    qed
  qed
qed

subsection \<open>Guarded awaits\<close>

lemma sound_sdk_error_closes [session_rules]: "sound_method E (sdk_error_closes E r e)"
proof -
  have "session_step E s (snd (sdk_error_closes E r e s))" for s
    unfolding sdk_error_closes_def Let_def deny_def by (simp split: option.split)
  moreover have "s_event s' \<noteq> None" if "sdk_error_closes E r e s = (x, s')" for s x s'
    using that unfolding sdk_error_closes_def Let_def deny_def by (auto split: option.splits if_splits)
  ultimately show ?thesis unfolding sound_method_def respectful_def by blast
qed

lemma sound_handle_error [session_rules]: "sound_method E (handle_error E r e)"
proof (cases e)
  case Timeout_Error
  have "sound_method E (bind_m (remaining_seconds E r)
      (\<lambda>_. deny E PROCESSING_TIMEOUT (Some r) (Some (maximum (limits_of E) r)) None))"
    by (intro session_rules)
  then show ?thesis using Timeout_Error by (simp add: sound_method_def respectful_def)
next
  case Python_Error
  then show ?thesis using sound_deny by (simp add: sound_method_def respectful_def)
next
  case (Security c q l v)
  then show ?thesis using sound_sdk_error_closes [of E r e] by (simp add: sound_method_def respectful_def)
next
  case (Sdk_Error c q l v)
  then show ?thesis using sound_sdk_error_closes [of E r e] by (simp add: sound_method_def respectful_def)
qed (auto simp: sound_method_def respectful_def)

lemma handle_error_step: "session_step E s (snd (handle_error E r e s))"
  by (rule sound_respectful [OF sound_handle_error, unfolded respectful_def, THEN spec])

lemma call_cases:
  "call E r m = bind_m (remaining_seconds E r) (\<lambda>_ s.
     case bind_m m (\<lambda>result. bind_m (remaining_seconds E r) (\<lambda>_. return_m result)) s of
       (x, s') \<Rightarrow> (case x of Inr result \<Rightarrow> (Inr result, s') | Inl e \<Rightarrow> handle_error E r e s'))"
  unfolding call_def by (intro arg_cong [of _ _ "bind_m (remaining_seconds E r)"] ext)
    (simp split: prod.split sum.split)

lemma sound_call [session_rules]:
  assumes "respectful E m"
  shows "sound_method E (call E r m)"
proof -
  let ?body = "bind_m m (\<lambda>result. bind_m (remaining_seconds E r) (\<lambda>_. return_m result))"
  have body: "respectful E ?body"
    by (intro respectful_bind assms sound_respectful session_rules)
  have "sound_method E (\<lambda>s. case ?body s of
       (x, s') \<Rightarrow> (case x of Inr result \<Rightarrow> (Inr result, s') | Inl e \<Rightarrow> handle_error E r e s'))"
    unfolding sound_method_def respectful_def
  proof (intro conjI allI impI)
    fix s
    obtain x s' where b: "?body s = (x, s')" by fastforce
    then have "session_step E s s'" using body by (metis respectful_def snd_conv)
    then show "session_step E s (snd (case ?body s of
        (x, s') \<Rightarrow> (case x of Inr result \<Rightarrow> (Inr result, s') | Inl e \<Rightarrow> handle_error E r e s')))"
      using b by (cases x) (auto intro: session_step_trans handle_error_step)
  next
    fix s e s'' assume a: "(case ?body s of
        (x, s') \<Rightarrow> (case x of Inr result \<Rightarrow> (Inr result, s') | Inl e \<Rightarrow> handle_error E r e s')) = (Inl e, s'') \<and> e \<noteq> Other_Error"
    obtain x s' where b: "?body s = (x, s')" by fastforce
    then show "s_event s'' \<noteq> None"
      using a sound_handle_error [of E r] unfolding sound_method_def by (cases x) (auto, blast)
  qed
  then show ?thesis unfolding call_cases by (intro session_rules)
qed

lemma sound_methodD:
  "sound_method E m \<Longrightarrow> session_step E s (snd (m s)) \<and>
     (\<forall>e s'. m s = (Inl e, s') \<and> e \<noteq> Other_Error \<longrightarrow> s_event s' \<noteq> None)"
  unfolding sound_method_def respectful_def by blast

lemma run_method_sound:
  "session_step E s (snd (run_method E q s)) \<and>
     (\<forall>e s'. run_method E q s = (Inl e, s') \<and> e \<noteq> Other_Error \<longrightarrow> s_event s' \<noteq> None)"
  "session_step E s (run_methods E qs s)"
proof (induction E q s and E qs s rule: run_method_run_methods.induct)
  case (3 E r s)
  have "sound_method E (bind_m (remaining_seconds E r) (\<lambda>_. return_m ()))" by (intro session_rules)
  then show ?case unfolding run_method.simps by (rule sound_methodD)
next
  case (10 E r inner raised s)
  have "respectful E (\<lambda>s'. (case raised of None \<Rightarrow> Inr () | Some e \<Rightarrow> Inl e, run_methods E inner s'))"
    using 10 by (simp add: respectful_def)
  then show ?case unfolding run_method.simps by (intro sound_methodD sound_call)
next
  case (12 E q qs s)
  then show ?case by (auto intro: session_step_trans)
qed (unfold run_method.simps run_methods.simps, (rule sound_methodD, rule session_rules session_step_refl | rule session_step_refl)+)

section \<open>The budget contract\<close>

text \<open>
  What a client that charges a budget before it acts relies on: a charge is accepted only inside the
  maximum and is then kept exactly, a refused one changes nothing. \<open>LLMResourceGuard\<close> of
  \<open>ports/resources.py\<close> has this shape; the session provides it.
\<close>

locale charged_budget =
  fixes charge :: "int \<Rightarrow> 's \<Rightarrow> ('e + unit) \<times> 's"
    and units :: "'s \<Rightarrow> int"
    and attempts :: "'s \<Rightarrow> int"
    and max_units :: int
    and max_attempts :: int
    and good :: "'s \<Rightarrow> bool"
  assumes good_bounds: "good s \<Longrightarrow> 0 \<le> units s \<and> units s \<le> max_units \<and> 0 \<le> attempts s \<and> attempts s \<le> max_attempts"
    and charge_ok: "good s \<Longrightarrow> charge n s = (Inr u, s') \<Longrightarrow>
      good s' \<and> 0 < n \<and> units s' = units s + n \<and> attempts s' = attempts s + 1"
    and charge_refused: "good s \<Longrightarrow> charge n s = (Inl e, s') \<Longrightarrow>
      good s' \<and> units s' = units s \<and> attempts s' = attempts s"
begin

text \<open>The charges of a list that are accepted when each is tried in turn.\<close>

fun accepted_count :: "int list \<Rightarrow> 's \<Rightarrow> int list \<times> 's" where
  "accepted_count [] s = ([], s)"
| "accepted_count (n # ns) s = (case charge n s of
     (Inl _, s') \<Rightarrow> accepted_count ns s'
   | (Inr _, s') \<Rightarrow> (case accepted_count ns s' of (ms, s'') \<Rightarrow> (n # ms, s'')))"

lemma accepted_exact:
  "good s \<Longrightarrow> accepted_count ns s = (ms, s') \<Longrightarrow>
     good s' \<and> units s' = units s + sum_list ms \<and> attempts s' = attempts s + int (length ms) \<and>
     list_all (\<lambda>n. 0 < n) ms"
proof (induction ns s arbitrary: ms s' rule: accepted_count.induct)
  case (2 n ns s)
  obtain x s1 where c: "charge n s = (x, s1)" by fastforce
  show ?case
  proof (cases x)
    case (Inl e)
    have "accepted_count ns s1 = (ms, s')" using "2.prems"(2) c Inl by simp
    then show ?thesis
      using "2.IH"(1) [OF c [symmetric] Inl] charge_refused [OF "2.prems"(1), of n e s1] c Inl by simp
  next
    case (Inr u)
    obtain ms' where "accepted_count ns s1 = (ms', s')" "ms = n # ms'"
      using "2.prems"(2) c Inr by (auto split: prod.splits)
    then show ?thesis
      using "2.IH"(2) [OF c [symmetric] Inr] charge_ok [OF "2.prems"(1), of n u s1] c Inr by simp
  qed
qed simp

lemma accepted_bounded:
  assumes "good s" and "accepted_count ns s = (ms, s')"
  shows "units s + sum_list ms \<le> max_units \<and> attempts s + int (length ms) \<le> max_attempts"
  using accepted_exact [OF assms] good_bounds [of s'] by simp

end

lemma within_used: "within_limits E s \<Longrightarrow> 0 \<le> used s r \<and> used s r \<le> max 0 (maximum (limits_of E) r)"
  by (simp add: within_limits_def)

lemma remaining_step:
  "remaining_seconds E r s = (x, s') \<Longrightarrow> session_step E s s' \<and> (\<forall>q. used s' q = used s q)"
proof -
  assume a: "remaining_seconds E r s = (x, s')"
  have "session_step E s (snd (remaining_seconds E r s))"
    by (rule sound_respectful [OF sound_remaining, unfolded respectful_def, THEN spec])
  moreover have "used (ticked s r now) q = used s q" "used (s\<lparr>s_reads := n\<rparr>) q = used s q" for now q n
    by (simp_all add: ticked_def used_def)
  then have "used s' q = used s q" for q
    using a by (auto simp: remaining_cases deny_def split: if_splits option.splits)
  ultimately show ?thesis using a by simp
qed

lemma reserve_llm_refused_counts:
  assumes "reserve_llm E tokens s = (Inl e, s')"
  shows "used s' q = used s q"
proof -
  obtain x s1 where r: "remaining_seconds E LLM_TIME_MS s = (x, s1)" by fastforce
  then have "used s1 q = used s q" using remaining_step by blast
  then show ?thesis
    using assms r unfolding reserve_llm_cases
    by (auto simp: bind_m_def check_value_cases deny_def split: sum.splits if_splits)
qed

lemma reserve_llm_accepted:
  assumes "reserve_llm E tokens s = (Inr u, s')"
  shows "0 < tokens \<and> used s' LLM_CALLS = used s LLM_CALLS + 1 \<and>
    used s' LLM_TOKENS = used s LLM_TOKENS + tokens \<and>
    used s' LLM_CALLS \<le> maximum (limits_of E) LLM_CALLS \<and>
    used s' LLM_TOKENS \<le> maximum (limits_of E) LLM_TOKENS"
proof -
  obtain x s1 where r: "remaining_seconds E LLM_TIME_MS s = (x, s1)" by fastforce
  have u: "used s1 q = used s q" for q using remaining_step [OF r] by blast
  have "llm_fits E s1 tokens \<and> s' = llm_charge s1 tokens"
    using assms r unfolding reserve_llm_cases
    by (auto simp: bind_m_def check_value_cases deny_def llm_fits_def split: sum.splits if_splits)
  then show ?thesis using u by (auto simp: llm_fits_def llm_charge_def used_def)
qed

interpretation llm_session: charged_budget "reserve_llm E" "\<lambda>s. used s LLM_TOKENS" "\<lambda>s. used s LLM_CALLS"
  "max 0 (max_llm_tokens (limits_of E))" "max 0 (max_llm_calls (limits_of E))" "within_limits E" for E
proof
  have step: "within_limits E s'" if "within_limits E s" "reserve_llm E n s = (x, s')" for n s x s'
  proof -
    have "session_step E s (snd (reserve_llm E n s))"
      by (rule sound_respectful [OF sound_reserve_llm, unfolded respectful_def, THEN spec])
    then show ?thesis using that by (simp add: session_step_def)
  qed
  show "0 \<le> used s LLM_TOKENS \<and> used s LLM_TOKENS \<le> max 0 (max_llm_tokens (limits_of E)) \<and>
      0 \<le> used s LLM_CALLS \<and> used s LLM_CALLS \<le> max 0 (max_llm_calls (limits_of E))"
    if "within_limits E s" for s
    using within_used [OF that, of LLM_TOKENS] within_used [OF that, of LLM_CALLS] by simp
  show "within_limits E s' \<and> 0 < n \<and> used s' LLM_TOKENS = used s LLM_TOKENS + n \<and>
      used s' LLM_CALLS = used s LLM_CALLS + 1"
    if "within_limits E s" "reserve_llm E n s = (Inr u, s')" for s n u s'
    using step [OF that] reserve_llm_accepted [OF that(2)] by blast
  show "within_limits E s' \<and> used s' LLM_TOKENS = used s LLM_TOKENS \<and> used s' LLM_CALLS = used s LLM_CALLS"
    if "within_limits E s" "reserve_llm E n s = (Inl e, s')" for s n e s'
    using step [OF that] reserve_llm_refused_counts [OF that(2)] by blast
qed

text \<open>The reservations of a run of attempts, those that were accepted_count, and the session afterwards.\<close>

fun llm_accepted :: "session_env \<Rightarrow> int list \<Rightarrow> session \<Rightarrow> int list \<times> session" where
  "llm_accepted E [] s = ([], s)"
| "llm_accepted E (n # ns) s = (case reserve_llm E n s of
     (Inl _, s') \<Rightarrow> llm_accepted E ns s'
   | (Inr _, s') \<Rightarrow> (case llm_accepted E ns s' of (ms, s'') \<Rightarrow> (n # ms, s'')))"

lemma llm_accepted_eq: "llm_accepted E ns s = llm_session.accepted_count E ns s"
  by (induction E ns s rule: llm_accepted.induct) (auto split: prod.split sum.split)

section \<open>Properties\<close>

definition ex_session_env :: "(nat \<Rightarrow> rat option) \<Rightarrow> session_env" where
  "ex_session_env readings = \<lparr>se_policy = \<lparr>pol_limits = default_security_limits, allowed_formats = [Csv],
     pol_parser_trust = Trusted, strict_mode = False, risky_formats = []\<rparr>,
     se_policy_fingerprint = [], se_run_id = [], se_mono = readings, se_utc = (\<lambda>_. 0)\<rparr>"

definition ex_session :: session where
  "ex_session = \<lparr>s_start = 0, s_last_tick = 0, s_stage_starts = (\<lambda>_. None), s_counts = (\<lambda>_. None),
     s_event = None, s_reads = 1\<rparr>"

definition ex_closed :: session where
  "ex_closed = ex_session\<lparr>s_event := Some \<lparr>ev_run_id = [], ev_policy_fingerprint = [],
     ev_occurred_at = 0, ev_outcome = Rejected, ev_code = SECURITY_INPUT_REJECTED,
     ev_resource = None, ev_limit = None, ev_observed = None\<rparr>\<rparr>"

lemma ex_new_session: "new_session (ex_session_env (\<lambda>_. Some 0)) = Some ex_session"
  by (simp add: new_session_def ex_session_env_def ex_session_def valid_policy_def valid_limits_def
      limit_fields_def default_security_limits_def)

lemma new_session_within: "new_session E = Some s \<Longrightarrow> within_limits E s"
  by (auto simp: new_session_def within_limits_def used_def split: if_splits option.splits)

text \<open>C18: Whatever methods are called on a session, in whatever order and by whatever operations it
  awaits, every accepted count stays within the limit of its resource.\<close>

theorem session_counts_bounded:
  assumes "new_session E = Some s"
  shows "0 \<le> used (run_methods E qs s) r \<and> used (run_methods E qs s) r \<le> maximum (limits_of E) r"
proof -
  have "valid_limits (limits_of E)"
    using assms by (auto simp: new_session_def valid_policy_def limits_of_def split: if_splits)
  then have "0 < maximum (limits_of E) r"
    by (cases r) (simp_all add: valid_limits_def limit_fields_def)
  moreover have "within_limits E (run_methods E qs s)"
    using run_method_sound(2) new_session_within [OF assms] by (simp add: session_step_def)
  ultimately show ?thesis using within_used [of E _ r] by fastforce
qed

theorem session_counts_bounded_witness:
  "used (run_methods (ex_session_env (\<lambda>_. Some 0)) [Reserve RECORDS 999999, Reserve RECORDS 2, Reserve RECORDS 1] ex_session) RECORDS
     \<le> 1000000"
  using session_counts_bounded [OF ex_new_session, of "[Reserve RECORDS 999999, Reserve RECORDS 2, Reserve RECORDS 1]" RECORDS]
  by (simp add: limits_of_def ex_session_env_def default_security_limits_def)

text \<open>A session that has recorded its terminal event is final: no sequence of methods changes it,
  and each guarded method is refused.\<close>

theorem session_closed_final:
  assumes "s_event s \<noteq> None"
  shows "run_methods E qs s = s \<and> (guarded q \<longrightarrow> isl (fst (run_method E q s)))"
proof -
  have "run_methods E qs s = s"
    using run_method_sound(2) [of E s qs] assms by (simp add: session_step_def)
  moreover have "isl (fst (run_method E q s))" if "guarded q"
    using that assms
    by (cases q) (auto simp: check_value_cases reserve_cases remaining_cases reserve_llm_cases
        before_query_def check_deadline_def deny_def bind_m_def call_def)
  ultimately show ?thesis by blast
qed

theorem session_closed_final_witness:
  "run_methods (ex_session_env (\<lambda>_. Some 0)) [Reserve RECORDS 1, Record_Cancelled] ex_closed = ex_closed \<and>
   isl (fst (run_method (ex_session_env (\<lambda>_. Some 0)) Before_Query ex_closed))"
proof -
  have "s_event ex_closed \<noteq> None" by (simp add: ex_closed_def)
  from session_closed_final [OF this, of "ex_session_env (\<lambda>_. Some 0)" "[Reserve RECORDS 1, Record_Cancelled]" Before_Query]
  show ?thesis by simp
qed



text \<open>\<open>reserve\<close> accepts exactly the amounts that still fit: on an open session within its limits it
  succeeds iff the amount is a 63-bit natural number and the new total is within the maximum; then
  only the count of that resource changes, by the amount. A refused reservation changes no count.\<close>

theorem reserve_exact:
  assumes "within_limits E s" and "valid_limits (limits_of E)"
  shows "(fst (reserve E r n s) = Inr () \<longleftrightarrow>
       s_event s = None \<and> 0 \<le> n \<and> n < 2 ^ 63 \<and> used s r + n \<le> maximum (limits_of E) r) \<and>
    (\<forall>q. used (snd (reserve E r n s)) q =
       (if fst (reserve E r n s) = Inr () \<and> q = r then used s q + n else used s q))"
proof -
  have "maximum (limits_of E) r < 2 ^ 63"
    using assms(2) by (cases r) (simp_all add: valid_limits_def limit_fields_def)
  moreover have "0 \<le> used s r" using within_used [OF assms(1)] by blast
  ultimately show ?thesis by (auto simp: reserve_cases deny_def)
qed

theorem reserve_exact_witness:
  "fst (reserve (ex_session_env (\<lambda>_. Some 0)) DB_QUERIES 10000 ex_session) = Inr () \<and>
   fst (reserve (ex_session_env (\<lambda>_. Some 0)) DB_QUERIES 10001 ex_session) \<noteq> Inr ()"
proof -
  have "valid_limits (limits_of (ex_session_env (\<lambda>_. Some 0)))"
    by (simp add: limits_of_def ex_session_env_def valid_limits_def limit_fields_def default_security_limits_def)
  note exact = reserve_exact [OF new_session_within [OF ex_new_session] this, of DB_QUERIES]
  show ?thesis
    using exact [of 10000] exact [of 10001]
    by (simp add: ex_session_def used_def limits_of_def ex_session_env_def default_security_limits_def)
qed

text \<open>C20: The joint reservation of a model call is atomic: either both counters move, the calls by one
  and the tokens by the positive allowance, both staying within their maxima, or no counter moves.
  Over any list of attempts the accepted allowances add up to what was charged.\<close>

theorem reserve_llm_atomic:
  assumes "within_limits E s"
  shows "(case reserve_llm E n s of
       (Inr _, s') \<Rightarrow> 0 < n \<and> used s' LLM_CALLS = used s LLM_CALLS + 1 \<and>
         used s' LLM_TOKENS = used s LLM_TOKENS + n \<and>
         used s' LLM_CALLS \<le> max_llm_calls (limits_of E) \<and> used s' LLM_TOKENS \<le> max_llm_tokens (limits_of E)
     | (Inl _, s') \<Rightarrow> \<forall>q. used s' q = used s q) \<and>
    (case llm_accepted E ns s of (ms, s') \<Rightarrow>
       used s' LLM_TOKENS = used s LLM_TOKENS + sum_list ms \<and>
       used s LLM_CALLS + int (length ms) \<le> max 0 (max_llm_calls (limits_of E)))"
proof -
  obtain ms s' where a: "llm_session.accepted_count E ns s = (ms, s')" by fastforce
  note exact = llm_session.accepted_exact [OF assms a] llm_session.accepted_bounded [OF assms a]
  obtain x s1 where r: "reserve_llm E n s = (x, s1)" by fastforce
  show ?thesis
    using exact a [folded llm_accepted_eq] r reserve_llm_accepted [of E n s _ s1] reserve_llm_refused_counts [of E n s _ s1]
    by (cases x) auto
qed

theorem reserve_llm_atomic_witness:
  "case reserve_llm (ex_session_env (\<lambda>_. Some 0)) 60000 ex_session of
     (Inr _, s') \<Rightarrow> used s' LLM_TOKENS \<le> 50000
   | (Inl _, s') \<Rightarrow> used s' LLM_CALLS = used ex_session LLM_CALLS"
  using reserve_llm_atomic [OF new_session_within [OF ex_new_session], of 60000 "[]"]
  by (auto simp: limits_of_def ex_session_env_def default_security_limits_def split: prod.splits sum.splits)

text \<open>No operation is started after the overall deadline: when the clock shows that the processing
  time of the run is used up, \<open>call\<close> raises without invoking the operation (its outcome is the same
  for every operation) and the session is closed.\<close>

theorem call_after_deadline:
  assumes "se_mono E (s_reads s) = Some now"
    and "now - s_start s \<ge> of_int (max_processing_time_ms (limits_of E)) / 1000"
  shows "\<exists>e s'. s_event s' \<noteq> None \<and> (\<forall>operation :: unit session_op. call E r operation s = (Inl e, s'))"
proof -
  have "budget_left E s r now \<le> 0" using assms(2) by (simp add: budget_left_def)
  then have "isl (fst (remaining_seconds E r s))"
    using assms(1) by (simp add: remaining_cases deny_def)
  then obtain e s' where r: "remaining_seconds E r s = (Inl e, s')"
    by (metis isl_def prod.collapse)
  then have "e \<noteq> Other_Error" using assms(1)
    by (auto simp: remaining_cases deny_def split: if_splits option.splits)
  then have "s_event s' \<noteq> None"
    using sound_remaining [of E r] r unfolding sound_method_def by blast
  then show ?thesis using r by (intro exI [of _ e] exI [of _ s']) (simp add: call_def bind_m_def)
qed

theorem call_after_deadline_witness:
  "\<exists>e s'. s_event s' \<noteq> None \<and>
     (\<forall>operation :: unit session_op. call (ex_session_env (\<lambda>_. Some 300)) LLM_TIME_MS operation ex_session = (Inl e, s'))"
  by (rule call_after_deadline [where now = 300])
    (simp_all add: ex_session_env_def ex_session_def limits_of_def default_security_limits_def)

end
