(* ===== verification/Router_Properties.thy ===== *)
theory Router_Properties
  imports LLM_Router Session_Properties
begin

text \<open>
  Properties of the LLM router: which deployments a request may reach, the run budget and its
  records, the fallback chain, and the budget shared with other adapters through a guard.
\<close>

section \<open>Frames\<close>

text \<open>The books of a router: what only an accepted attempt changes.\<close>

definition same_books :: "'g router \<Rightarrow> 'g router \<Rightarrow> bool" where
  "same_books s s' \<longleftrightarrow> r_calls s' = r_calls s \<and> r_attempt_count s' = r_attempt_count s \<and>
     r_reserved_tokens s' = r_reserved_tokens s"

lemma same_books_refl [simp]: "same_books s s"
  by (simp add: same_books_def)

lemma same_books_trans: "same_books s s' \<Longrightarrow> same_books s' s'' \<Longrightarrow> same_books s s''"
  by (simp add: same_books_def)

lemma remaining_ms_books: "remaining_ms E s = (x, s') \<Longrightarrow> same_books s s'"
  by (auto simp: remaining_ms_def bind_m_def monotonic_def Let_def same_books_def
      split: option.splits sum.splits prod.splits)

lemma reserve_attempt_cases:
  assumes "reserve_attempt E caps s = (x, s')"
  shows "(\<exists>e. x = Inl e \<and> same_books s s') \<or>
    (\<exists>i j. max_input_tokens caps = Some i \<and> max_output_tokens caps = Some j \<and> x = Inr (i + j) \<and>
       r_calls s' = r_calls s \<and> r_attempt_count s' = r_attempt_count s + 1 \<and>
       r_reserved_tokens s' = r_reserved_tokens s + (i + j) \<and>
       r_attempt_count s' \<le> max_calls (budget (re_policy E)) \<and>
       r_reserved_tokens s' \<le> max_tokens (budget (re_policy E)))"
proof (cases "max_input_tokens caps"; cases "max_output_tokens caps")
  fix i j assume caps: "max_input_tokens caps = Some i" "max_output_tokens caps = Some j"
  obtain y s1 where rem: "remaining_ms E s = (y, s1)" by fastforce
  have books: "same_books s s1" using remaining_ms_books [OF rem] .
  show ?thesis
    using assms caps rem books
    by (auto simp: reserve_attempt_def Let_def bind_m_def same_books_def
        split: if_splits sum.splits option.splits prod.splits)
qed (use assms in \<open>auto simp: reserve_attempt_def\<close>)

lemma attempt_body_books: "attempt_body E r caps a s = (x, s') \<Longrightarrow> same_books s s'"
  by (auto simp: attempt_body_def split: prod.splits sum.splits if_splits generation.splits
      dest!: remaining_ms_books intro: same_books_trans)

lemma attempt_body_ok:
  assumes "attempt_body E r caps a s = (Attempt_Ok result, s')"
  shows "valid_response (re_json_hash E) result"
proof -
  have "checked_response E response r caps = Inr result \<Longrightarrow> valid_response (re_json_hash E) result" for response
    by (auto simp: checked_response_def split: if_splits option.splits)
  then show ?thesis using assms
    by (auto simp: attempt_body_def split: prod.splits sum.splits if_splits generation.splits)
qed

lemma checked_request_ok: "checked_request h r = Inr r' \<Longrightarrow> r' = r \<and> prompt r \<noteq> None"
  by (auto simp: checked_request_def split: if_splits)

definition attempt_record ::
  "'g router_env \<Rightarrow> llm_request \<Rightarrow> llm_code option \<Rightarrow> nat \<Rightarrow> 'g router \<Rightarrow> attempt_end \<Rightarrow> call_record \<Rightarrow> bool" where
  "attempt_record E r previous i s ended rec \<longleftrightarrow>
     rec_request_fingerprint rec = re_sha_request E r \<and>
     rec_capabilities_fingerprint rec = re_sha_caps E (re_caps E ! i) \<and>
     enforce_security_route r (re_caps E ! i) = Inr () \<and>
     rec_attempt rec = r_attempt_count s + 1 \<and>
     rec_fallback_reason rec = previous \<and> rec_error_code rec = end_error ended \<and>
     (rec_outcome rec = Call_Success \<longleftrightarrow> end_response ended \<noteq> None) \<and>
     (\<exists>a b. max_input_tokens (re_caps E ! i) = Some a \<and> max_output_tokens (re_caps E ! i) = Some b \<and>
        rec_reserved_tokens rec = a + b) \<and>
     (0 \<le> r_attempt_count s \<and> valid_capabilities (re_caps E ! i) \<longrightarrow> valid_call_record rec)"

lemma attempt_cases:
  assumes "attempt E r previous i s = (x, s')"
  shows "(\<exists>e. x = Inl e \<and> same_books s s') \<or>
    (\<exists>ended rec. x = Inr (ended, rec) \<and> attempt_record E r previous i s ended rec \<and>
       r_calls s' = r_calls s @ [rec] \<and> r_attempt_count s' = r_attempt_count s + 1 \<and>
       r_reserved_tokens s' = r_reserved_tokens s + rec_reserved_tokens rec \<and>
       r_attempt_count s' \<le> max_calls (budget (re_policy E)) \<and>
       r_reserved_tokens s' \<le> max_tokens (budget (re_policy E)))"
proof -
  let ?caps = "re_caps E ! i" and ?a = "re_attempt E i (r_reads s)"
  show ?thesis
  proof (cases "\<exists>e. x = Inl e \<and> same_books s s'")
    case False
    obtain p where req: "checked_request (re_json_hash E) r = Inr r" "prompt r = Some p"
      using assms False
      by (cases "checked_request (re_json_hash E) r")
        (auto simp: attempt_def Let_def bind_m_def lift_code_def dest: checked_request_ok)
    have ok: "approved E r = Inr ()" "checked_capabilities (ae_caps_before ?a) \<noteq> Inl c"
      "enforce_security_route r ?caps = Inr ()" for c
      using assms False req
      by (auto simp: attempt_def Let_def bind_m_def lift_code_def split: sum.splits if_splits)
    obtain now where now: "checked_capabilities (ae_caps_before ?a) = Inr now"
      using ok(2) by (cases "checked_capabilities (ae_caps_before ?a)") auto
    have sha: "re_sha_caps E now = re_sha_caps E ?caps"
    proof (rule ccontr)
      assume "re_sha_caps E now \<noteq> re_sha_caps E ?caps"
      then have "\<exists>e. x = Inl e \<and> s' = s" using assms req ok(1) now
        by (auto simp: attempt_def Let_def bind_m_def lift_code_def)
      then show False using False by auto
    qed
    obtain y s1 where res: "reserve_attempt E ?caps s = (y, s1)" by fastforce
    obtain ended s2 where body: "attempt_body E r ?caps ?a (s1\<lparr>r_reads := r_reads s1 + 1\<rparr>) = (ended, s2)"
      by fastforce
    have books: "same_books (s1\<lparr>r_reads := r_reads s1 + 1\<rparr>) s2" using attempt_body_books [OF body] .
    have y: "y \<noteq> Inl e" for e
    proof
      assume "y = Inl e"
      then have "x = Inl e" "s' = s1" using assms req ok(1,3) now sha res
        by (auto simp: attempt_def Let_def bind_m_def lift_code_def)
      then show False using reserve_attempt_cases [OF res] False \<open>y = Inl e\<close> by auto
    qed
    then obtain a b where ab: "max_input_tokens ?caps = Some a" "max_output_tokens ?caps = Some b"
      "y = Inr (a + b)" "r_calls s1 = r_calls s" "r_attempt_count s1 = r_attempt_count s + 1"
      "r_reserved_tokens s1 = r_reserved_tokens s + (a + b)"
      "r_attempt_count s1 \<le> max_calls (budget (re_policy E))"
      "r_reserved_tokens s1 \<le> max_tokens (budget (re_policy E))"
      using reserve_attempt_cases [OF res] by auto
    define elapsed where "elapsed =
      min 300000 (max 0 (py_int ((re_mono E (r_reads s2) - re_mono E (r_reads s1)) * 1000)))"
    obtain rec where rec: "make_call_record (re_sha_request E) (re_sha_caps E) r ?caps (r_attempt_count s + 1)
        (ae_started_at ?a) elapsed (end_response ended) (end_error ended) previous (a + b) = Some rec"
      using req(2) by (auto simp: make_call_record_def)
    have s': "x = Inr (ended, rec)" "s' = s2\<lparr>r_reads := r_reads s2 + 1, r_calls := r_calls s2 @ [rec]\<rparr>"
      using assms req ok(1,3) now sha res ab(3,5) body rec books
      by (auto simp: attempt_def Let_def bind_m_def lift_code_def monotonic_def same_books_def elapsed_def)
    have "valid_call_record rec" if "0 \<le> r_attempt_count s" "valid_capabilities ?caps"
    proof (rule make_call_record_valid [OF rec])
      show "0 \<le> a + b" using that(2) ab(1,2) by (simp add: valid_capabilities_def token_field_def)
      show "end_response ended = None \<or> end_error ended = None" by (cases ended) auto
      show "\<forall>q. end_response ended = Some q \<longrightarrow> 0 \<le> input_tokens q \<and> 0 \<le> output_tokens q"
        using attempt_body_ok [of E r ?caps ?a _ _ s2] body
        by (cases ended) (auto simp: valid_response_def)
    qed (use that in \<open>auto simp: elapsed_def\<close>)
    then have "attempt_record E r previous i s ended rec"
      using rec ok(3) ab(1,2)
      by (auto simp: attempt_record_def make_call_record_def split: option.splits if_splits)
    then show ?thesis using s' ab books rec
      by (auto simp: same_books_def make_call_record_def split: option.splits)
  qed simp
qed

section \<open>Invariant of a run\<close>

definition router_inv :: "'g router_env \<Rightarrow> 'g router \<Rightarrow> bool" where
  "router_inv E s \<longleftrightarrow> r_attempt_count s = int (length (r_calls s)) \<and>
     r_reserved_tokens s = sum_list (map rec_reserved_tokens (r_calls s)) \<and>
     r_attempt_count s \<le> max_calls (budget (re_policy E)) \<and>
     r_reserved_tokens s \<le> max_tokens (budget (re_policy E)) \<and>
     map rec_attempt (r_calls s) = map (\<lambda>i. int i + 1) [0..<length (r_calls s)] \<and>
     list_all valid_call_record (r_calls s)"

lemma router_inv_books: "same_books s s' \<Longrightarrow> router_inv E s' = router_inv E s"
  by (simp add: same_books_def router_inv_def)

lemma router_inv_busy [simp]: "router_inv E (s\<lparr>r_busy := b\<rparr>) = router_inv E s"
  by (simp add: router_inv_def)

definition route_made :: "'g router_env \<Rightarrow> llm_request \<Rightarrow> nat \<Rightarrow> call_record \<Rightarrow> bool" where
  "route_made E r i rec \<longleftrightarrow> rec_request_fingerprint rec = re_sha_request E r \<and>
     rec_capabilities_fingerprint rec = re_sha_caps E (re_caps E ! i) \<and>
     enforce_security_route r (re_caps E ! i) = Inr ()"

lemma attempt_inv:
  assumes "attempt E r previous i s = (x, s')" and "router_inv E s" and "valid_capabilities (re_caps E ! i)"
  shows "router_inv E s'"
proof -
  from attempt_cases [OF assms(1)] show ?thesis
  proof (elim disjE exE conjE)
    fix ended rec
    assume rec: "attempt_record E r previous i s ended rec"
      and s': "r_calls s' = r_calls s @ [rec]" "r_attempt_count s' = r_attempt_count s + 1"
        "r_reserved_tokens s' = r_reserved_tokens s + rec_reserved_tokens rec"
        "r_attempt_count s' \<le> max_calls (budget (re_policy E))"
        "r_reserved_tokens s' \<le> max_tokens (budget (re_policy E))"
    have "0 \<le> r_attempt_count s" using assms(2) by (simp add: router_inv_def)
    then have "valid_call_record rec" "rec_attempt rec = r_attempt_count s + 1"
      using rec assms(3) by (auto simp: attempt_record_def)
    then show ?thesis using assms(2) s' by (simp add: router_inv_def)
  qed (use assms(2) router_inv_books in blast)
qed

text \<open>Consecutive attempts of one request: each but the last failed transiently and is the reason of the next.\<close>

fun fallback_chain :: "llm_code option \<Rightarrow> call_record list \<Rightarrow> bool" where
  "fallback_chain previous [] = True"
| "fallback_chain previous (c # cs) \<longleftrightarrow> rec_fallback_reason c = previous \<and>
     (cs \<noteq> [] \<longrightarrow> (\<exists>e. rec_error_code c = Some e \<and> transient e) \<and> fallback_chain (rec_error_code c) cs)"

lemma fallback_spec:
  assumes "fallback E r previous is s = (x, s')"
  shows "\<exists>recs. r_calls s' = r_calls s @ recs \<and> fallback_chain previous recs \<and>
     length recs \<le> length is \<and> list_all2 (route_made E r) (take (length recs) is) recs \<and>
     (mode (re_policy E) = FIXED \<longrightarrow> length recs \<le> 1) \<and>
     (\<forall>res. x = Inr res \<longrightarrow> recs \<noteq> [] \<and> rec_outcome (last recs) = Call_Success)"
  using assms
proof (induction E r previous "is" s rule: fallback.induct)
  case (2 E r previous i rest s)
  obtain y s1 where a: "attempt E r previous i s = (y, s1)" by fastforce
  from attempt_cases [OF a] show ?case
  proof (elim disjE exE conjE)
    fix e assume "y = Inl e" "same_books s s1"
    then show ?case using "2.prems" a by (intro exI [of _ "[]"]) (auto simp: same_books_def)
  next
    fix ended rec
    assume y: "y = Inr (ended, rec)" and rec: "attempt_record E r previous i s ended rec"
      and calls: "r_calls s1 = r_calls s @ [rec]"
    have made: "route_made E r i rec" using rec by (simp add: attempt_record_def route_made_def)
    show ?case
    proof (cases "\<exists>code. ended = Attempt_Failed code \<and> mode (re_policy E) \<noteq> FIXED \<and> transient code \<and> rest \<noteq> []")
      case False
      then have "(\<forall>res. x = Inr res \<longrightarrow> ended = Attempt_Ok res) \<and> s' = s1"
        using "2.prems" a y by (cases ended) (auto split: if_splits)
      then show ?thesis using rec calls made
        by (intro exI [of _ "[rec]"]) (auto simp: attempt_record_def)
    next
      case True
      then obtain code where code: "ended = Attempt_Failed code" "mode (re_policy E) \<noteq> FIXED" "transient code" by blast
      have tail: "fallback E r (Some code) rest s1 = (x, s')"
        using "2.prems" a y code True by auto
      have "\<not> (mode (re_policy E) = FIXED \<or> \<not> transient code \<or> rest = [])" using code True by blast
      from "2.IH" [OF a [symmetric] y refl code(1) this tail] obtain recs where recs:
        "r_calls s' = r_calls s1 @ recs" "fallback_chain (Some code) recs" "length recs \<le> length rest"
        "list_all2 (route_made E r) (take (length recs) rest) recs"
        "\<forall>res. x = Inr res \<longrightarrow> recs \<noteq> [] \<and> rec_outcome (last recs) = Call_Success" by blast
      have "rec_error_code rec = Some code" "rec_fallback_reason rec = previous"
        using rec code(1) by (auto simp: attempt_record_def)
      then show ?thesis using recs calls made code(2,3) by (intro exI [of _ "rec # recs"]) auto
    qed
  qed
qed auto

lemma fallback_inv:
  "fallback E r previous is s = (x, s') \<Longrightarrow> router_inv E s \<Longrightarrow>
     \<forall>i \<in> set is. valid_capabilities (re_caps E ! i) \<Longrightarrow> router_inv E s'"
proof (induction E r previous "is" s rule: fallback.induct)
  case (2 E r previous i rest s)
  obtain y s1 where a: "attempt E r previous i s = (y, s1)" by fastforce
  have inv: "router_inv E s1" using attempt_inv [OF a] "2.prems" by simp
  show ?case
  proof (cases "\<exists>code rec. y = Inr (Attempt_Failed code, rec) \<and> \<not> (mode (re_policy E) = FIXED \<or> \<not> transient code \<or> rest = [])")
    case False
    then have "s' = s1" using "2.prems"(1) a by (auto split: sum.splits attempt_end.splits if_splits)
    then show ?thesis using inv by simp
  next
    case True
    then obtain code rec where c: "y = Inr (Attempt_Failed code, rec)"
      "\<not> (mode (re_policy E) = FIXED \<or> \<not> transient code \<or> rest = [])" by blast
    then have "fallback E r (Some code) rest s1 = (x, s')" using "2.prems"(1) a by auto
    then show ?thesis using "2.IH" [OF a [symmetric] c(1) refl refl c(2)] inv "2.prems"(3) by simp
  qed
qed simp

section \<open>Candidates and requests\<close>

definition usable :: "'g router_env \<Rightarrow> llm_request \<Rightarrow> nat \<Rightarrow> bool" where
  "usable E r i \<longleftrightarrow> purpose r \<in> set (supported_purposes (re_caps E ! i)) \<and> has_token_limits (re_caps E ! i)"

definition route_skipped :: "'g router_env \<Rightarrow> llm_request \<Rightarrow> nat \<Rightarrow> bool" where
  "route_skipped E r i = skipped (re_policy E) r (routes (re_policy E) ! i) (re_caps E ! i)"

definition env_at :: "'g router_env \<Rightarrow> nat \<Rightarrow> environment" where
  "env_at E i = execution_environment (re_caps E ! i)"

definition tried_before :: "'g router_env \<Rightarrow> nat \<Rightarrow> nat \<Rightarrow> bool" where
  "tried_before E i j \<longleftrightarrow> (if mode (re_policy E) = PRIVACY_FIRST \<and> (env_at E i = ENV_LOCAL) \<noteq> (env_at E j = ENV_LOCAL)
     then env_at E i = ENV_LOCAL else i < j)"

lemma insort_key_stable:
  assumes "sorted_wrt (\<lambda>i j. k i < k j \<or> k i = k j \<and> i < j) l" and "\<forall>y \<in> set l. (x :: nat) < y"
  shows "sorted_wrt (\<lambda>i j. k i < k j \<or> k i = k j \<and> i < j) (insort_key k x l)" (is "sorted_wrt ?P _")
  using assms
proof (induction l)
  case (Cons y l)
  show ?case
  proof (cases "k x \<le> k y")
    case True
    then show ?thesis using Cons.prems by auto
  next
    case False
    then show ?thesis using Cons by (auto simp: set_insort_key)
  qed
qed simp

lemma sort_key_stable_wrt:
  "sorted_wrt (<) (xs :: nat list) \<Longrightarrow> sorted_wrt (\<lambda>i j. k i < k j \<or> k i = k j \<and> i < j) (sort_key k xs)"
  by (induction xs) (simp_all add: insort_key_stable)

lemma candidates_cases:
  "case candidates E r of
     Inl c \<Rightarrow> if \<forall>i < length (routes (re_policy E)). route_skipped E r i then c = LLM_POLICY_DENIED
             else c = LLM_CAPABILITY_MISMATCH \<and> (\<forall>i < length (routes (re_policy E)). usable E r i \<longrightarrow> route_skipped E r i)
   | Inr is \<Rightarrow> is \<noteq> [] \<and> set is = {i. i < length (routes (re_policy E)) \<and> \<not> route_skipped E r i \<and> usable E r i} \<and>
       sorted_wrt (tried_before E) is"
proof -
  define n where "n = length (routes (re_policy E))"
  define allowed where "allowed = filter (\<lambda>i. \<not> route_skipped E r i) [0..<n]"
  define ordered where "ordered = (if mode (re_policy E) = PRIVACY_FIRST
      then sort_key (\<lambda>i. env_at E i \<noteq> ENV_LOCAL) allowed else allowed)"
  have c: "candidates E r = (if allowed = [] then Inl LLM_POLICY_DENIED
      else if filter (usable E r) ordered = [] then Inl LLM_CAPABILITY_MISMATCH else Inr (filter (usable E r) ordered))"
    unfolding candidates_def Let_def allowed_def ordered_def n_def usable_def [abs_def] env_at_def route_skipped_def ..
  have set: "set ordered = {i. i < n \<and> \<not> route_skipped E r i}"
    by (auto simp: ordered_def allowed_def)
  have up: "sorted_wrt (<) allowed" unfolding allowed_def by (intro sorted_wrt_filter) simp
  have "sorted_wrt (tried_before E) ordered"
  proof (cases "mode (re_policy E) = PRIVACY_FIRST")
    case True
    then show ?thesis
      using sort_key_stable_wrt [OF up, of "\<lambda>i. env_at E i \<noteq> ENV_LOCAL"]
      by (auto simp: ordered_def tried_before_def elim!: sorted_wrt_mono_rel [rotated])
  next
    case False
    then have "tried_before E = (<)" by (simp add: tried_before_def fun_eq_iff)
    then show ?thesis using up False by (simp add: ordered_def)
  qed
  then have "sorted_wrt (tried_before E) (filter (usable E r) ordered)" by (rule sorted_wrt_filter)
  moreover have "allowed = [] \<longleftrightarrow> (\<forall>i < n. route_skipped E r i)"
    by (auto simp: allowed_def filter_empty_conv)
  ultimately show ?thesis using c set by (auto simp: n_def [symmetric] filter_empty_conv)
qed

lemma generate_cases:
  assumes "generate E r s = (x, s')"
  shows "(\<exists>e. x = Inl e \<and> same_books s s') \<or>
    (\<exists>is s1. candidates E r = Inr is \<and> fallback E r None is (s\<lparr>r_busy := True\<rparr>) = (x, s1) \<and>
       s' = s1\<lparr>r_busy := False\<rparr>)"
  using assms
  by (auto simp: generate_def bind_m_def lift_code_def same_books_def split: if_splits sum.splits prod.splits
      dest: checked_request_ok)

lemma candidates_valid:
  assumes "new_router E g = Some s0" and "candidates E r = Inr is" and "i \<in> set is"
  shows "i < length (routes (re_policy E)) \<and> \<not> route_skipped E r i \<and> valid_capabilities (re_caps E ! i)"
proof -
  have "i < length (routes (re_policy E))" "\<not> route_skipped E r i"
    using candidates_cases [of E r] assms(2,3) by auto
  moreover have "list_all valid_capabilities (re_caps E)" "length (re_caps E) = length (routes (re_policy E))"
    using assms(1) by (auto simp: new_router_def split: if_splits)
  ultimately show ?thesis by (simp add: list_all_length)
qed

lemma generate_inv:
  assumes "generate E r s = (x, s')" and "router_inv E s" and "new_router E g = Some s0"
  shows "router_inv E s'"
  using generate_cases [OF assms(1)]
proof (elim disjE exE conjE)
  fix "is" s1 assume c: "candidates E r = Inr is" "fallback E r None is (s\<lparr>r_busy := True\<rparr>) = (x, s1)"
    and s': "s' = s1\<lparr>r_busy := False\<rparr>"
  have "router_inv E s1" using fallback_inv [OF c(2)] assms(2) candidates_valid [OF assms(3) c(1)] by simp
  then show ?thesis using s' by simp
qed (use assms(2) router_inv_books in blast)

lemma generate_all_inv:
  "router_inv E s \<Longrightarrow> new_router E g = Some s0 \<Longrightarrow> router_inv E (generate_all E rs s)"
  by (induction rs arbitrary: s) (simp_all, metis generate_inv prod.collapse)

lemma new_router_inv: "new_router E g = Some s \<Longrightarrow> router_inv E s"
  by (auto simp: new_router_def router_inv_def valid_routing_policy_def valid_budget_def split: if_splits)

section \<open>A budget shared through a guard\<close>

text \<open>
  What the router relies on in the shared guard: its reservations are a charged budget, and asking
  for the remaining time charges nothing.
\<close>

locale router_guard = charged_budget charge units attempts max_units max_attempts good
  for charge :: "int \<Rightarrow> 'g \<Rightarrow> (unit + unit) \<times> 'g" and units attempts max_units max_attempts good +
  fixes remaining :: "'g \<Rightarrow> (unit + rat) \<times> 'g"
  assumes remaining_free: "good g \<Longrightarrow> remaining g = (x, g') \<Longrightarrow>
    good g' \<and> units g' = units g \<and> attempts g' = attempts g"
begin

definition charged :: "'g router \<Rightarrow> 'g router \<Rightarrow> bool" where
  "charged s s' \<longleftrightarrow> (good (r_guard s) \<longrightarrow> good (r_guard s') \<and>
     units (r_guard s') - units (r_guard s) = r_reserved_tokens s' - r_reserved_tokens s \<and>
     attempts (r_guard s') - attempts (r_guard s) = r_attempt_count s' - r_attempt_count s)"

lemma charged_refl: "charged s s"
  by (simp add: charged_def)

lemma charged_trans: "charged s s' \<Longrightarrow> charged s' s'' \<Longrightarrow> charged s s''"
  by (auto simp: charged_def)

lemma remaining_ms_charged:
  assumes "re_guard E = Some \<lparr>guard_reserve = charge, guard_remaining = remaining\<rparr>"
    and "remaining_ms E s = (x, s')"
  shows "charged s s'"
proof -
  obtain y g' where r: "remaining (r_guard s) = (y, g')" by fastforce
  have "r_guard s' = g' \<and> r_reserved_tokens s' = r_reserved_tokens s \<and> r_attempt_count s' = r_attempt_count s"
    using assms r by (auto simp: remaining_ms_def bind_m_def monotonic_def Let_def split: sum.splits)
  then show ?thesis using remaining_free [OF _ r] by (simp add: charged_def)
qed

lemma reserve_attempt_charged:
  assumes E: "re_guard E = Some \<lparr>guard_reserve = charge, guard_remaining = remaining\<rparr>"
    and res: "reserve_attempt E caps s = (x, s')"
  shows "charged s s'"
proof (cases "max_input_tokens caps"; cases "max_output_tokens caps")
  fix i j assume caps: "max_input_tokens caps = Some i" "max_output_tokens caps = Some j"
  obtain y s1 where rem: "remaining_ms E s = (y, s1)" by fastforce
  have c: "charged s s1" using remaining_ms_charged [OF E rem] .
  obtain z g' where ch: "charge (i + j) (r_guard s1) = (z, g')" by fastforce
  have "s' = s \<or> s' = s1 \<or> (isl z \<and> s' = s1\<lparr>r_guard := g'\<rparr>) \<or>
      (\<not> isl z \<and> s' = s1\<lparr>r_guard := g', r_attempt_count := r_attempt_count s1 + 1,
         r_reserved_tokens := r_reserved_tokens s1 + (i + j)\<rparr>)"
    using res caps rem ch E
    by (auto simp: reserve_attempt_def Let_def bind_m_def split: if_splits sum.splits)
  moreover have "charged s1 (s1\<lparr>r_guard := g'\<rparr>)" if "isl z"
    using that charge_refused [of "r_guard s1" "i + j" _ g'] ch by (cases z) (auto simp: charged_def)
  moreover have "charged s1 (s1\<lparr>r_guard := g', r_attempt_count := r_attempt_count s1 + 1,
         r_reserved_tokens := r_reserved_tokens s1 + (i + j)\<rparr>)" if "\<not> isl z"
    using that charge_ok [of "r_guard s1" "i + j" _ g'] ch by (cases z) (auto simp: charged_def)
  ultimately show ?thesis using c charged_refl charged_trans by metis
qed (use res charged_refl in \<open>auto simp: reserve_attempt_def\<close>)

lemma attempt_body_charged:
  assumes E: "re_guard E = Some \<lparr>guard_reserve = charge, guard_remaining = remaining\<rparr>"
    and "attempt_body E r caps a s = (x, s')"
  shows "charged s s'"
  using assms(2)
  by (auto simp: attempt_body_def split: prod.splits sum.splits if_splits generation.splits
      dest!: remaining_ms_charged [OF E] intro: charged_trans)

lemma reads_charged: "charged s (s\<lparr>r_reads := n\<rparr>)" "charged s (s\<lparr>r_reads := n, r_calls := cs\<rparr>)"
  "charged s (s\<lparr>r_busy := b\<rparr>)"
  by (simp_all add: charged_def)

lemma attempt_charged:
  assumes E: "re_guard E = Some \<lparr>guard_reserve = charge, guard_remaining = remaining\<rparr>"
    and att: "attempt E r previous i s = (x, s')"
  shows "charged s s'"
proof -
  let ?caps = "re_caps E ! i" and ?a = "re_attempt E i (r_reads s)"
  obtain y s1 where res: "reserve_attempt E ?caps s = (y, s1)" by fastforce
  obtain ended s2 where body: "attempt_body E r ?caps ?a (s1\<lparr>r_reads := r_reads s1 + 1\<rparr>) = (ended, s2)"
    by fastforce
  have "s' = s \<or> s' = s1 \<or> (\<exists>n. s' = s2\<lparr>r_reads := n\<rparr>) \<or> (\<exists>n cs. s' = s2\<lparr>r_reads := n, r_calls := cs\<rparr>)"
    using att res body
    by (auto simp: attempt_def Let_def bind_m_def lift_code_def monotonic_def
        split: if_splits sum.splits option.splits dest!: checked_request_ok)
  moreover have "charged s s1" using reserve_attempt_charged [OF E res] .
  moreover have "charged s1 s2"
    using charged_trans [OF reads_charged(1) attempt_body_charged [OF E body]] .
  ultimately show ?thesis using charged_refl charged_trans reads_charged(1,2) by metis
qed

lemma fallback_charged:
  "re_guard E = Some \<lparr>guard_reserve = charge, guard_remaining = remaining\<rparr> \<Longrightarrow>
     fallback E r previous is s = (x, s') \<Longrightarrow> charged s s'"
proof (induction E r previous "is" s rule: fallback.induct)
  case (1 E r previous s)
  then show ?case by (simp add: charged_refl)
next
  case (2 E r previous i rest s)
  obtain y s1 where a: "attempt E r previous i s = (y, s1)" by fastforce
  have c: "charged s s1" using attempt_charged [OF "2.prems"(1) a] .
  show ?case
  proof (cases "\<exists>code rec. y = Inr (Attempt_Failed code, rec) \<and> \<not> (mode (re_policy E) = FIXED \<or> \<not> transient code \<or> rest = [])")
    case False
    then have "s' = s1" using "2.prems"(2) a by (auto split: sum.splits attempt_end.splits if_splits)
    then show ?thesis using c by simp
  next
    case True
    then obtain code rec where d: "y = Inr (Attempt_Failed code, rec)"
      "\<not> (mode (re_policy E) = FIXED \<or> \<not> transient code \<or> rest = [])" by blast
    then have "fallback E r (Some code) rest s1 = (x, s')" using "2.prems"(2) a by auto
    then have "charged s1 s'" using "2.IH" [OF a [symmetric] d(1) refl refl d(2)] "2.prems"(1) by simp
    then show ?thesis using c charged_trans by blast
  qed
qed

lemma generate_charged:
  assumes E: "re_guard E = Some \<lparr>guard_reserve = charge, guard_remaining = remaining\<rparr>"
    and gen: "generate E r s = (x, s')"
  shows "charged s s'"
proof -
  have "s' = s \<or> (\<exists>is s1. fallback E r None is (s\<lparr>r_busy := True\<rparr>) = (x, s1) \<and> s' = s1\<lparr>r_busy := False\<rparr>)"
    using gen by (auto simp: generate_def bind_m_def lift_code_def split: if_splits sum.splits prod.splits
      dest: checked_request_ok)
  then show ?thesis
    using charged_refl charged_trans reads_charged(3) fallback_charged [OF E] by metis
qed

lemma generate_all_charged:
  "re_guard E = Some \<lparr>guard_reserve = charge, guard_remaining = remaining\<rparr> \<Longrightarrow> charged s (generate_all E rs s)"
proof (induction rs arbitrary: s)
  case (Cons r rs)
  obtain x s1 where g: "generate E r s = (x, s1)" by fastforce
  then show ?case using charged_trans [OF generate_charged [OF Cons.prems g] Cons.IH [OF Cons.prems]] by simp
qed (simp add: charged_refl)

end

text \<open>The security session as the shared guard: \<open>reserve_llm\<close> and \<open>llm_remaining_seconds\<close>.\<close>

definition session_reserve :: "session_env \<Rightarrow> int \<Rightarrow> session \<Rightarrow> (unit + unit) \<times> session" where
  "session_reserve E n s = (case reserve_llm E n s of
     (Inl _, s') \<Rightarrow> (Inl (), s') | (Inr _, s') \<Rightarrow> (Inr (), s'))"

definition llm_remaining_seconds :: "session_env \<Rightarrow> session \<Rightarrow> (unit + rat) \<times> session" where
  "llm_remaining_seconds E s = (case remaining_seconds E LLM_TIME_MS s of
     (Inl _, s') \<Rightarrow> (Inl (), s') | (Inr left, s') \<Rightarrow> (Inr left, s'))"

interpretation session_guard: router_guard "session_reserve E" "\<lambda>s. used s LLM_TOKENS" "\<lambda>s. used s LLM_CALLS"
  "max 0 (max_llm_tokens (limits_of E))" "max 0 (max_llm_calls (limits_of E))" "within_limits E"
  "llm_remaining_seconds E" for E
proof
  show "0 \<le> used s LLM_TOKENS \<and> used s LLM_TOKENS \<le> max 0 (max_llm_tokens (limits_of E)) \<and>
      0 \<le> used s LLM_CALLS \<and> used s LLM_CALLS \<le> max 0 (max_llm_calls (limits_of E))"
    if "within_limits E s" for s
    using llm_session.good_bounds [OF that] .
  show "within_limits E s' \<and> 0 < n \<and> used s' LLM_TOKENS = used s LLM_TOKENS + n \<and>
      used s' LLM_CALLS = used s LLM_CALLS + 1"
    if "within_limits E s" "session_reserve E n s = (Inr u, s')" for s n u s'
  proof -
    have "reserve_llm E n s = (Inr (), s')"
      using that(2) by (auto simp: session_reserve_def split: prod.splits sum.splits)
    then show ?thesis using llm_session.charge_ok [OF that(1)] by blast
  qed
  show "within_limits E s' \<and> used s' LLM_TOKENS = used s LLM_TOKENS \<and> used s' LLM_CALLS = used s LLM_CALLS"
    if g: "within_limits E s" and "session_reserve E n s = (Inl e, s')" for s n e s'
  proof -
    obtain e' where "reserve_llm E n s = (Inl e', s')"
      using \<open>session_reserve E n s = (Inl e, s')\<close> by (auto simp: session_reserve_def split: prod.splits sum.splits)
    then show ?thesis using llm_session.charge_refused [OF g] by blast
  qed
  show "within_limits E s' \<and> used s' LLM_TOKENS = used s LLM_TOKENS \<and> used s' LLM_CALLS = used s LLM_CALLS"
    if g: "within_limits E s" and "llm_remaining_seconds E s = (x, s')" for s x s'
  proof -
    obtain y where "remaining_seconds E LLM_TIME_MS s = (y, s')"
      using \<open>llm_remaining_seconds E s = (x, s')\<close> by (auto simp: llm_remaining_seconds_def split: prod.splits sum.splits)
    then show ?thesis using remaining_step g by (fastforce simp: session_step_def)
  qed
qed

section \<open>Properties\<close>

definition ex_budget :: llm_budget where
  "ex_budget = \<lparr>max_calls = 2, max_tokens = 100, max_time_ms = 1000\<rparr>"

definition ex_route :: "pystr \<Rightarrow> route_policy" where
  "ex_route p = \<lparr>capabilities_fingerprint = p, allowed_classifications = [PUBLIC, RESTRICTED]\<rparr>"

definition ex_caps :: "pystr \<Rightarrow> environment \<Rightarrow> capabilities" where
  "ex_caps p env = \<lparr>provider_id = p, provider_version = [], model_id = [], deployment_fingerprint = None,
     structured_output = True, supported_purposes = [Semantic_Parsing], cap_max_input_bytes = 10,
     cap_max_output_bytes = 10, json_schema = False, tool_calling = False, execution_environment = env,
     max_input_tokens = Some 20, max_output_tokens = Some 10, context_window_tokens = Some 40\<rparr>"

definition ex_router_policy :: "routing_mode \<Rightarrow> routing_policy" where
  "ex_router_policy m = \<lparr>policy_id = [7], mode = m, routes = [ex_route [1], ex_route [2]], budget = ex_budget\<rparr>"

definition ex_request :: "classification \<Rightarrow> llm_request" where
  "ex_request c = \<lparr>request_id = [5], req_run_id = [6], purpose = Semantic_Parsing, response_schema_id = [],
     response_schema_version = [], payload_json = [], payload_fingerprint = [], content_fingerprint = [],
     data_classification = c, routing_policy_id = [7], routing_policy_fingerprint = [],
     redaction_fingerprint = [],
     security_approval = \<lparr>ap_run_id = [6], ap_purpose = ''llm_input'', ap_decision = ''allowed'',
       ap_content_fingerprint = [], ap_payload_fingerprint = [], ap_classification = c,
       ap_routing_policy_id = [7], ap_routing_policy_fingerprint = [], ap_redaction_fingerprint = [],
       ap_injection = None\<rparr>,
     prompt_fingerprint = [], prompt = Some \<lparr>prompt_id = [], prompt_version = [], prompt_hash = []\<rparr>,
     max_output_bytes = 10\<rparr>"

text \<open>The first deployment is in the cloud and unavailable, the second local and answers.\<close>

definition ex_reply :: llm_response where
  "ex_reply = \<lparr>resp_request_id = [5], resp_provider_id = [2], resp_provider_version = [], resp_model_id = [],
     resp_schema_id = [], resp_schema_version = [], output_json = [], output_bytes = 2,
     resp_prompt_fingerprint = [], resp_prompt = Some \<lparr>prompt_id = [], prompt_version = [], prompt_hash = []\<rparr>,
     generation_fingerprint = [], input_tokens = 3, output_tokens = 4\<rparr>"

definition ex_router_env :: "routing_mode \<Rightarrow> 'g guard option \<Rightarrow> 'g router_env" where
  "ex_router_env m g = \<lparr>re_policy = ex_router_policy m, re_caps = [ex_caps [1] ENV_CLOUD, ex_caps [2] ENV_LOCAL],
     re_run_id = [6], re_mono = (\<lambda>_. 0),
     re_attempt = (\<lambda>i _. if i = 0
        then \<lparr>ae_caps_before = ex_caps [1] ENV_CLOUD, ae_caps_during = ex_caps [1] ENV_CLOUD,
               ae_reply = Provider_Crashes, ae_deadline_fires = False, ae_started_at = 0\<rparr>
        else \<lparr>ae_caps_before = ex_caps [2] ENV_LOCAL, ae_caps_during = ex_caps [2] ENV_LOCAL,
               ae_reply = Reply ex_reply, ae_deadline_fires = False, ae_started_at = 0\<rparr>),
     re_guard = g, re_json_hash = (\<lambda>x. x), re_sha_policy = (\<lambda>_. []), re_sha_caps = provider_id,
     re_sha_request = request_id\<rparr>"

definition ex_router :: "'g \<Rightarrow> 'g router" where
  "ex_router g = \<lparr>r_start = 0, r_busy = False, r_calls = [], r_reserved_tokens = 0, r_attempt_count = 0,
     r_reads = 1, r_guard = g\<rparr>"

lemmas ex_router_defs = ex_budget_def ex_route_def ex_caps_def ex_router_policy_def ex_request_def
  ex_reply_def ex_router_env_def ex_router_def

lemma ex_new_router: "m = FALLBACK \<or> m = PRIVACY_FIRST \<Longrightarrow> new_router (ex_router_env m g) q = Some (ex_router q)"
  by (auto simp: new_router_def ex_router_defs valid_routing_policy_def valid_budget_def valid_route_def
      valid_capabilities_def token_field_def within_window_def)

text \<open>C15: Route selection keeps data where the policy allows it. Every candidate is a configured route
  without tools whose allow-list has the classification of the request; restricted data, and any
  request under an injection restriction, only has local candidates, as does every request in
  local-only mode and confidential data in privacy-first mode, where local deployments come before
  cloud ones and each group keeps the policy's order. No deployment that is permitted and usable is
  left out.\<close>

theorem candidates_private:
  assumes "candidates E r = Inr is"
  shows "(\<forall>i \<in> set is. i < length (routes (re_policy E)) \<and> \<not> tool_calling (re_caps E ! i) \<and>
       data_classification r \<in> set (allowed_classifications (routes (re_policy E) ! i)) \<and>
       env_at E i \<in> {ENV_LOCAL, ENV_CLOUD} \<and>
       (data_classification r = RESTRICTED \<or> injection_local_only r \<or> mode (re_policy E) = LOCAL_ONLY \<or>
        (mode (re_policy E) = PRIVACY_FIRST \<and> data_classification r = CONFIDENTIAL) \<longrightarrow>
          env_at E i = ENV_LOCAL)) \<and>
    (\<forall>i < length (routes (re_policy E)). \<not> route_skipped E r i \<and> usable E r i \<longrightarrow> i \<in> set is) \<and>
    (\<forall>a b. a < b \<and> b < length is \<longrightarrow>
       (if mode (re_policy E) = PRIVACY_FIRST \<and> env_at E (is ! a) \<noteq> env_at E (is ! b)
        then env_at E (is ! a) = ENV_LOCAL \<and> env_at E (is ! b) = ENV_CLOUD else is ! a < is ! b))"
proof -
  have set: "set is = {i. i < length (routes (re_policy E)) \<and> \<not> route_skipped E r i \<and> usable E r i}"
    and sorted: "sorted_wrt (tried_before E) is"
    using candidates_cases [of E r] assms by auto
  have env: "env_at E i \<in> {ENV_LOCAL, ENV_CLOUD}" if "i \<in> set is" for i
    using that set by (auto simp: route_skipped_def skipped_def Let_def env_at_def)
  have order: "if mode (re_policy E) = PRIVACY_FIRST \<and> env_at E (is ! a) \<noteq> env_at E (is ! b)
      then env_at E (is ! a) = ENV_LOCAL \<and> env_at E (is ! b) = ENV_CLOUD else is ! a < is ! b"
    if "a < b" "b < length is" for a b
  proof -
    have "tried_before E (is ! a) (is ! b)" using sorted that by (simp add: sorted_wrt_iff_nth_less)
    moreover have "env_at E (is ! a) \<in> {ENV_LOCAL, ENV_CLOUD}" "env_at E (is ! b) \<in> {ENV_LOCAL, ENV_CLOUD}"
      using env [of "is ! a"] env [of "is ! b"] that by auto
    ultimately show ?thesis by (auto simp: tried_before_def split: if_splits)
  qed
  have safe: "\<forall>i \<in> set is. i < length (routes (re_policy E)) \<and> \<not> tool_calling (re_caps E ! i) \<and>
       data_classification r \<in> set (allowed_classifications (routes (re_policy E) ! i)) \<and>
       env_at E i \<in> {ENV_LOCAL, ENV_CLOUD} \<and>
       (data_classification r = RESTRICTED \<or> injection_local_only r \<or> mode (re_policy E) = LOCAL_ONLY \<or>
        (mode (re_policy E) = PRIVACY_FIRST \<and> data_classification r = CONFIDENTIAL) \<longrightarrow>
          env_at E i = ENV_LOCAL)"
    using set env by (auto simp: route_skipped_def skipped_def Let_def env_at_def)
  have all: "\<forall>i < length (routes (re_policy E)). \<not> route_skipped E r i \<and> usable E r i \<longrightarrow> i \<in> set is"
    using set by blast
  show ?thesis using safe all order by blast
qed

lemma ex_candidates:
  "candidates (ex_router_env PRIVACY_FIRST None) (ex_request PUBLIC) = Inr [1, 0]"
  by (simp add: candidates_def ex_router_defs skipped_def injection_local_only_def has_token_limits_def
      Let_def)

theorem candidates_private_witness:
  "env_at (ex_router_env PRIVACY_FIRST None) 1 = ENV_LOCAL"
  using conjunct2 [OF candidates_private [OF ex_candidates], THEN conjunct2, rule_format, of 0 1]
  by (simp add: env_at_def ex_router_defs)


lemmas router_eval = generate_def fallback.simps attempt_def bind_m_def lift_code_def checked_request_def
  valid_request_def approved_def checked_capabilities_def enforce_security_route_def reserve_attempt_def
  remaining_ms_def monotonic_def attempt_body_def checked_generation_def checked_response_def
  valid_response_def make_call_record_def injection_local_only_def valid_capabilities_def token_field_def
  within_window_def py_int_def transient_def Let_def

lemma ex_fallback_candidates:
  "candidates (ex_router_env FALLBACK g) (ex_request PUBLIC) = Inr [0, 1]"
  "candidates (ex_router_env FALLBACK g) (ex_request RESTRICTED) = Inr [1]"
  by (simp_all add: candidates_def ex_router_defs skipped_def injection_local_only_def has_token_limits_def
      Let_def)

lemma ex_generate:
  "r_calls (snd (generate (ex_router_env FALLBACK None) (ex_request PUBLIC) (ex_router ()))) \<noteq> []"
  "fst (generate (ex_router_env FALLBACK None) (ex_request PUBLIC) (ex_router ())) = Inr ex_reply"
proof -
  have "\<exists>s'. fallback (ex_router_env FALLBACK None) (ex_request PUBLIC) None [0, 1] ((ex_router ())\<lparr>r_busy := True\<rparr>) =
      (Inr ex_reply, s') \<and> r_calls s' \<noteq> []"
    by (simp add: router_eval ex_router_defs)
  then obtain s' where s: "fallback (ex_router_env FALLBACK None) (ex_request PUBLIC) None [0, 1] ((ex_router ())\<lparr>r_busy := True\<rparr>) =
      (Inr ex_reply, s')" "r_calls s' \<noteq> []" by auto
  have c: "checked_request (re_json_hash (ex_router_env FALLBACK None)) (ex_request PUBLIC) = Inr (ex_request PUBLIC)"
    "approved (ex_router_env FALLBACK None) (ex_request PUBLIC) = Inr ()"
    by (simp_all add: router_eval ex_router_defs)
  have r: "\<not> r_busy (ex_router ())" "mode (re_policy (ex_router_env FALLBACK None)) = FALLBACK"
    by (simp_all add: ex_router_env_def ex_router_policy_def ex_router_def)
  have "generate (ex_router_env FALLBACK None) (ex_request PUBLIC) (ex_router ()) = (Inr ex_reply, s'\<lparr>r_busy := False\<rparr>)"
    using s(1) by (simp add: generate_def bind_m_def lift_code_def c r ex_fallback_candidates del: fallback.simps)
  then show "r_calls (snd (generate (ex_router_env FALLBACK None) (ex_request PUBLIC) (ex_router ()))) \<noteq> []"
    "fst (generate (ex_router_env FALLBACK None) (ex_request PUBLIC) (ex_router ())) = Inr ex_reply"
    using s(2) by simp_all
qed


text \<open>C16: The budget of a run is never overdrawn and its history is complete. After any requests the
  attempts recorded are as many as were counted, numbered from one in order, at most the permitted
  calls; the tokens reserved are the sum over the records, at most the permitted tokens; and every
  record is one its own contract accepts.\<close>

theorem router_budget_kept:
  assumes "new_router E g = Some s"
  shows "let s' = generate_all E rs s; calls = r_calls s' in
    map rec_attempt calls = map (\<lambda>i. int i + 1) [0..<length calls] \<and>
    int (length calls) = r_attempt_count s' \<and> r_attempt_count s' \<le> max_calls (budget (re_policy E)) \<and>
    sum_list (map rec_reserved_tokens calls) = r_reserved_tokens s' \<and>
    r_reserved_tokens s' \<le> max_tokens (budget (re_policy E)) \<and> list_all valid_call_record calls"
  using generate_all_inv [OF new_router_inv [OF assms] assms, of rs]
  by (simp add: router_inv_def Let_def)

theorem router_budget_kept_witness:
  "r_reserved_tokens (generate_all (ex_router_env FALLBACK None) (replicate 3 (ex_request PUBLIC)) (ex_router ())) \<le> 100"
proof -
  have "new_router (ex_router_env FALLBACK None) () = Some (ex_router ())" by (rule ex_new_router) simp
  from router_budget_kept [OF this, of "replicate 3 (ex_request PUBLIC)"] show ?thesis
    by (simp add: Let_def ex_router_env_def ex_router_policy_def ex_budget_def)
qed

text \<open>C32: The router falls back only after a transient failure. The attempts one request adds form a
  chain: each but the last failed with a time-out, a rate limit or unavailability, which the next
  records as its reason; they are at most as many as the candidates, one in fixed mode; and a response
  is returned only when the last of them succeeded.\<close>

theorem fallback_only_transient:
  assumes "generate E r s = (x, s')"
  shows "\<exists>recs. r_calls s' = r_calls s @ recs \<and> fallback_chain None recs \<and>
    length recs \<le> (case candidates E r of Inl _ \<Rightarrow> 0 | Inr is \<Rightarrow> length is) \<and>
    (mode (re_policy E) = FIXED \<longrightarrow> length recs \<le> 1) \<and>
    (\<forall>res. x = Inr res \<longrightarrow> recs \<noteq> [] \<and> rec_outcome (last recs) = Call_Success)"
  using generate_cases [OF assms]
proof (elim disjE exE conjE)
  fix e assume "x = Inl e" "same_books s s'"
  then show ?thesis by (intro exI [of _ "[]"]) (simp add: same_books_def)
next
  fix "is" s1 assume c: "candidates E r = Inr is" "fallback E r None is (s\<lparr>r_busy := True\<rparr>) = (x, s1)"
    and s': "s' = s1\<lparr>r_busy := False\<rparr>"
  from fallback_spec [OF c(2)] show ?thesis using c(1) s' by auto
qed

theorem fallback_only_transient_witness:
  "\<exists>recs. r_calls (snd (generate (ex_router_env FALLBACK None) (ex_request PUBLIC) (ex_router ()))) = recs \<and>
     fallback_chain None recs \<and> recs \<noteq> [] \<and> rec_outcome (last recs) = Call_Success"
proof -
  obtain x s' where g: "generate (ex_router_env FALLBACK None) (ex_request PUBLIC) (ex_router ()) = (x, s')"
    by fastforce
  have "x = Inr ex_reply" using ex_generate(2) g by simp
  then show ?thesis using fallback_only_transient [OF g] g by (auto simp: ex_router_def)
qed

text \<open>C17: A session shared with a router bounds it as well: whatever requests the router serves, the
  tokens and attempts it has reserved are exactly what the session was charged in the meantime, so
  that they stay within what the session had left.\<close>

theorem router_within_session:
  assumes "new_router E g = Some s" and "within_limits S g"
    and "re_guard E = Some \<lparr>guard_reserve = session_reserve S, guard_remaining = llm_remaining_seconds S\<rparr>"
  shows "let s' = generate_all E rs s in
    used (r_guard s') LLM_TOKENS = used g LLM_TOKENS + r_reserved_tokens s' \<and>
    used (r_guard s') LLM_CALLS = used g LLM_CALLS + int (length (r_calls s')) \<and>
    r_reserved_tokens s' \<le> max 0 (max_llm_tokens (limits_of S)) - used g LLM_TOKENS \<and>
    int (length (r_calls s')) \<le> max 0 (max_llm_calls (limits_of S)) - used g LLM_CALLS"
proof -
  have s: "r_guard s = g" "r_reserved_tokens s = 0" "r_attempt_count s = 0"
    using assms(1) by (auto simp: new_router_def split: if_splits)
  have inv: "router_inv E (generate_all E rs s)"
    using generate_all_inv [OF new_router_inv [OF assms(1)] assms(1)] .
  have charged: "session_guard.charged S s (generate_all E rs s)"
    using session_guard.generate_all_charged [OF assms(3)] .
  then have "within_limits S (r_guard (generate_all E rs s))"
    using assms(2) s unfolding session_guard.charged_def by blast
  from session_guard.good_bounds [OF this] show ?thesis
    using charged assms(2) s inv by (simp add: session_guard.charged_def router_inv_def Let_def)
qed

theorem router_within_session_witness:
  "let S = ex_session_env (\<lambda>_. Some 0);
       E = ex_router_env FALLBACK (Some \<lparr>guard_reserve = session_reserve S, guard_remaining = llm_remaining_seconds S\<rparr>)
   in int (length (r_calls (generate_all E (replicate 20 (ex_request PUBLIC)) (ex_router ex_session)))) \<le> 10"
proof -
  let ?S = "ex_session_env (\<lambda>_. Some 0)"
  let ?E = "ex_router_env FALLBACK (Some \<lparr>guard_reserve = session_reserve ?S, guard_remaining = llm_remaining_seconds ?S\<rparr>)"
  have "new_router ?E ex_session = Some (ex_router ex_session)" by (rule ex_new_router) simp
  moreover have "re_guard ?E = Some \<lparr>guard_reserve = session_reserve ?S, guard_remaining = llm_remaining_seconds ?S\<rparr>"
    by (simp add: ex_router_env_def)
  ultimately show ?thesis
    using router_within_session [OF _ new_session_within [OF ex_new_session], of ?E "ex_router ex_session" "replicate 20 (ex_request PUBLIC)"]
    by (simp add: Let_def ex_session_def used_def limits_of_def ex_session_env_def default_security_limits_def)
qed

end
