(* ===== verification/Parser_Selection.thy ===== *)
theory Parser_Selection
  imports Prelude Complex_Main "HOL-Library.Multiset"
begin

text \<open>
  Choice of a technical parser: the probe contracts of \<open>contracts/source.py\<close>, the errors an untrusted
  adapter may pass on (\<open>parsers/execution.py\<close>) and \<open>parsers/selection.py\<close>. What a parser does when it is
  probed is a function of its registration; details of errors are association lists.
\<close>

section \<open>Probe contracts\<close>

datatype signal_kind = SIGNATURE | CONTENT_MEDIA_TYPE | INTERNAL_STRUCTURE | DECLARED_MEDIA_TYPE | EXTENSION

datatype signal_outcome = MATCH | MISMATCH | INCONCLUSIVE

record artifact_source =
  src_artifact_id :: pystr
  src_media_type :: pystr
  src_fingerprint :: pystr

record probe_result =
  pr_source :: "pystr \<times> pystr"           \<comment> \<open>artifact id and fingerprint of the reference\<close>
  pr_adapter_id :: pystr
  pr_adapter_version :: pystr
  pr_supported :: bool
  pr_confidence :: rat
  pr_detected_media_type :: "pystr option"
  pr_warnings :: "pystr list"
  pr_format_id :: "pystr option"
  pr_signals :: "(signal_kind \<times> signal_outcome) list"
  pr_fields_ok :: bool                    \<comment> \<open>string patterns of the remaining fields\<close>

definition valid_probe_result :: "probe_result \<Rightarrow> bool" where
  "valid_probe_result r \<longleftrightarrow> pr_fields_ok r \<and> 0 \<le> pr_confidence r \<and> pr_confidence r \<le> 1 \<and>
     length (pr_signals r) \<le> 5 \<and> (pr_supported r \<longrightarrow> pr_detected_media_type r \<noteq> None) \<and>
     distinct (pr_warnings r) \<and> distinct (map fst (pr_signals r))"

record registration =
  adapter_id :: pystr
  adapter_version :: pystr
  priority :: int

section \<open>Errors of an adapter\<close>

datatype detail = D_Str string | D_Int int | D_Text pystr | D_Other

datatype exc =
    Parser_Exc string "(string \<times> detail) list"
  | Security_Exc string
  | Cancel_Exc
  | Plain_Exc                     \<comment> \<open>any other \<open>Exception\<close>\<close>
  | Base_Exc                      \<comment> \<open>a \<open>BaseException\<close> that is none of these\<close>
  | Group_Exc (group_plain: bool) (group_members: "exc list")   \<comment> \<open>\<open>ExceptionGroup\<close> or \<open>BaseExceptionGroup\<close>\<close>

datatype sel_error =
    Parser_Failure string "(string \<times> detail) list"
  | Security_Failure string
  | Cancelled_Failure
  | Group_Failure "sel_error list"
  | Propagated

text \<open>Codes an adapter may raise with, for each detail it may set, the admitted values.\<close>

definition allowed_policy :: "(string \<times> (string \<times> string list) list) list" where
  "allowed_policy =
    [(''PARSER_MALFORMED_INPUT'', [(''reason'', [''binary_content'', ''dangling_escape'',
        ''inconsistent_record'', ''invalid_escape'', ''invalid_json'', ''invalid_xml'', ''invalid_html'',
        ''invalid_yaml'', ''invalid_yaml_alias'', ''invalid_yaml_anchor'', ''invalid_unicode_scalar'',
        ''invalid_tika_response'', ''reader_result_size'', ''reader_result_type'', ''trailing_content'',
        ''unexpected_character_after_quote'', ''unexpected_eof'', ''unexpected_quote'',
        ''unterminated_quote''])]),
     (''PARSER_UNSUPPORTED_FEATURE'',
       [(''feature'', [''ambiguous_dialect'', ''configured_template'', ''dialect_detection'']),
        (''reason'', [''feature_disabled'', ''insufficient_structure''])]),
     (''PARSER_ENCODING_UNSUPPORTED'', [(''reason'', [''decode_failed'', ''undetermined'', ''unsupported_codec''])]),
     (''PARSER_DEPENDENCY_UNAVAILABLE'',
       [(''extra'', [''xml'', ''yaml'', ''excel'', ''pdf'', ''office'', ''tika''])]),
     (''PARSER_TIKA_UNAVAILABLE'', []),
     (''PARSER_NO_TEXT_LAYER'', []),
     (''PROCESSING_TIMEOUT'', [])]"

definition allowed_texts :: "(string \<times> string list) list \<Rightarrow> (string \<times> detail) list \<Rightarrow> (string \<times> detail) list" where
  "allowed_texts allowed details = concat (map (\<lambda>(key, values). case map_of details key of
       Some (D_Str v) \<Rightarrow> if v \<in> set values then [(key, D_Str v)] else []
     | _ \<Rightarrow> []) allowed)"

definition allowed_positions :: "(string \<times> detail) list \<Rightarrow> (string \<times> detail) list" where
  "allowed_positions details = concat (map (\<lambda>key. case map_of details key of
       Some (D_Int n) \<Rightarrow> if 1 \<le> n \<and> n \<le> 2 ^ 63 - 1 then [(key, D_Int n)] else []
     | _ \<Rightarrow> []) [''record_number'', ''line_number''])"

definition rebuild_allowed :: "string \<Rightarrow> (string \<times> detail) list \<Rightarrow> sel_error option" where
  "rebuild_allowed code details = (case map_of allowed_policy code of
     None \<Rightarrow> None
   | Some allowed \<Rightarrow> Some (Parser_Failure code (allowed_texts allowed details @ allowed_positions details)))"

definition probe_error :: "string \<Rightarrow> pystr \<Rightarrow> string \<Rightarrow> sel_error" where
  "probe_error code adapter reason =
     Parser_Failure code [(''adapter_id'', D_Text adapter), (''reason'', D_Str reason)]"

text \<open>Leaves of an exception group with the stack of \<open>_flatten_exception_group\<close> (its end is the head here).\<close>

fun exc_nodes :: "exc \<Rightarrow> nat" where
  "exc_nodes (Group_Exc _ es) = Suc (sum_list (map exc_nodes es))"
| "exc_nodes _ = 1"

function flatten_group :: "exc list \<Rightarrow> exc list \<Rightarrow> exc list" where
  "flatten_group [] leaves = leaves"
| "flatten_group (e # pending) leaves = (case e of
     Group_Exc _ nested \<Rightarrow> flatten_group (nested @ pending) leaves
   | _ \<Rightarrow> flatten_group pending (leaves @ [e]))"
  by pat_completeness auto
termination
  by (relation "measure (\<lambda>(es, _). sum_list (map exc_nodes es))") auto

definition group_failure :: "pystr \<Rightarrow> string \<Rightarrow> exc \<Rightarrow> sel_error" where
  "group_failure adapter reason e = (case e of
     Security_Exc code \<Rightarrow> Security_Failure code
   | Parser_Exc code details \<Rightarrow> (case rebuild_allowed code details of
       Some f \<Rightarrow> f | None \<Rightarrow> probe_error ''PARSER_PROBE_FAILED'' adapter reason)
   | _ \<Rightarrow> probe_error ''PARSER_PROBE_FAILED'' adapter reason)"

definition normalize_group :: "pystr \<Rightarrow> string \<Rightarrow> exc \<Rightarrow> sel_error list" where
  "normalize_group adapter reason e =
     map (\<lambda>leaf. if leaf = Cancel_Exc then Cancelled_Failure else group_failure adapter reason leaf)
       (flatten_group [e] [])"

definition boundary_outcomes :: "sel_error list \<Rightarrow> sel_error" where
  "boundary_outcomes es = (case es of [e] \<Rightarrow> e | _ \<Rightarrow> Group_Failure es)"

text \<open>The \<open>except\<close> clauses around a call of an adapter; \<open>None\<close> counts it as unavailable.\<close>

fun adapter_failure :: "pystr \<Rightarrow> string \<Rightarrow> string \<Rightarrow> exc \<Rightarrow> sel_error option" where
  "adapter_failure adapter reason typed (Group_Exc plain es) =
     (if plain then Some (probe_error ''PARSER_PROBE_FAILED'' adapter reason)
      else let outcomes = normalize_group adapter reason (Group_Exc plain es) in
        if outcomes = [] then Some Propagated else Some (boundary_outcomes outcomes))"
| "adapter_failure adapter reason typed Cancel_Exc = Some Cancelled_Failure"
| "adapter_failure adapter reason typed (Security_Exc code) = Some (Security_Failure code)"
| "adapter_failure adapter reason typed (Parser_Exc code details) =
     (if code = ''PARSER_DEPENDENCY_UNAVAILABLE'' then None
      else case rebuild_allowed code details of
        Some f \<Rightarrow> Some f | None \<Rightarrow> Some (probe_error ''PARSER_PROBE_FAILED'' adapter typed))"
| "adapter_failure adapter reason typed Plain_Exc =
     Some (probe_error ''PARSER_PROBE_FAILED'' adapter reason)"
| "adapter_failure adapter reason typed Base_Exc = Some Propagated"

section \<open>Validation of a probe result\<close>

definition strong_kinds :: "signal_kind list" where
  "strong_kinds = [INTERNAL_STRUCTURE, SIGNATURE, CONTENT_MEDIA_TYPE]"

definition is_space :: "nat \<Rightarrow> bool" where
  "is_space c \<longleftrightarrow> (9 \<le> c \<and> c \<le> 13) \<or> (28 \<le> c \<and> c \<le> 32) \<or> c = 133 \<or> c = 160 \<or> c = 5760 \<or>
     (8192 \<le> c \<and> c \<le> 8202) \<or> c = 8232 \<or> c = 8233 \<or> c = 8239 \<or> c = 8287 \<or> c = 12288"

definition py_strip :: "pystr \<Rightarrow> pystr" where
  "py_strip s = rev (dropWhile is_space (rev (dropWhile is_space s)))"

definition media_token :: "nat \<Rightarrow> bool" where
  "media_token c \<longleftrightarrow> (48 \<le> c \<and> c \<le> 57) \<or> (65 \<le> c \<and> c \<le> 90) \<or> (97 \<le> c \<and> c \<le> 122) \<or>
     c \<in> set (pstr ''!#$%&*+.^_`|~-'') \<or> c = 39"

definition media_type_pattern :: "pystr \<Rightarrow> bool" where
  "media_type_pattern s =
     (let main = takeWhile media_token s; rest = dropWhile media_token s in
      main \<noteq> [] \<and> (case rest of [] \<Rightarrow> False | c # sub \<Rightarrow> c = 47 \<and> sub \<noteq> [] \<and> list_all media_token sub))"

type_synonym evidence = "bool \<times> bool \<times> bool"

definition matched :: "probe_result \<Rightarrow> signal_outcome \<Rightarrow> signal_kind list" where
  "matched r outcome = filter (\<lambda>k. map_of (pr_signals r) k = Some outcome) strong_kinds"

text \<open>The first check that fails, as the reason of the error.\<close>

definition probe_fault :: "registration \<Rightarrow> artifact_source \<Rightarrow> probe_result \<Rightarrow> string option" where
  "probe_fault reg source r =
     (if \<not> valid_probe_result r then Some ''result_schema''
      else if pr_source r \<noteq> (src_artifact_id source, src_fingerprint source) then Some ''source_identity''
      else if pr_adapter_id r \<noteq> adapter_id reg \<or> pr_adapter_version r \<noteq> adapter_version reg
      then Some ''parser_identity''
      else if (case pr_detected_media_type r of None \<Rightarrow> False | Some m \<Rightarrow> \<not> media_type_pattern m)
      then Some ''detected_media_type''
      else if pr_supported r \<and> (pr_confidence r \<le> 0 \<or> pr_format_id r = None \<or> matched r MATCH = [] \<or>
                                matched r MISMATCH \<noteq> [])
      then Some ''supported_evidence''
      else if \<not> pr_supported r \<and> (pr_confidence r \<noteq> 0 \<or> matched r MATCH \<noteq> [])
      then Some ''unsupported_evidence''
      else None)"

text \<open>Advisory mismatches become warnings; \<open>tuple(sorted(warnings))\<close> replaces those of the result.\<close>

definition probe_warnings ::
  "(nat \<Rightarrow> nat list) \<Rightarrow> artifact_source \<Rightarrow> probe_result \<Rightarrow> pystr list" where
  "probe_warnings casefold_char source r =
     (let casefold = (\<lambda>s. concat (map casefold_char s));
          declared = casefold (py_strip (takeWhile (\<lambda>c. c \<noteq> 59) (src_media_type source)));
          mime = (map_of (pr_signals r) DECLARED_MEDIA_TYPE = Some MISMATCH \<or>
                  (pr_supported r \<and> (case pr_detected_media_type r of
                      None \<Rightarrow> False | Some m \<Rightarrow> declared \<noteq> casefold m)));
          extension = (map_of (pr_signals r) EXTENSION = Some MISMATCH)
      in sorted_list_of_set
           ((if mime then {pstr ''PARSER_DECLARED_MIME_MISMATCH''} else {}) \<union>
            (if extension then {pstr ''PARSER_EXTENSION_MISMATCH''} else {}) \<union> set (pr_warnings r)))"

definition probe_evidence :: "probe_result \<Rightarrow> evidence" where
  "probe_evidence r = (INTERNAL_STRUCTURE \<in> set (matched r MATCH), SIGNATURE \<in> set (matched r MATCH),
     CONTENT_MEDIA_TYPE \<in> set (matched r MATCH))"

definition validate_probe ::
  "(nat \<Rightarrow> nat list) \<Rightarrow> registration \<Rightarrow> artifact_source \<Rightarrow> probe_result \<Rightarrow>
     sel_error + (probe_result \<times> evidence)" where
  "validate_probe casefold_char reg source r = (case probe_fault reg source r of
     Some reason \<Rightarrow> Inl (probe_error ''PARSER_PROBE_INVALID'' (adapter_id reg) reason)
   | None \<Rightarrow> Inr (r\<lparr>pr_warnings := probe_warnings casefold_char source r\<rparr>, probe_evidence r))"

section \<open>Selection\<close>

datatype probe_reply =
    Call_Raises exc
  | Not_Awaitable
  | Probe_Raises exc
  | Foreign_Result
  | Returns probe_result

record candidate =
  cand_registration :: registration
  cand_result :: probe_result
  cand_evidence :: evidence

text \<open>One iteration of the loop over registrations: candidates so far and unavailable parsers.\<close>

definition probe_one ::
  "(nat \<Rightarrow> nat list) \<Rightarrow> (registration \<Rightarrow> probe_reply) \<Rightarrow> artifact_source \<Rightarrow> registration \<Rightarrow>
     candidate list \<times> nat \<Rightarrow> sel_error + candidate list \<times> nat" where
  "probe_one casefold_char reply source reg acc = (case acc of (eligible, unavailable) \<Rightarrow>
     (case reply reg of
        Call_Raises e \<Rightarrow> (case adapter_failure (adapter_id reg) ''call_failed'' ''call_failed'' e of
            None \<Rightarrow> Inr (eligible, Suc unavailable) | Some f \<Rightarrow> Inl f)
      | Not_Awaitable \<Rightarrow> Inl (probe_error ''PARSER_PROBE_INVALID'' (adapter_id reg) ''probe_not_awaitable'')
      | Probe_Raises e \<Rightarrow> (case adapter_failure (adapter_id reg) ''probe_exception'' ''typed_probe_failure'' e of
            None \<Rightarrow> Inr (eligible, Suc unavailable) | Some f \<Rightarrow> Inl f)
      | Foreign_Result \<Rightarrow> Inl (probe_error ''PARSER_PROBE_INVALID'' (adapter_id reg) ''result_type'')
      | Returns result \<Rightarrow>
          bindE (validate_probe casefold_char reg source result) (\<lambda>(validated, evidence).
            Inr (if pr_supported validated
                 then eligible @ [\<lparr>cand_registration = reg, cand_result = validated, cand_evidence = evidence\<rparr>]
                 else eligible, unavailable))))"

fun probe_all ::
  "(nat \<Rightarrow> nat list) \<Rightarrow> (registration \<Rightarrow> probe_reply) \<Rightarrow> artifact_source \<Rightarrow> registration list \<Rightarrow>
     candidate list \<times> nat \<Rightarrow> sel_error + candidate list \<times> nat" where
  "probe_all cf reply source [] acc = Inr acc"
| "probe_all cf reply source (reg # regs) acc =
     bindE (probe_one cf reply source reg acc) (probe_all cf reply source regs)"

text \<open>Python's \<open>min\<close> with a key: the first of the least elements.\<close>

fun min_by :: "('a \<Rightarrow> 'k::linorder) \<Rightarrow> 'a \<Rightarrow> 'a list \<Rightarrow> 'a" where
  "min_by key best [] = best"
| "min_by key best (x # xs) = min_by key (if key x < key best then x else best) xs"

definition winner_key :: "candidate \<Rightarrow> rat \<times> int \<times> pystr" where
  "winner_key c = (- pr_confidence (cand_result c), - priority (cand_registration c),
     adapter_id (cand_registration c))"

definition pick_winner :: "candidate list \<times> nat \<Rightarrow> sel_error + candidate" where
  "pick_winner acc = (case acc of (eligible, unavailable) \<Rightarrow>
     if eligible = []
     then (if unavailable \<noteq> 0
           then Inl (Parser_Failure ''PARSER_DEPENDENCY_UNAVAILABLE'' [(''unavailable_count'', D_Int (int unavailable))])
           else Inl (Parser_Failure ''PARSER_UNSUPPORTED_FORMAT'' []))
     else
       let maximal = Max (set (map cand_evidence eligible));
           strongest = filter (\<lambda>c. cand_evidence c = maximal) eligible in
       if length (remdups (map (pr_format_id \<circ> cand_result) strongest)) \<noteq> 1
       then Inl (Parser_Failure ''PARSER_FORMAT_CONFLICT'' [(''candidate_count'', D_Int (int (length strongest)))])
       else Inr (min_by winner_key (hd strongest) (tl strongest)))"

definition select_parser ::
  "(nat \<Rightarrow> nat list) \<Rightarrow> (registration \<Rightarrow> probe_reply) \<Rightarrow> pystr \<Rightarrow> artifact_source \<Rightarrow> registration list \<Rightarrow>
     sel_error + registration \<times> probe_result" where
  "select_parser cf reply context_fingerprint source regs =
     (if context_fingerprint \<noteq> src_fingerprint source
      then Inl (Parser_Failure ''PARSER_PROBE_INVALID'' [(''reason'', D_Str ''context_source_identity'')])
      else if regs = [] then Inl (Parser_Failure ''PARSER_NOT_FOUND'' [])
      else bindE (probe_all cf reply source regs ([], 0)) (\<lambda>acc.
           bindE (pick_winner acc) (\<lambda>c. Inr (cand_registration c, cand_result c))))"

section \<open>Lemmas\<close>

lemma find_SomeD: "find P xs = Some x \<Longrightarrow> x \<in> set xs \<and> P x"
  by (auto simp: find_Some_iff)

lemma min_by_in: "min_by key b xs \<in> set (b # xs)"
proof (induction xs arbitrary: b)
  case (Cons y ys)
  have "min_by key (if key y < key b then y else b) ys \<in> set ((if key y < key b then y else b) # ys)"
    by (rule Cons.IH)
  then show ?case by (auto split: if_splits)
qed simp

lemma min_by_least: "x \<in> set (b # xs) \<Longrightarrow> key (min_by key b xs) \<le> key x"
proof (induction xs arbitrary: b x)
  case (Cons y ys)
  let ?b = "if key y < key b then y else b"
  have "key (min_by key ?b ys) \<le> key z" if "z \<in> set (?b # ys)" for z using Cons.IH that .
  then show ?case using Cons.prems by (force split: if_splits)
qed simp

lemma if_Some_eq_None: "(if c then Some x else y) = None \<longleftrightarrow> \<not> c \<and> y = None"
  by simp

lemma probe_fault_None:
  assumes "probe_fault reg source r = None"
  shows "pr_source r = (src_artifact_id source, src_fingerprint source) \<and> pr_adapter_id r = adapter_id reg \<and>
    (pr_supported r \<longrightarrow> 0 < pr_confidence r \<and> matched r MATCH \<noteq> [] \<and> matched r MISMATCH = [])"
  using assms unfolding probe_fault_def if_Some_eq_None by (metis not_le)

lemma validate_probe_ok:
  assumes "validate_probe cf reg source r = Inr (r', ev)"
  shows "pr_source r = (src_artifact_id source, src_fingerprint source) \<and> pr_adapter_id r = adapter_id reg \<and>
    pr_supported r' = pr_supported r \<and>
    (pr_supported r \<longrightarrow> 0 < pr_confidence r \<and> matched r MATCH \<noteq> [] \<and> matched r MISMATCH = [])"
proof -
  have "probe_fault reg source r = None" "r' = r\<lparr>pr_warnings := probe_warnings cf source r\<rparr>"
    using assms by (auto simp: validate_probe_def split: option.splits)
  then show ?thesis using probe_fault_None [of reg source r] by simp
qed

text \<open>What the loop makes of one registration, whatever was collected before.\<close>

definition refusal ::
  "(nat \<Rightarrow> nat list) \<Rightarrow> (registration \<Rightarrow> probe_reply) \<Rightarrow> artifact_source \<Rightarrow> registration \<Rightarrow> sel_error option" where
  "refusal cf reply source reg = (case probe_one cf reply source reg ([], 0) of Inl e \<Rightarrow> Some e | Inr _ \<Rightarrow> None)"

definition offered ::
  "(nat \<Rightarrow> nat list) \<Rightarrow> (registration \<Rightarrow> probe_reply) \<Rightarrow> artifact_source \<Rightarrow> registration \<Rightarrow> candidate list" where
  "offered cf reply source reg = (case probe_one cf reply source reg ([], 0) of Inl _ \<Rightarrow> [] | Inr (el, _) \<Rightarrow> el)"

definition missing ::
  "(nat \<Rightarrow> nat list) \<Rightarrow> (registration \<Rightarrow> probe_reply) \<Rightarrow> artifact_source \<Rightarrow> registration \<Rightarrow> nat" where
  "missing cf reply source reg = (case probe_one cf reply source reg ([], 0) of Inl _ \<Rightarrow> 0 | Inr (_, un) \<Rightarrow> un)"

lemma probe_one_eq:
  "probe_one cf reply source reg (el, un) = (case refusal cf reply source reg of
     Some e \<Rightarrow> Inl e
   | None \<Rightarrow> Inr (el @ offered cf reply source reg, un + missing cf reply source reg))"
  by (auto simp: probe_one_def refusal_def offered_def missing_def
      split: probe_reply.splits option.splits sum.splits prod.splits elim!: bindE.elims)

lemma probe_all_eq:
  "probe_all cf reply source regs (el, un) =
     (case find (\<lambda>reg. refusal cf reply source reg \<noteq> None) regs of
        Some reg \<Rightarrow> Inl (the (refusal cf reply source reg))
      | None \<Rightarrow> Inr (el @ concat (map (offered cf reply source) regs),
                   un + sum_list (map (missing cf reply source) regs)))"
  by (induction regs arbitrary: el un) (auto simp: probe_one_eq split: option.split)

lemma offered_returns:
  "offered cf reply source reg = (case reply reg of
     Returns r \<Rightarrow> (case validate_probe cf reg source r of
         Inl _ \<Rightarrow> []
       | Inr (v, ev) \<Rightarrow> if pr_supported v
           then [\<lparr>cand_registration = reg, cand_result = v, cand_evidence = ev\<rparr>] else [])
   | _ \<Rightarrow> [])"
  by (auto simp: offered_def probe_one_def split: probe_reply.splits option.splits sum.splits prod.splits)

lemma offered_cases:
  "c \<in> set (offered cf reply source reg) \<Longrightarrow> cand_registration c = reg \<and> pr_supported (cand_result c) \<and>
     (\<exists>r. reply reg = Returns r \<and> validate_probe cf reg source r = Inr (cand_result c, cand_evidence c))"
proof -
  assume c: "c \<in> set (offered cf reply source reg)"
  then obtain r where r: "reply reg = Returns r" by (cases "reply reg") (auto simp: offered_returns)
  moreover obtain v ev where "validate_probe cf reg source r = Inr (v, ev)"
    using c r by (cases "validate_probe cf reg source r") (auto simp: offered_returns)
  ultimately show ?thesis using c by (auto simp: offered_returns split: if_splits)
qed

lemma offered_le: "length (offered cf reply source reg) \<le> 1"
  by (auto simp: offered_returns split: probe_reply.splits sum.splits prod.splits)

lemma select_parser_Inr:
  assumes "select_parser cf reply fp source regs = Inr (reg, result)"
  shows "fp = src_fingerprint source \<and> (\<forall>reg \<in> set regs. refusal cf reply source reg = None) \<and>
    (\<exists>c. pick_winner (concat (map (offered cf reply source) regs), sum_list (map (missing cf reply source) regs)) = Inr c \<and>
       reg = cand_registration c \<and> result = cand_result c)"
  using assms
  by (auto simp: select_parser_def probe_all_eq result_simps find_None_iff split: if_splits option.splits)

text \<open>The strongest candidates, and what \<open>pick_winner\<close> takes from them.\<close>

definition strongest :: "candidate list \<Rightarrow> candidate list" where
  "strongest el = filter (\<lambda>c. cand_evidence c = Max (set (map cand_evidence el))) el"

lemma pick_winner_eq:
  "pick_winner (el, un) =
     (if el = []
      then (if un \<noteq> 0
            then Inl (Parser_Failure ''PARSER_DEPENDENCY_UNAVAILABLE'' [(''unavailable_count'', D_Int (int un))])
            else Inl (Parser_Failure ''PARSER_UNSUPPORTED_FORMAT'' []))
      else if length (remdups (map (pr_format_id \<circ> cand_result) (strongest el))) \<noteq> 1
      then Inl (Parser_Failure ''PARSER_FORMAT_CONFLICT'' [(''candidate_count'', D_Int (int (length (strongest el))))])
      else Inr (min_by winner_key (hd (strongest el)) (tl (strongest el))))"
  by (simp add: pick_winner_def strongest_def Let_def)

lemma pick_winner_Inr:
  assumes "pick_winner (el, un) = Inr c"
  shows "c \<in> set (strongest el) \<and> (\<forall>d \<in> set el. cand_evidence d \<le> cand_evidence c) \<and>
    (\<forall>d \<in> set (strongest el). pr_format_id (cand_result d) = pr_format_id (cand_result c) \<and> winner_key c \<le> winner_key d)"
proof -
  have ne: "el \<noteq> []" using assms by (auto simp: pick_winner_def split: if_splits)
  have len: "length (remdups (map (pr_format_id \<circ> cand_result) (strongest el))) = 1"
    and c: "c = min_by winner_key (hd (strongest el)) (tl (strongest el))"
    using assms ne by (auto simp: pick_winner_def strongest_def Let_def split: if_splits)
  have s: "strongest el \<noteq> []" using len by auto
  then have eq: "hd (strongest el) # tl (strongest el) = strongest el" by simp
  have in_s: "c \<in> set (strongest el)" using min_by_in [of winner_key "hd (strongest el)" "tl (strongest el)"] c eq by simp
  moreover have "winner_key c \<le> winner_key d" if "d \<in> set (strongest el)" for d
    using min_by_least [of d "hd (strongest el)" "tl (strongest el)" winner_key] c eq that by simp
  moreover have "pr_format_id (cand_result d) = pr_format_id (cand_result c)" if "d \<in> set (strongest el)" for d
  proof -
    obtain f where "remdups (map (pr_format_id \<circ> cand_result) (strongest el)) = [f]"
      using len by (auto simp: length_Suc_conv)
    then have "set (map (pr_format_id \<circ> cand_result) (strongest el)) = {f}" by (metis list.set(1,2) set_remdups)
    then have "pr_format_id (cand_result x) = f" if "x \<in> set (strongest el)" for x using that by auto
    then show ?thesis using that in_s by metis
  qed
  moreover have "cand_evidence d \<le> cand_evidence c" if "d \<in> set el" for d
    using in_s that by (auto simp: strongest_def)
  ultimately show ?thesis by blast
qed

lemma pick_winner_mset:
  assumes "mset el = mset el'" and "inj_on winner_key (set el)"
  shows "pick_winner (el, un) = pick_winner (el', un)"
proof -
  have set: "set el = set el'" using assms(1) by (metis set_mset_mset)
  have smset: "mset (strongest el) = mset (strongest el')"
    using assms(1) set by (simp add: strongest_def mset_filter)
  have sset: "set (strongest el) = set (strongest el')" using smset by (metis set_mset_mset)
  have min: "min_by winner_key (hd (strongest el)) (tl (strongest el)) =
      min_by winner_key (hd (strongest el')) (tl (strongest el'))" if "strongest el \<noteq> []"
  proof -
    have ne: "strongest el' \<noteq> []" using that sset by auto
    let ?a = "min_by winner_key (hd (strongest el)) (tl (strongest el))"
    let ?b = "min_by winner_key (hd (strongest el')) (tl (strongest el'))"
    have in_ab: "?a \<in> set (strongest el)" "?b \<in> set (strongest el)"
      using min_by_in [of winner_key "hd (strongest el)" "tl (strongest el)"]
        min_by_in [of winner_key "hd (strongest el')" "tl (strongest el')"] that ne sset by auto
    then have "winner_key ?a \<le> winner_key ?b" "winner_key ?b \<le> winner_key ?a"
      using min_by_least [of ?b "hd (strongest el)" "tl (strongest el)" winner_key]
        min_by_least [of ?a "hd (strongest el')" "tl (strongest el')" winner_key] that ne sset by auto
    then have "winner_key ?a = winner_key ?b" by simp
    then show ?thesis using assms(2) in_ab unfolding inj_on_def strongest_def by auto
  qed
  have len: "length (remdups (map f (strongest el))) = length (remdups (map f (strongest el')))" for f :: "candidate \<Rightarrow> pystr option"
    using sset by (metis length_remdups_card_conv list.set_map)
  have e: "el = [] \<longleftrightarrow> el' = []" using set by auto
  have "length (strongest el) = length (strongest el')" using smset by (metis size_mset)
  moreover have "strongest el = [] \<Longrightarrow> strongest el' = []" using sset by auto
  ultimately show ?thesis using min len e
    by (cases "strongest el = []") (simp_all add: pick_winner_eq)
qed

section \<open>Properties\<close>

text \<open>Two parsers that both recognise the format, the second with the better confidence.\<close>

definition ex_source :: artifact_source where
  "ex_source = \<lparr>src_artifact_id = [1], src_media_type = pstr ''text/csv'', src_fingerprint = [2]\<rparr>"

definition ex_reg :: "nat \<Rightarrow> registration" where
  "ex_reg n = \<lparr>adapter_id = [n], adapter_version = [], priority = 0\<rparr>"

definition ex_probe :: "registration \<Rightarrow> probe_reply" where
  "ex_probe reg = Returns \<lparr>pr_source = ([1], [2]), pr_adapter_id = adapter_id reg, pr_adapter_version = [],
     pr_supported = True, pr_confidence = (if adapter_id reg = [4] then 1 else 1 / 2),
     pr_detected_media_type = Some (pstr ''text/csv''), pr_warnings = [], pr_format_id = Some (pstr ''csv''),
     pr_signals = [(INTERNAL_STRUCTURE, MATCH)], pr_fields_ok = True\<rparr>"

lemmas probe_eval = ex_source_def ex_reg_def ex_probe_def select_parser_def probe_one_def validate_probe_def
  probe_fault_def probe_warnings_def probe_evidence_def
  valid_probe_result_def media_type_pattern_def media_token_def matched_def strong_kinds_def pick_winner_def
  winner_key_def py_strip_def is_space_def pstr_def Let_def

lemma ex_select:
  "select_parser (\<lambda>c. [c]) ex_probe [2] ex_source [ex_reg 3, ex_reg 4] =
     Inr (ex_reg 4, (case ex_probe (ex_reg 4) of Returns r \<Rightarrow> r))"
  by (simp add: probe_eval)



text \<open>C26: The choice is reproducible: when parsers have distinct identifiers, registering them in another
  order selects the same parser with the same result.\<close>

theorem select_parser_order_independent:
  assumes "select_parser cf reply fp source regs = Inr choice"
    and "mset regs' = mset regs" and "distinct (map adapter_id regs)"
  shows "select_parser cf reply fp source regs' = Inr choice"
proof -
  let ?el = "\<lambda>rs. concat (map (offered cf reply source) rs)"
  let ?un = "\<lambda>rs. sum_list (map (missing cf reply source) rs)"
  obtain reg result where choice: "choice = (reg, result)" by fastforce
  obtain c where c: "pick_winner (?el regs, ?un regs) = Inr c" "reg = cand_registration c" "result = cand_result c"
    and fp: "fp = src_fingerprint source" and ok: "\<forall>reg \<in> set regs. refusal cf reply source reg = None"
    using select_parser_Inr [of cf reply fp source regs reg result] assms(1) choice by auto
  have set: "set regs' = set regs" using assms(2) by (metis set_mset_mset)
  have "mset (?el rs) = (\<Sum>r \<in># mset rs. mset (offered cf reply source r))" for rs
    by (induction rs) simp_all
  then have el: "mset (?el regs) = mset (?el regs')" using assms(2) by simp
  have "?un rs = (\<Sum>r \<in># mset rs. missing cf reply source r)" for rs
    by (induction rs) simp_all
  then have un: "?un regs = ?un regs'" using assms(2) by simp
  have "inj_on winner_key (set (?el regs))"
  proof (rule inj_onI)
    fix x y assume x: "x \<in> set (?el regs)" and y: "y \<in> set (?el regs)" and k: "winner_key x = winner_key y"
    obtain r where r: "r \<in> set regs" "x \<in> set (offered cf reply source r)" using x by auto
    obtain r' where r': "r' \<in> set regs" "y \<in> set (offered cf reply source r')" using y by auto
    have "adapter_id r = adapter_id r'"
      using k offered_cases [OF r(2)] offered_cases [OF r'(2)] by (auto simp: winner_key_def)
    then have "r = r'" using assms(3) r(1) r'(1) by (auto simp: distinct_map inj_on_def)
    then show "x = y" using r(2) r'(2) offered_le [of cf reply source r]
      by (cases "offered cf reply source r") auto
  qed
  then have "pick_winner (?el regs', ?un regs') = Inr c"
    using pick_winner_mset [OF el, of "?un regs"] c(1) un by simp
  moreover have "regs' \<noteq> []" using assms(1,2) by (auto simp: select_parser_def split: if_splits)
  ultimately show ?thesis using choice c fp ok set
    by (auto simp: select_parser_def probe_all_eq find_None_iff split: option.splits dest!: find_SomeD)
qed

theorem select_parser_order_independent_witness:
  "select_parser (\<lambda>c. [c]) ex_probe [2] ex_source [ex_reg 4, ex_reg 3] =
     Inr (ex_reg 4, (case ex_probe (ex_reg 4) of Returns r \<Rightarrow> r))"
  by (rule select_parser_order_independent [OF ex_select]) (simp_all add: ex_reg_def)

text \<open>The vocabulary of error texts: admitted details of adapter errors and reasons of the selection.\<close>

definition reasons :: "string list" where
  "reasons = [''call_failed'', ''probe_not_awaitable'', ''probe_exception'', ''typed_probe_failure'',
     ''result_type'', ''result_schema'', ''source_identity'', ''parser_identity'',
     ''detected_media_type'', ''supported_evidence'', ''unsupported_evidence'', ''context_source_identity'']"

fun safe_detail :: "registration list \<Rightarrow> detail \<Rightarrow> bool" where
  "safe_detail regs (D_Str v) \<longleftrightarrow> v \<in> set reasons \<or> (\<exists>(_, allowed) \<in> set allowed_policy. \<exists>(_, vs) \<in> set allowed. v \<in> set vs)"
| "safe_detail regs (D_Int _) = True"
| "safe_detail regs (D_Text a) \<longleftrightarrow> a \<in> adapter_id ` set regs"
| "safe_detail regs D_Other = False"

definition safe_code :: "string \<Rightarrow> bool" where
  "safe_code c \<longleftrightarrow> c \<in> fst ` set allowed_policy \<or>
     c \<in> set [''PARSER_PROBE_FAILED'', ''PARSER_PROBE_INVALID'', ''PARSER_NOT_FOUND'',
       ''PARSER_UNSUPPORTED_FORMAT'', ''PARSER_FORMAT_CONFLICT'']"

fun safe_error :: "registration list \<Rightarrow> sel_error \<Rightarrow> bool" where
  "safe_error regs (Parser_Failure code details) \<longleftrightarrow> safe_code code \<and> (\<forall>(_, d) \<in> set details. safe_detail regs d)"
| "safe_error regs (Group_Failure es) \<longleftrightarrow> (\<forall>e \<in> set es. safe_error regs e)"
| "safe_error regs _ = True"

lemma allowed_texts_safe:
  "(k, d) \<in> set (allowed_texts allowed details) \<Longrightarrow> \<exists>v vs. d = D_Str v \<and> (k, vs) \<in> set allowed \<and> v \<in> set vs"
  by (auto simp: allowed_texts_def split: option.splits detail.splits if_splits)

lemma allowed_positions_safe: "(k, d) \<in> set (allowed_positions details) \<Longrightarrow> \<exists>n. d = D_Int n"
  by (auto simp: allowed_positions_def split: option.splits detail.splits if_splits)

lemma rebuild_safe:
  assumes "rebuild_allowed code details = Some e"
  shows "safe_error regs e"
proof -
  obtain allowed where p: "map_of allowed_policy code = Some allowed"
    and e: "e = Parser_Failure code (allowed_texts allowed details @ allowed_positions details)"
    using assms by (auto simp: rebuild_allowed_def split: option.splits)
  have mem: "(code, allowed) \<in> set allowed_policy" using p by (rule map_of_SomeD)
  then have "safe_code code" unfolding safe_code_def by (metis fst_conv image_eqI)
  moreover have "safe_detail regs d" if "(k, d) \<in> set (allowed_texts allowed details)" for k d
    using allowed_texts_safe [OF that] mem by fastforce
  moreover have "safe_detail regs d" if "(k, d) \<in> set (allowed_positions details)" for k d
    using allowed_positions_safe [OF that] by auto
  ultimately show ?thesis using e by auto
qed

lemma probe_error_safe:
  "reg \<in> set regs \<Longrightarrow> reason \<in> set reasons \<Longrightarrow> safe_code code \<Longrightarrow> safe_error regs (probe_error code (adapter_id reg) reason)"
  by (auto simp: probe_error_def)

lemma group_failure_safe:
  "reg \<in> set regs \<Longrightarrow> reason \<in> set reasons \<Longrightarrow> safe_error regs (group_failure (adapter_id reg) reason e)"
  by (cases e) (auto simp: group_failure_def safe_code_def intro: rebuild_safe probe_error_safe split: option.splits)

lemma adapter_failure_safe:
  assumes "adapter_failure (adapter_id reg) reason typed e = Some f" and "reg \<in> set regs"
    and "reason \<in> set reasons" "typed \<in> set reasons"
  shows "safe_error regs f"
proof (cases e)
  case (Group_Exc plain es)
  have "safe_error regs x" if "x \<in> set (normalize_group (adapter_id reg) reason e)" for x
    using that group_failure_safe [OF assms(2,3)] by (auto simp: normalize_group_def)
  moreover have "safe_error regs (boundary_outcomes xs)" if "\<forall>x \<in> set xs. safe_error regs x" for xs
    using that by (auto simp: boundary_outcomes_def split: list.splits)
  moreover have "safe_error regs (probe_error ''PARSER_PROBE_FAILED'' (adapter_id reg) reason)"
    by (rule probe_error_safe [OF assms(2,3)]) (simp add: safe_code_def)
  ultimately show ?thesis using assms(1) Group_Exc by (auto simp: Let_def split: if_splits)
next
  case (Parser_Exc code details)
  have "safe_error regs (probe_error ''PARSER_PROBE_FAILED'' (adapter_id reg) typed)"
    by (rule probe_error_safe [OF assms(2,4)]) (simp add: safe_code_def)
  then show ?thesis using assms(1) Parser_Exc rebuild_safe by (auto split: if_splits option.splits)
next
  case Plain_Exc
  have "safe_error regs (probe_error ''PARSER_PROBE_FAILED'' (adapter_id reg) reason)"
    by (rule probe_error_safe [OF assms(2,3)]) (simp add: safe_code_def)
  then show ?thesis using assms(1) Plain_Exc by auto
qed (use assms(1) in auto)

lemma probe_fault_reason: "probe_fault reg source r = Some reason \<Longrightarrow> reason \<in> set reasons"
  by (simp add: probe_fault_def reasons_def split: if_splits)

lemma refusal_safe:
  assumes "refusal cf reply source reg = Some e" and "reg \<in> set regs"
  shows "safe_error regs e"
proof -
  have invalid: "safe_error regs (probe_error ''PARSER_PROBE_INVALID'' (adapter_id reg) reason)" if "reason \<in> set reasons" for reason
    by (rule probe_error_safe [OF assms(2) that]) (simp add: safe_code_def)
  have in_reasons: "''call_failed'' \<in> set reasons" "''probe_exception'' \<in> set reasons"
    "''typed_probe_failure'' \<in> set reasons" "''probe_not_awaitable'' \<in> set reasons" "''result_type'' \<in> set reasons"
    by (simp_all add: reasons_def)
  show ?thesis
  proof (cases "reply reg")
    case (Call_Raises x)
    then show ?thesis using assms(1)
        adapter_failure_safe [of reg "''call_failed''" "''call_failed''" x e, OF _ assms(2) in_reasons(1,1)]
      by (auto simp: refusal_def probe_one_def split: option.splits)
  next
    case (Probe_Raises x)
    then show ?thesis using assms(1)
        adapter_failure_safe [of reg "''probe_exception''" "''typed_probe_failure''" x e, OF _ assms(2) in_reasons(2,3)]
      by (auto simp: refusal_def probe_one_def split: option.splits)
  next
    case (Returns r)
    then obtain reason where "probe_fault reg source r = Some reason"
      "e = probe_error ''PARSER_PROBE_INVALID'' (adapter_id reg) reason"
      using assms(1) by (auto simp: refusal_def probe_one_def validate_probe_def split: option.splits)
    then show ?thesis using invalid probe_fault_reason by metis
  qed (use assms(1) invalid in_reasons(4,5) in \<open>auto simp: refusal_def probe_one_def\<close>)
qed

text \<open>Selection never passes on text of an adapter. Whatever the parsers raise, groups of exceptions
  included, an error of the selection has a code from the closed list and details that are numbers,
  identifiers of registered parsers or words of the fixed vocabulary (a security error keeps its own
  code, a cancellation stays one).\<close>

theorem select_parser_error_safe:
  assumes "select_parser cf reply fp source regs = Inl e"
  shows "safe_error regs e"
proof -
  have r: "''context_source_identity'' \<in> set reasons" by (simp add: reasons_def)
  have code: "safe_code ''PARSER_PROBE_INVALID''" "safe_code ''PARSER_NOT_FOUND''"
    "safe_code ''PARSER_UNSUPPORTED_FORMAT''" "safe_code ''PARSER_FORMAT_CONFLICT''"
    by (simp_all add: safe_code_def)
  have "''PARSER_DEPENDENCY_UNAVAILABLE'' \<in> fst ` set allowed_policy" by (simp add: allowed_policy_def)
  then have un: "safe_code ''PARSER_DEPENDENCY_UNAVAILABLE''" by (simp only: safe_code_def simp_thms)
  have picked: "safe_error regs f" if "pick_winner (el, n) = Inl f" for el n f
    using that code un by (auto simp: pick_winner_eq split: if_splits)
  show ?thesis
  proof (cases "find (\<lambda>reg. refusal cf reply source reg \<noteq> None) regs")
    case (Some reg)
    then have "reg \<in> set regs" "\<exists>f. refusal cf reply source reg = Some f" by (auto dest: find_SomeD)
    then show ?thesis using assms r code Some refusal_safe
      by (auto simp: select_parser_def probe_all_eq split: if_splits)
  next
    case None
    then show ?thesis using assms r code picked
      by (auto simp: select_parser_def probe_all_eq result_simps split: if_splits)
  qed
qed

theorem select_parser_error_safe_witness:
  "safe_error [ex_reg 3] (probe_error ''PARSER_PROBE_FAILED'' [3] ''typed_probe_failure'')"
proof -
  have "select_parser (\<lambda>c. [c]) (\<lambda>_. Probe_Raises (Parser_Exc ''SECRET'' [(''path'', D_Other)])) [2] ex_source [ex_reg 3] =
      Inl (probe_error ''PARSER_PROBE_FAILED'' [3] ''typed_probe_failure'')"
    by (simp add: select_parser_def probe_one_def ex_source_def ex_reg_def rebuild_allowed_def allowed_policy_def)
  then show ?thesis by (rule select_parser_error_safe)
qed

end
