(* ===== verification/Reachability.thy ===== *)
theory Reachability
  imports Prelude
begin

text \<open>
  Work-list searches over adjacency dictionaries, shared by the components that group linked objects.
  \<open>close_loop\<close> marks a node when it is pushed (\<open>_quarantine_groups\<close>, the second pass of \<open>_components\<close>),
  \<open>group_loop\<close> when it is popped (\<open>dependency_groups\<close>). A dictionary is an association list; the top of
  the stack is the head of the list.
\<close>

definition adjacent :: "('k \<times> 'v list) list \<Rightarrow> 'k \<Rightarrow> 'v list" where
  "adjacent g n = (case map_of g n of None \<Rightarrow> [] | Some xs \<Rightarrow> xs)"

definition edges_of :: "('n \<times> 'n list) list \<Rightarrow> ('n \<times> 'n) set" where
  "edges_of g = {(x, y). y \<in> set (adjacent g x)}"

definition mentioned :: "('n \<times> 'n list) list \<Rightarrow> 'n set" where
  "mentioned g = \<Union> (set ` snd ` set g)"

lemma finite_mentioned [simp]: "finite (mentioned g)"
  by (simp add: mentioned_def)

lemma adjacent_mentioned: "set (adjacent g n) \<subseteq> mentioned g"
proof (cases "map_of g n")
  case (Some xs)
  then have "(n, xs) \<in> set g" by (rule map_of_SomeD)
  then show ?thesis using Some by (force simp: adjacent_def mentioned_def)
qed (simp add: adjacent_def)

section \<open>Marking when pushed\<close>

function close_loop :: "('n \<times> 'n list) list \<Rightarrow> 'n list \<Rightarrow> 'n list \<Rightarrow> 'n list" where
  "close_loop g [] marked = marked"
| "close_loop g (x # pending) marked =
     (let new = filter (\<lambda>y. y \<notin> set marked) (remdups (adjacent g x)) in
      close_loop g (rev new @ pending) (marked @ new))"
  by pat_completeness auto
termination
proof (relation "measures [\<lambda>(g, pending, marked). card (mentioned g - set marked), \<lambda>(g, pending, marked). length pending]", goal_cases)
  case (2 g x pending marked new)
  show ?case
  proof (cases "new = []")
    case False
    then obtain y where y: "y \<in> set new" using list.set_intros(1) by (metis neq_Nil_conv)
    then have "y \<in> mentioned g - set marked" using 2 adjacent_mentioned [of g x] by auto
    then have "mentioned g - set (marked @ new) \<subset> mentioned g - set marked" using y by auto
    then have "card (mentioned g - set (marked @ new)) < card (mentioned g - set marked)"
      by (intro psubset_card_mono) auto
    then show ?thesis by simp
  qed simp
qed simp

text \<open>The marked nodes grow to everything that can be reached from them.\<close>

lemma close_loop_spec:
  assumes "set pending \<subseteq> set marked"
    and "\<forall>x \<in> set marked - set pending. set (adjacent g x) \<subseteq> set marked"
  shows "set (close_loop g pending marked) = (edges_of g)\<^sup>* `` set marked"
  using assms
proof (induction g pending marked rule: close_loop.induct)
  case (1 g marked)
  have "y \<in> set marked" if "(x, y) \<in> (edges_of g)\<^sup>*" "x \<in> set marked" for x y
    using that by (induction rule: rtrancl_induct) (use 1 in \<open>auto simp: edges_of_def\<close>)
  then show ?case by auto
next
  case (2 g x pending marked)
  define new where "new = filter (\<lambda>y. y \<notin> set marked) (remdups (adjacent g x))"
  have all: "set marked \<union> set new = set marked \<union> set (adjacent g x)" by (auto simp: new_def)
  have step: "set (close_loop g (rev new @ pending) (marked @ new)) = (edges_of g)\<^sup>* `` set (marked @ new)"
  proof (rule "2.IH" [OF new_def])
    show "set (rev new @ pending) \<subseteq> set (marked @ new)" using "2.prems"(1) by auto
    show "\<forall>y \<in> set (marked @ new) - set (rev new @ pending). set (adjacent g y) \<subseteq> set (marked @ new)"
      using "2.prems" all by auto
  qed
  have x: "x \<in> set marked" using "2.prems"(1) by simp
  have "new_node \<in> (edges_of g)\<^sup>* `` set marked" if "new_node \<in> set new" for new_node
    using that x by (auto simp: new_def edges_of_def)
  then have "(edges_of g)\<^sup>* `` set (marked @ new) = (edges_of g)\<^sup>* `` set marked"
    by (auto intro: rtrancl_trans)
  then show ?case using step by (simp add: new_def [symmetric] Let_def)
qed

lemma close_loop_distinct: "distinct marked \<Longrightarrow> distinct (close_loop g pending marked)"
  by (induction g pending marked rule: close_loop.induct) (auto simp: Let_def)

lemma close_loop_prefix: "\<exists>ys. close_loop g pending marked = marked @ ys"
  by (induction g pending marked rule: close_loop.induct) (auto simp: Let_def)

section \<open>Marking when popped\<close>

function group_loop :: "('n \<times> 'n list) list \<Rightarrow> 'n list \<Rightarrow> 'n list \<Rightarrow> 'n list \<Rightarrow> 'n list \<times> 'n list" where
  "group_loop g [] unseen members = (unseen, members)"
| "group_loop g (x # pending) unseen members =
     (if x \<notin> set unseen then group_loop g pending unseen members
      else let unseen' = removeAll x unseen in
        group_loop g (rev (filter (\<lambda>y. y \<in> set unseen') (remdups (adjacent g x))) @ pending) unseen' (members @ [x]))"
  by pat_completeness auto
termination
  by (relation "measures [\<lambda>(g, pending, unseen, members). length unseen, \<lambda>(g, pending, unseen, members). length pending]")
    (auto intro!: length_removeAll_less)

text \<open>
  Inside a set of nodes closed under a symmetric relation the loop collects a component: the members
  are what the pending nodes reach, and the unseen nodes lose exactly those.
\<close>

lemma group_loop_spec:
  assumes "group_loop g pending unseen members = (unseen', members')"
    and "set pending \<subseteq> set unseen \<union> set members" and "set members \<inter> set unseen = {}"
    and "\<forall>x \<in> set members. set (adjacent g x) \<inter> set unseen \<subseteq> set pending"
    and "\<forall>x \<in> set members \<union> set unseen. set (adjacent g x) \<subseteq> set members \<union> set unseen"
  shows "set members' = (edges_of g)\<^sup>* `` (set members \<union> set pending) \<and>
    set unseen' = set unseen - set members' \<and> set members \<subseteq> set members'"
  using assms
proof (induction g pending unseen members rule: group_loop.induct)
  case (1 g unseen members)
  have closed: "set (adjacent g x) \<subseteq> set members" if "x \<in> set members" for x
    using "1.prems"(4,5) that by fastforce
  have "y \<in> set members" if "(x, y) \<in> (edges_of g)\<^sup>*" "x \<in> set members" for x y
    using that by (induction rule: rtrancl_induct) (use closed in \<open>auto simp: edges_of_def\<close>)
  then show ?case using 1 by auto
next
  case (2 g x pending unseen members)
  show ?case
  proof (cases "x \<in> set unseen")
    case False
    then have "x \<in> set members" using "2.prems"(2) by simp
    moreover have "\<forall>y \<in> set members. set (adjacent g y) \<inter> set unseen \<subseteq> set pending"
      using "2.prems"(4) False by fastforce
    moreover have "group_loop g pending unseen members = (unseen', members')" "set pending \<subseteq> set unseen \<union> set members"
      using "2.prems"(1,2) False by auto
    moreover have "set members \<union> set (x # pending) = set members \<union> set pending"
      using \<open>x \<in> set members\<close> by auto
    ultimately show ?thesis using "2.IH"(1) [OF False] "2.prems"(3,5) by metis
  next
    case True
    define u where "u = removeAll x unseen"
    define new where "new = filter (\<lambda>y. y \<in> set u) (remdups (adjacent g x))"
    have run: "group_loop g (rev new @ pending) u (members @ [x]) = (unseen', members')"
      using "2.prems"(1) True by (simp add: u_def new_def Let_def)
    have IH: "set members' = (edges_of g)\<^sup>* `` (set (members @ [x]) \<union> set (rev new @ pending)) \<and>
      set unseen' = set u - set members' \<and> set (members @ [x]) \<subseteq> set members'"
      unfolding new_def
    proof (rule "2.IH"(2) [OF _ u_def run [unfolded new_def]])
      show "\<not> x \<notin> set unseen" using True by simp
      show "set (rev (filter (\<lambda>y. y \<in> set u) (remdups (adjacent g x))) @ pending) \<subseteq> set u \<union> set (members @ [x])"
        using "2.prems"(2) by (auto simp: u_def)
      show "set (members @ [x]) \<inter> set u = {}" using "2.prems"(3) by (auto simp: u_def)
      show "\<forall>y \<in> set (members @ [x]). set (adjacent g y) \<inter> set u \<subseteq>
          set (rev (filter (\<lambda>y. y \<in> set u) (remdups (adjacent g x))) @ pending)"
        using "2.prems"(4) by (auto simp: u_def)
      show "\<forall>y \<in> set (members @ [x]) \<union> set u. set (adjacent g y) \<subseteq> set (members @ [x]) \<union> set u"
        using "2.prems"(5) True by (auto simp: u_def)
    qed
    have "new_node \<in> (edges_of g)\<^sup>* `` {x}" if "new_node \<in> set new" for new_node
      using that by (auto simp: new_def edges_of_def)
    then have "(edges_of g)\<^sup>* `` (set (members @ [x]) \<union> set (rev new @ pending)) =
        (edges_of g)\<^sup>* `` (set members \<union> set (x # pending))"
      by (auto intro: rtrancl_trans)
    then show ?thesis using IH by (auto simp: u_def)
  qed
qed

lemma group_loop_distinct:
  "group_loop g pending unseen members = (unseen', members') \<Longrightarrow> distinct members \<Longrightarrow>
     set members \<inter> set unseen = {} \<Longrightarrow> distinct members'"
  by (induction g pending unseen members rule: group_loop.induct) (auto simp: Let_def split: if_splits)

end
