(* ===== verification/Loading_Groups.thy ===== *)
theory Loading_Groups
  imports Reachability
begin

text \<open>
  Indivisible groups of planned rows (\<open>loading/groups.py\<close>, \<open>contracts/loading.py\<close>,
  \<open>loading/projection.py\<close>). A dictionary is an association list in insertion order, a set of units a
  list without repetition; \<open>Key_Error\<close> is the \<open>KeyError\<close> of a missing key.
\<close>

section \<open>Data\<close>

record unit_origin =
  og_record :: pystr
  og_entity :: pystr
  og_value_ids :: "pystr list"

record source_record =
  sr_id :: pystr
  sr_parent :: "pystr option"
  sr_related :: "pystr list"

datatype load_action = Act_Insert | Act_Update | Act_Skip | Act_Quarantine

record execution_step =
  st_unit :: pystr
  st_record :: pystr
  st_entity :: pystr
  st_table :: pystr
  st_value_ids :: "pystr list"
  st_columns :: "pystr list"
  st_identity :: "pystr list"
  st_update :: "pystr list"
  st_dependencies :: "pystr list"
  st_action :: load_action
  st_codes :: "string list"

datatype load_error = Load_Error string | Key_Error

text \<open>\<open>DryRunExecutionPlan.ordered\<close>, the rows before the step among \<open>seen\<close>.\<close>

fun ordered_steps :: "pystr list \<Rightarrow> pystr list \<Rightarrow> execution_step list \<Rightarrow> bool" where
  "ordered_steps table_order seen [] = True"
| "ordered_steps table_order seen (s # ss) = (st_unit s \<notin> set seen \<and> set (st_dependencies s) \<subseteq> set seen \<and>
     st_table s \<in> set table_order \<and> ordered_steps table_order (seen @ [st_unit s]) ss)"

section \<open>Graphs of units\<close>

definition graph_add :: "load_error \<Rightarrow> pystr \<Rightarrow> pystr \<Rightarrow> (pystr \<times> pystr list) list \<Rightarrow> load_error + (pystr \<times> pystr list) list" where
  "graph_add err x y g = (case map_of g x of
     None \<Rightarrow> Inl err | Some ys \<Rightarrow> Inr (AList.update x (List.insert y ys) g))"

fun graph_adds :: "load_error \<Rightarrow> (pystr \<times> pystr) list \<Rightarrow> (pystr \<times> pystr list) list \<Rightarrow> load_error + (pystr \<times> pystr list) list" where
  "graph_adds err [] g = Inr g"
| "graph_adds err ((x, y) # ps) g = bindE (graph_add err x y g) (graph_adds err ps)"

text \<open>\<open>peers.setdefault(k, []).append(v)\<close>, and the units of every source record.\<close>

definition push_to :: "'k \<Rightarrow> 'v \<Rightarrow> ('k \<times> 'v list) list \<Rightarrow> ('k \<times> 'v list) list" where
  "push_to k v al = AList.update k (adjacent al k @ [v]) al"

definition peers_of :: "(pystr \<times> unit_origin) list \<Rightarrow> (pystr \<times> pystr list) list" where
  "peers_of origins = foldl (\<lambda>peers (uid, origin). push_to (og_record origin) uid peers) [] origins"

text \<open>\<open>(*record.related_record_ids, *((record.parent_record_id,) if record.parent_record_id else ()))\<close>: a
  record identifier is never empty, so \<open>Some\<close> stands for a true value.\<close>

definition relatives :: "source_record \<Rightarrow> pystr list" where
  "relatives r = sr_related r @ (case sr_parent r of None \<Rightarrow> [] | Some p \<Rightarrow> [p])"

definition relations_of :: "source_record list list \<Rightarrow> (pystr \<times> pystr) list" where
  "relations_of batches = concat (map (\<lambda>r. map (Pair (sr_id r)) (relatives r)) (concat batches))"

text \<open>
  The loop over the relations of the records; \<open>add\<close> is what the two clients do with the anchors of
  the two records.
\<close>

fun link_records ::
  "string \<Rightarrow> (pystr \<times> pystr list) list \<Rightarrow> (pystr list \<Rightarrow> pystr) \<Rightarrow>
     (pystr \<Rightarrow> pystr \<Rightarrow> (pystr \<times> pystr list) list \<Rightarrow> load_error + (pystr \<times> pystr list) list) \<Rightarrow>
     (pystr \<times> pystr) list \<Rightarrow> (pystr \<times> pystr list) list \<Rightarrow> load_error + (pystr \<times> pystr list) list" where
  "link_records code peers anchor add [] g = Inr g"
| "link_records code peers anchor add ((r, q) # ps) g =
     (case map_of peers q of
        None \<Rightarrow> Inl (Load_Error code)
      | Some qs \<Rightarrow> (case map_of peers r of
          None \<Rightarrow> Inl Key_Error
        | Some rs \<Rightarrow> bindE (add (anchor rs) (anchor qs) g) (link_records code peers anchor add ps)))"

section \<open>The groups\<close>

definition group_anchors :: "(pystr \<times> pystr list) list \<Rightarrow> (pystr \<times> pystr) list" where
  "group_anchors peers = concat (map (\<lambda>(_, group). map (\<lambda>uid. (uid, hd group)) group) peers)"

definition back_edges :: "(pystr \<times> pystr list) list \<Rightarrow> (pystr \<times> pystr) list" where
  "back_edges g = concat (map (\<lambda>(uid, edges). map (\<lambda>v. (v, uid)) edges) g)"

definition graph_size :: "(pystr \<times> pystr list) list \<Rightarrow> nat" where
  "graph_size g = length g + sum_list (map (length \<circ> snd) g)"

text \<open>\<open>order\<close> is the position of a unit in the plan; the loop keeps the units not yet seen.\<close>

fun collect_groups :: "(pystr \<Rightarrow> nat) \<Rightarrow> (pystr \<times> pystr list) list \<Rightarrow> pystr list \<Rightarrow> pystr list \<Rightarrow> pystr list list" where
  "collect_groups order g [] unseen = []"
| "collect_groups order g (u # us) unseen =
     (if u \<notin> set unseen then collect_groups order g us unseen
      else case group_loop g [u] unseen [] of
        (unseen', members) \<Rightarrow> sort_key order members # collect_groups order g us unseen')"

definition position_in :: "pystr list \<Rightarrow> pystr \<Rightarrow> nat" where
  "position_in us u = length (takeWhile (\<lambda>x. x \<noteq> u) us)"

definition groups_graph ::
  "(pystr \<times> unit_origin) list \<Rightarrow> source_record list list \<Rightarrow> execution_step list \<Rightarrow> load_error + (pystr \<times> pystr list) list" where
  "groups_graph origins batches steps =
     (let graph = map (\<lambda>s. (st_unit s, remdups (st_dependencies s))) steps; peers = peers_of origins in
      bindE (graph_adds Key_Error (group_anchors peers) graph)
        (link_records ''LOAD_GROUP_UNRESOLVED'' peers hd (graph_add Key_Error) (relations_of batches)))"

definition dependency_groups ::
  "(pystr \<times> unit_origin) list \<Rightarrow> source_record list list \<Rightarrow> execution_step list \<Rightarrow> nat \<Rightarrow> load_error + pystr list list" where
  "dependency_groups origins batches steps max_work =
     bindE (groups_graph origins batches steps) (\<lambda>graph.
       if max_work < graph_size graph then Inl (Load_Error ''SECURITY_LIMIT_EXCEEDED'')
       else bindE (graph_adds (Load_Error ''LOAD_GROUP_UNRESOLVED'') (back_edges graph) graph) (\<lambda>graph.
         let units = map st_unit steps in
         Inr (collect_groups (position_in units) graph units (map fst graph))))"

section \<open>Lemmas\<close>

lemma graph_add_Inr:
  assumes "graph_add err x y g = Inr g'"
  shows "x \<in> set (map fst g) \<and> map fst g' = map fst g \<and> edges_of g' = insert (x, y) (edges_of g)"
proof -
  obtain ys where ys: "map_of g x = Some ys" "g' = AList.update x (List.insert y ys) g"
    using assms by (auto simp: graph_add_def split: option.splits)
  then have "x \<in> set (map fst g)" by (metis map_of_eq_None_iff list.set_map option.distinct(1))
  moreover have "adjacent g x = ys" "\<And>z. adjacent g' z = (if z = x then List.insert y ys else adjacent g z)"
    using ys by (simp_all add: adjacent_def)
  then have "edges_of g' = insert (x, y) (edges_of g)" by (auto simp: edges_of_def split: if_splits)
  ultimately show ?thesis using ys(2) by (simp add: update_keys)
qed

lemma graph_adds_Inr:
  "graph_adds err ps g = Inr g' \<Longrightarrow>
     fst ` set ps \<subseteq> set (map fst g) \<and> map fst g' = map fst g \<and> edges_of g' = set ps \<union> edges_of g"
proof (induction err ps g rule: graph_adds.induct)
  case (2 err x y ps g)
  then obtain g1 where g1: "graph_add err x y g = Inr g1" "graph_adds err ps g1 = Inr g'" by (auto simp: result_simps)
  from 2(1) [OF g1] graph_add_Inr [OF g1(1)] show ?case by auto
qed simp

lemma adjacent_push: "adjacent (push_to k v al) j = adjacent al j @ (if j = k then [v] else [])"
  by (simp add: push_to_def adjacent_def split: option.split)

lemma map_of_push: "map_of (push_to k v al) j = (if j = k then Some (adjacent al k @ [v]) else map_of al j)"
  by (simp add: push_to_def)

definition units_of :: "(pystr \<times> unit_origin) list \<Rightarrow> pystr \<Rightarrow> pystr list" where
  "units_of origins r = map fst (filter (\<lambda>(_, origin). og_record origin = r) origins)"

lemma map_of_peers: "map_of (peers_of origins) r = (if units_of origins r = [] then None else Some (units_of origins r))"
proof (induction origins rule: rev_induct)
  case (snoc x xs)
  have "adjacent (peers_of xs) k = units_of xs k" if "k = r" for k using snoc that by (simp add: adjacent_def)
  then show ?case using snoc
    by (cases x) (auto simp: peers_of_def map_of_push units_of_def)
qed (simp add: peers_of_def units_of_def)

section \<open>Who belongs together\<close>

text \<open>
  \<open>units r\<close> are the units of a record, \<open>D\<close> the dependencies and \<open>R\<close> the relations of records.
  \<open>bonds\<close> says directly which units belong together; \<open>star_edges\<close> is what the code links, one anchor
  per record standing for all its units.
\<close>

definition bonds :: "(pystr \<Rightarrow> pystr list) \<Rightarrow> (pystr \<times> pystr) set \<Rightarrow> (pystr \<times> pystr) set \<Rightarrow> (pystr \<times> pystr) set" where
  "bonds units D R = D \<union> {(u, v). \<exists>r. u \<in> set (units r) \<and> v \<in> set (units r)} \<union>
     {(u, v). \<exists>(r, q) \<in> R. u \<in> set (units r) \<and> v \<in> set (units q)}"

definition star_edges ::
  "(pystr list \<Rightarrow> pystr) \<Rightarrow> (pystr \<Rightarrow> pystr list) \<Rightarrow> (pystr \<times> pystr) set \<Rightarrow> (pystr \<times> pystr) set \<Rightarrow> (pystr \<times> pystr) set" where
  "star_edges anchor units D R = D \<union> {(u, anchor (units r)) |u r. u \<in> set (units r)} \<union>
     {(anchor (units r), anchor (units q)) |r q. (r, q) \<in> R}"

definition tied :: "(pystr \<times> pystr) set \<Rightarrow> (pystr \<times> pystr) set" where
  "tied B = (B \<union> B\<inverse>)\<^sup>*"

text \<open>An anchor is one of the units it stands for. Any choice links the same units.\<close>

locale anchored =
  fixes anchor :: "pystr list \<Rightarrow> pystr"
  assumes anchor_in: "us \<noteq> [] \<Longrightarrow> anchor us \<in> set us"
begin

lemma tied_star:
  assumes "\<And>r q. (r, q) \<in> R \<Longrightarrow> units r \<noteq> [] \<and> units q \<noteq> []"
  shows "tied (star_edges anchor units D R) = tied (bonds units D R)"
proof -
  let ?S = "star_edges anchor units D R" and ?B = "bonds units D R"
  let ?T = "(?S \<union> ?S\<inverse>)\<^sup>*"
  have own: "(u, anchor (units r)) \<in> ?T" "(anchor (units r), u) \<in> ?T" if "u \<in> set (units r)" for u r
  proof -
    have "(u, anchor (units r)) \<in> ?S" using that by (auto simp: star_edges_def)
    then show "(u, anchor (units r)) \<in> ?T" "(anchor (units r), u) \<in> ?T" by auto
  qed
  have "(u, v) \<in> ?T" if uv: "(u, v) \<in> ?B" for u v
  proof -
    consider "(u, v) \<in> D" | r where "u \<in> set (units r)" "v \<in> set (units r)"
      | r q where "(r, q) \<in> R" "u \<in> set (units r)" "v \<in> set (units q)"
      using uv unfolding bonds_def by blast
    then show ?thesis
    proof cases
      case 1
      then have "(u, v) \<in> ?S" by (auto simp: star_edges_def)
      then show ?thesis by auto
    next
      case (2 r)
      then show ?thesis using own by (meson rtrancl_trans)
    next
      case (3 r q)
      then have "(anchor (units r), anchor (units q)) \<in> ?S" by (auto simp: star_edges_def)
      then have "(anchor (units r), anchor (units q)) \<in> ?T" by auto
      then show ?thesis using own 3 by (meson rtrancl_trans)
    qed
  qed
  then have B: "?B \<subseteq> ?T" by (simp add: subrelI)
  have "sym ?T" by (rule sym_rtrancl, rule sym_Un_converse)
  then have "?T\<inverse> = ?T" by (simp only: sym_conv_converse_eq)
  then have "?B\<inverse> \<subseteq> ?T" using B by (metis converse_mono)
  with B have "?B \<union> ?B\<inverse> \<subseteq> ?T" by (rule Un_least)
  moreover have "?S \<subseteq> ?B"
  proof (rule subrelI)
    fix u v assume "(u, v) \<in> ?S"
    then consider "(u, v) \<in> D" | r where "u \<in> set (units r)" "v = anchor (units r)"
      | r q where "(r, q) \<in> R" "u = anchor (units r)" "v = anchor (units q)"
      unfolding star_edges_def by blast
    then show "(u, v) \<in> ?B"
    proof cases
      case (2 r)
      then have "units r \<noteq> []" by auto
      then have "v \<in> set (units r)" using anchor_in 2(2) by simp
      then show ?thesis using 2(1) unfolding bonds_def by blast
    next
      case (3 r q)
      then have "u \<in> set (units r)" "v \<in> set (units q)" using assms anchor_in by simp_all
      then show ?thesis using 3(1) unfolding bonds_def by blast
    qed (simp add: bonds_def)
  qed
  then have "?S \<union> ?S\<inverse> \<subseteq> ?B \<union> ?B\<inverse>" by blast
  then have "?T \<subseteq> (?B \<union> ?B\<inverse>)\<^sup>*" by (rule rtrancl_mono)
  ultimately show ?thesis unfolding tied_def by (metis rtrancl_subset_rtrancl subset_antisym)
qed

end

interpretation first_unit: anchored hd
  by unfold_locales simp

lemma sym_tied: "sym (tied B)"
  unfolding tied_def by (intro sym_rtrancl) (auto simp: sym_def)

lemma tied_trans: "(u, v) \<in> tied B \<Longrightarrow> (v, w) \<in> tied B \<Longrightarrow> (u, w) \<in> tied B"
  unfolding tied_def by (rule rtrancl_trans)

lemma tied_refl [simp]: "(u, u) \<in> tied B"
  by (simp add: tied_def)

section \<open>The loop collects components\<close>

lemma reach_inside:
  assumes "\<forall>x \<in> A. set (adjacent g x) \<subseteq> A" "u \<in> A"
  shows "(edges_of g)\<^sup>* `` {u} \<subseteq> A"
proof -
  have "v \<in> A" if "(u, v) \<in> (edges_of g)\<^sup>*" for v
    using that by (induction rule: rtrancl_induct) (use assms in \<open>auto simp: edges_of_def\<close>)
  then show ?thesis by auto
qed

lemma sym_reach:
  assumes "sym E" "u \<in> E\<^sup>* `` {x}"
  shows "E\<^sup>* `` {u} = E\<^sup>* `` {x}"
proof -
  have "(x, u) \<in> E\<^sup>*" "(u, x) \<in> E\<^sup>*" using assms sym_rtrancl [OF assms(1)] by (auto dest: symD)
  then show ?thesis by (auto intro: rtrancl_trans)
qed

definition groups_ok :: "(pystr \<times> pystr list) list \<Rightarrow> (pystr \<Rightarrow> nat) \<Rightarrow> pystr list list \<Rightarrow> bool" where
  "groups_ok g order gs \<longleftrightarrow> distinct (concat gs) \<and>
     (\<forall>G \<in> set gs. G \<noteq> [] \<and> sorted (map order G) \<and> (\<forall>u \<in> set G. set G = (edges_of g)\<^sup>* `` {u}))"

lemma collect_groups_spec:
  "sym (edges_of g) \<Longrightarrow> \<forall>x \<in> set unseen. set (adjacent g x) \<subseteq> set unseen \<Longrightarrow>
    groups_ok g order (collect_groups order g us unseen) \<and>
    set (concat (collect_groups order g us unseen)) \<subseteq> set unseen \<and>
    set us \<inter> set unseen \<subseteq> set (concat (collect_groups order g us unseen))"
proof (induction order g us unseen rule: collect_groups.induct)
  case (2 order g u us unseen)
  note assms = "2.prems"(1) and closed_unseen = "2.prems"(2)
  show ?case
  proof (cases "u \<in> set unseen")
    case True
    obtain unseen' members where loop: "group_loop g [u] unseen [] = (unseen', members)" by fastforce
    have m: "set members = (edges_of g)\<^sup>* `` {u}" "set unseen' = set unseen - set members"
      using group_loop_spec [OF loop] True closed_unseen by auto
    have d: "distinct members" using group_loop_distinct [OF loop] by simp
    have inside: "set members \<subseteq> set unseen" unfolding m(1) by (rule reach_inside [OF closed_unseen True])
    have closed: "\<forall>x \<in> set unseen'. set (adjacent g x) \<subseteq> set unseen'"
    proof (intro ballI subsetI)
      fix x y assume x: "x \<in> set unseen'" and y: "y \<in> set (adjacent g x)"
      have "(x, y) \<in> edges_of g" using y by (simp add: edges_of_def)
      then have "(y, x) \<in> edges_of g" by (rule symD [OF assms])
      then have "x \<in> set members" if "y \<in> set members" using that m(1) by (auto intro: rtrancl_into_rtrancl)
      then show "y \<in> set unseen'" using x y closed_unseen m(2) by auto
    qed
    note IH = "2.IH"(2) [OF _ loop [symmetric] assms closed]
    have whole: "set members = (edges_of g)\<^sup>* `` {v}" if "v \<in> set members" for v
      using sym_reach [OF assms] that m(1) by simp
    have "u \<in> set members" using m(1) by auto
    then have "members \<noteq> []" by auto
    define rest where "rest = collect_groups order g us unseen'"
    have IH: "groups_ok g order rest" "set (concat rest) \<subseteq> set unseen'" "set us \<inter> set unseen' \<subseteq> set (concat rest)"
      using IH True by (simp_all add: rest_def)
    have "set (concat rest) \<inter> set members = {}" using IH(2) m(2) by auto
    then have "groups_ok g order (sort_key order members # rest)"
      using IH(1) d whole \<open>members \<noteq> []\<close> by (auto simp: groups_ok_def dest: arg_cong [where f = set])
    moreover have "set (concat (sort_key order members # rest)) \<subseteq> set unseen" using IH(2) m(2) inside by auto
    moreover have "set (u # us) \<inter> set unseen \<subseteq> set (concat (sort_key order members # rest))"
      using IH(3) m(2) \<open>u \<in> set members\<close> by auto
    moreover have "collect_groups order g (u # us) unseen = sort_key order members # rest"
      using True loop by (simp add: rest_def)
    ultimately show ?thesis by (simp only:)
  qed (use 2 in auto)
qed (simp add: groups_ok_def)

section \<open>The graph links the bonds\<close>

lemma distinct_push: "distinct (map fst al) \<Longrightarrow> distinct (map fst (push_to k v al))"
  by (simp add: push_to_def distinct_update)

lemma distinct_peers: "distinct (map fst (peers_of origins))"
  by (induction origins rule: rev_induct) (auto simp: peers_of_def distinct_push split: prod.split)

lemma mem_peers: "(r, us) \<in> set (peers_of origins) \<longleftrightarrow> us = units_of origins r \<and> us \<noteq> []"
proof -
  have "(r, us) \<in> set (peers_of origins) \<longleftrightarrow> map_of (peers_of origins) r = Some us"
    using distinct_peers by (metis map_of_is_SomeI map_of_SomeD)
  then show ?thesis by (auto simp: map_of_peers)
qed

lemma set_group_anchors: "set (group_anchors (peers_of origins)) = {(u, hd (units_of origins r)) |u r. u \<in> set (units_of origins r)}"
  by (fastforce simp: group_anchors_def mem_peers)

lemma link_records_Inr:
  assumes "\<And>x y g g'. add x y g = Inr g' \<Longrightarrow> map fst g' = map fst g \<and> edges_of g' = E x y \<union> edges_of g"
  shows "link_records code (peers_of origins) anchor add ps g = Inr g' \<Longrightarrow> map fst g' = map fst g \<and>
    (\<forall>(r, q) \<in> set ps. units_of origins r \<noteq> [] \<and> units_of origins q \<noteq> []) \<and>
    edges_of g' = (\<Union>(r, q) \<in> set ps. E (anchor (units_of origins r)) (anchor (units_of origins q))) \<union> edges_of g"
proof (induction ps arbitrary: g)
  case (Cons p ps)
  obtain r q where p: "p = (r, q)" by fastforce
  then have u: "units_of origins r \<noteq> []" "units_of origins q \<noteq> []"
    using Cons.prems by (auto simp: map_of_peers split: if_splits)
  then obtain g1 where g1: "add (anchor (units_of origins r)) (anchor (units_of origins q)) g = Inr g1"
      "link_records code (peers_of origins) anchor add ps g1 = Inr g'"
    using Cons.prems p by (auto simp: map_of_peers result_simps)
  show ?case using Cons.IH [OF g1(2)] assms [OF g1(1)] u p by auto
qed simp

definition step_bonds :: "execution_step list \<Rightarrow> (pystr \<times> pystr) set" where
  "step_bonds steps = {(st_unit s, d) |s d. s \<in> set steps \<and> d \<in> set (st_dependencies s)}"

lemma ordered_units: "ordered_steps tables seen steps \<Longrightarrow> distinct (map st_unit steps) \<and> set (map st_unit steps) \<inter> set seen = {}"
  by (induction steps arbitrary: seen) fastforce+

lemma edges_keys:
  assumes "(x, y) \<in> edges_of g"
  shows "x \<in> set (map fst g)"
proof (rule ccontr)
  assume "x \<notin> set (map fst g)"
  then have "map_of g x = None" by (simp add: map_of_eq_None_iff)
  then show False using assms by (simp add: edges_of_def adjacent_def)
qed

lemma edges_map:
  assumes "distinct (map f xs)"
  shows "edges_of (map (\<lambda>x. (f x, h x)) xs) = {(f x, y) |x y. x \<in> set xs \<and> y \<in> set (h x)}"
proof -
  have *: "map_of (map (\<lambda>x. (f x, h x)) xs) (f x) = Some (h x)" if "x \<in> set xs" for x
    using that assms by (intro map_of_is_SomeI) (auto simp: comp_def)
  show ?thesis
  proof (intro set_eqI iffI)
    fix e assume e: "e \<in> edges_of (map (\<lambda>x. (f x, h x)) xs)"
    have "fst e \<in> set (map fst (map (\<lambda>x. (f x, h x)) xs))" 
      by (rule edges_keys [of "fst e" "snd e"]) (use e in simp)
    then obtain x where "x \<in> set xs" "fst e = f x" by auto
    then show "e \<in> {(f x, y) |x y. x \<in> set xs \<and> y \<in> set (h x)}"
      using e * by (cases e) (auto simp: edges_of_def adjacent_def)
  qed (use * in \<open>auto simp: edges_of_def adjacent_def\<close>)
qed

lemma set_back_edges:
  assumes "distinct (map fst g)"
  shows "set (back_edges g) = (edges_of g)\<inverse>"
proof -
  have "(u, vs) \<in> set g \<longleftrightarrow> map_of g u = Some vs" for u vs using assms by (metis map_of_is_SomeI map_of_SomeD)
  then show ?thesis by (fastforce simp: back_edges_def edges_of_def adjacent_def split: option.splits)
qed

lemma groups_graph_Inr:
  assumes "groups_graph origins batches steps = Inr g" "distinct (map st_unit steps)"
  shows "map fst g = map st_unit steps \<and>
    edges_of g = star_edges hd (units_of origins) (step_bonds steps) (set (relations_of batches)) \<and>
    (\<forall>(r, q) \<in> set (relations_of batches). units_of origins r \<noteq> [] \<and> units_of origins q \<noteq> [])"
proof -
  let ?g0 = "map (\<lambda>s. (st_unit s, remdups (st_dependencies s))) steps"
  obtain g1 where g1: "graph_adds Key_Error (group_anchors (peers_of origins)) ?g0 = Inr g1"
    and g: "link_records ''LOAD_GROUP_UNRESOLVED'' (peers_of origins) hd (graph_add Key_Error) (relations_of batches) g1 = Inr g"
    using assms(1) by (auto simp: groups_graph_def Let_def result_simps)
  have e0: "edges_of ?g0 = step_bonds steps" using edges_map [OF assms(2)] by (simp add: step_bonds_def)
  have "map fst g' = map fst g \<and> edges_of g' = {(x, y)} \<union> edges_of g" if "graph_add Key_Error x y g = Inr g'" for x y g g'
    using graph_add_Inr [OF that] by simp
  note l = link_records_Inr [OF this g]
  have "edges_of g = star_edges hd (units_of origins) (step_bonds steps) (set (relations_of batches))"
    using l graph_adds_Inr [OF g1] e0 by (auto simp: star_edges_def set_group_anchors)
  then show ?thesis using l graph_adds_Inr [OF g1] by (simp add: comp_def)
qed

lemma dependency_groups_Inr:
  assumes "dependency_groups origins batches steps max_work = Inr groups" "distinct (map st_unit steps)"
  shows "distinct (concat groups) \<and> set (concat groups) = set (map st_unit steps) \<and>
    (\<forall>G \<in> set groups. G \<noteq> [] \<and> sorted (map (position_in (map st_unit steps)) G) \<and>
      (\<forall>u \<in> set G. set G = tied (bonds (units_of origins) (step_bonds steps) (set (relations_of batches))) `` {u}))"
proof -
  let ?S = "star_edges hd (units_of origins) (step_bonds steps) (set (relations_of batches))"
  let ?units = "map st_unit steps"
  obtain g h where g: "groups_graph origins batches steps = Inr g"
    and h: "graph_adds (Load_Error ''LOAD_GROUP_UNRESOLVED'') (back_edges g) g = Inr h"
    and groups: "groups = collect_groups (position_in ?units) h ?units ?units"
    using assms(1) groups_graph_Inr [OF _ assms(2)] graph_adds_Inr
    by (auto simp: dependency_groups_def result_simps Let_def split: if_splits)
  note G = groups_graph_Inr [OF g assms(2)] and H = graph_adds_Inr [OF h]
  have keys: "map fst h = ?units" using G H by simp
  have e: "edges_of h = ?S \<union> ?S\<inverse>" using set_back_edges [of g] G H assms(2) by auto
  have sym: "sym (edges_of h)" unfolding e by (rule sym_Un_converse)
  have closed: "\<forall>x \<in> set ?units. set (adjacent h x) \<subseteq> set ?units"
  proof (intro ballI subsetI)
    fix x y assume "y \<in> set (adjacent h x)"
    then have "(y, x) \<in> edges_of h" using symD [OF sym] by (simp add: edges_of_def)
    then show "y \<in> set ?units" using edges_keys keys by metis
  qed
  have "tied ?S = tied (bonds (units_of origins) (step_bonds steps) (set (relations_of batches)))"
    by (rule first_unit.tied_star) (use G in auto)
  then have t: "(edges_of h)\<^sup>* = tied (bonds (units_of origins) (step_bonds steps) (set (relations_of batches)))"
    unfolding e tied_def .
  show ?thesis
    using collect_groups_spec [OF sym closed, of "position_in ?units" ?units] groups unfolding groups_ok_def t by auto
qed

text \<open>C28: The groups written under one SAVEPOINT are exactly the sets of rows that belong together. They
  partition the units of the plan, each lists its members in plan order, and two units are in the same
  group if and only if a chain of dependencies, common source records and parent or related records
  leads from one to the other - so no dependency and no source record is ever torn apart, and nothing
  else is lumped together.\<close>

theorem dependency_groups_components:
  assumes "dependency_groups origins batches steps max_work = Inr groups" "ordered_steps tables [] steps"
  shows "distinct (concat groups) \<and> set (concat groups) = set (map st_unit steps) \<and>
    (\<forall>G \<in> set groups. sorted (map (position_in (map st_unit steps)) G) \<and>
      (\<forall>u \<in> set G. \<forall>v. v \<in> set G \<longleftrightarrow>
        (u, v) \<in> tied (bonds (units_of origins) (step_bonds steps) (set (relations_of batches)))))"
proof -
  have "distinct (map st_unit steps)" using ordered_units [OF assms(2)] by simp
  from dependency_groups_Inr [OF assms(1) this] show ?thesis by auto
qed

section \<open>A concrete plan\<close>

text \<open>Record 1 owns units 1 and 2, record 2 unit 3 with parent record 1, record 4 unit 4.\<close>

definition ex_step :: "nat \<Rightarrow> nat \<Rightarrow> pystr list \<Rightarrow> execution_step" where
  "ex_step u r deps = \<lparr>st_unit = [u], st_record = [r], st_entity = [u], st_table = [9], st_value_ids = [], st_columns = [[7]],
     st_identity = [], st_update = [], st_dependencies = deps, st_action = Act_Insert, st_codes = []\<rparr>"

definition ex_plan :: "execution_step list" where
  "ex_plan = [ex_step 1 1 [], ex_step 2 1 [[1]], ex_step 4 4 [], ex_step 3 2 []]"

definition ex_origins :: "(pystr \<times> unit_origin) list" where
  "ex_origins = map (\<lambda>(u, r). ([u], \<lparr>og_record = [r], og_entity = [u], og_value_ids = []\<rparr>)) [(1, 1), (2, 1), (3, 2), (4, 4)]"

definition ex_batches :: "source_record list list" where
  "ex_batches = [[\<lparr>sr_id = [1], sr_parent = None, sr_related = []\<rparr>, \<lparr>sr_id = [2], sr_parent = Some [1], sr_related = []\<rparr>],
     [\<lparr>sr_id = [4], sr_parent = None, sr_related = []\<rparr>]]"

lemma ex_groups: "dependency_groups ex_origins ex_batches ex_plan 20 = Inr [[[1], [2], [3]], [[4]]]"
  by code_simp

theorem dependency_groups_components_witness:
  "dependency_groups ex_origins ex_batches ex_plan 20 = Inr [[[1], [2], [3]], [[4]]] \<and>
   ([1], [3]) \<in> tied (bonds (units_of ex_origins) (step_bonds ex_plan) (set (relations_of ex_batches)))"
  using ex_groups dependency_groups_components [OF ex_groups, of "[[9]]"]
  by (auto simp: ex_plan_def ex_step_def)

end
