(* ===== verification/Database_Catalog.thy ===== *)
theory Database_Catalog
  imports Prelude
begin

text \<open>
  The database catalog (\<open>contracts/database.py\<close>) with the validators of its parts, and the unique keys
  a writer may rely on (\<open>domain/constraint_semantics.py\<close>). Texts that no operation reads (comments,
  checks, expressions other than their presence) are left out of the records.
\<close>

section \<open>Types and columns\<close>

datatype database_type = Database_Type
  (dt_native: pystr) (dt_canonical: string) (dt_timezone: "bool option") (dt_kind: "string option")
  (dt_base: "database_type option") (dt_domain_default: "pystr option")

record column_inspection =
  ci_data_type :: database_type
  ci_default :: "pystr option"
  ci_generation_expression :: "pystr option"
  ci_generation_storage :: "string option"
  ci_autoincrement :: bool
  ci_rowid_alias :: bool
  ci_identity :: "string option"

definition valid_column_inspection :: "column_inspection \<Rightarrow> bool" where
  "valid_column_inspection i \<longleftrightarrow>
     (ci_generation_expression i = None) = (ci_generation_storage i = None) \<and>
     \<not> (ci_autoincrement i \<and> \<not> ci_rowid_alias i)"

record column_catalog =
  cc_id :: pystr
  cc_name :: pystr
  cc_type_name :: string
  cc_nullable :: bool
  cc_primary_key :: bool
  cc_unique :: bool
  cc_generated :: bool
  cc_writable :: bool
  cc_inspection :: "column_inspection option"

definition valid_column :: "column_catalog \<Rightarrow> bool" where
  "valid_column c \<longleftrightarrow> \<not> (cc_primary_key c \<and> cc_nullable c) \<and> \<not> (cc_generated c \<and> cc_writable c) \<and>
     (case cc_inspection c of None \<Rightarrow> True
      | Some i \<Rightarrow> valid_column_inspection i \<and> \<not> (ci_identity i = Some ''always'' \<and> cc_writable c) \<and>
          cc_type_name c = dt_canonical (ci_data_type i) \<and> cc_generated c = (ci_generation_expression i \<noteq> None))"

section \<open>Indexes and constraints\<close>

record index_key =
  ik_column :: "pystr option"
  ik_expression :: "pystr option"
  ik_collation :: "pystr option"
  ik_operator_class :: "pystr option"

definition valid_index_key :: "index_key \<Rightarrow> bool" where
  "valid_index_key k \<longleftrightarrow> (ik_column k = None) \<noteq> (ik_expression k = None)"

record index_catalog =
  ix_id :: pystr
  ix_keys :: "index_key list"
  ix_unique :: bool
  ix_predicate :: "pystr option"
  ix_include :: "pystr list"
  ix_method :: "pystr option"
  ix_nulls_not_distinct :: bool
  ix_valid :: bool

record constraint_inspection =
  cm_kind :: string
  cm_columns :: "pystr list"
  cm_deferrable :: bool
  cm_validated :: bool
  cm_enforced :: bool

record table_inspection =
  ti_kind :: string
  ti_indexes :: "index_catalog list"
  ti_constraints :: "constraint_inspection list"

section \<open>Tables\<close>

record foreign_key =
  fk_id :: pystr
  fk_columns :: "pystr list"
  fk_table :: pystr
  fk_referenced :: "pystr list"
  fk_on_delete :: "pystr list"    \<comment> \<open>columns of SET NULL or SET DEFAULT, empty without metadata\<close>

definition valid_foreign_key :: "foreign_key \<Rightarrow> bool" where
  "valid_foreign_key f \<longleftrightarrow> fk_columns f \<noteq> [] \<and> length (fk_columns f) = length (fk_referenced f) \<and>
     distinct (fk_columns f) \<and> distinct (fk_referenced f) \<and> set (fk_on_delete f) \<subseteq> set (fk_columns f)"

record table_catalog =
  tc_id :: pystr
  tc_schema :: pystr
  tc_name :: pystr
  tc_columns :: "column_catalog list"
  tc_primary_key :: "pystr list"
  tc_foreign_keys :: "foreign_key list"
  tc_unique :: "pystr list list"
  tc_writable :: bool
  tc_inspection :: "table_inspection option"

definition valid_table_inspection :: "table_catalog \<Rightarrow> table_inspection \<Rightarrow> bool" where
  "valid_table_inspection t i \<longleftrightarrow>
     (let known = set (map cc_id (tc_columns t)) in
      \<not> (ti_kind i \<in> {''view'', ''materialized_view''} \<and> (tc_writable t \<or> list_ex cc_writable (tc_columns t))) \<and>
      distinct (map ix_id (ti_indexes i)) \<and>
      list_all (\<lambda>x. set (ix_include x) \<subseteq> known \<and> list_all valid_index_key (ix_keys x) \<and> ix_keys x \<noteq> [] \<and>
        list_all (\<lambda>k. case ik_column k of None \<Rightarrow> True | Some c \<Rightarrow> c \<in> known) (ix_keys x)) (ti_indexes i) \<and>
      list_all (\<lambda>c. set (cm_columns c) \<subseteq> known) (ti_constraints i))"

definition valid_table :: "table_catalog \<Rightarrow> bool" where
  "valid_table t \<longleftrightarrow>
     (let ids = map cc_id (tc_columns t); known = set ids in
      tc_columns t \<noteq> [] \<and> list_all valid_column (tc_columns t) \<and>
      distinct ids \<and> distinct (map cc_name (tc_columns t)) \<and>
      (case tc_inspection t of None \<Rightarrow> True | Some i \<Rightarrow> valid_table_inspection t i) \<and>
      set (tc_primary_key t) \<subseteq> known \<and> distinct (tc_primary_key t) \<and>
      set (map cc_id (filter cc_primary_key (tc_columns t))) = set (tc_primary_key t) \<and>
      list_all valid_foreign_key (tc_foreign_keys t) \<and> distinct (map fk_id (tc_foreign_keys t)) \<and>
      list_all (\<lambda>f. set (fk_columns f) \<subseteq> known) (tc_foreign_keys t) \<and>
      list_all (\<lambda>u. u \<noteq> [] \<and> distinct u \<and> set u \<subseteq> known) (tc_unique t) \<and> distinct (tc_unique t))"

record schema_catalog =
  sc_id :: pystr
  sc_name :: pystr
  sc_tables :: "table_catalog list"

definition valid_schema :: "schema_catalog \<Rightarrow> bool" where
  "valid_schema s \<longleftrightarrow> list_all valid_table (sc_tables s) \<and> distinct (map tc_id (sc_tables s)) \<and>
     distinct (map tc_name (sc_tables s)) \<and> list_all (\<lambda>t. tc_schema t = sc_name s) (sc_tables s)"

definition tables_of :: "schema_catalog list \<Rightarrow> table_catalog list" where
  "tables_of schemas = concat (map sc_tables schemas)"

definition valid_catalog :: "schema_catalog list \<Rightarrow> bool" where
  "valid_catalog schemas \<longleftrightarrow>
     (let tables = tables_of schemas in
      list_all valid_schema schemas \<and> distinct (map sc_id schemas) \<and> distinct (map sc_name schemas) \<and>
      distinct (map tc_id tables) \<and>
      list_all (\<lambda>t. list_all (\<lambda>f. case find (\<lambda>r. tc_id r = fk_table f) tables of
          None \<Rightarrow> False
        | Some r \<Rightarrow> set (fk_referenced f) \<subseteq> set (map cc_id (tc_columns r))) (tc_foreign_keys t)) tables)"

text \<open>\<open>DatabaseMetadataSnapshot\<close>: every table and column has its inspection metadata.\<close>

definition valid_snapshot :: "schema_catalog list \<Rightarrow> bool" where
  "valid_snapshot schemas \<longleftrightarrow> valid_catalog schemas \<and>
     list_all (\<lambda>t. tc_inspection t \<noteq> None \<and> list_all (\<lambda>c. cc_inspection c \<noteq> None) (tc_columns t)) (tables_of schemas)"

section \<open>Supported key columns\<close>

text \<open>
  \<open>str.casefold\<close> as far as the comparison with lower-case ASCII words sees it: the characters whose folding
  is ASCII (capitals, long s, Kelvin sign, sharp s and the Latin ligatures).
\<close>

definition fold_char :: "nat \<Rightarrow> pystr" where
  "fold_char c = (if 65 \<le> c \<and> c \<le> 90 then [c + 32] else if c = 0x17F then [115] else if c = 0x212A then [107]
     else if c = 0xDF \<or> c = 0x1E9E then [115, 115] else if c = 0xFB00 then [102, 102] else if c = 0xFB01 then [102, 105]
     else if c = 0xFB02 then [102, 108] else if c = 0xFB03 then [102, 102, 105] else if c = 0xFB04 then [102, 102, 108]
     else if c = 0xFB05 \<or> c = 0xFB06 then [115, 116] else [c])"

definition casefold :: "pystr \<Rightarrow> pystr" where
  "casefold s = concat (map fold_char s)"

definition is_one_of :: "pystr \<Rightarrow> string list \<Rightarrow> bool" where
  "is_one_of s names \<longleftrightarrow> s \<in> set (map pstr names)"

text \<open>The \<open>text\<close> branch: a full valid unique index on exactly these columns fixes a known collation.\<close>

definition text_key_supported :: "table_inspection \<Rightarrow> pystr list \<Rightarrow> pystr \<Rightarrow> string \<Rightarrow> pystr \<Rightarrow> bool" where
  "text_key_supported i columns cid dialect native =
     (let indexes = filter (\<lambda>x. map ik_column (ix_keys x) = map Some columns \<and> ix_unique x \<and> ix_valid x \<and> ix_predicate x = None)
            (ti_indexes i);
          collations = map ik_collation (filter (\<lambda>k. ik_column k = Some cid) (concat (map ix_keys indexes)));
          allowed = (if dialect = ''sqlite'' then [''BINARY'']
            else [''pg_catalog.C'', ''pg_catalog.POSIX'', ''pg_catalog.\"C\"'', ''pg_catalog.\"POSIX\"'', ''C'', ''POSIX'']) in
      collations \<noteq> [] \<and> set collations \<subseteq> set (map (Some \<circ> pstr) allowed) \<and>
      (dialect = ''postgresql'' \<longrightarrow> is_one_of native [''text'', ''varchar'', ''character varying'']))"

definition key_column_supported :: "table_inspection \<Rightarrow> pystr list \<Rightarrow> string \<Rightarrow> column_catalog \<Rightarrow> bool" where
  "key_column_supported i columns dialect c = (case cc_inspection c of
     None \<Rightarrow> False
   | Some ci \<Rightarrow> if cc_generated c then False else
      (let dt = ci_data_type ci; native = casefold (dt_native dt); canonical = dt_canonical dt; pg = (dialect = ''postgresql'') in
       if dt_kind dt \<in> {Some ''domain'', Some ''enum'', Some ''array'', Some ''unknown''} then False
       else if canonical = ''integer''
       then \<not> (pg \<and> \<not> is_one_of native [''smallint'', ''int2'', ''integer'', ''int4'', ''bigint'', ''int8''])
       else if canonical = ''decimal'' then pg \<and> is_one_of native [''decimal'', ''numeric'']
       else if canonical \<in> {''boolean'', ''date'', ''datetime'', ''uuid''}
       then pg \<and> (canonical = ''datetime'' \<longrightarrow> dt_timezone dt = Some True)
       else if canonical = ''text'' then text_key_supported i columns (cc_id c) dialect native
       else False))"

definition key_columns_supported :: "table_catalog \<Rightarrow> pystr list \<Rightarrow> string \<Rightarrow> bool" where
  "key_columns_supported t columns dialect =
     (let by_id = map_of (rev (map (\<lambda>c. (cc_id c, c)) (tc_columns t))) in
      case tc_inspection t of
        None \<Rightarrow> False
      | Some i \<Rightarrow> columns \<noteq> [] \<and> list_all (\<lambda>cid. case by_id cid of None \<Rightarrow> False
          | Some c \<Rightarrow> key_column_supported i columns dialect c) columns)"

section \<open>Unique keys\<close>

record unique_key =
  uk_columns :: "pystr list"
  uk_nulls_equal :: bool
  uk_supported :: bool

definition plain_operator_classes :: "string list" where
  "plain_operator_classes = [''pg_catalog.int2_ops'', ''pg_catalog.int4_ops'', ''pg_catalog.int8_ops'', ''pg_catalog.numeric_ops'',
     ''pg_catalog.text_ops'', ''pg_catalog.bool_ops'', ''pg_catalog.date_ops'', ''pg_catalog.timestamptz_ops'', ''pg_catalog.uuid_ops'']"

definition index_columns :: "index_catalog \<Rightarrow> pystr list" where
  "index_columns x = concat (map (\<lambda>k. case ik_column k of None \<Rightarrow> [] | Some c \<Rightarrow> [c]) (ix_keys x))"

definition index_supported :: "index_catalog \<Rightarrow> bool" where
  "index_supported x \<longleftrightarrow> ix_valid x \<and> ix_predicate x = None \<and> length (index_columns x) = length (ix_keys x) \<and>
     ix_method x \<in> {None, Some (pstr ''btree'')} \<and>
     list_all (\<lambda>k. case ik_operator_class k of None \<Rightarrow> True | Some o' \<Rightarrow> is_one_of o' plain_operator_classes) (ix_keys x)"

definition declared_keys :: "table_catalog \<Rightarrow> pystr list list" where
  "declared_keys t = tc_unique t @ (if tc_primary_key t \<noteq> [] then [tc_primary_key t] else []) @
     map (\<lambda>c. [cc_id c]) (filter cc_unique (tc_columns t))"

text \<open>The loop over the indexes: keys found, declared columns left.\<close>

fun index_unique_keys :: "table_catalog \<Rightarrow> string \<Rightarrow> index_catalog list \<Rightarrow> pystr list list \<Rightarrow> unique_key list \<times> pystr list list" where
  "index_unique_keys t dialect [] declared = ([], declared)"
| "index_unique_keys t dialect (x # xs) declared =
     (if \<not> ix_unique x then index_unique_keys t dialect xs declared
      else let columns = index_columns x; supported = index_supported x;
        key = \<lparr>uk_columns = columns, uk_nulls_equal = ix_nulls_not_distinct x,
               uk_supported = (supported \<and> key_columns_supported t columns dialect)\<rparr> in
        case index_unique_keys t dialect xs (if supported then filter (\<lambda>d. d \<noteq> columns) declared else declared) of
          (keys, left) \<Rightarrow> (key # keys, left))"

definition deferred_keys :: "table_inspection \<Rightarrow> pystr list list" where
  "deferred_keys i = map cm_columns (filter (\<lambda>c. cm_kind c \<in> {''unique'', ''primary_key''} \<and>
     (cm_deferrable c \<or> \<not> cm_enforced c \<or> \<not> cm_validated c)) (ti_constraints i))"

definition unique_keys :: "table_catalog \<Rightarrow> string \<Rightarrow> unique_key list" where
  "unique_keys t dialect =
     (let indexes = (case tc_inspection t of None \<Rightarrow> [] | Some i \<Rightarrow> ti_indexes i);
          deferred = (case tc_inspection t of None \<Rightarrow> [] | Some i \<Rightarrow> deferred_keys i) in
      case index_unique_keys t dialect indexes (declared_keys t) of (found, left) \<Rightarrow>
        let output = found @ map (\<lambda>columns. \<lparr>uk_columns = columns, uk_nulls_equal = False,
              uk_supported = key_columns_supported t columns dialect\<rparr>) (sort (remdups left)) in
        rev (remdups (rev (map (\<lambda>k. k\<lparr>uk_supported := (uk_supported k \<and> uk_columns k \<notin> set deferred)\<rparr>) output))))"

lemma index_unique_keys_spec:
  assumes "index_unique_keys t dialect xs declared = (keys, left)"
  shows "set left \<subseteq> set declared \<and> set declared \<subseteq> set left \<union> uk_columns ` set keys \<and>
    uk_columns ` set keys = index_columns ` {x \<in> set xs. ix_unique x} \<and>
    (\<forall>k \<in> set keys. uk_supported k \<longrightarrow> key_columns_supported t (uk_columns k) dialect \<and>
       (\<exists>x \<in> set xs. ix_unique x \<and> index_supported x \<and> index_columns x = uk_columns k))"
  using assms
proof (induction t dialect xs declared arbitrary: keys left rule: index_unique_keys.induct)
  case (2 t dialect x xs declared)
  show ?case
  proof (cases "ix_unique x")
    case True
    let ?rest = "if index_supported x then filter (\<lambda>d. d \<noteq> index_columns x) declared else declared"
    obtain keys' where r: "index_unique_keys t dialect xs ?rest = (keys', left)"
      and keys: "keys = \<lparr>uk_columns = index_columns x, uk_nulls_equal = ix_nulls_not_distinct x,
               uk_supported = (index_supported x \<and> key_columns_supported t (index_columns x) dialect)\<rparr> # keys'"
      using "2.prems" True by (auto simp: Let_def split: prod.splits)
    have "{y \<in> set (x # xs). ix_unique y} = insert x {y \<in> set xs. ix_unique y}" using True by auto
    moreover note IH = "2.IH"(2) [OF _ refl refl refl r]
    ultimately show ?thesis using True keys by (auto split: if_splits)
  next
    case False
    then have "{y \<in> set (x # xs). ix_unique y} = {y \<in> set xs. ix_unique y}" by auto
    then show ?thesis using 2 False by auto
  qed
qed simp


text \<open>A table keyed by an integer, with a unique index over its text column.\<close>

definition ex_column :: "pystr \<Rightarrow> string \<Rightarrow> bool \<Rightarrow> column_catalog" where
  "ex_column c canonical pk = \<lparr>cc_id = c, cc_name = c, cc_type_name = canonical, cc_nullable = False, cc_primary_key = pk,
     cc_unique = False, cc_generated = False, cc_writable = True, cc_inspection = Some
       \<lparr>ci_data_type = Database_Type (pstr canonical) canonical None None None None, ci_default = None,
        ci_generation_expression = None, ci_generation_storage = None, ci_autoincrement = False, ci_rowid_alias = False,
        ci_identity = None\<rparr>\<rparr>"

definition ex_table :: table_catalog where
  "ex_table = \<lparr>tc_id = [1], tc_schema = [2], tc_name = [3], tc_columns = [ex_column [4] ''integer'' True, ex_column [5] ''text'' False],
     tc_primary_key = [[4]], tc_foreign_keys = [], tc_unique = [], tc_writable = True,
     tc_inspection = Some \<lparr>ti_kind = ''table'', ti_indexes = [\<lparr>ix_id = [6],
       ix_keys = [\<lparr>ik_column = Some [5], ik_expression = None, ik_collation = Some (pstr ''NOCASE''), ik_operator_class = None\<rparr>],
       ix_unique = True, ix_predicate = None, ix_include = [], ix_method = None, ix_nulls_not_distinct = False, ix_valid = True\<rparr>],
       ti_constraints = []\<rparr>\<rparr>"

lemma ex_table_keys: "valid_table ex_table \<and> unique_keys ex_table ''sqlite'' =
    [\<lparr>uk_columns = [[5]], uk_nulls_equal = False, uk_supported = False\<rparr>, \<lparr>uk_columns = [[4]], uk_nulls_equal = False, uk_supported = True\<rparr>]"
  by (simp add: ex_table_def ex_column_def valid_table_def valid_column_def valid_column_inspection_def valid_table_inspection_def
      valid_index_key_def unique_keys_def deferred_keys_def declared_keys_def index_columns_def index_supported_def
      key_columns_supported_def key_column_supported_def text_key_supported_def pstr_def Let_def image_subset_iff)


end
