(* ===== verification/Loading_Plan.thy ===== *)
theory Loading_Plan
  imports Loading_Groups Database_Catalog Complex_Main "HOL-Library.Char_ord"
begin

text \<open>
  The rows of a load plan (\<open>loading/planning.py\<close>): foreign-key dependencies between planned rows, the
  quarantine of everything tied to a rejected row, and the ordered steps. The issues found by the
  validators, the identities of the mapping and the database lookup of existing rows are inputs.
\<close>

section \<open>Rows\<close>

text \<open>A finite float is the rational it denotes, a date or an instant its number.\<close>

datatype scalar = Sc_String pystr | Sc_Integer int | Sc_Number rat | Sc_Decimal rat | Sc_Boolean bool
  | Sc_Date int | Sc_Datetime int | Sc_Null

datatype key_value = Exact_Number rat | Tagged scalar

fun scalar_key :: "scalar \<Rightarrow> key_value" where
  "scalar_key (Sc_Integer n) = Exact_Number (of_int n)"
| "scalar_key (Sc_Decimal r) = Exact_Number r"
| "scalar_key v = Tagged v"

record validation_row =
  vr_id :: pystr
  vr_collection :: pystr
  vr_values :: "(pystr \<times> scalar) list"

section \<open>Dependencies\<close>

text \<open>\<open>None\<close> when a column is missing or null.\<close>

definition row_key :: "validation_row \<Rightarrow> pystr list \<Rightarrow> key_value list option" where
  "row_key r ids =
     (let cells = map_of (vr_values r) in
      if list_all (\<lambda>c. case cells c of None \<Rightarrow> False | Some v \<Rightarrow> v \<noteq> Sc_Null) ids
      then Some (map (\<lambda>c. scalar_key (the (cells c))) ids) else None)"

type_synonym parent_key = "pystr \<times> pystr list \<times> key_value list"

definition work_limit :: load_error where
  "work_limit = Load_Error ''SECURITY_LIMIT_EXCEEDED''"

definition key_specs :: "(pystr \<times> table_catalog) list \<Rightarrow> (pystr \<times> pystr list) list" where
  "key_specs tables = sort (remdups (concat (map (\<lambda>(_, t). map (\<lambda>fk. (fk_table fk, fk_referenced fk)) (tc_foreign_keys t)) tables)))"

fun index_rows ::
  "nat \<Rightarrow> ((pystr \<times> pystr list) \<times> validation_row) list \<Rightarrow> nat \<times> (parent_key \<times> pystr list) list \<Rightarrow>
     load_error + nat \<times> (parent_key \<times> pystr list) list" where
  "index_rows max_work [] s = Inr s"
| "index_rows max_work (((tid, ids), row) # rest) (work, incoming) =
     (if max_work < work + 1 then Inl work_limit
      else index_rows max_work rest (work + 1,
        (if vr_collection row = tid
         then (case row_key row ids of None \<Rightarrow> incoming | Some k \<Rightarrow> push_to (tid, ids, k) (vr_id row) incoming)
         else incoming)))"

fun link_keys ::
  "nat \<Rightarrow> (parent_key \<times> pystr list) list \<Rightarrow> validation_row \<Rightarrow> foreign_key list \<Rightarrow> nat \<times> (pystr \<times> pystr list) list \<Rightarrow>
     load_error + nat \<times> (pystr \<times> pystr list) list" where
  "link_keys max_work incoming row [] s = Inr s"
| "link_keys max_work incoming row (fk # fks) (work, deps) =
     (if max_work < work + 1 then Inl work_limit
      else case row_key row (fk_columns fk) of
        None \<Rightarrow> link_keys max_work incoming row fks (work + 1, deps)
      | Some k \<Rightarrow>
          (let found = fold List.insert (adjacent incoming (fk_table fk, fk_referenced fk, k)) (adjacent deps (vr_id row)) in
           link_keys max_work incoming row fks (work + 1 + length found, AList.update (vr_id row) found deps)))"

fun link_rows ::
  "nat \<Rightarrow> (parent_key \<times> pystr list) list \<Rightarrow> (pystr \<times> table_catalog) list \<Rightarrow> validation_row list \<Rightarrow>
     nat \<times> (pystr \<times> pystr list) list \<Rightarrow> load_error + nat \<times> (pystr \<times> pystr list) list" where
  "link_rows max_work incoming tables [] s = Inr s"
| "link_rows max_work incoming tables (row # rows) s =
     (case map_of tables (vr_collection row) of
        None \<Rightarrow> Inl Key_Error
      | Some t \<Rightarrow> bindE (link_keys max_work incoming row (tc_foreign_keys t) s) (link_rows max_work incoming tables rows))"

definition row_dependencies ::
  "validation_row list \<Rightarrow> (pystr \<times> table_catalog) list \<Rightarrow> nat \<Rightarrow> load_error + (pystr \<times> pystr list) list" where
  "row_dependencies rows tables max_work =
     bindE (index_rows max_work (List.product (key_specs tables) rows) (0, [])) (\<lambda>(work, incoming).
     bindE (link_rows max_work incoming tables rows (work, map (\<lambda>r. (vr_id r, [])) rows)) (\<lambda>(work, deps).
       if max_work < work then Inl work_limit else Inr deps))"

section \<open>Quarantine\<close>

definition quarantine_code :: string where
  "quarantine_code = ''DRY_RUN_DEPENDENCY_QUARANTINED''"

definition group_links :: "(pystr \<times> pystr list) list \<Rightarrow> (pystr \<times> pystr) list" where
  "group_links peers = concat (map (\<lambda>(_, group). concat (map (\<lambda>uid. [(uid, Min (set group)), (Min (set group), uid)]) group)) peers)"

definition add_both :: "pystr \<Rightarrow> pystr \<Rightarrow> (pystr \<times> pystr list) list \<Rightarrow> load_error + (pystr \<times> pystr list) list" where
  "add_both a b g = graph_adds Key_Error [(a, b), (b, a)] g"

fun mark_codes :: "pystr list \<Rightarrow> (pystr \<times> string list) list \<Rightarrow> load_error + (pystr \<times> string list) list" where
  "mark_codes [] codes = Inr codes"
| "mark_codes (u # us) codes = (case map_of codes u of
     None \<Rightarrow> Inl Key_Error
   | Some cs \<Rightarrow> mark_codes us (AList.update u (List.insert quarantine_code cs) codes))"

definition quarantine_graph ::
  "(pystr \<times> unit_origin) list \<Rightarrow> source_record list list \<Rightarrow> (pystr \<times> pystr list) list \<Rightarrow> load_error + (pystr \<times> pystr list) list" where
  "quarantine_graph origins batches deps =
     (let peers = peers_of origins in
      bindE (graph_adds Key_Error (group_links peers) deps) (\<lambda>g.
      bindE (link_records ''DRY_RUN_PROJECTION_AMBIGUOUS'' peers (\<lambda>us. Min (set us)) add_both (relations_of batches) g) (\<lambda>g.
        graph_adds Key_Error (back_edges deps) g)))"

text \<open>
  The loop pops a unit and marks its neighbours; a unit outside the graph or outside the codes is a
  \<open>KeyError\<close>, whenever it is reached.
\<close>

definition quarantine_groups ::
  "(pystr \<times> unit_origin) list \<Rightarrow> source_record list list \<Rightarrow> (pystr \<times> string list) list \<Rightarrow> (pystr \<times> pystr list) list \<Rightarrow>
     load_error + (pystr \<times> string list) list" where
  "quarantine_groups origins batches codes deps =
     bindE (quarantine_graph origins batches deps) (\<lambda>g.
       let start = map fst (filter (\<lambda>(_, issues). issues \<noteq> []) codes);
           rejected = close_loop g (rev start) start in
       if list_all (\<lambda>u. u \<in> set (map fst g)) rejected then mark_codes (drop (length start) rejected) codes else Inl Key_Error)"

section \<open>Steps\<close>

fun mapE :: "('a \<Rightarrow> 'e + 'b) \<Rightarrow> 'a list \<Rightarrow> 'e + 'b list" where
  "mapE f [] = Inr []"
| "mapE f (x # xs) = bindE (f x) (\<lambda>y. bindE (mapE f xs) (\<lambda>ys. Inr (y # ys)))"

definition look :: "('k \<times> 'v) list \<Rightarrow> 'k \<Rightarrow> load_error + 'v" where
  "look al k = (case map_of al k of None \<Rightarrow> Inl Key_Error | Some v \<Rightarrow> Inr v)"

record lookup =
  lk_id :: pystr
  lk_table :: pystr
  lk_columns :: "pystr list"
  lk_values :: "scalar list"

definition upsert_lookup :: "(pystr \<times> pystr list) list \<Rightarrow> validation_row \<Rightarrow> load_error + lookup" where
  "upsert_lookup identities row =
     bindE (look identities (vr_collection row)) (\<lambda>ids.
       if \<not> list_all (\<lambda>c. c \<in> set (map fst (vr_values row))) ids then Inl (Load_Error ''DRY_RUN_IDENTITY_UNRESOLVED'')
       else Inr \<lparr>lk_id = vr_id row, lk_table = vr_collection row, lk_columns = ids,
                 lk_values = map (\<lambda>c. the (map_of (vr_values row) c)) ids\<rparr>)"

fun upsert_lookups ::
  "(pystr \<times> pystr list) list \<Rightarrow> (pystr \<times> string list) list \<Rightarrow> validation_row list \<Rightarrow> load_error + lookup list" where
  "upsert_lookups identities codes [] = Inr []"
| "upsert_lookups identities codes (row # rows) =
     bindE (look codes (vr_id row)) (\<lambda>issues.
       if issues \<noteq> [] then upsert_lookups identities codes rows
       else bindE (upsert_lookup identities row) (\<lambda>k.
         bindE (upsert_lookups identities codes rows) (\<lambda>ks. Inr (k # ks))))"

definition choose_action :: "string list \<Rightarrow> bool \<Rightarrow> pystr list \<Rightarrow> load_action" where
  "choose_action codes exists mutable =
     (if codes \<noteq> [] then Act_Quarantine
      else if exists then (if mutable \<noteq> [] then Act_Update else Act_Skip) else Act_Insert)"

record plan_env =
  pe_origins :: "(pystr \<times> unit_origin) list"
  pe_batches :: "source_record list list"
  pe_tables :: "(pystr \<times> table_catalog) list"
  pe_identities :: "(pystr \<times> pystr list) list"
  pe_load_order :: "pystr list"
  pe_upsert :: bool
  pe_atomic :: bool
  pe_max_work :: nat
  pe_read :: "lookup list \<Rightarrow> (pystr \<times> bool) list"    \<comment> \<open>matches of \<open>reader.read\<close>\<close>

definition planned_step ::
  "plan_env \<Rightarrow> (pystr \<times> pystr list) list \<Rightarrow> (pystr \<times> string list) list \<Rightarrow> (pystr \<times> bool) list \<Rightarrow> validation_row \<Rightarrow>
     load_error + execution_step" where
  "planned_step E deps codes exists row =
     (let uid = vr_id row; tid = vr_collection row in
      bindE (look (pe_identities E) tid) (\<lambda>ids.
      bindE (look (pe_tables E) tid) (\<lambda>table.
      bindE (look codes uid) (\<lambda>issues.
      bindE (look (pe_origins E) uid) (\<lambda>origin.
      bindE (look deps uid) (\<lambda>ds.
        let columns = map fst (vr_values row);
            mutable = filter (\<lambda>c. c \<notin> set ids \<and> c \<notin> set (tc_primary_key table)) columns in
        Inr \<lparr>st_unit = uid, st_record = og_record origin, st_entity = og_entity origin, st_table = tid,
             st_value_ids = og_value_ids origin, st_columns = columns, st_identity = ids, st_update = mutable,
             st_dependencies = sort ds,
             st_action = choose_action issues (map_of exists uid = Some True) mutable,
             st_codes = sort issues\<rparr>))))))"

definition plan_order :: "plan_env \<Rightarrow> validation_row list \<Rightarrow> validation_row list" where
  "plan_order E rows = sort_key (\<lambda>r. (position_in (pe_load_order E) (vr_collection r), vr_id r)) rows"

text \<open>\<open>build_plan\<close> from the dependencies on: the codes and blockers of the validators come in, the
  steps of an accepted plan go out.\<close>

definition plan_steps ::
  "plan_env \<Rightarrow> validation_row list \<Rightarrow> (pystr \<times> string list) list \<Rightarrow> string list \<Rightarrow>
     load_error + string list \<times> execution_step list" where
  "plan_steps E rows codes0 blockers0 =
     bindE (row_dependencies rows (pe_tables E) (pe_max_work E)) (\<lambda>deps.
     bindE (quarantine_groups (pe_origins E) (pe_batches E) codes0 deps) (\<lambda>codes.
       let blockers = (if list_ex (\<lambda>(_, cs). cs \<noteq> []) codes \<and> pe_atomic E
             then List.insert ''DRY_RUN_ATOMIC_REJECTED'' blockers0 else blockers0) in
     bindE (if pe_upsert E then upsert_lookups (pe_identities E) codes rows else Inr []) (\<lambda>lookups.
       let exists = pe_read E lookups in
       if map fst exists \<noteq> map lk_id lookups then Inl (Load_Error ''DRY_RUN_READER_INVALID'')
       else if \<not> list_all (\<lambda>r. vr_collection r \<in> set (pe_load_order E)) rows then Inl Key_Error
     else bindE (mapE (planned_step E deps codes exists) (plan_order E rows)) (\<lambda>steps.
       if ordered_steps (pe_load_order E) [] steps then Inr (sort blockers, steps)
       else Inl (Load_Error ''ValidationError'')))))"

section \<open>Dependencies are the matching foreign keys\<close>

definition indexed :: "((pystr \<times> pystr list) \<times> validation_row) list \<Rightarrow> parent_key \<Rightarrow> pystr set" where
  "indexed pairs key = {vr_id r |r. (fst key, fst (snd key)) \<in> fst ` {p \<in> set pairs. snd p = r} \<and>
     vr_collection r = fst key \<and> row_key r (fst (snd key)) = Some (snd (snd key))}"

lemma index_rows_Inr:
  "index_rows m pairs (w, incoming) = Inr (w', incoming') \<Longrightarrow>
     set (adjacent incoming' key) = set (adjacent incoming key) \<union> indexed pairs key"
proof (induction m pairs "(w, incoming)" arbitrary: w incoming rule: index_rows.induct)
  case (2 m tid ids row rest w incoming)
  define inc1 where "inc1 = (if vr_collection row = tid
         then (case row_key row ids of None \<Rightarrow> incoming | Some k \<Rightarrow> push_to (tid, ids, k) (vr_id row) incoming)
         else incoming)"
  have run: "index_rows m rest (w + 1, inc1) = Inr (w', incoming')" and small: "\<not> m < w + 1"
    using "2.prems" by (simp_all add: inc1_def split: if_splits)
  have "set (adjacent inc1 key) = set (adjacent incoming key) \<union> indexed [((tid, ids), row)] key"
    by (cases key) (auto simp: inc1_def indexed_def adjacent_push image_iff split: option.split)
  moreover have "indexed (((tid, ids), row) # rest) key = indexed [((tid, ids), row)] key \<union> indexed rest key"
    by (auto simp: indexed_def image_iff)
  ultimately show ?case using "2.hyps" [OF small run [unfolded inc1_def]] by (simp only: inc1_def Un_assoc)
qed (simp add: indexed_def)

lemma set_fold_insert: "set (fold List.insert xs acc) = set xs \<union> set acc"
  by (induction xs arbitrary: acc) auto

definition refers_to :: "(parent_key \<times> pystr list) list \<Rightarrow> validation_row \<Rightarrow> foreign_key list \<Rightarrow> pystr set" where
  "refers_to incoming row fks = (\<Union>fk \<in> set fks. case row_key row (fk_columns fk) of None \<Rightarrow> {}
     | Some k \<Rightarrow> set (adjacent incoming (fk_table fk, fk_referenced fk, k)))"

lemma adjacent_update: "adjacent (AList.update k v al) j = (if j = k then v else adjacent al j)"
  by (simp add: adjacent_def)

lemma link_keys_Inr:
  "link_keys m incoming row fks (w, deps) = Inr (w', deps') \<Longrightarrow> vr_id row \<in> set (map fst deps) \<Longrightarrow>
     map fst deps' = map fst deps \<and>
     (\<forall>u. set (adjacent deps' u) = set (adjacent deps u) \<union> (if u = vr_id row then refers_to incoming row fks else {}))"
proof (induction fks arbitrary: w deps)
  case (Cons fk fks)
  show ?case
  proof (cases "row_key row (fk_columns fk)")
    case None
    then have "link_keys m incoming row fks (w + 1, deps) = Inr (w', deps')" using Cons.prems(1) by (simp split: if_splits)
    from Cons.IH [OF this Cons.prems(2)] show ?thesis using None by (simp add: refers_to_def)
  next
    case (Some k)
    let ?found = "fold List.insert (adjacent incoming (fk_table fk, fk_referenced fk, k)) (adjacent deps (vr_id row))"
    let ?deps1 = "AList.update (vr_id row) ?found deps"
    have run: "link_keys m incoming row fks (w + 1 + length ?found, ?deps1) = Inr (w', deps')"
      using Cons.prems(1) Some by (simp add: Let_def split: if_splits)
    have keys: "map fst ?deps1 = map fst deps" using Cons.prems(2) by (simp add: update_keys)
    then have "vr_id row \<in> set (map fst ?deps1)" using Cons.prems(2) by simp
    from Cons.IH [OF run this] show ?thesis
      using keys Some by (auto simp: refers_to_def adjacent_update set_fold_insert)
  qed
qed (simp add: refers_to_def)

lemma link_rows_Inr:
  "link_rows m incoming tables rows (w, deps) = Inr (w', deps') \<Longrightarrow> vr_id ` set rows \<subseteq> set (map fst deps) \<Longrightarrow>
     map fst deps' = map fst deps \<and> (\<forall>u. set (adjacent deps' u) = set (adjacent deps u) \<union>
       (\<Union>r \<in> {r \<in> set rows. vr_id r = u}. refers_to incoming r (tc_foreign_keys (the (map_of tables (vr_collection r)))))) \<and>
     (\<forall>r \<in> set rows. map_of tables (vr_collection r) \<noteq> None)"
proof (induction rows arbitrary: w deps)
  case (Cons row rows)
  obtain t w1 deps1 where t: "map_of tables (vr_collection row) = Some t"
    and l: "link_keys m incoming row (tc_foreign_keys t) (w, deps) = Inr (w1, deps1)"
    and run: "link_rows m incoming tables rows (w1, deps1) = Inr (w', deps')"
    using Cons.prems(1) by (auto simp: result_simps split: option.splits)
  have "vr_id row \<in> set (map fst deps)" using Cons.prems(2) by simp
  note l = link_keys_Inr [OF l this]
  then have "vr_id ` set rows \<subseteq> set (map fst deps1)" using Cons.prems(2) by simp
  note IH = Cons.IH [OF run this]
  have "{r \<in> set (row # rows). vr_id r = u} = (if vr_id row = u then {row} else {}) \<union> {r \<in> set rows. vr_id r = u}" for u
    by auto
  then show ?case using IH l t by (auto split: if_splits)
qed simp

text \<open>The rows a row depends on, read off the rows and the catalog.\<close>

definition parents_of :: "validation_row list \<Rightarrow> (pystr \<times> table_catalog) list \<Rightarrow> validation_row \<Rightarrow> pystr set" where
  "parents_of rows tables r = {vr_id p |p. p \<in> set rows \<and> (\<exists>t fk k. map_of tables (vr_collection r) = Some t \<and>
     fk \<in> set (tc_foreign_keys t) \<and> vr_collection p = fk_table fk \<and>
     row_key r (fk_columns fk) = Some k \<and> row_key p (fk_referenced fk) = Some k)}"

lemma row_dependencies_Inr:
  assumes "row_dependencies rows tables m = Inr deps" "distinct (map vr_id rows)"
  shows "map fst deps = map vr_id rows \<and> (\<forall>r \<in> set rows. set (adjacent deps (vr_id r)) = parents_of rows tables r)"
proof -
  obtain w incoming w' where i: "index_rows m (List.product (key_specs tables) rows) (0, []) = Inr (w, incoming)"
    and l: "link_rows m incoming tables rows (w, map (\<lambda>r. (vr_id r, [])) rows) = Inr (w', deps)"
    using assms(1) by (auto simp: row_dependencies_def result_simps split: if_splits)
  let ?d0 = "map (\<lambda>r. (vr_id r, [])) rows :: (pystr \<times> pystr list) list"
  have "vr_id ` set rows \<subseteq> set (map fst ?d0)" by auto
  note l = link_rows_Inr [OF l this]
  have d0: "adjacent ?d0 u = []" for u
    by (induction rows) (auto simp: adjacent_def split: option.splits)
  have inc: "set (adjacent incoming key) = indexed (List.product (key_specs tables) rows) key" for key
    using index_rows_Inr [OF i] by (simp add: adjacent_def)
  have "set (adjacent deps (vr_id r)) = parents_of rows tables r" if r: "r \<in> set rows" for r
  proof -
    obtain t where t: "map_of tables (vr_collection r) = Some t" using l r by blast
    have "{r' \<in> set rows. vr_id r' = vr_id r} = {r}" using assms(2) r by (auto simp: distinct_map dest: inj_onD)
    then have "set (adjacent deps (vr_id r)) = refers_to incoming r (tc_foreign_keys t)" using l d0 t by simp
    moreover have "(fk_table fk, fk_referenced fk) \<in> set (key_specs tables)" if "fk \<in> set (tc_foreign_keys t)" for fk
      using map_of_SomeD [OF t] that by (force simp: key_specs_def)
    ultimately show ?thesis
      using t by (fastforce simp: refers_to_def inc indexed_def parents_of_def image_iff split: option.splits)
  qed
  then show ?thesis using l by (simp add: comp_def)
qed

section \<open>Quarantine follows the bonds\<close>

interpretation least_unit: anchored "\<lambda>us. Min (set us)"
  by unfold_locales simp

lemma set_group_links:
  "set (group_links (peers_of origins)) =
     (let S = {(u, Min (set (units_of origins r))) |u r. u \<in> set (units_of origins r)} in S \<union> S\<inverse>)"
proof -
  have "set (group_links (peers_of origins)) =
      (\<Union>(r, us) \<in> set (peers_of origins). \<Union>u \<in> set us. {(u, Min (set us)), (Min (set us), u)})"
    by (auto simp: group_links_def)
  also have "set (peers_of origins) = {(r, us). us = units_of origins r \<and> us \<noteq> []}" by (auto simp: mem_peers)
  also have "(\<Union>(r, us) \<in> {(r, us). us = units_of origins r \<and> us \<noteq> []}. \<Union>u \<in> set us. {(u, Min (set us)), (Min (set us), u)}) =
      (\<Union>r. \<Union>u \<in> set (units_of origins r). {(u, Min (set (units_of origins r))), (Min (set (units_of origins r)), u)})"
    by (intro subset_antisym subsetI) (force+)
  finally show ?thesis unfolding Let_def by blast
qed

lemma mark_codes_Inr:
  "mark_codes us codes = Inr codes' \<Longrightarrow> set us \<subseteq> set (map fst codes) \<and> map fst codes' = map fst codes \<and>
     (\<forall>u. map_of codes' u = (if u \<in> set us then map_option (List.insert quarantine_code) (map_of codes u) else map_of codes u))"
proof (induction us arbitrary: codes)
  case (Cons u us)
  obtain cs where cs: "map_of codes u = Some cs"
    and run: "mark_codes us (AList.update u (List.insert quarantine_code cs) codes) = Inr codes'"
    using Cons.prems by (auto split: option.splits)
  then have u: "u \<in> set (map fst codes)" by (metis map_of_eq_None_iff list.set_map option.distinct(1))
  have "List.insert quarantine_code (List.insert quarantine_code cs) = List.insert quarantine_code cs" by simp
  then show ?case using Cons.IH [OF run] u cs by (auto simp: update_keys split: if_splits)
qed simp

lemma quarantine_graph_Inr:
  assumes "quarantine_graph origins batches deps = Inr g" "distinct (map fst deps)"
  shows "map fst g = map fst deps \<and>
    edges_of g = (let S = star_edges (\<lambda>us. Min (set us)) (units_of origins) (edges_of deps) (set (relations_of batches)) in S \<union> S\<inverse>) \<and>
    (\<forall>(r, q) \<in> set (relations_of batches). units_of origins r \<noteq> [] \<and> units_of origins q \<noteq> [])"
proof -
  let ?min = "\<lambda>us. Min (set us) :: pystr"
  obtain g1 g2 where g1: "graph_adds Key_Error (group_links (peers_of origins)) deps = Inr g1"
    and g2: "link_records ''DRY_RUN_PROJECTION_AMBIGUOUS'' (peers_of origins) ?min add_both (relations_of batches) g1 = Inr g2"
    and g: "graph_adds Key_Error (back_edges deps) g2 = Inr g"
    using assms(1) by (auto simp: quarantine_graph_def Let_def result_simps)
  have "map fst h' = map fst h \<and> edges_of h' = {(x, y), (y, x)} \<union> edges_of h" if "add_both x y h = Inr h'" for x y h h'
    using graph_adds_Inr [OF that [unfolded add_both_def]] by auto
  note l = link_records_Inr [OF this g2]
  have "edges_of g = (let S = star_edges ?min (units_of origins) (edges_of deps) (set (relations_of batches)) in S \<union> S\<inverse>)"
    using l graph_adds_Inr [OF g1] graph_adds_Inr [OF g] set_back_edges [OF assms(2)]
    by (auto simp: star_edges_def set_group_links Let_def)
  then show ?thesis using l graph_adds_Inr [OF g1] graph_adds_Inr [OF g] by simp
qed

definition coded :: "(pystr \<times> string list) list \<Rightarrow> pystr set" where
  "coded codes = {u. \<exists>cs. map_of codes u = Some cs \<and> cs \<noteq> []}"

lemma set_coded:
  assumes "distinct (map fst codes)"
  shows "set (map fst (filter (\<lambda>(_, cs). cs \<noteq> []) codes)) = coded codes"
proof -
  have "(u, cs) \<in> set codes \<longleftrightarrow> map_of codes u = Some cs" for u cs using assms by (metis map_of_is_SomeI map_of_SomeD)
  then show ?thesis by (force simp: coded_def)
qed

lemma quarantine_groups_Inr:
  assumes "quarantine_groups origins batches codes deps = Inr codes'" "distinct (map fst deps)" "distinct (map fst codes)"
  shows "map fst codes' = map fst codes \<and>
    coded codes' = tied (bonds (units_of origins) (edges_of deps) (set (relations_of batches))) `` coded codes \<and>
    (\<forall>u. map_of codes' u = (if u \<in> coded codes' - coded codes then Some [quarantine_code] else map_of codes u))"
proof -
  let ?start = "map fst (filter (\<lambda>(_, cs). cs \<noteq> []) codes)"
  obtain g where g: "quarantine_graph origins batches deps = Inr g"
    and m: "mark_codes (drop (length ?start) (close_loop g (rev ?start) ?start)) codes = Inr codes'"
    using assms(1) by (auto simp: quarantine_groups_def Let_def result_simps split: if_splits)
  note G = quarantine_graph_Inr [OF g assms(2)]
  define rejected where "rejected = close_loop g (rev ?start) ?start"
  obtain new where new: "rejected = ?start @ new" using close_loop_prefix unfolding rejected_def by blast
  have "distinct ?start" using assms(3) by (simp add: distinct_map_filter)
  then have "distinct rejected" unfolding rejected_def by (rule close_loop_distinct)
  then have fresh: "set new \<inter> coded codes = {}" using new set_coded [OF assms(3)] by auto
  have "tied (star_edges (\<lambda>us. Min (set us)) (units_of origins) (edges_of deps) (set (relations_of batches))) =
      tied (bonds (units_of origins) (edges_of deps) (set (relations_of batches)))"
    by (rule least_unit.tied_star) (use G in auto)
  then have "(edges_of g)\<^sup>* = tied (bonds (units_of origins) (edges_of deps) (set (relations_of batches)))"
    using G by (simp add: tied_def Let_def)
  moreover have "set rejected = (edges_of g)\<^sup>* `` coded codes"
    unfolding rejected_def set_coded [OF assms(3), symmetric] by (rule close_loop_spec) simp_all
  ultimately have all: "coded codes \<union> set new = tied (bonds (units_of origins) (edges_of deps) (set (relations_of batches))) `` coded codes"
    using new set_coded [OF assms(3)] by auto
  have m: "set new \<subseteq> set (map fst codes)" "map fst codes' = map fst codes"
    "\<And>u. map_of codes' u = (if u \<in> set new then map_option (List.insert quarantine_code) (map_of codes u) else map_of codes u)"
    using mark_codes_Inr [OF m] new by (simp_all add: rejected_def)
  have empty: "map_of codes u = Some []" if "u \<in> set new" for u
  proof -
    have "u \<in> fst ` set codes" using m(1) that by auto
    then obtain cs where "map_of codes u = Some cs" by (cases "map_of codes u") (auto simp: map_of_eq_None_iff)
    then show ?thesis using fresh that by (auto simp: coded_def)
  qed
  have look: "map_of codes' u = (if u \<in> set new then Some [quarantine_code] else map_of codes u)" for u
    using m(3) empty by simp
  then have c: "coded codes' = coded codes \<union> set new" using fresh by (auto simp: coded_def)
  moreover have "coded codes' - coded codes = set new" using c fresh by auto
  ultimately show ?thesis using all m(2) look by simp
qed

section \<open>Plans\<close>

lemma mapE_Inr: "mapE f xs = Inr ys \<longleftrightarrow> list_all2 (\<lambda>x y. f x = Inr y) xs ys"
  by (induction xs arbitrary: ys) (auto simp: result_simps list_all2_Cons1)

lemma look_Inr: "look al k = Inr v \<longleftrightarrow> map_of al k = Some v"
  by (simp add: look_def split: option.split)

lemma choose_quarantine: "choose_action cs exists mutable = Act_Quarantine \<longleftrightarrow> cs \<noteq> []"
  by (simp add: choose_action_def)

lemma list_all2_map_eq: "list_all2 P xs ys \<Longrightarrow> (\<And>x y. P x y \<Longrightarrow> f x = g y) \<Longrightarrow> map f xs = map g ys"
  by (induction rule: list_all2_induct) auto

lemma list_all2_partner: "list_all2 P xs ys \<Longrightarrow> y \<in> set ys \<Longrightarrow> \<exists>x \<in> set xs. P x y"
  and list_all2_image: "list_all2 P xs ys \<Longrightarrow> x \<in> set xs \<Longrightarrow> \<exists>y \<in> set ys. P x y"
  by (induction rule: list_all2_induct) auto

lemma planned_step_Inr:
  assumes "planned_step E deps codes exists row = Inr s"
  shows "st_unit s = vr_id row \<and> set (st_dependencies s) = set (adjacent deps (vr_id row)) \<and>
    (st_action s = Act_Quarantine \<longleftrightarrow> vr_id row \<in> coded codes)"
  using assms by (auto simp: planned_step_def Let_def result_simps look_Inr choose_quarantine coded_def adjacent_def)

lemma plan_steps_Inr:
  assumes "plan_steps E rows codes0 blockers0 = Inr (blockers, steps)" "distinct (map vr_id rows)"
  obtains deps codes where
    "row_dependencies rows (pe_tables E) (pe_max_work E) = Inr deps"
    "quarantine_groups (pe_origins E) (pe_batches E) codes0 deps = Inr codes"
    "ordered_steps (pe_load_order E) [] steps" "set (map st_unit steps) = vr_id ` set rows" "step_bonds steps = edges_of deps"
    "\<forall>s \<in> set steps. st_action s = Act_Quarantine \<longleftrightarrow> st_unit s \<in> coded codes"
proof -
  obtain deps codes exists where d: "row_dependencies rows (pe_tables E) (pe_max_work E) = Inr deps"
    and q: "quarantine_groups (pe_origins E) (pe_batches E) codes0 deps = Inr codes"
    and m: "mapE (planned_step E deps codes exists) (plan_order E rows) = Inr steps"
    and o: "ordered_steps (pe_load_order E) [] steps"
    using assms(1) by (auto simp: plan_steps_def Let_def result_simps split: if_splits)
  have l: "list_all2 (\<lambda>r s. planned_step E deps codes exists r = Inr s) (plan_order E rows) steps"
    using m by (simp only: mapE_Inr)
  then have "map vr_id (plan_order E rows) = map st_unit steps"
    by (rule list_all2_map_eq) (use planned_step_Inr in auto)
  then have "set (map vr_id (plan_order E rows)) = set (map st_unit steps)" by (rule arg_cong)
  then have units: "set (map st_unit steps) = vr_id ` set rows" by (simp add: plan_order_def)
  have step: "\<exists>r \<in> set rows. planned_step E deps codes exists r = Inr s" if "s \<in> set steps" for s
    using list_all2_partner [OF l that] by (simp add: plan_order_def)
  have made: "\<exists>s \<in> set steps. planned_step E deps codes exists r = Inr s" if "r \<in> set rows" for r
    using list_all2_image [OF l, of r] that by (simp add: plan_order_def)
  have keys: "map fst deps = map vr_id rows" using row_dependencies_Inr [OF d assms(2)] by simp
  have "step_bonds steps = edges_of deps"
  proof (intro set_eqI iffI)
    fix e assume "e \<in> step_bonds steps"
    then show "e \<in> edges_of deps" using step planned_step_Inr by (fastforce simp: step_bonds_def edges_of_def)
  next
    fix e assume e: "e \<in> edges_of deps"
    have "fst e \<in> set (map fst deps)" by (rule edges_keys [of "fst e" "snd e"]) (use e in simp)
    then obtain r where "r \<in> set rows" "vr_id r = fst e" unfolding keys by auto
    moreover from this obtain s where "s \<in> set steps" "planned_step E deps codes exists r = Inr s" using made by blast
    ultimately show "e \<in> step_bonds steps" using e planned_step_Inr [of E deps codes exists r s]
      by (cases e) (auto simp: step_bonds_def edges_of_def)
  qed
  moreover have "\<forall>s \<in> set steps. st_action s = Act_Quarantine \<longleftrightarrow> st_unit s \<in> coded codes"
    using step planned_step_Inr by fastforce
  ultimately show thesis using that d q o units by blast
qed

text \<open>C30: The foreign-key dependencies of a plan are exact: a row depends on the rows of the referenced
  table that carry, in the referenced columns, the values of its own key columns - compared as exact
  numbers, dates, texts and so on - and on no others. A missing or null column refers to nothing.\<close>

theorem row_dependencies_exact:
  assumes "row_dependencies rows tables max_work = Inr deps" "distinct (map vr_id rows)"
  shows "map fst deps = map vr_id rows \<and> (\<forall>r \<in> set rows. \<forall>v. v \<in> set (adjacent deps (vr_id r)) \<longleftrightarrow>
    (\<exists>p \<in> set rows. \<exists>t fk k. v = vr_id p \<and> map_of tables (vr_collection r) = Some t \<and> fk \<in> set (tc_foreign_keys t) \<and>
       vr_collection p = fk_table fk \<and> row_key r (fk_columns fk) = Some k \<and> row_key p (fk_referenced fk) = Some k))"
  using row_dependencies_Inr [OF assms] unfolding parents_of_def by blast

text \<open>C27: Quarantine takes whole groups. In a plan built from validated rows, each group that is written
  under one SAVEPOINT is either quarantined entirely or not at all, and it is quarantined exactly when
  one of its rows had an issue of its own. The two parts compute their links independently
  (\<open>loading/planning.py\<close> and \<open>loading/groups.py\<close>, with different anchors); the writer's check against
  mixed groups can therefore never fire on such a plan.\<close>

theorem quarantine_whole_groups:
  assumes "plan_steps E rows codes0 blockers0 = Inr (blockers, steps)"
    and "map fst codes0 = map vr_id rows" "distinct (map vr_id rows)"
    and "dependency_groups (pe_origins E) (pe_batches E) steps max_work = Inr groups"
  shows "\<forall>G \<in> set groups. \<forall>s \<in> set steps. st_unit s \<in> set G \<longrightarrow>
    (st_action s = Act_Quarantine \<longleftrightarrow> (\<exists>u \<in> set G. map_of codes0 u \<notin> {None, Some []}))"
proof (intro ballI impI)
  fix G s assume G: "G \<in> set groups" and s: "s \<in> set steps" "st_unit s \<in> set G"
  obtain deps codes where d: "row_dependencies rows (pe_tables E) (pe_max_work E) = Inr deps"
    and q: "quarantine_groups (pe_origins E) (pe_batches E) codes0 deps = Inr codes"
    and o: "ordered_steps (pe_load_order E) [] steps" and e: "step_bonds steps = edges_of deps"
    and act: "\<forall>s \<in> set steps. st_action s = Act_Quarantine \<longleftrightarrow> st_unit s \<in> coded codes"
    by (rule plan_steps_Inr [OF assms(1,3)])
  let ?T = "tied (bonds (units_of (pe_origins E)) (edges_of deps) (set (relations_of (pe_batches E))))"
  have "distinct (map fst deps)" using row_dependencies_Inr [OF d assms(3)] assms(3) by simp
  then have "coded codes = ?T `` coded codes0" using quarantine_groups_Inr [OF q] assms(2,3) by simp
  moreover have "set G = ?T `` {st_unit s}"
    using dependency_groups_Inr [OF assms(4)] ordered_units [OF o] G s(2) unfolding e by blast
  moreover have "(u, v) \<in> ?T \<longleftrightarrow> (v, u) \<in> ?T" for u v by (metis sym_tied symD)
  ultimately have "st_unit s \<in> coded codes \<longleftrightarrow> (\<exists>u \<in> set G. u \<in> coded codes0)" by blast
  then show "st_action s = Act_Quarantine \<longleftrightarrow> (\<exists>u \<in> set G. map_of codes0 u \<notin> {None, Some []})"
    using act s(1) by (auto simp: coded_def)
qed

section \<open>A concrete plan\<close>

text \<open>Row 2 refers to row 1 (a decimal to the equal integer), row 4 to nothing; row 1 failed a check.\<close>

definition ex_row :: "nat \<Rightarrow> nat \<Rightarrow> (pystr \<times> scalar) list \<Rightarrow> validation_row" where
  "ex_row u t vs = \<lparr>vr_id = [u], vr_collection = [t], vr_values = vs\<rparr>"

definition ex_rows :: "validation_row list" where
  "ex_rows = [ex_row 2 9 [([70], Sc_Decimal 5)], ex_row 1 8 [([71], Sc_Integer 5)], ex_row 4 9 [([70], Sc_Null)]]"

definition ex_load_column :: "pystr \<Rightarrow> bool \<Rightarrow> column_catalog" where
  "ex_load_column c key = \<lparr>cc_id = c, cc_name = c, cc_type_name = ''integer'', cc_nullable = \<not> key, cc_primary_key = key,
     cc_unique = False, cc_generated = False, cc_writable = True, cc_inspection = Some \<lparr>ci_data_type =
       Database_Type (pstr ''bigint'') ''integer'' None None None None, ci_default = None, ci_generation_expression = None,
       ci_generation_storage = None, ci_autoincrement = False, ci_rowid_alias = False, ci_identity = None\<rparr>\<rparr>"

definition ex_load_table :: "nat \<Rightarrow> pystr \<Rightarrow> bool \<Rightarrow> foreign_key list \<Rightarrow> table_catalog" where
  "ex_load_table t c key fks = \<lparr>tc_id = [t], tc_schema = [1], tc_name = [t], tc_columns = [ex_load_column c key],
     tc_primary_key = (if key then [c] else []), tc_foreign_keys = fks, tc_unique = [], tc_writable = True,
     tc_inspection = Some \<lparr>ti_kind = ''table'', ti_indexes = [], ti_constraints = []\<rparr>\<rparr>"

definition ex_schema :: "schema_catalog list" where
  "ex_schema = [\<lparr>sc_id = [1], sc_name = [1], sc_tables = [ex_load_table 8 [71] True [],
     ex_load_table 9 [70] False [\<lparr>fk_id = [5], fk_columns = [[70]], fk_table = [8], fk_referenced = [[71]], fk_on_delete = []\<rparr>]]\<rparr>]"

lemma ex_schema_valid: "valid_snapshot ex_schema"
  by code_simp

definition ex_catalog :: "(pystr \<times> table_catalog) list" where
  "ex_catalog = map (\<lambda>t. (tc_id t, t)) (tables_of ex_schema)"

definition ex_plan_env :: plan_env where
  "ex_plan_env = \<lparr>pe_origins = map (\<lambda>u. ([u], \<lparr>og_record = [u], og_entity = [u], og_value_ids = []\<rparr>)) [2, 1, 4],
     pe_batches = [[]], pe_tables = ex_catalog, pe_identities = [([8], []), ([9], [])], pe_load_order = [[8], [9]],
     pe_upsert = False, pe_atomic = False, pe_max_work = 50, pe_read = (\<lambda>_. [])\<rparr>"

definition ex_codes :: "(pystr \<times> string list) list" where
  "ex_codes = [([2], []), ([1], [''DB_CHECK'']), ([4], [])]"

lemma ex_dependencies: "row_dependencies ex_rows ex_catalog 50 = Inr [([2], [[1]]), ([1], []), ([4], [])]"
  by code_simp

lemma ex_planned:
  "(case plan_steps ex_plan_env ex_rows ex_codes [] of Inl e \<Rightarrow> None
     | Inr (bs, ss) \<Rightarrow> Some (bs, map st_unit ss, dependency_groups (pe_origins ex_plan_env) (pe_batches ex_plan_env) ss 20)) =
   Some ([], [[1], [2], [4]], Inr [[[1], [2]], [[4]]])"
  by code_simp

theorem row_dependencies_exact_witness:
  "\<exists>p \<in> set ex_rows. \<exists>t fk k. [1] = vr_id p \<and> map_of ex_catalog [9] = Some t \<and> fk \<in> set (tc_foreign_keys t) \<and>
     vr_collection p = fk_table fk \<and> row_key (ex_row 2 9 [([70], Sc_Decimal 5)]) (fk_columns fk) = Some k \<and>
     row_key p (fk_referenced fk) = Some k"
proof -
  have "distinct (map vr_id ex_rows)" by code_simp
  note exact = row_dependencies_exact [OF ex_dependencies this]
  have "ex_row 2 9 [([70], Sc_Decimal 5)] \<in> set ex_rows" "vr_collection (ex_row 2 9 [([70], Sc_Decimal 5)]) = [9]"
    "[1] \<in> set (adjacent [([2], [[1]]), ([1], []), ([4], [])] (vr_id (ex_row 2 9 [([70], Sc_Decimal 5)])))"
    by (simp_all add: ex_rows_def ex_row_def adjacent_def)
  then show ?thesis using conjunct2 [OF exact] by metis
qed

theorem quarantine_whole_groups_witness:
  "\<exists>steps s. plan_steps ex_plan_env ex_rows ex_codes [] = Inr ([], steps) \<and> s \<in> set steps \<and> st_unit s = [2] \<and> st_action s = Act_Quarantine"
proof -
  obtain steps where p: "plan_steps ex_plan_env ex_rows ex_codes [] = Inr ([], steps)" and u: "map st_unit steps = [[1], [2], [4]]"
    and g: "dependency_groups (pe_origins ex_plan_env) (pe_batches ex_plan_env) steps 20 = Inr [[[1], [2]], [[4]]]"
    using ex_planned by (auto split: sum.splits)
  have "[2] \<in> set (map st_unit steps)" using u by simp
  then obtain s where s: "s \<in> set steps" "st_unit s = [2]" by auto
  have "map fst ex_codes = map vr_id ex_rows" "distinct (map vr_id ex_rows)" by code_simp+
  note quarantine_whole_groups [OF p this g]
  then have "st_action s = Act_Quarantine" using s by (auto simp: ex_codes_def)
  then show ?thesis using p s by blast
qed

end
