(* ===== verification/Load_Statements.thy ===== *)
theory Load_Statements
  imports Loading_Plan
begin

text \<open>
  The bulk writer's statements (\<open>database/_load_queries.py\<close>): the selected steps of a plan are cut into
  batches of one shape within the limits of the policy. A generator is the list of what it yields with
  the error that ended it. The size of a row's canonical JSON is the function \<open>le_row_bytes\<close>; conversion
  of single values for the driver is left out.
\<close>

section \<open>Inputs\<close>

record load_policy =
  lp_quarantine :: bool         \<comment> \<open>\<open>error_policy == "quarantine_invalid"\<close>, otherwise \<open>"atomic"\<close>\<close>
  lp_batch_size :: nat
  lp_max_parameters :: nat
  lp_max_batch_bytes :: nat
  lp_max_evaluations :: nat

record load_plan =
  ln_blockers :: "string list"
  ln_mapping :: pystr
  ln_database :: pystr
  ln_projection :: pystr
  ln_steps :: "execution_step list"

record load_env =
  le_rows :: "validation_row list"
  le_tables :: "table_catalog list"
  le_upsert :: bool
  le_mapping :: pystr
  le_database :: pystr
  le_projection :: pystr
  le_row_bytes :: "validation_row \<Rightarrow> nat"
  le_policy :: load_policy

section \<open>Columns of a step\<close>

definition plan_invalid :: load_error where
  "plan_invalid = Load_Error ''LOAD_PLAN_INVALID''"

definition check_columns :: "table_catalog \<Rightarrow> execution_step \<Rightarrow> bool \<Rightarrow> load_error option" where
  "check_columns t s upsert =
     (let columns = map_of (rev (map (\<lambda>c. (cc_id c, c)) (tc_columns t)));
          mutable = filter (\<lambda>c. c \<notin> set (st_identity s) \<and> c \<notin> set (tc_primary_key t)) (st_columns s) in
      if st_columns s = [] \<or> list_ex (\<lambda>c. case columns c of None \<Rightarrow> True | Some x \<Rightarrow> cc_generated x \<or> \<not> cc_writable x) (st_columns s)
      then Some (Load_Error ''LOAD_COLUMN_NOT_WRITABLE'')
      else if \<not> upsert then None
      else if \<not> list_ex (\<lambda>k. uk_supported k \<and> uk_columns k = st_identity s) (unique_keys t ''postgresql'')
      then Some (Load_Error ''LOAD_UPSERT_IDENTITY_INVALID'')
      else if mutable \<noteq> st_update s \<or> (st_action s = Act_Update \<and> mutable = []) then Some plan_invalid else None)"

section \<open>Batches\<close>

text \<open>A batch inserts the rows of its units in the shape of its first step.\<close>

record write_batch =
  wb_units :: "pystr list"
  wb_first :: execution_step

definition same_shape :: "execution_step \<Rightarrow> execution_step \<Rightarrow> bool" where
  "same_shape s t \<longleftrightarrow> st_table s = st_table t \<and> st_columns s = st_columns t \<and> st_identity s = st_identity t \<and> st_update s = st_update t"

definition find_row :: "load_env \<Rightarrow> pystr \<Rightarrow> validation_row option" where
  "find_row E u = find (\<lambda>r. vr_id r = u) (le_rows E)"

definition find_table :: "load_env \<Rightarrow> pystr \<Rightarrow> table_catalog option" where
  "find_table E t = find (\<lambda>c. tc_id c = t) (le_tables E)"

text \<open>The checks of one selected step: \<open>Inr None\<close> when nothing is written for it.\<close>

definition writable_row :: "load_env \<Rightarrow> execution_step \<Rightarrow> load_error + nat option" where
  "writable_row E s = (case find_row E (st_unit s) of
     None \<Rightarrow> Inl Key_Error
   | Some row \<Rightarrow> (case find_table E (st_table s) of
       None \<Rightarrow> Inl plan_invalid
     | Some t \<Rightarrow>
         if vr_collection row \<noteq> st_table s \<or> map fst (vr_values row) \<noteq> st_columns s then Inl plan_invalid
         else if st_action s = Act_Quarantine then Inr None
         else case check_columns t s (le_upsert E) of
           Some e \<Rightarrow> Inl e
         | None \<Rightarrow>
             if st_action s = Act_Skip then Inr None
             else if lp_max_batch_bytes (le_policy E) < le_row_bytes E row \<or>
                     lp_max_parameters (le_policy E) < length (st_columns s) + 1 then Inl work_limit
             else Inr (Some (le_row_bytes E row))))"

text \<open>The open batch is closed before the step: other shape, or full in rows, parameters or bytes.\<close>

definition must_split :: "load_env \<Rightarrow> execution_step \<Rightarrow> pystr list \<Rightarrow> nat \<Rightarrow> execution_step \<Rightarrow> nat \<Rightarrow> bool" where
  "must_split E first ids bytes s sz \<longleftrightarrow> \<not> same_shape s first \<or> lp_batch_size (le_policy E) \<le> length ids \<or>
     lp_max_parameters (le_policy E) < (length ids + 1) * length (st_columns s) + 1 \<or>
     lp_max_batch_bytes (le_policy E) < bytes + sz"

text \<open>The open batch is its first step, its units and its bytes.\<close>

type_synonym open_batch = "(execution_step \<times> pystr list \<times> nat) option"

definition emit_batch :: "open_batch \<Rightarrow> write_batch list" where
  "emit_batch b = (case b of None \<Rightarrow> [] | Some (first, ids, _) \<Rightarrow> [\<lparr>wb_units = ids, wb_first = first\<rparr>])"

definition add_to_batch :: "load_env \<Rightarrow> open_batch \<Rightarrow> execution_step \<Rightarrow> nat \<Rightarrow> write_batch list \<times> open_batch" where
  "add_to_batch E b s sz = (case b of
     None \<Rightarrow> ([], Some (s, [st_unit s], sz))
   | Some (first, ids, bytes) \<Rightarrow>
       if must_split E first ids bytes s sz then (emit_batch b, Some (s, [st_unit s], sz))
       else ([], Some (first, ids @ [st_unit s], bytes + sz)))"

fun batch_loop :: "load_env \<Rightarrow> execution_step list \<Rightarrow> open_batch \<Rightarrow> write_batch list \<times> load_error option" where
  "batch_loop E [] b = (emit_batch b, None)"
| "batch_loop E (s # ss) b = (case writable_row E s of
     Inl e \<Rightarrow> ([], Some e)
   | Inr None \<Rightarrow> batch_loop E ss b
   | Inr (Some sz) \<Rightarrow> (case add_to_batch E b s sz of (out, b') \<Rightarrow>
       (case batch_loop E ss b' of (rest, e) \<Rightarrow> (out @ rest, e))))"

definition selected_steps :: "pystr list option \<Rightarrow> execution_step list \<Rightarrow> execution_step list" where
  "selected_steps units steps = (case units of None \<Rightarrow> steps | Some us \<Rightarrow> filter (\<lambda>s. st_unit s \<in> set us) steps)"

definition statements :: "load_env \<Rightarrow> load_plan \<Rightarrow> pystr list option \<Rightarrow> write_batch list \<times> load_error option" where
  "statements E plan units =
     (let steps = ln_steps plan; ids = map st_unit steps; rows = map vr_id (le_rows E) in
      if ln_blockers plan \<noteq> [] \<or> (list_ex (\<lambda>s. st_action s = Act_Quarantine) steps \<and> \<not> lp_quarantine (le_policy E)) \<or>
         ln_mapping plan \<noteq> le_mapping E \<or> ln_database plan \<noteq> le_database E \<or> ln_projection plan \<noteq> le_projection E
      then ([], Some plan_invalid)
      else if set rows \<noteq> set ids \<or> length (remdups rows) \<noteq> length steps then ([], Some plan_invalid)
      else if (case units of None \<Rightarrow> False | Some us \<Rightarrow> \<not> set us \<subseteq> set rows) then ([], Some plan_invalid)
      else batch_loop E (selected_steps units steps) None)"

section \<open>What the batches hold\<close>

definition writes :: "execution_step \<Rightarrow> bool" where
  "writes s \<longleftrightarrow> st_action s \<in> {Act_Insert, Act_Update}"

definition row_size :: "load_env \<Rightarrow> pystr \<Rightarrow> nat" where
  "row_size E u = (case find_row E u of None \<Rightarrow> 0 | Some r \<Rightarrow> le_row_bytes E r)"

text \<open>A batch of the steps \<open>ss\<close> within the limits.\<close>

definition batch_ok :: "load_env \<Rightarrow> execution_step list \<Rightarrow> execution_step \<Rightarrow> pystr list \<Rightarrow> bool" where
  "batch_ok E ss first ids \<longleftrightarrow> ids \<noteq> [] \<and> length ids \<le> lp_batch_size (le_policy E) \<and>
     length ids * length (st_columns first) + 1 \<le> lp_max_parameters (le_policy E) \<and>
     sum_list (map (row_size E) ids) \<le> lp_max_batch_bytes (le_policy E) \<and>
     (\<forall>u \<in> set ids. \<exists>s \<in> set ss. st_unit s = u \<and> writes s \<and> same_shape s first)"

definition open_ok :: "load_env \<Rightarrow> execution_step list \<Rightarrow> open_batch \<Rightarrow> bool" where
  "open_ok E ss b = (case b of None \<Rightarrow> True
     | Some (first, ids, bytes) \<Rightarrow> batch_ok E ss first ids \<and> bytes = sum_list (map (row_size E) ids))"

definition open_units :: "open_batch \<Rightarrow> pystr list" where
  "open_units b = (case b of None \<Rightarrow> [] | Some (_, ids, _) \<Rightarrow> ids)"

lemma writable_row_Inr:
  assumes "writable_row E s = Inr x"
  shows "(x \<noteq> None) = writes s \<and> (\<forall>sz. x = Some sz \<longrightarrow> sz = row_size E (st_unit s) \<and>
    sz \<le> lp_max_batch_bytes (le_policy E) \<and> length (st_columns s) + 1 \<le> lp_max_parameters (le_policy E))"
  using assms
  by (cases "st_action s") (auto simp: writable_row_def writes_def row_size_def split: option.splits if_splits)

lemma add_to_batch_ok:
  assumes "add_to_batch E b s sz = (out, b')" "open_ok E ss b" "s \<in> set ss" "writes s" "1 \<le> lp_batch_size (le_policy E)"
    and "sz = row_size E (st_unit s)" "sz \<le> lp_max_batch_bytes (le_policy E)" "length (st_columns s) + 1 \<le> lp_max_parameters (le_policy E)"
  shows "open_ok E ss b' \<and> list_all (\<lambda>w. batch_ok E ss (wb_first w) (wb_units w)) out \<and>
    concat (map wb_units out) @ open_units b' = open_units b @ [st_unit s]"
proof -
  have new: "open_ok E ss (Some (s, [st_unit s], sz))"
    using assms(3-8) by (auto simp: open_ok_def batch_ok_def same_shape_def)
  show ?thesis
  proof (cases b)
    case None
    then show ?thesis using new assms(1) by (auto simp: add_to_batch_def open_units_def)
  next
    case (Some x)
    then obtain first ids bytes where b: "b = Some (first, ids, bytes)" by (cases x) auto
    then have ok: "batch_ok E ss first ids" "bytes = sum_list (map (row_size E) ids)" using assms(2) by (simp_all add: open_ok_def)
    show ?thesis
    proof (cases "must_split E first ids bytes s sz")
      case True
      then show ?thesis using b ok new assms(1) by (auto simp: add_to_batch_def emit_batch_def open_units_def)
    next
      case False
      then have "batch_ok E ss first (ids @ [st_unit s])" "bytes + sz = sum_list (map (row_size E) (ids @ [st_unit s]))"
        using ok assms(3,4,6) by (auto simp: must_split_def batch_ok_def same_shape_def)
      then show ?thesis using b assms(1) False by (auto simp: add_to_batch_def open_ok_def open_units_def)
    qed
  qed
qed

lemma batch_loop_ok:
  assumes "1 \<le> lp_batch_size (le_policy E)"
  shows "batch_loop E steps b = (out, None) \<Longrightarrow> open_ok E ss b \<Longrightarrow> set steps \<subseteq> set ss \<Longrightarrow>
    list_all (\<lambda>w. batch_ok E ss (wb_first w) (wb_units w)) out \<and>
    concat (map wb_units out) = open_units b @ map st_unit (filter writes steps)"
proof (induction steps arbitrary: b out)
  case Nil
  then show ?case by (auto simp: emit_batch_def open_ok_def open_units_def split: option.splits)
next
  case (Cons s steps)
  show ?case
  proof (cases "writable_row E s")
    case (Inr x)
    note row = writable_row_Inr [OF Inr]
    show ?thesis
    proof (cases x)
      case None
      then show ?thesis using Cons Inr row by auto
    next
      case (Some sz)
      obtain o1 b1 where a: "add_to_batch E b s sz = (o1, b1)" by fastforce
      then obtain rest where run: "batch_loop E steps b1 = (rest, None)" and out: "out = o1 @ rest"
        using Cons.prems(1) Inr Some by (auto split: prod.splits)
      have ok: "open_ok E ss b1 \<and> list_all (\<lambda>w. batch_ok E ss (wb_first w) (wb_units w)) o1 \<and>
          concat (map wb_units o1) @ open_units b1 = open_units b @ [st_unit s]"
        by (rule add_to_batch_ok [OF a Cons.prems(2) _ _ assms]) (use Cons.prems(3) row Some in auto)
      have "set steps \<subseteq> set ss" using Cons.prems(3) by simp
      with Cons.IH [OF run _ this] ok show ?thesis using out row Some by auto
    qed
  qed (use Cons in simp)
qed

text \<open>C29: The statements of a plan write each row exactly once, in plan order, and within every limit.
  When the generator ends without an error, its batches list exactly the selected units to insert or
  update, in the order of the plan; no batch is empty, exceeds the batch sz, the number of bind
  parameters or the byte limit, or mixes rows of another table, column list or conflict target.\<close>

theorem statements_exact_and_bounded:
  assumes "statements E plan units = (batches, None)" "1 \<le> lp_batch_size (le_policy E)"
  shows "concat (map wb_units batches) = map st_unit (filter writes (selected_steps units (ln_steps plan))) \<and>
    (\<forall>b \<in> set batches. wb_units b \<noteq> [] \<and> length (wb_units b) \<le> lp_batch_size (le_policy E) \<and>
      length (wb_units b) * length (st_columns (wb_first b)) + 1 \<le> lp_max_parameters (le_policy E) \<and>
      sum_list (map (row_size E) (wb_units b)) \<le> lp_max_batch_bytes (le_policy E) \<and>
      (\<forall>u \<in> set (wb_units b). \<exists>s \<in> set (ln_steps plan). st_unit s = u \<and> writes s \<and> same_shape s (wb_first b)))"
proof -
  let ?sel = "selected_steps units (ln_steps plan)"
  have run: "batch_loop E ?sel None = (batches, None)"
    using assms(1) by (auto simp: statements_def Let_def split: if_splits)
  have "open_ok E ?sel None" by (simp add: open_ok_def)
  from batch_loop_ok [OF assms(2) run this] have "list_all (\<lambda>w. batch_ok E ?sel (wb_first w) (wb_units w)) batches \<and>
      concat (map wb_units batches) = map st_unit (filter writes ?sel)" by (simp add: open_units_def)
  moreover have "set ?sel \<subseteq> set (ln_steps plan)" by (auto simp: selected_steps_def split: option.splits)
  ultimately show ?thesis unfolding list_all_iff batch_ok_def by blast
qed

section \<open>A concrete load\<close>

definition ex_load_env :: load_env where
  "ex_load_env = \<lparr>le_rows = [ex_row 1 8 [([71], Sc_Integer 5)], ex_row 2 9 [([70], Sc_Integer 5)], ex_row 4 9 [([70], Sc_Integer 6)]],
     le_tables = tables_of ex_schema, le_upsert = False, le_mapping = [1], le_database = [2], le_projection = [3],
     le_row_bytes = (\<lambda>_. 10), le_policy = \<lparr>lp_quarantine = True, lp_batch_size = 2, lp_max_parameters = 100,
       lp_max_batch_bytes = 100, lp_max_evaluations = 100\<rparr>\<rparr>"

definition ex_write :: "nat \<Rightarrow> nat \<Rightarrow> nat \<Rightarrow> pystr list \<Rightarrow> load_action \<Rightarrow> execution_step" where
  "ex_write u t c deps act = \<lparr>st_unit = [u], st_record = [u], st_entity = [u], st_table = [t], st_value_ids = [], st_columns = [[c]],
     st_identity = [], st_update = [[c]], st_dependencies = deps, st_action = act, st_codes = []\<rparr>"

definition ex_load_plan :: load_plan where
  "ex_load_plan = \<lparr>ln_blockers = [], ln_mapping = [1], ln_database = [2], ln_projection = [3],
     ln_steps = [ex_write 1 8 71 [] Act_Insert, ex_write 2 9 70 [[1]] Act_Insert, ex_write 4 9 70 [] Act_Insert]\<rparr>"

lemma ex_statements:
  "statements ex_load_env ex_load_plan None =
     ([\<lparr>wb_units = [[1]], wb_first = ex_write 1 8 71 [] Act_Insert\<rparr>,
       \<lparr>wb_units = [[2], [4]], wb_first = ex_write 2 9 70 [[1]] Act_Insert\<rparr>], None)"
  by code_simp

theorem statements_exact_and_bounded_witness:
  "concat (map wb_units (fst (statements ex_load_env ex_load_plan None))) = [[1], [2], [4]]"
proof -
  have "1 \<le> lp_batch_size (le_policy ex_load_env)" by (simp add: ex_load_env_def)
  note conjunct1 [OF statements_exact_and_bounded [OF ex_statements this]]
  also have "map st_unit (filter writes (selected_steps None (ln_steps ex_load_plan))) = [[1], [2], [4]]" by code_simp
  finally show ?thesis by (simp only: ex_statements fst_conv)
qed

end
