(* ===== verification/Load_Transaction.thy ===== *)
theory Load_Transaction
  imports Load_Statements
begin

text \<open>
  The writing part of a load transaction (\<open>_write\<close> and \<open>sql_error\<close> of \<open>database/_load_transaction.py\<close>):
  each group of dependent rows is written under a SAVEPOINT; a constraint violation rolls the group back
  and quarantines it, any other error ends the load. The database and its driver are the environment:
  \<open>tx_execute\<close> runs one statement, \<open>tx_expired\<close> is the answer of the n-th deadline check. Errors of
  cancellation are not raised by the environment.
\<close>

section \<open>Errors\<close>

text \<open>An exception with the SQLSTATE of itself and of its chain of origins, and its error code.\<close>

record sql_exception =
  sx_states :: "string option list"
  sx_code :: string

definition constraint_codes :: "(string \<times> string) list" where
  "constraint_codes = [(''23505'', ''LOAD_DUPLICATE_KEY''), (''23503'', ''LOAD_FOREIGN_KEY''), (''23514'', ''LOAD_CHECK''),
     (''23502'', ''LOAD_NOT_NULL'')]"

definition sql_error :: "sql_exception \<Rightarrow> string" where
  "sql_error e =
     (let known = concat (map (\<lambda>s. case s of None \<Rightarrow> []
            | Some x \<Rightarrow> (case map_of constraint_codes x of None \<Rightarrow> [] | Some c \<Rightarrow> [c])) (take 3 (sx_states e))) in
      if known \<noteq> [] then hd known
      else case map_of [(''DATABASE_PERMISSION_DENIED'', ''LOAD_PERMISSION_DENIED''), (''PROCESSING_TIMEOUT'', ''PROCESSING_TIMEOUT'')] (sx_code e) of
        None \<Rightarrow> ''LOAD_DATABASE_FAILED'' | Some c \<Rightarrow> c)"

datatype write_error = Raised_Load load_error | Raised_Sql sql_exception

section \<open>Writing a group\<close>

record 'db connection =
  cn_db :: 'db
  cn_checks :: nat

record 'db tx_env =
  tx_load :: load_env
  tx_execute :: "write_batch \<Rightarrow> 'db \<Rightarrow> (sql_exception + int list list) \<times> 'db"
  tx_expired :: "nat \<Rightarrow> bool"
  tx_sql_bytes :: "write_batch \<Rightarrow> nat"
  tx_max_sql_bytes :: nat

type_synonym ('db, 'a) tx = "'db connection \<Rightarrow> (write_error + 'a) \<times> 'db connection"

definition check_writer_deadline :: "'db tx_env \<Rightarrow> ('db, unit) tx" where
  "check_writer_deadline X c = (let c' = c\<lparr>cn_checks := cn_checks c + 1\<rparr> in
     if tx_expired X (cn_checks c) then (Inl (Raised_Load (Load_Error ''PROCESSING_TIMEOUT'')), c') else (Inr (), c'))"

definition row_count_mismatch :: write_error where
  "row_count_mismatch = Raised_Load (Load_Error ''LOAD_ROW_COUNT_MISMATCH'')"

definition execute_batch :: "'db tx_env \<Rightarrow> write_batch \<Rightarrow> ('db, nat) tx" where
  "execute_batch X b c =
     (case tx_execute X b (cn_db c) of
        (Inl e, db) \<Rightarrow> (Inl (Raised_Sql e), c\<lparr>cn_db := db\<rparr>)
      | (Inr returned, db) \<Rightarrow>
          (if length returned \<noteq> length (wb_units b) \<or> list_ex (\<lambda>row. row \<noteq> [1]) returned
           then (Inl row_count_mismatch, c\<lparr>cn_db := db\<rparr>) else (Inr (length returned), c\<lparr>cn_db := db\<rparr>)))"

definition write_one :: "'db tx_env \<Rightarrow> write_batch \<Rightarrow> ('db, nat) tx" where
  "write_one X b = bind_m (check_writer_deadline X) (\<lambda>_ c.
     if tx_max_sql_bytes X < tx_sql_bytes X b then (Inl (Raised_Load work_limit), c) else execute_batch X b c)"

fun write_batches :: "'db tx_env \<Rightarrow> write_batch list \<Rightarrow> nat \<Rightarrow> ('db, nat) tx" where
  "write_batches X [] written = return_m written"
| "write_batches X (b # bs) written = bind_m (write_one X b) (\<lambda>n. write_batches X bs (written + n))"

definition group_write :: "'db tx_env \<Rightarrow> load_plan \<Rightarrow> pystr list option \<Rightarrow> ('db, unit) tx" where
  "group_write X plan units =
     (case statements (tx_load X) plan units of (batches, err) \<Rightarrow>
        bind_m (write_batches X batches 0) (\<lambda>written c. case err of
          Some e \<Rightarrow> (Inl (Raised_Load e), c)
        | None \<Rightarrow> if written \<noteq> length (filter writes (selected_steps units (ln_steps plan)))
            then (Inl row_count_mismatch, c) else (Inr (), c)))"

section \<open>Groups under savepoints\<close>

definition quarantine_group :: "pystr list \<Rightarrow> string \<Rightarrow> load_plan \<Rightarrow> load_plan" where
  "quarantine_group units code plan = plan\<lparr>ln_steps := map (\<lambda>s. if st_unit s \<in> set units
     then s\<lparr>st_action := Act_Quarantine, st_codes := sort (List.insert code (st_codes s))\<rparr> else s) (ln_steps plan)\<rparr>"

text \<open>\<open>begin_nested\<close>: an exception restores the database.\<close>

definition savepoint :: "('db, 'a) tx \<Rightarrow> ('db, 'a) tx" where
  "savepoint m c = (case m c of (Inl e, c') \<Rightarrow> (Inl e, c'\<lparr>cn_db := cn_db c\<rparr>) | (Inr a, c') \<Rightarrow> (Inr a, c'))"

definition write_group :: "'db tx_env \<Rightarrow> load_plan \<Rightarrow> pystr list \<Rightarrow> ('db, load_plan) tx" where
  "write_group X plan units c =
     (let members = selected_steps (Some units) (ln_steps plan) in
      if list_ex (\<lambda>s. st_action s = Act_Quarantine) members
      then (if list_ex (\<lambda>s. st_action s \<noteq> Act_Quarantine) members
            then (Inl (Raised_Load (Load_Error ''LOAD_GROUP_UNRESOLVED'')), c) else (Inr plan, c))
      else case savepoint (group_write X plan (Some units)) c of
        (Inr _, c') \<Rightarrow> (Inr plan, c')
      | (Inl (Raised_Load e), c') \<Rightarrow> (Inl (Raised_Load e), c')
      | (Inl (Raised_Sql e), c') \<Rightarrow>
          (if sql_error e \<notin> set (map snd constraint_codes) then (Inl (Raised_Load (Load_Error (sql_error e))), c')
           else (Inr (quarantine_group units (sql_error e) plan), c')))"

fun write_groups :: "'db tx_env \<Rightarrow> pystr list list \<Rightarrow> load_plan \<Rightarrow> ('db, load_plan) tx" where
  "write_groups X [] plan = return_m plan"
| "write_groups X (g # gs) plan = bind_m (write_group X plan g) (write_groups X gs)"

definition write_plan ::
  "'db tx_env \<Rightarrow> (pystr \<times> unit_origin) list \<Rightarrow> source_record list list \<Rightarrow> load_plan \<Rightarrow> ('db, load_plan) tx" where
  "write_plan X origins batches plan =
     (let policy = le_policy (tx_load X) in
      if \<not> lp_quarantine policy then bind_m (group_write X plan None) (\<lambda>_. return_m plan)
      else case dependency_groups origins batches (ln_steps plan) (lp_max_evaluations policy) of
        Inl e \<Rightarrow> (\<lambda>c. (Inl (Raised_Load e), c))
      | Inr groups \<Rightarrow>
          if lp_max_evaluations policy < length groups * length (ln_steps plan) then (\<lambda>c. (Inl (Raised_Load work_limit), c))
          else write_groups X groups plan)"

section \<open>Marking one group leaves the others alone\<close>

lemma statements_locale:
  assumes "lp_quarantine (le_policy E)" "map st_unit (ln_steps p) = map st_unit (ln_steps q)"
    and "p\<lparr>ln_steps := []\<rparr> = q\<lparr>ln_steps := []\<rparr>"
    and "selected_steps (Some G) (ln_steps p) = selected_steps (Some G) (ln_steps q)"
  shows "statements E p (Some G) = statements E q (Some G)"
proof -
  have "ln_blockers p = ln_blockers q" "ln_mapping p = ln_mapping q" "ln_database p = ln_database q" "ln_projection p = ln_projection q"
    using arg_cong [OF assms(3), of ln_blockers] arg_cong [OF assms(3), of ln_mapping]
      arg_cong [OF assms(3), of ln_database] arg_cong [OF assms(3), of ln_projection] by simp_all
  moreover have "length (ln_steps p) = length (ln_steps q)" using arg_cong [OF assms(2), of length] by simp
  ultimately show ?thesis using assms(1,2,4) by (simp add: statements_def Let_def)
qed

lemma group_write_local:
  assumes "lp_quarantine (le_policy (tx_load X))" "map st_unit (ln_steps p) = map st_unit (ln_steps q)"
    and "p\<lparr>ln_steps := []\<rparr> = q\<lparr>ln_steps := []\<rparr>"
    and "selected_steps (Some G) (ln_steps p) = selected_steps (Some G) (ln_steps q)"
  shows "group_write X p (Some G) = group_write X q (Some G)"
  by (simp only: group_write_def statements_locale [OF assms] assms(4))

text \<open>What a list of batches does to the database when every statement succeeds.\<close>

definition effect :: "'db tx_env \<Rightarrow> load_plan \<Rightarrow> pystr list \<Rightarrow> 'db \<Rightarrow> 'db" where
  "effect X plan G db = fold (\<lambda>b d. snd (tx_execute X b d)) (fst (statements (tx_load X) plan (Some G))) db"

lemma write_one_Inr: "write_one X b c = (Inr n, c') \<Longrightarrow> cn_db c' = snd (tx_execute X b (cn_db c)) \<and> n = length (wb_units b)"
  by (auto simp: write_one_def bind_m_def check_writer_deadline_def execute_batch_def Let_def split: prod.splits sum.splits if_splits)

lemma write_batches_Inr:
  "write_batches X bs w c = (Inr n, c') \<Longrightarrow> cn_db c' = fold (\<lambda>b d. snd (tx_execute X b d)) bs (cn_db c)"
proof (induction bs arbitrary: w c)
  case (Cons b bs)
  obtain k c1 where b: "write_one X b c = (Inr k, c1)" and r: "write_batches X bs (w + k) c1 = (Inr n, c')"
    using Cons.prems by (auto simp: bind_m_def split: prod.splits sum.splits)
  show ?case using Cons.IH [OF r] write_one_Inr [OF b] by simp
qed simp

lemma group_write_Inr: "group_write X p (Some G) c = (Inr u, c') \<Longrightarrow> cn_db c' = effect X p G (cn_db c)"
  using write_batches_Inr
  by (fastforce simp: group_write_def effect_def bind_m_def split: prod.splits sum.splits option.splits if_splits)

definition all_quarantined :: "load_plan \<Rightarrow> pystr list \<Rightarrow> bool" where
  "all_quarantined p G \<longleftrightarrow> (\<forall>s \<in> set (ln_steps p). st_unit s \<in> set G \<longrightarrow> st_action s = Act_Quarantine)"

definition none_quarantined :: "load_plan \<Rightarrow> pystr list \<Rightarrow> bool" where
  "none_quarantined p G \<longleftrightarrow> (\<forall>s \<in> set (ln_steps p). st_unit s \<in> set G \<longrightarrow> st_action s \<noteq> Act_Quarantine)"

lemma write_group_Inr:
  assumes "write_group X p G c = (Inr p', c')"
  shows "(p' = p \<and> all_quarantined p G \<and> c' = c) \<or>
    (p' = p \<and> none_quarantined p G \<and> cn_db c' = effect X p G (cn_db c)) \<or>
    (\<exists>code. p' = quarantine_group G code p \<and> none_quarantined p G \<and> cn_db c' = cn_db c)"
proof (cases "list_ex (\<lambda>s. st_action s = Act_Quarantine) (selected_steps (Some G) (ln_steps p))")
  case True
  then show ?thesis using assms
    by (auto simp: write_group_def Let_def selected_steps_def all_quarantined_def list_ex_iff split: if_splits)
next
  case False
  then have none: "none_quarantined p G" by (auto simp: none_quarantined_def selected_steps_def list_ex_iff)
  obtain r c1 where g: "group_write X p (Some G) c = (r, c1)" by fastforce
  show ?thesis
  proof (cases r)
    case (Inl e)
    then show ?thesis using assms False none g
      by (cases e) (auto simp: write_group_def savepoint_def split: if_splits)
  next
    case (Inr u)
    then show ?thesis using assms False none g group_write_Inr by (fastforce simp: write_group_def savepoint_def)
  qed
qed

section \<open>All groups\<close>

abbreviation members :: "load_plan \<Rightarrow> pystr list \<Rightarrow> execution_step list" where
  "members p G \<equiv> selected_steps (Some G) (ln_steps p)"

lemma quarantined_members:
  "all_quarantined p G \<longleftrightarrow> list_all (\<lambda>s. st_action s = Act_Quarantine) (members p G)"
  "none_quarantined p G \<longleftrightarrow> list_all (\<lambda>s. st_action s \<noteq> Act_Quarantine) (members p G)"
  by (auto simp: all_quarantined_def none_quarantined_def selected_steps_def list_all_iff)

text \<open>The plan differs from the first one in the actions of some steps only.\<close>

definition same_units :: "load_plan \<Rightarrow> load_plan \<Rightarrow> bool" where
  "same_units p q \<longleftrightarrow> map st_unit (ln_steps p) = map st_unit (ln_steps q) \<and> p\<lparr>ln_steps := []\<rparr> = q\<lparr>ln_steps := []\<rparr>"

lemma same_units_trans: "same_units p q \<Longrightarrow> same_units q r \<Longrightarrow> same_units p r"
  by (simp add: same_units_def)

lemma quarantine_group_facts:
  shows "same_units (quarantine_group G code p) p" "all_quarantined (quarantine_group G code p) G"
    and "set G \<inter> set H = {} \<Longrightarrow> members (quarantine_group G code p) H = members p H"
proof -
  show "same_units (quarantine_group G code p) p"
    by (auto simp: same_units_def quarantine_group_def comp_def)
  show "all_quarantined (quarantine_group G code p) G"
    by (auto simp: all_quarantined_def quarantine_group_def split: if_splits)
  assume d: "set G \<inter> set H = {}"
  have "filter (\<lambda>s. st_unit s \<in> set H) (map (\<lambda>s. if st_unit s \<in> set G
      then s\<lparr>st_action := Act_Quarantine, st_codes := sort (List.insert code (st_codes s))\<rparr> else s) ss) =
    filter (\<lambda>s. st_unit s \<in> set H) ss" for ss :: "execution_step list"
  proof (induction ss)
    case (Cons s ss)
    have "st_unit s \<notin> set H" if "st_unit s \<in> set G" using d that by (simp add: disjoint_iff)
    then show ?case using Cons by (cases "st_unit s \<in> set G") simp_all
  qed simp
  then show "members (quarantine_group G code p) H = members p H"
    by (simp add: selected_steps_def quarantine_group_def)
qed

lemma write_group_step:
  assumes "write_group X p G c = (Inr p', c')" "members p G \<noteq> []"
  shows "same_units p' p \<and> (\<forall>H. set G \<inter> set H = {} \<longrightarrow> members p' H = members p H) \<and>
    ((all_quarantined p' G \<and> \<not> none_quarantined p' G \<and> cn_db c' = cn_db c) \<or>
     (none_quarantined p' G \<and> members p' G = members p G \<and> cn_db c' = effect X p G (cn_db c)))"
proof -
  have out: "\<not> none_quarantined p' G" if "all_quarantined p' G" "members p' G \<noteq> []"
    using that unfolding quarantined_members by (cases "members p' G") auto
  have ne: "members (quarantine_group G code p) G \<noteq> []" for code
  proof -
    have "st_unit ` set (ln_steps (quarantine_group G code p)) = st_unit ` set (ln_steps p)"
      using quarantine_group_facts(1) [where G = G and code = code and p = p] unfolding same_units_def by (metis set_map)
    moreover obtain s where "s \<in> set (ln_steps p)" "st_unit s \<in> set G"
      using assms(2) by (auto simp: selected_steps_def filter_empty_conv)
    ultimately obtain t where "t \<in> set (ln_steps (quarantine_group G code p))" "st_unit t \<in> set G"
      by (metis image_iff)
    then show ?thesis by (auto simp: selected_steps_def filter_empty_conv)
  qed
  from write_group_Inr [OF assms(1)] show ?thesis
  proof (elim disjE exE)
    assume "p' = p \<and> all_quarantined p G \<and> c' = c"
    then show ?thesis using out assms(2) by (simp add: same_units_def)
  next
    assume "p' = p \<and> none_quarantined p G \<and> cn_db c' = effect X p G (cn_db c)"
    then show ?thesis by (simp add: same_units_def)
  next
    fix code assume q: "p' = quarantine_group G code p \<and> none_quarantined p G \<and> cn_db c' = cn_db c"
    then have "\<not> none_quarantined p' G" using out ne quarantine_group_facts(2) by simp
    then show ?thesis using q quarantine_group_facts [where G = G and code = code and p = p] by simp
  qed
qed

lemma effect_local:
  assumes "lp_quarantine (le_policy (tx_load X))" "same_units p q" "members p G = members q G"
  shows "effect X p G = effect X q G"
  using statements_locale [OF assms(1) _ _ assms(3)] assms(2) by (simp add: effect_def same_units_def fun_eq_iff)

definition groups_settled :: "'db tx_env \<Rightarrow> load_plan \<Rightarrow> load_plan \<Rightarrow> pystr list list \<Rightarrow> 'db \<Rightarrow> 'db \<Rightarrow> bool" where
  "groups_settled X q p' gs db db' \<longleftrightarrow> same_units p' q \<and>
     (\<forall>G \<in> set gs. (all_quarantined p' G \<and> \<not> none_quarantined p' G) \<or> (none_quarantined p' G \<and> members p' G = members q G)) \<and>
     db' = fold (effect X q) (filter (none_quarantined p') gs) db"

lemma write_groups_settle:
  assumes "lp_quarantine (le_policy (tx_load X))"
  shows "write_groups X gs p c = (Inr p', c') \<Longrightarrow> distinct (concat gs) \<Longrightarrow> same_units p q \<Longrightarrow>
    \<forall>G \<in> set gs. members p G = members q G \<and> members q G \<noteq> [] \<Longrightarrow>
    groups_settled X q p' gs (cn_db c) (cn_db c') \<and> (\<forall>H. set (concat gs) \<inter> set H = {} \<longrightarrow> members p' H = members p H)"
proof (induction gs arbitrary: p c)
  case (Cons g gs)
  obtain p1 c1 where g: "write_group X p g c = (Inr p1, c1)" and r: "write_groups X gs p1 c1 = (Inr p', c')"
    using Cons.prems(1) by (auto simp: bind_m_def split: prod.splits sum.splits)
  have g_same: "members p g = members q g" "members q g \<noteq> []" using Cons.prems(4) by simp_all
  note st = write_group_step [OF g]
  have su: "same_units p1 q" using st g_same same_units_trans [OF _ Cons.prems(3)] by simp
  have apart: "set g \<inter> set H = {}" if "H \<in> set gs" for H using Cons.prems(2) that by auto
  have "\<forall>G \<in> set gs. members p1 G = members q G \<and> members q G \<noteq> []"
    using st g_same Cons.prems(4) apart by simp
  then have IH: "groups_settled X q p' gs (cn_db c1) (cn_db c')" "\<forall>H. set (concat gs) \<inter> set H = {} \<longrightarrow> members p' H = members p1 H"
    using Cons.IH [OF r _ su] Cons.prems(2) by simp_all
  have "set (concat gs) \<inter> set g = {}" using Cons.prems(2) by auto
  then have keep: "members p' g = members p1 g" using IH(2) by blast
  then have same: "none_quarantined p' g = none_quarantined p1 g" "all_quarantined p' g = all_quarantined p1 g"
    unfolding quarantined_members by simp_all
  have "effect X p g = effect X q g" by (rule effect_local [OF assms Cons.prems(3) g_same(1)])
  then have "groups_settled X q p' (g # gs) (cn_db c) (cn_db c')"
    using IH(1) st g_same same keep by (auto simp: groups_settled_def)
  moreover have "members p' H = members p H" if "set (concat (g # gs)) \<inter> set H = {}" for H
    using that IH(2) st g_same by (simp add: Int_Un_distrib2)
  ultimately show ?case by blast
qed (simp add: groups_settled_def)

lemma tied_bond: "(u, v) \<in> D \<Longrightarrow> (u, v) \<in> tied (bonds units D R)"
  unfolding tied_def by (rule r_into_rtrancl) (simp add: bonds_def)

text \<open>C3: A load that tolerates invalid rows writes whole groups. When writing ends without an error, every
  group of rows that belong together was either written as planned or is quarantined entirely; the database
  holds exactly the effects of the statements of the written groups, in order, on top of what it held - a
  group whose constraints were violated has left no trace; and no row is written whose dependency is
  quarantined.\<close>

theorem write_plan_whole_groups:
  assumes "write_plan X origins batches p c = (Inr p', c')" "lp_quarantine (le_policy (tx_load X))"
    and "ordered_steps tables [] (ln_steps p)"
  shows "\<exists>groups. dependency_groups origins batches (ln_steps p) (lp_max_evaluations (le_policy (tx_load X))) = Inr groups \<and>
    (\<forall>G \<in> set groups. all_quarantined p' G \<or> (none_quarantined p' G \<and> members p' G = members p G)) \<and>
    cn_db c' = fold (effect X p) (filter (none_quarantined p') groups) (cn_db c) \<and>
    (\<forall>s \<in> set (ln_steps p'). \<forall>t \<in> set (ln_steps p'). st_action s \<noteq> Act_Quarantine \<and> st_unit t \<in> set (st_dependencies s) \<longrightarrow>
       st_action t \<noteq> Act_Quarantine)"
proof -
  obtain groups where g: "dependency_groups origins batches (ln_steps p) (lp_max_evaluations (le_policy (tx_load X))) = Inr groups"
    and w: "write_groups X groups p c = (Inr p', c')"
    using assms(1,2) by (auto simp: write_plan_def Let_def split: sum.splits if_splits)
  have d: "distinct (map st_unit (ln_steps p))" using ordered_units [OF assms(3)] by simp
  note G = dependency_groups_Inr [OF g d]
  have "\<forall>H \<in> set groups. members p H \<noteq> []"
  proof
    fix H assume H: "H \<in> set groups"
    then have "H \<noteq> []" using G by blast
    then obtain u where "u \<in> set H" by (cases H) auto
    moreover from this have "u \<in> set (map st_unit (ln_steps p))" using H G by auto
    ultimately show "members p H \<noteq> []" by (auto simp: selected_steps_def filter_empty_conv)
  qed
  then have s: "groups_settled X p p' groups (cn_db c) (cn_db c')"
    using write_groups_settle [OF assms(2) w, of p] G by (simp add: same_units_def)
  have kept: "st_action t \<noteq> Act_Quarantine"
    if st: "s \<in> set (ln_steps p')" "t \<in> set (ln_steps p')" "st_action s \<noteq> Act_Quarantine" "st_unit t \<in> set (st_dependencies s)" for s t
  proof -
    have "st_unit s \<in> set (map st_unit (ln_steps p'))" using st(1) by simp
    also have "\<dots> = set (concat groups)" using s G by (simp add: groups_settled_def same_units_def)
    finally obtain H where H: "H \<in> set groups" "st_unit s \<in> set H" by auto
    then have none: "none_quarantined p' H" "members p' H = members p H"
      using s st(1,3) by (auto simp: groups_settled_def all_quarantined_def)
    moreover have "s \<in> set (members p' H)" using st(1) H(2) by (simp add: selected_steps_def)
    ultimately have "s \<in> set (members p H)" by simp
    then have "s \<in> set (ln_steps p)" by (simp add: selected_steps_def)
    then have "(st_unit s, st_unit t) \<in> step_bonds (ln_steps p)" using st(4) by (auto simp: step_bonds_def)
    then have "(st_unit s, st_unit t) \<in> tied (bonds (units_of origins) (step_bonds (ln_steps p)) (set (relations_of batches)))"
      by (rule tied_bond)
    moreover have "set H = tied (bonds (units_of origins) (step_bonds (ln_steps p)) (set (relations_of batches))) `` {st_unit s}"
      using G H by blast
    ultimately have "st_unit t \<in> set H" by simp
    then show ?thesis using none(1) st(2) by (simp add: none_quarantined_def)
  qed
  show ?thesis
  proof (intro exI conjI)
    show "dependency_groups origins batches (ln_steps p) (lp_max_evaluations (le_policy (tx_load X))) = Inr groups" by (rule g)
    show "\<forall>G \<in> set groups. all_quarantined p' G \<or> (none_quarantined p' G \<and> members p' G = members p G)"
      using s unfolding groups_settled_def by blast
    show "cn_db c' = fold (effect X p) (filter (none_quarantined p') groups) (cn_db c)"
      using s by (simp only: groups_settled_def)
    show "\<forall>s \<in> set (ln_steps p'). \<forall>t \<in> set (ln_steps p'). st_action s \<noteq> Act_Quarantine \<and> st_unit t \<in> set (st_dependencies s) \<longrightarrow>
       st_action t \<noteq> Act_Quarantine" by (intro ballI impI, elim conjE, rule kept)
  qed
qed

section \<open>A concrete transaction\<close>

text \<open>A database of written units; row 1 violates a unique key. Row 2 depends on row 1, row 4 on nothing.\<close>

definition ex_execute :: "write_batch \<Rightarrow> pystr list \<Rightarrow> (sql_exception + int list list) \<times> pystr list" where
  "ex_execute b db = (if [1] \<in> set (wb_units b) then (Inl \<lparr>sx_states = [None, Some ''23505''], sx_code = []\<rparr>, wb_units b @ db)
     else (Inr (map (\<lambda>_. [1]) (wb_units b)), wb_units b @ db))"

definition ex_tx :: "pystr list tx_env" where
  "ex_tx = \<lparr>tx_load = ex_load_env, tx_execute = ex_execute, tx_expired = (\<lambda>_. False), tx_sql_bytes = (\<lambda>_. 1), tx_max_sql_bytes = 9\<rparr>"

definition ex_load_origins :: "(pystr \<times> unit_origin) list" where
  "ex_load_origins = map (\<lambda>u. ([u], \<lparr>og_record = [u], og_entity = [u], og_value_ids = []\<rparr>)) [1, 2, 4]"

lemma ex_written:
  "(case write_plan ex_tx ex_load_origins [[]] ex_load_plan \<lparr>cn_db = [], cn_checks = 0\<rparr> of
      (Inl e, c) \<Rightarrow> None | (Inr p, c) \<Rightarrow> Some (map st_action (ln_steps p), cn_db c)) =
   Some ([Act_Quarantine, Act_Quarantine, Act_Insert], [[4]])"
  by code_simp

theorem write_plan_whole_groups_witness:
  "\<exists>p c groups. write_plan ex_tx ex_load_origins [[]] ex_load_plan \<lparr>cn_db = [], cn_checks = 0\<rparr> = (Inr p, c) \<and>
     dependency_groups ex_load_origins [[]] (ln_steps ex_load_plan) 100 = Inr groups \<and>
     cn_db c = fold (effect ex_tx ex_load_plan) (filter (none_quarantined p) groups) []"
proof -
  obtain p c where w: "write_plan ex_tx ex_load_origins [[]] ex_load_plan \<lparr>cn_db = [], cn_checks = 0\<rparr> = (Inr p, c)"
    using ex_written by (auto split: prod.splits sum.splits)
  have "lp_quarantine (le_policy (tx_load ex_tx))" "ordered_steps [[8], [9]] [] (ln_steps ex_load_plan)" by code_simp+
  from write_plan_whole_groups [OF w this] obtain groups where
    "dependency_groups ex_load_origins [[]] (ln_steps ex_load_plan) (lp_max_evaluations (le_policy (tx_load ex_tx))) = Inr groups"
    "cn_db c = fold (effect ex_tx ex_load_plan) (filter (none_quarantined p) groups) []" by auto
  moreover have "lp_max_evaluations (le_policy (tx_load ex_tx)) = 100" by code_simp
  ultimately show ?thesis using w by auto
qed

end
