(* ===== verification/Delimited_Tokenizer.thy ===== *)
theory Delimited_Tokenizer
  imports Prelude Complex_Main
begin

text \<open>
  The tokenizer of delimited text (\<open>_RowTokenizer\<close> of \<open>parsers/builtin/delimited.py\<close>): the validated
  dialect and limits, the state of the machine with every counter, one operation per method, and the
  loop \<open>feed\<close> that a reader calls with successive pieces of the decoded text. Characters are code
  points. An operation returns its result and the state it leaves; after an error that state is what
  the detection of the dialect still reads.
\<close>

section \<open>Dialect and limits\<close>

record dialect =
  d_delimiter :: nat
  d_quote :: "nat option"
  d_escape :: "nat option"
  d_double :: bool

text \<open>Unicode categories Cc, Cf, Cs, Zl and Zp.\<close>

definition forbidden_ranges :: "(nat \<times> nat) list" where
  "forbidden_ranges =
    [(0, 31), (127, 159), (173, 173), (0x600, 0x605), (0x61C, 0x61C), (0x6DD, 0x6DD), (0x70F, 0x70F),
     (0x890, 0x891), (0x8E2, 0x8E2), (0x180E, 0x180E), (0x200B, 0x200F), (0x2028, 0x202E),
     (0x2060, 0x2064), (0x2066, 0x206F), (0xD800, 0xDFFF), (0xFEFF, 0xFEFF), (0xFFF9, 0xFFFB),
     (0x110BD, 0x110BD), (0x110CD, 0x110CD), (0x13430, 0x1343F), (0x1BCA0, 0x1BCA3),
     (0x1D173, 0x1D17A), (0xE0001, 0xE0001), (0xE0020, 0xE007F)]"

definition forbidden_category :: "nat \<Rightarrow> bool" where
  "forbidden_category c = list_ex (\<lambda>(a, b). a \<le> c \<and> c \<le> b) forbidden_ranges"

definition dialect_character :: "pystr option \<Rightarrow> bool \<Rightarrow> bool \<Rightarrow> bool" where
  "dialect_character v optional allow_tab = (case v of
     None \<Rightarrow> optional
   | Some s \<Rightarrow> (case s of
       [c] \<Rightarrow> c \<notin> set [0, 13, 10] \<and> \<not> (forbidden_category c \<and> \<not> (allow_tab \<and> c = 9))
     | _ \<Rightarrow> False))"

text \<open>The constructor: \<open>None\<close> is the \<open>ValueError\<close>.\<close>

definition new_dialect :: "pystr \<Rightarrow> pystr option \<Rightarrow> pystr option \<Rightarrow> bool \<Rightarrow> dialect option" where
  "new_dialect delimiter quote escape double =
     (if dialect_character (Some delimiter) False True \<and> dialect_character quote True False \<and>
         dialect_character escape True False \<and>
         distinct ([delimiter] @ (case quote of None \<Rightarrow> [] | Some q \<Rightarrow> [q]) @
                   (case escape of None \<Rightarrow> [] | Some e \<Rightarrow> [e]))
      then Some \<lparr>d_delimiter = hd delimiter, d_quote = map_option hd quote,
                 d_escape = map_option hd escape, d_double = double\<rparr>
      else None)"

record row_limits =
  l_max_line_chars :: nat
  l_max_lines :: nat
  l_read_chunk_bytes :: nat
  l_encoding_probe_bytes :: nat
  l_min_encoding_confidence :: rat
  l_low_encoding_confidence :: rat
  l_max_columns :: nat
  l_max_field_size :: nat
  l_max_record_chars :: nat
  l_max_batch_cells :: nat
  l_max_batch_chars :: nat
  l_max_header_probe_rows :: nat
  l_max_dialect_candidates :: nat

definition positive_to :: "nat \<Rightarrow> nat \<Rightarrow> bool" where
  "positive_to v maximum \<longleftrightarrow> 0 < v \<and> v \<le> maximum"

definition valid_text_limits :: "row_limits \<Rightarrow> bool" where
  "valid_text_limits l \<longleftrightarrow>
     positive_to (l_max_line_chars l) (16 * 1024 * 1024) \<and> positive_to (l_max_lines l) 10000000 \<and>
     positive_to (l_read_chunk_bytes l) (1024 * 1024) \<and> positive_to (l_encoding_probe_bytes l) (1024 * 1024) \<and>
     0 \<le> l_min_encoding_confidence l \<and> l_min_encoding_confidence l \<le> 1 \<and>
     0 \<le> l_low_encoding_confidence l \<and> l_low_encoding_confidence l \<le> 1 \<and>
     l_min_encoding_confidence l \<le> l_low_encoding_confidence l"

definition max_columns_bound :: nat where "max_columns_bound = 10000"
definition max_field_bound :: nat where "max_field_bound = 16 * 1024 * 1024"
definition max_record_bound :: nat where "max_record_bound = 32 * 1024 * 1024"
definition max_cells_bound :: nat where "max_cells_bound = 10000"

definition valid_row_limits :: "row_limits \<Rightarrow> bool" where
  "valid_row_limits l \<longleftrightarrow> valid_text_limits l \<and>
     positive_to (l_max_columns l) max_columns_bound \<and> positive_to (l_max_field_size l) max_field_bound \<and>
     positive_to (l_max_record_chars l) max_record_bound \<and> positive_to (l_max_batch_cells l) max_cells_bound \<and>
     positive_to (l_max_batch_chars l) (max_record_bound + 2) \<and>
     l_max_columns l \<le> l_max_batch_cells l \<and> l_max_record_chars l + 2 \<le> l_max_batch_chars l \<and>
     positive_to (l_max_header_probe_rows l) 1024 \<and> positive_to (l_max_dialect_candidates l) 128"

section \<open>State\<close>

record csv_field =
  f_value :: pystr
  f_quoted :: bool
  f_escaped :: bool

record csv_row =
  r_index :: nat
  r_fields :: "csv_field list"
  r_field_count :: nat
  r_batch_chars :: nat
  r_line_start :: nat
  r_line_end :: nat
  r_source_last :: bool

datatype tok_error =
    Malformed (mal_reason: string) (mal_record: nat) (mal_line: nat)
  | Limit_Exceeded (lim_resource: string) (lim_limit: nat)

record config =
  c_dialect :: dialect
  c_limits :: row_limits
  c_max_records :: nat
  c_stop_after :: "nat option"
  c_retain :: bool
  c_shape_only :: bool

record tok =
  t_fields :: "csv_field list"
  t_field :: pystr
  t_field_chars :: nat
  t_field_count :: nat
  t_field_quoted :: bool
  t_field_escaped :: bool
  t_field_started :: bool
  t_row_started :: bool
  t_in_quotes :: bool
  t_after_quote :: bool
  t_escaping :: bool
  t_pending_cr :: bool
  t_stopped :: bool
  t_record_chars :: nat
  t_line_chars :: nat
  t_line :: nat
  t_start_line :: nat
  t_content_line :: nat
  t_record_count :: nat
  t_completed :: "csv_row list"
  t_delimiters :: nat
  t_current_delimiters :: nat
  t_quotes :: nat
  t_escapes :: nat

type_synonym 'a op = "tok \<Rightarrow> (tok_error + 'a) \<times> tok"

definition new_tok :: tok where
  "new_tok = \<lparr>t_fields = [], t_field = [], t_field_chars = 0, t_field_count = 0, t_field_quoted = False,
     t_field_escaped = False, t_field_started = False, t_row_started = False, t_in_quotes = False,
     t_after_quote = False, t_escaping = False, t_pending_cr = False, t_stopped = False,
     t_record_chars = 0, t_line_chars = 0, t_line = 1, t_start_line = 1, t_content_line = 1,
     t_record_count = 0, t_completed = [], t_delimiters = 0, t_current_delimiters = 0, t_quotes = 0,
     t_escapes = 0\<rparr>"

section \<open>Operations\<close>

definition failure :: "tok \<Rightarrow> string \<Rightarrow> tok_error" where
  "failure s reason = Malformed reason (t_record_count s + 1)
     (if reason \<in> set [''dangling_escape'', ''unterminated_quote''] then t_content_line s else t_line s)"

definition ensure_capacity :: "config \<Rightarrow> unit op" where
  "ensure_capacity cfg s =
     (if c_max_records cfg \<le> t_record_count s
      then (Inl (Limit_Exceeded ''records'' (c_max_records cfg)), s) else (Inr (), s))"

definition count_regular :: "config \<Rightarrow> unit op" where
  "count_regular cfg = bind_m (ensure_capacity cfg) (\<lambda>_ s.
     let l = c_limits cfg in
     if l_max_lines l < t_line s then (Inl (Limit_Exceeded ''line_count'' (l_max_lines l)), s)
     else if l_max_line_chars l \<le> t_line_chars s
     then (Inl (Limit_Exceeded ''line_chars'' (l_max_line_chars l)), s)
     else if l_max_record_chars l \<le> t_record_chars s
     then (Inl (Limit_Exceeded ''record_chars'' (l_max_record_chars l)), s)
     else (Inr (), s\<lparr>t_line_chars := t_line_chars s + 1, t_record_chars := t_record_chars s + 1,
                    t_content_line := t_line s\<rparr>))"

definition append_value :: "config \<Rightarrow> pystr \<Rightarrow> unit op" where
  "append_value cfg value s =
     (let l = c_limits cfg in
      if l_max_field_size l < length value + t_field_chars s
      then (Inl (Limit_Exceeded ''field_size'' (l_max_field_size l)), s)
      else (Inr (), s\<lparr>t_field := (if c_shape_only cfg then t_field s else t_field s @ value),
                     t_field_chars := t_field_chars s + length value,
                     t_field_started := True, t_row_started := True\<rparr>))"

definition finish_field :: "config \<Rightarrow> unit op" where
  "finish_field cfg s =
     (let l = c_limits cfg in
      if l_max_columns l \<le> t_field_count s then (Inl (Limit_Exceeded ''columns'' (l_max_columns l)), s)
      else (Inr (), s\<lparr>
        t_fields := (if c_shape_only cfg then t_fields s
          else t_fields s @ [\<lparr>f_value = t_field s, f_quoted = t_field_quoted s, f_escaped = t_field_escaped s\<rparr>]),
        t_field_count := t_field_count s + 1, t_field := [], t_field_chars := 0, t_field_quoted := False,
        t_field_escaped := False, t_field_started := False, t_after_quote := False, t_in_quotes := False\<rparr>))"

definition reset_record :: "tok \<Rightarrow> tok" where
  "reset_record s = s\<lparr>t_fields := [], t_field := [], t_field_chars := 0, t_field_count := 0,
     t_field_quoted := False, t_field_escaped := False, t_field_started := False, t_row_started := False,
     t_in_quotes := False, t_after_quote := False, t_escaping := False, t_record_chars := 0,
     t_current_delimiters := 0, t_start_line := t_line s, t_content_line := t_line s\<rparr>"

definition row_open :: "tok \<Rightarrow> bool" where
  "row_open s \<longleftrightarrow> t_row_started s \<or> t_fields s \<noteq> [] \<or> t_field_started s"

definition row_contents :: "config \<Rightarrow> (csv_field list \<times> nat) op" where
  "row_contents cfg s = (if row_open s
     then bind_m (finish_field cfg) (\<lambda>_ s. (Inr (t_fields s, t_field_count s), s)) s else (Inr ([], 0), s))"

definition close_row :: "config \<Rightarrow> nat \<Rightarrow> nat \<Rightarrow> csv_field list \<times> nat \<Rightarrow> csv_row op" where
  "close_row cfg line_end terminator contents s =
     (let row = \<lparr>r_index = t_record_count s, r_fields = fst contents, r_field_count = snd contents,
                 r_batch_chars = t_record_chars s + terminator, r_line_start = t_start_line s,
                 r_line_end = line_end, r_source_last = False\<rparr>;
          n = t_record_count s + 1;
          full = (case c_stop_after cfg of None \<Rightarrow> False | Some k \<Rightarrow> k \<le> n) in
      (Inr row, reset_record (s\<lparr>t_record_count := n,
         t_completed := (if c_retain cfg then t_completed s @ [row] else t_completed s),
         t_stopped := (full \<or> t_stopped s)\<rparr>)))"

definition emit_row :: "config \<Rightarrow> nat \<Rightarrow> nat \<Rightarrow> csv_row op" where
  "emit_row cfg line_end terminator =
     bind_m (ensure_capacity cfg) (\<lambda>_. bind_m (row_contents cfg) (close_row cfg line_end terminator))"

definition end_field :: "config \<Rightarrow> unit op" where
  "end_field cfg s = bind_m (finish_field cfg) (\<lambda>_ s.
       if l_max_columns (c_limits cfg) \<le> t_field_count s
       then (Inl (Limit_Exceeded ''columns'' (l_max_columns (c_limits cfg))), s) else (Inr (), s))
     (s\<lparr>t_delimiters := t_delimiters s + 1, t_current_delimiters := t_current_delimiters s + 1\<rparr>)"

text \<open>The cases of \<open>_consume_character\<close>, in its order.\<close>

definition consume_escaped :: "config \<Rightarrow> nat \<Rightarrow> unit op" where
  "consume_escaped cfg c s =
     (let d = c_dialect cfg in
      if Some c \<notin> set [Some (d_delimiter d), d_quote d, d_escape d] then (Inl (failure s ''invalid_escape''), s)
      else bind_m (append_value cfg [c]) (\<lambda>_ s. (Inr (), s\<lparr>t_escaping := False\<rparr>))
        (if Some c \<noteq> d_escape d then s\<lparr>t_escapes := t_escapes s + 1\<rparr> else s))"

definition consume_quoted :: "config \<Rightarrow> nat \<Rightarrow> unit op" where
  "consume_quoted cfg c s =
     (if Some c = d_escape (c_dialect cfg) then (Inr (), s\<lparr>t_escaping := True, t_field_escaped := True\<rparr>)
      else if Some c = d_quote (c_dialect cfg) then (Inr (), s\<lparr>t_in_quotes := False, t_after_quote := True\<rparr>)
      else append_value cfg [c] s)"

definition consume_after_quote :: "config \<Rightarrow> nat \<Rightarrow> unit op" where
  "consume_after_quote cfg c s =
     (if d_double (c_dialect cfg) \<and> Some c = d_quote (c_dialect cfg)
      then bind_m (append_value cfg [c])
        (\<lambda>_ s. (Inr (), s\<lparr>t_field_escaped := True, t_in_quotes := True, t_after_quote := False\<rparr>)) s
      else if c = d_delimiter (c_dialect cfg) then end_field cfg s
      else (Inl (failure s ''unexpected_character_after_quote''), s))"

definition consume_plain :: "config \<Rightarrow> nat \<Rightarrow> unit op" where
  "consume_plain cfg c s =
     (if Some c = d_escape (c_dialect cfg)
      then (Inr (), s\<lparr>t_escaping := True, t_field_escaped := True, t_field_started := True\<rparr>)
      else if c = d_delimiter (c_dialect cfg) then end_field cfg s
      else if Some c = d_quote (c_dialect cfg)
      then (if t_field_started s then (Inl (failure s ''unexpected_quote''), s)
            else (Inr (), s\<lparr>t_field_started := True, t_field_quoted := True, t_in_quotes := True,
                           t_quotes := t_quotes s + 1\<rparr>))
      else append_value cfg [c] s)"

definition consume_character :: "config \<Rightarrow> nat \<Rightarrow> unit op" where
  "consume_character cfg c s =
     (if c = 0 then (Inl (failure s ''binary_content''), s)
      else bind_m (count_regular cfg) (\<lambda>_ s0.
        let s = s0\<lparr>t_row_started := True\<rparr> in
        if t_escaping s then consume_escaped cfg c s
        else if t_in_quotes s then consume_quoted cfg c s
        else if t_after_quote s then consume_after_quote cfg c s
        else consume_plain cfg c s) s)"

definition newline_in_value :: "config \<Rightarrow> pystr \<Rightarrow> unit op" where
  "newline_in_value cfg newline s =
     (let l = c_limits cfg in
      if l_max_record_chars l < length newline + t_record_chars s
      then (Inl (Limit_Exceeded ''record_chars'' (l_max_record_chars l)), s)
      else bind_m (append_value cfg newline)
        (\<lambda>_ s. (Inr (), s\<lparr>t_escaping := False, t_line := t_line s + 1, t_line_chars := 0\<rparr>))
        (s\<lparr>t_record_chars := t_record_chars s + length newline, t_content_line := t_line s\<rparr>))"

definition consume_newline :: "config \<Rightarrow> pystr \<Rightarrow> csv_row option op" where
  "consume_newline cfg newline = bind_m (ensure_capacity cfg) (\<lambda>_ s.
     if l_max_lines (c_limits cfg) < t_line s
     then (Inl (Limit_Exceeded ''line_count'' (l_max_lines (c_limits cfg))), s)
     else if t_escaping s
     then bind_m (newline_in_value cfg newline) (\<lambda>_. return_m None) (s\<lparr>t_escapes := t_escapes s + 1\<rparr>)
     else if t_in_quotes s
     then bind_m (newline_in_value cfg newline) (\<lambda>_. return_m None) s
     else bind_m (emit_row cfg (t_line s) (length newline)) (\<lambda>row s.
       (Inr (Some row), s\<lparr>t_line := t_line s + 1, t_line_chars := 0, t_start_line := t_line s + 1\<rparr>)) s)"

section \<open>Feeding text\<close>

text \<open>\<open>collect\<close> puts the row of a step, when there is one, before the rows of the rest.\<close>

definition collect :: "csv_row option op \<Rightarrow> csv_row list op \<Rightarrow> csv_row list op" where
  "collect m rest = bind_m m (\<lambda>r. bind_m rest (\<lambda>rows.
     return_m (case r of None \<Rightarrow> rows | Some row \<Rightarrow> row # rows)))"

fun feed_loop :: "config \<Rightarrow> pystr \<Rightarrow> csv_row list op" where
  "feed_loop cfg [] s = (Inr [], s)"
| "feed_loop cfg (c # cs) s =
     (if t_stopped s then (Inr [], s)
      else if c = 13 then (case cs of
          [] \<Rightarrow> (Inr [], s\<lparr>t_pending_cr := True\<rparr>)
        | d # ds \<Rightarrow> if d = 10 then collect (consume_newline cfg [13, 10]) (feed_loop cfg ds) s
                   else collect (consume_newline cfg [13]) (feed_loop cfg (d # ds)) s)
      else if c = 10 then collect (consume_newline cfg [10]) (feed_loop cfg cs) s
      else bind_m (consume_character cfg c) (\<lambda>_. feed_loop cfg cs) s)"

text \<open>The rows of the pending carriage return and of the text, then the end of the source.\<close>

definition feed_open :: "config \<Rightarrow> pystr \<Rightarrow> bool \<Rightarrow> csv_row list op" where
  "feed_open cfg text final s =
     (if t_pending_cr s \<and> (text \<noteq> [] \<or> final)
      then (if take 1 text = [10]
            then collect (consume_newline cfg [13, 10]) (feed_loop cfg (drop 1 text)) (s\<lparr>t_pending_cr := False\<rparr>)
            else collect (consume_newline cfg [13]) (feed_loop cfg text) (s\<lparr>t_pending_cr := False\<rparr>))
      else feed_loop cfg text s)"

definition mark_last :: "csv_row list \<Rightarrow> csv_row list" where
  "mark_last rows = (if rows = [] then [] else butlast rows @ [(last rows)\<lparr>r_source_last := True\<rparr>])"

definition source_tail :: "config \<Rightarrow> csv_row list op" where
  "source_tail cfg =
     collect (\<lambda>s. if t_pending_cr s then consume_newline cfg [13] (s\<lparr>t_pending_cr := False\<rparr>) else (Inr None, s)) (\<lambda>s.
       if t_escaping s then (Inl (failure s ''dangling_escape''), s)
       else if t_in_quotes s then (Inl (failure s ''unterminated_quote''), s)
       else if row_open s then bind_m (emit_row cfg (t_line s) 0) (\<lambda>r. return_m [r]) s
       else (Inr [], s))"

definition end_of_source :: "config \<Rightarrow> csv_row list \<Rightarrow> csv_row list op" where
  "end_of_source cfg emitted = bind_m (source_tail cfg) (\<lambda>tail s.
     let rows = emitted @ tail in
     (Inr (mark_last rows),
      if rows \<noteq> [] \<and> c_retain cfg then s\<lparr>t_completed := mark_last (t_completed s)\<rparr> else s))"

definition feed :: "config \<Rightarrow> pystr \<Rightarrow> bool \<Rightarrow> csv_row list op" where
  "feed cfg text final = bind_m (feed_open cfg text final) (\<lambda>rows s.
     if final \<and> \<not> t_stopped s then end_of_source cfg rows s else (Inr rows, s))"

section \<open>Slices\<close>

definition slice_chars :: nat where
  "slice_chars = 4096"

definition starts :: "nat \<Rightarrow> nat list" where
  "starts n = map (\<lambda>i. i * slice_chars) [0..<(n + slice_chars - 1) div slice_chars]"

text \<open>The rows of a detection stay in \<open>completed_rows\<close>; a stopped tokenizer ends the loop.\<close>

fun feed_slices :: "config \<Rightarrow> pystr \<Rightarrow> bool \<Rightarrow> nat list \<Rightarrow> unit op" where
  "feed_slices cfg text final [] = return_m ()"
| "feed_slices cfg text final (start # rest) =
     (let end_at = min (start + slice_chars) (length text) in
      bind_m (feed cfg (take (end_at - start) (drop start text)) (final \<and> end_at = length text)) (\<lambda>_ s.
        if t_stopped s then (Inr (), s) else feed_slices cfg text final rest s))"

definition feed_detection_text :: "config \<Rightarrow> pystr \<Rightarrow> bool \<Rightarrow> unit op" where
  "feed_detection_text cfg text final =
     (if text = [] then bind_m (feed cfg [] final) (\<lambda>_. return_m ())
      else feed_slices cfg text final (starts (length text)))"

text \<open>
  The generator \<open>_tokenized_rows\<close> over decoded chunks: the rows handed over, then the error if one
  ended it.
\<close>

fun row_slices :: "config \<Rightarrow> pystr \<Rightarrow> bool \<Rightarrow> nat list \<Rightarrow> tok \<Rightarrow> (csv_row list \<times> tok_error option) \<times> tok" where
  "row_slices cfg decoded final [] s = (([], None), s)"
| "row_slices cfg decoded final (start # rest) s =
     (let end_at = min (start + slice_chars) (length decoded) in
      case feed cfg (take (end_at - start) (drop start decoded)) (final \<and> end_at = length decoded) s of
        (Inl e, s') \<Rightarrow> (([], Some e), s')
      | (Inr rows, s') \<Rightarrow> (case row_slices cfg decoded final rest s' of
          ((others, err), s'') \<Rightarrow> ((rows @ others, err), s'')))"

fun tokenized_rows :: "config \<Rightarrow> (pystr \<times> bool) list \<Rightarrow> tok \<Rightarrow> (csv_row list \<times> tok_error option) \<times> tok" where
  "tokenized_rows cfg [] s = (([], None), s)"
| "tokenized_rows cfg ((decoded, final) # chunks) s =
     (case row_slices cfg decoded final (if decoded = [] then [0] else starts (length decoded)) s of
        ((rows, Some e), s') \<Rightarrow> ((rows, Some e), s')
      | ((rows, None), s') \<Rightarrow> (case tokenized_rows cfg chunks s' of
          ((others, err), s'') \<Rightarrow> ((rows @ others, err), s'')))"

section \<open>A concrete configuration\<close>

definition ex_limits :: row_limits where
  "ex_limits = \<lparr>l_max_line_chars = 9, l_max_lines = 9, l_read_chunk_bytes = 9, l_encoding_probe_bytes = 9,
     l_min_encoding_confidence = 0, l_low_encoding_confidence = 1, l_max_columns = 3, l_max_field_size = 4,
     l_max_record_chars = 9, l_max_batch_cells = 9, l_max_batch_chars = 11, l_max_header_probe_rows = 3,
     l_max_dialect_candidates = 9\<rparr>"

definition ex_dialect :: dialect where
  "ex_dialect = \<lparr>d_delimiter = 44, d_quote = Some 34, d_escape = None, d_double = True\<rparr>"

definition ex_config :: config where
  "ex_config = \<lparr>c_dialect = ex_dialect, c_limits = ex_limits, c_max_records = 5, c_stop_after = None,
     c_retain = False, c_shape_only = False\<rparr>"

end
