(* ===== verification/Delimited_Chunks.thy ===== *)
theory Delimited_Chunks
  imports Delimited_Tokenizer
begin

text \<open>
  The tokenizer does not see how the text was cut. The detection feeds a sample in slices of 4096
  characters (\<open>_feed_detection_text\<close>), the parser feeds decoded chunks cut again (\<open>_tokenized_rows\<close>);
  both give the rows, the error and the counters of the whole text fed at once. Only the mark on the
  last row of a source can differ, and the last section says when it is set.
\<close>

lemmas tok_defs = ensure_capacity_def count_regular_def append_value_def finish_field_def end_field_def
  row_contents_def close_row_def emit_row_def consume_escaped_def consume_quoted_def consume_after_quote_def consume_plain_def
  consume_character_def newline_in_value_def consume_newline_def

section \<open>Reasoning about a whole feed\<close>

text \<open>
  An invariant \<open>I acc s\<close> of the rows delivered so far and the state, kept by the two steps, holds of
  what the loop delivers.
\<close>

lemma feed_loop_rule:
  assumes newline: "\<And>nl acc s. nl \<in> {[10], [13], [13, 10]} \<Longrightarrow> I acc s \<Longrightarrow>
      wp (consume_newline cfg nl) (\<lambda>r s'. I (acc @ (case r of None \<Rightarrow> [] | Some row \<Rightarrow> [row])) s') E s"
    and char: "\<And>c acc s. I acc s \<Longrightarrow> wp (consume_character cfg c) (\<lambda>_. I acc) E s"
    and pending: "\<And>acc s b. I acc s \<Longrightarrow> I acc (s\<lparr>t_pending_cr := b\<rparr>)"
  shows "I acc s \<Longrightarrow> wp (feed_loop cfg str) (\<lambda>rows. I (acc @ rows)) E s"
proof (induction str arbitrary: acc s rule: length_induct)
  case (1 str)
  have rest: "wp (feed_loop cfg t) (\<lambda>rows. I (acc' @ rows)) E s'" if "length t < length str" "I acc' s'" for t acc' s'
    using 1(1) that by blast
  have nl: "wp (collect (consume_newline cfg nl) (feed_loop cfg t)) (\<lambda>rows. I (acc @ rows)) E s"
    if "length t < length str" "nl \<in> {[10], [13], [13, 10]}" for nl t
  proof -
    have "wp (consume_newline cfg nl) (\<lambda>r. wp (feed_loop cfg t) (\<lambda>rows. I (acc @ (case r of None \<Rightarrow> rows | Some row \<Rightarrow> row # rows))) E) E s"
    proof (rule wp_mono [OF newline [OF that(2) 1(2)]])
      fix r s' assume "I (acc @ (case r of None \<Rightarrow> [] | Some row \<Rightarrow> [row])) s'"
      from rest [OF that(1) this]
      show "wp (feed_loop cfg t) (\<lambda>rows. I (acc @ (case r of None \<Rightarrow> rows | Some row \<Rightarrow> row # rows))) E s'"
        by (cases r) simp_all
    qed simp
    then show ?thesis by (simp add: collect_def)
  qed
  have ch: "wp (bind_m (consume_character cfg c) (\<lambda>_. feed_loop cfg t)) (\<lambda>rows. I (acc @ rows)) E s"
    if "length t < length str" for c t
    unfolding wp_bind by (rule wp_mono [OF char [OF 1(2)] rest [OF that]]) simp_all
  show ?case
  proof (cases str)
    case (Cons c cs)
    then show ?thesis using 1(2) nl [of cs] nl [of "tl cs"] ch [of cs c] pending
      by (cases cs) (auto simp: wp_def)
  qed (use 1(2) in \<open>simp add: wp_def\<close>)
qed

lemma feed_rule:
  assumes newline: "\<And>nl acc s. nl \<in> {[10], [13], [13, 10]} \<Longrightarrow> I acc s \<Longrightarrow>
      wp (consume_newline cfg nl) (\<lambda>r s'. I (acc @ (case r of None \<Rightarrow> [] | Some row \<Rightarrow> [row])) s') E s"
    and char: "\<And>c acc s. I acc s \<Longrightarrow> wp (consume_character cfg c) (\<lambda>_. I acc) E s"
    and pending: "\<And>acc s b. I acc s \<Longrightarrow> I acc (s\<lparr>t_pending_cr := b\<rparr>)"
    and open_at_end: "\<And>acc s. I acc s \<Longrightarrow> t_escaping s \<Longrightarrow> E (failure s ''dangling_escape'') s"
      "\<And>acc s. I acc s \<Longrightarrow> t_in_quotes s \<Longrightarrow> E (failure s ''unterminated_quote'') s"
    and emit: "\<And>acc s. I acc s \<Longrightarrow> row_open s \<Longrightarrow> wp (emit_row cfg (t_line s) 0) (\<lambda>r. J (acc @ [r])) E s"
    and weaken: "\<And>acc s. I acc s \<Longrightarrow> J acc s"
    and mark: "\<And>acc s. J acc s \<Longrightarrow> J (mark_last acc) s"
      "\<And>acc s. J acc s \<Longrightarrow> J acc (s\<lparr>t_completed := mark_last (t_completed s)\<rparr>)"
    and start: "I [] s"
  shows "wp (feed cfg str final) J E s"
proof -
  have loop: "wp (feed_loop cfg t) (\<lambda>rows. I (acc @ rows)) E s'" if "I acc s'" for acc s' t
    by (rule feed_loop_rule [where I = I, OF newline char pending that])
  have pend: "wp (collect (consume_newline cfg nl) (feed_loop cfg t)) I E (s\<lparr>t_pending_cr := False\<rparr>)"
    if "nl \<in> {[10], [13], [13, 10]}" for nl t
  proof -
    have "wp (consume_newline cfg nl) (\<lambda>r. wp (feed_loop cfg t) (\<lambda>rows. I (case r of None \<Rightarrow> rows | Some row \<Rightarrow> row # rows)) E) E (s\<lparr>t_pending_cr := False\<rparr>)"
    proof (rule wp_mono [OF newline [OF that pending [OF start]]])
      fix r s' assume "I ([] @ (case r of None \<Rightarrow> [] | Some row \<Rightarrow> [row])) s'"
      from loop [OF this, where t = t]
      show "wp (feed_loop cfg t) (\<lambda>rows. I (case r of None \<Rightarrow> rows | Some row \<Rightarrow> row # rows)) E s'"
        by (cases r) simp_all
    qed simp
    then show ?thesis by (simp add: collect_def)
  qed
  have opened: "wp (feed_open cfg str final) I E s"
    using pend [of "[13, 10]" "drop 1 str"] pend [of "[13]" str] loop [OF start, where t = str]
    by (auto simp: feed_open_def wp_def)
  have closing: "wp (\<lambda>s. if t_escaping s then (Inl (failure s ''dangling_escape''), s)
       else if t_in_quotes s then (Inl (failure s ''unterminated_quote''), s)
       else if row_open s then bind_m (emit_row cfg (t_line s) 0) (\<lambda>r. return_m [r]) s
       else (Inr [], s)) (\<lambda>rows. J (acc @ rows)) E s'" if "I acc s'" for acc s'
    using emit [OF that] open_at_end [OF that] weaken [OF that]
    by (auto simp: wp_def bind_m_def split: prod.splits sum.splits)
  have tail: "wp (source_tail cfg) (\<lambda>rows. J (acc @ rows)) E s'" if "I acc s'" for acc s'
  proof -
    have "wp (\<lambda>s. if t_pending_cr s then consume_newline cfg [13] (s\<lparr>t_pending_cr := False\<rparr>) else (Inr None, s))
        (\<lambda>r. I (acc @ (case r of None \<Rightarrow> [] | Some row \<Rightarrow> [row]))) E s'"
      using newline [of "[13]", OF _ pending [OF that, of False]] that by (auto simp: wp_def)
    then show ?thesis unfolding source_tail_def collect_def wp_bind
    proof (rule wp_mono)
      fix r s'' assume "I (acc @ (case r of None \<Rightarrow> [] | Some row \<Rightarrow> [row])) s''"
      from closing [OF this]
      show "wp (\<lambda>s. if t_escaping s then (Inl (failure s ''dangling_escape''), s)
         else if t_in_quotes s then (Inl (failure s ''unterminated_quote''), s)
         else if row_open s then bind_m (emit_row cfg (t_line s) 0) (\<lambda>r. return_m [r]) s
         else (Inr [], s)) (\<lambda>a. wp (return_m (case r of None \<Rightarrow> a | Some row \<Rightarrow> row # a)) (\<lambda>rows. J (acc @ rows)) E) E s''"
        by (cases r) simp_all
    qed
  qed
  have finish: "wp (end_of_source cfg rows) J E s'" if "I rows s'" for rows s'
    unfolding end_of_source_def wp_bind
    by (rule wp_mono [OF tail [OF that]]) (auto simp: wp_def Let_def intro: mark)
  show ?thesis unfolding feed_def wp_bind
    by (rule wp_mono [OF opened]) (use finish weaken in \<open>auto simp: wp_def\<close>)
qed

section \<open>What the operations leave alone\<close>

lemma consume_newline_keeps:
  "wp (consume_newline cfg nl) (\<lambda>r s'. t_pending_cr s' = t_pending_cr s \<and>
     (t_stopped s' \<and> \<not> t_stopped s \<longrightarrow> \<not> t_escaping s' \<and> \<not> t_in_quotes s' \<and> \<not> row_open s'))
     (\<lambda>e s'. t_pending_cr s' = t_pending_cr s) s"
  by (auto simp: tok_defs wp_def bind_m_def Let_def row_open_def reset_record_def split: prod.splits sum.splits if_splits)

lemma consume_character_keeps:
  "wp (consume_character cfg c) (\<lambda>_ s'. t_pending_cr s' = t_pending_cr s \<and> t_stopped s' = t_stopped s)
     (\<lambda>_ s'. t_pending_cr s' = t_pending_cr s) s"
  by (auto simp: tok_defs wp_def bind_m_def Let_def split: prod.splits sum.splits if_splits)


abbreviation sane :: "tok \<Rightarrow> bool" where
  "sane s \<equiv> t_stopped s \<longrightarrow> \<not> t_pending_cr s"

lemma newline_quiet: "\<not> t_pending_cr s \<Longrightarrow> wp (consume_newline cfg nl) (\<lambda>_ s'. \<not> t_pending_cr s') (\<lambda>_ _. True) s"
  by (rule wp_mono [OF consume_newline_keeps]) auto

lemma character_quiet: "\<not> t_pending_cr s \<Longrightarrow> wp (consume_character cfg c) (\<lambda>_ s'. \<not> t_pending_cr s') (\<lambda>_ _. True) s"
  by (rule wp_mono [OF consume_character_keeps]) auto

lemma wp_collect: "wp (collect m rest) (\<lambda>_. Q) E = wp m (\<lambda>_. wp rest (\<lambda>_. Q) E) E"
  by (simp add: collect_def)

lemma feed_loop_sane: "\<not> t_pending_cr s \<Longrightarrow> wp (feed_loop cfg str) (\<lambda>_. sane) (\<lambda>_ _. True) s"
proof (induction str arbitrary: s rule: length_induct)
  case (1 str)
  have rest: "wp (feed_loop cfg t) (\<lambda>_. sane) (\<lambda>_ _. True) s'" if "length t < length str" "\<not> t_pending_cr s'" for t s'
    using 1(1) that by blast
  have newline: "wp (collect (consume_newline cfg nl) (feed_loop cfg t)) (\<lambda>_. sane) (\<lambda>_ _. True) s"
    if "length t < length str" for nl t
    unfolding wp_collect by (rule wp_mono [OF newline_quiet [OF 1(2)] rest [OF that]]) simp_all
  have char: "wp (bind_m (consume_character cfg c) (\<lambda>_. feed_loop cfg t)) (\<lambda>_. sane) (\<lambda>_ _. True) s"
    if "length t < length str" for c t
    unfolding wp_bind by (rule wp_mono [OF character_quiet [OF 1(2)] rest [OF that]]) simp_all
  show ?case
  proof (cases str)
    case (Cons c cs)
    then show ?thesis using 1(2) newline [of cs] newline [of "tl cs"] char [of cs c]
      by (cases cs) (auto simp: wp_def)
  qed (use 1(2) in \<open>simp add: wp_def\<close>)
qed

section \<open>Cutting the text\<close>

definition then_rows :: "csv_row list op \<Rightarrow> csv_row list op \<Rightarrow> csv_row list op" where
  "then_rows m1 m2 = bind_m m1 (\<lambda>r1. bind_m m2 (\<lambda>r2. return_m (r1 @ r2)))"

lemma then_rows_Nil: "m1 s = (Inr [], s') \<Longrightarrow> then_rows m1 m2 s = m2 s'"
  by (simp add: then_rows_def)

lemma then_rows_at: "m1 s = m1' s' \<Longrightarrow> then_rows m1 m2 s = then_rows m1' m2 s'"
  by (simp add: then_rows_def bind_m_def)

lemma then_rows_collect: "then_rows (collect m rest) m2 s = collect m (then_rows rest m2) s"
  by (auto simp: then_rows_def collect_def bind_m_def split: prod.split sum.split option.split)

lemma then_rows_bind: "then_rows (bind_m m f) m2 s = bind_m m (\<lambda>a. then_rows (f a) m2) s"
  by (auto simp: then_rows_def bind_m_def split: prod.split sum.split)

lemma collect_cong:
  assumes "\<And>r t. m s = (Inr r, t) \<Longrightarrow> rest t = rest' t"
  shows "collect m rest s = collect m rest' s"
  using assms by (simp add: collect_def bind_m_def split: prod.split sum.split)

lemma feed_open_quiet: "\<not> t_pending_cr s \<Longrightarrow> feed_open cfg b fin s = feed_loop cfg b s"
  by (simp add: feed_open_def)

lemma feed_open_fin: "b \<noteq> [] \<Longrightarrow> feed_open cfg b fin s = feed_open cfg b False s"
  by (simp add: feed_open_def)

lemma feed_loop_stopped: "t_stopped s \<Longrightarrow> feed_loop cfg b s = (Inr [], s)"
  by (cases b) simp_all

lemma feed_loop_append:
  "\<not> t_pending_cr s \<Longrightarrow> feed_loop cfg (a @ b) s = then_rows (feed_loop cfg a) (feed_open cfg b False) s"
proof (induction a arbitrary: s rule: length_induct)
  case (1 a)
  have rest: "feed_loop cfg (t @ b) s' = then_rows (feed_loop cfg t) (feed_open cfg b False) s'"
    if "length t < length a" "\<not> t_pending_cr s'" for t s'
    using 1(1) that by blast
  have newline: "collect (consume_newline cfg nl) (feed_loop cfg (t @ b)) s =
      then_rows (collect (consume_newline cfg nl) (feed_loop cfg t)) (feed_open cfg b False) s"
    if "length t < length a" for nl t
    unfolding then_rows_collect
    by (rule collect_cong, rule rest [OF that]) (use wp_InrD [OF newline_quiet [OF 1(2)]] in blast)
  have char: "bind_m (consume_character cfg c) (\<lambda>_. feed_loop cfg (t @ b)) s =
      then_rows (bind_m (consume_character cfg c) (\<lambda>_. feed_loop cfg t)) (feed_open cfg b False) s"
    if "length t < length a" for c t
    unfolding then_rows_bind
    by (rule bind_m_cong, rule refl, rule rest [OF that]) (use wp_InrD [OF character_quiet [OF 1(2)]] in blast)
  have quiet: "s\<lparr>t_pending_cr := False\<rparr> = s" using 1(2) by simp
  show ?case
  proof (cases a)
    case Nil
    then show ?thesis using 1(2) by (simp add: then_rows_def feed_open_quiet bind_m_def split: prod.split sum.split)
  next
    case (Cons c cs)
    have by_newline: ?thesis if "length t < length a"
      "feed_loop cfg a s = collect (consume_newline cfg nl) (feed_loop cfg t) s"
      "feed_loop cfg (a @ b) s = collect (consume_newline cfg nl) (feed_loop cfg (t @ b)) s" for nl t
      using newline [OF that(1)] that(2,3) then_rows_at by metis
    consider "t_stopped s" | "\<not> t_stopped s" "c = 13" "cs = []" | t where "\<not> t_stopped s" "c = 13" "cs = 10 # t"
      | d t where "\<not> t_stopped s" "c = 13" "cs = d # t" "d \<noteq> 10" | "\<not> t_stopped s" "c = 10"
      | "\<not> t_stopped s" "c \<noteq> 10" "c \<noteq> 13"
      by (metis neq_Nil_conv)
    then show ?thesis
    proof cases
      case 1
      then show ?thesis using Cons \<open>\<not> t_pending_cr s\<close>
        by (simp add: then_rows_Nil [of _ _ s] feed_open_quiet feed_loop_stopped)
    next
      case 2
      then have "then_rows (feed_loop cfg a) (feed_open cfg b False) s = feed_open cfg b False (s\<lparr>t_pending_cr := True\<rparr>)"
        using Cons by (intro then_rows_Nil) simp
      moreover have "feed_open cfg b False (s\<lparr>t_pending_cr := True\<rparr>) = feed_loop cfg (a @ b) s"
        using Cons 2 quiet by (cases b) (auto simp: feed_open_def)
      ultimately show ?thesis by simp
    next
      case (3 t)
      then show ?thesis using Cons by (intro by_newline [of t "[13, 10]"]) simp_all
    next
      case (4 d t)
      then show ?thesis using Cons by (intro by_newline [of "d # t" "[13]"]) simp_all
    next
      case 5
      then show ?thesis using Cons by (intro by_newline [of cs "[10]"]) simp_all
    next
      case 6
      then have "feed_loop cfg a s = bind_m (consume_character cfg c) (\<lambda>_. feed_loop cfg cs) s"
        "feed_loop cfg (a @ b) s = bind_m (consume_character cfg c) (\<lambda>_. feed_loop cfg (cs @ b)) s"
        using Cons by simp_all
      moreover have "length cs < length a" using Cons by simp
      ultimately show ?thesis using char [of cs c] then_rows_at by metis
    qed
  qed
qed

lemma feed_open_append:
  assumes "sane s"
  shows "feed_open cfg (a @ b) False s = then_rows (feed_open cfg a False) (feed_open cfg b False) s"
proof (cases "t_pending_cr s \<and> a \<noteq> []")
  case False
  have "then_rows (feed_loop cfg a) m s = then_rows (feed_open cfg a False) m s" if "\<not> t_pending_cr s" for m
    by (rule then_rows_at) (simp add: feed_open_quiet that)
  moreover have "feed_open cfg [] False s = (Inr [], s)" if "t_pending_cr s"
    using that by (simp add: feed_open_def)
  ultimately show ?thesis using False
    by (cases "t_pending_cr s") (simp_all add: feed_open_quiet feed_loop_append then_rows_Nil)
next
  case True
  let ?s = "s\<lparr>t_pending_cr := False\<rparr>"
  have *: "collect (consume_newline cfg nl) (feed_loop cfg (t @ b)) ?s =
      then_rows (collect (consume_newline cfg nl) (feed_loop cfg t)) (feed_open cfg b False) ?s" for nl t
    unfolding then_rows_collect
    by (rule collect_cong, rule feed_loop_append) (use wp_InrD [OF newline_quiet [of ?s]] in auto)
  obtain x t where a: "a = x # t" using True by (cases a) auto
  have "feed_open cfg a False s = collect (consume_newline cfg [13, 10]) (feed_loop cfg t) ?s \<and>
      feed_open cfg (a @ b) False s = collect (consume_newline cfg [13, 10]) (feed_loop cfg (t @ b)) ?s" if "x = 10"
    using True a that by (simp add: feed_open_def)
  moreover have "feed_open cfg a False s = collect (consume_newline cfg [13]) (feed_loop cfg a) ?s \<and>
      feed_open cfg (a @ b) False s = collect (consume_newline cfg [13]) (feed_loop cfg (a @ b)) ?s" if "x \<noteq> 10"
    using True a that by (simp add: feed_open_def)
  ultimately show ?thesis using * then_rows_at by metis
qed

section \<open>Up to the mark on the last row\<close>

definition unmark_row :: "csv_row \<Rightarrow> csv_row" where
  "unmark_row r = r\<lparr>r_source_last := False\<rparr>"

definition unmark_tok :: "tok \<Rightarrow> tok" where
  "unmark_tok s = s\<lparr>t_completed := map unmark_row (t_completed s)\<rparr>"

definition unmark :: "(tok_error + csv_row list) \<times> tok \<Rightarrow> (tok_error + csv_row list) \<times> tok" where
  "unmark out = (map_sum id (map unmark_row) (fst out), unmark_tok (snd out))"

lemma mark_last_map: "(\<And>r b. f (r\<lparr>r_source_last := b\<rparr>) = f r) \<Longrightarrow> map f (mark_last rows) = map f rows"
proof (cases "rows = []")
  case False
  assume f: "\<And>r b. f (r\<lparr>r_source_last := b\<rparr>) = f r"
  have "map f rows = map f (butlast rows @ [last rows])" using False by simp
  then show ?thesis using False f by (simp add: mark_last_def del: append_butlast_last_id)
qed (simp add: mark_last_def)

lemma unmark_mark_last [simp]: "map unmark_row (mark_last rows) = map unmark_row rows"
  by (rule mark_last_map) (simp add: unmark_row_def)

lemma unmark_completed_mark [simp]: "unmark_tok (s\<lparr>t_completed := mark_last (t_completed s)\<rparr>) = unmark_tok s"
  by (simp add: unmark_tok_def)

lemma end_of_source_prefix:
  "unmark (end_of_source cfg (r1 @ r2) s) =
   unmark (bind_m (end_of_source cfg r2) (\<lambda>r. return_m (r1 @ r)) s)"
  by (auto simp: end_of_source_def bind_m_def unmark_def Let_def split: prod.split sum.split)

lemma end_of_source_pending:
  assumes "t_pending_cr s" "\<not> t_stopped s"
  shows "unmark (end_of_source cfg [] s) = unmark (feed cfg [] True s)"
proof (cases "consume_newline cfg [13] (s\<lparr>t_pending_cr := False\<rparr>)")
  case (Pair r s')
  show ?thesis
  proof (cases r)
    case (Inl e)
    then show ?thesis using Pair assms
      by (simp add: end_of_source_def source_tail_def feed_def feed_open_def collect_def bind_m_def)
  next
    case (Inr row)
    have k: "\<not> t_pending_cr s'" "t_stopped s' \<Longrightarrow> \<not> t_escaping s' \<and> \<not> t_in_quotes s' \<and> \<not> row_open s'"
      using wp_InrD [OF consume_newline_keeps Pair [unfolded Inr]] assms by simp_all
    have "feed_open cfg [] True s = (Inr (case row of None \<Rightarrow> [] | Some r \<Rightarrow> [r]), s')"
      using Pair Inr assms by (simp add: feed_open_def collect_def bind_m_def)
    then have f: "feed cfg [] True s = (if t_stopped s' then (Inr (case row of None \<Rightarrow> [] | Some r \<Rightarrow> [r]), s')
        else end_of_source cfg (case row of None \<Rightarrow> [] | Some r \<Rightarrow> [r]) s')"
      by (simp add: feed_def bind_m_def)
    show ?thesis
    proof (cases "t_stopped s'")
      case True
      then show ?thesis using f k Pair Inr assms
        by (auto simp: end_of_source_def source_tail_def collect_def bind_m_def unmark_def Let_def split: option.split)
    next
      case False
      then show ?thesis using f k Pair Inr assms
        by (auto simp: end_of_source_def source_tail_def collect_def bind_m_def unmark_def Let_def
            split: prod.split sum.split option.split)
    qed
  qed
qed

lemma feed_nothing: "feed cfg [] False s = (Inr [], s)"
  by (simp add: feed_def feed_open_def bind_m_def)

lemma feed_open_sane:
  assumes "sane s"
  shows "wp (feed_open cfg b fin) (\<lambda>_. sane) (\<lambda>_ _. True) s"
proof (cases "t_pending_cr s")
  case True
  let ?s = "s\<lparr>t_pending_cr := False\<rparr>"
  have "wp (collect (consume_newline cfg nl) (feed_loop cfg t)) (\<lambda>_. sane) (\<lambda>_ _. True) ?s" for nl t
    unfolding wp_collect by (rule wp_mono [OF newline_quiet feed_loop_sane]) simp_all
  then show ?thesis using True assms by (cases b) (auto simp: wp_def feed_open_def)
qed (use feed_loop_sane [of s cfg b] in \<open>simp add: wp_def feed_open_quiet\<close>)

lemma unmark_prefix:
  "unmark (bind_m m (\<lambda>r. return_m (r1 @ r)) s) =
   (map_sum id (\<lambda>rows. map unmark_row r1 @ rows) (fst (unmark (m s))), snd (unmark (m s)))"
  by (simp add: unmark_def bind_m_def split: prod.split sum.split)

lemma feed_append:
  assumes "sane s"
  shows "unmark (feed cfg (a @ b) final s) = unmark (then_rows (feed cfg a False) (feed cfg b final) s)"
proof (cases "a = []")
  case True
  then show ?thesis by (simp add: then_rows_Nil [OF feed_nothing])
next
  case False
  have a: "feed cfg a False s = feed_open cfg a False s"
    by (simp add: feed_def bind_m_def split: prod.split sum.split)
  have ab: "feed_open cfg (a @ b) final s = then_rows (feed_open cfg a False) (feed_open cfg b False) s"
    using False feed_open_append [OF assms, of cfg a b] feed_open_fin [of "a @ b" cfg final s] by simp
  show ?thesis
  proof (cases "feed_open cfg a False s")
    case (Pair r s1)
    show ?thesis
    proof (cases r)
      case (Inl e)
      then show ?thesis using Pair a ab by (simp add: feed_def then_rows_def bind_m_def)
    next
      case (Inr r1)
      let ?pre = "\<lambda>m. bind_m m (\<lambda>r2. return_m (r1 @ r2)) s1"
      have rhs: "then_rows (feed cfg a False) (feed cfg b final) s = ?pre (feed cfg b final)"
        using Pair Inr a by (simp add: then_rows_def)
      have ab': "feed_open cfg (a @ b) final s = ?pre (feed_open cfg b False)"
        using ab Pair Inr by (simp add: then_rows_def)
      have sane: "sane s1" using wp_InrD [OF feed_open_sane [OF assms] Pair [unfolded Inr]] .
      show ?thesis
      proof (cases "b = [] \<and> final")
        case False
        then have b: "feed_open cfg b final s1 = feed_open cfg b False s1" using feed_open_fin [of b cfg final s1] by (cases "b = []") auto
        show ?thesis
        proof (cases "feed_open cfg b False s1")
          case (Pair x s2)
          show ?thesis
          proof (cases x)
            case (Inl e)
            then have "feed cfg (a @ b) final s = (Inl e, s2)" "feed cfg b final s1 = (Inl e, s2)"
              using ab' b Pair by (simp_all add: feed_def)
            then show ?thesis using rhs by simp
          next
            case (Inr r2)
            then have "feed cfg (a @ b) final s = (if final \<and> \<not> t_stopped s2 then end_of_source cfg (r1 @ r2) s2 else (Inr (r1 @ r2), s2))"
              "feed cfg b final s1 = (if final \<and> \<not> t_stopped s2 then end_of_source cfg r2 s2 else (Inr r2, s2))"
              using ab' b Pair by (simp_all add: feed_def)
            moreover have "?pre (feed cfg b final) = bind_m m (\<lambda>r2. return_m (r1 @ r2)) s2" if "feed cfg b final s1 = m s2" for m
              by (rule bind_m_cong) (simp_all add: that)
            note this [of "end_of_source cfg r2"] this [of "return_m r2"]
            ultimately show ?thesis using rhs end_of_source_prefix [of cfg r1 r2 s2]
              by (cases "final \<and> \<not> t_stopped s2") simp_all
          qed
        qed
      next
        case True
        have "feed_open cfg b False s1 = (Inr [], s1)" using True by (simp add: feed_open_def)
        then have lhs: "feed cfg (a @ b) final s = (if t_stopped s1 then (Inr r1, s1) else end_of_source cfg r1 s1)"
          using ab' True by (simp add: feed_def bind_m_def)
        have quiet: "feed cfg [] True s1 = (if t_stopped s1 then (Inr [], s1) else end_of_source cfg [] s1)"
          if "\<not> t_pending_cr s1" using that by (simp add: feed_def feed_open_def bind_m_def)
        have "unmark (feed cfg [] True s1) = unmark (end_of_source cfg [] s1)" if "\<not> t_stopped s1"
          using that quiet end_of_source_pending by (cases "t_pending_cr s1") auto
        moreover have "unmark (?pre m) = unmark (?pre m')" if "unmark (m s1) = unmark (m' s1)" for m m'
          using that by (simp add: unmark_prefix)
        ultimately have "unmark (?pre (feed cfg [] True)) = unmark (?pre (end_of_source cfg []))" if "\<not> t_stopped s1"
          using that by blast
        moreover have "?pre (feed cfg [] True) = (Inr r1, s1)" if "t_stopped s1"
          using that quiet sane by simp
        ultimately show ?thesis using lhs rhs True end_of_source_prefix [of cfg r1 "[]" s1]
          by (cases "t_stopped s1") simp_all
      qed
    qed
  qed
qed

lemma source_tail_sane: "wp (source_tail cfg) (\<lambda>_ s'. \<not> t_pending_cr s') (\<lambda>_ _. True) s"
proof -
  have emit: "t_pending_cr s' = t_pending_cr s" if "emit_row cfg n k s = (Inr r, s')" for n k r s s'
    using that by (auto simp: tok_defs bind_m_def Let_def reset_record_def split: prod.splits sum.splits if_splits)
  have "wp (consume_newline cfg [13]) (\<lambda>_ s'. \<not> t_pending_cr s') (\<lambda>_ _. True) (s\<lparr>t_pending_cr := False\<rparr>)"
    by (rule newline_quiet) simp
  then show ?thesis
    by (auto simp: source_tail_def collect_def wp_def bind_m_def split: prod.splits sum.splits if_splits dest!: emit)
qed

lemma feed_sane:
  assumes "sane s"
  shows "wp (feed cfg b fin) (\<lambda>_. sane) (\<lambda>_ _. True) s"
proof -
  have "wp (end_of_source cfg rows) (\<lambda>_. sane) (\<lambda>_ _. True) s'" for rows s'
    using source_tail_sane [of cfg s']
    by (auto simp: end_of_source_def wp_def bind_m_def Let_def split: prod.splits sum.splits)
  then show ?thesis using feed_open_sane [OF assms, of cfg b fin]
    by (auto simp: feed_def wp_def bind_m_def split: prod.splits sum.splits)
qed

lemma feed_stopped:
  assumes "t_stopped s" "sane s"
  shows "feed cfg b final s = (Inr [], s)"
  using assms by (simp add: feed_def feed_open_quiet feed_loop_stopped)

section \<open>Slices and chunks\<close>

text \<open>Agreement of a generator with one call of \<open>feed\<close>, up to the mark when the source ended.\<close>

definition agrees :: "bool \<Rightarrow> (csv_row list \<times> tok_error option) \<times> tok \<Rightarrow> (tok_error + csv_row list) \<times> tok \<Rightarrow> bool" where
  "agrees final out whole \<longleftrightarrow> (case (out, whole) of
     (((rows, err), s), (Inl e, t)) \<Rightarrow> err = Some e \<and> (if final then unmark_tok s = unmark_tok t else s = t)
   | (((rows, err), s), (Inr others, t)) \<Rightarrow> err = None \<and>
       (if final then map unmark_row rows = map unmark_row others \<and> unmark_tok s = unmark_tok t
        else rows = others \<and> s = t))"

lemma feed_False: "feed cfg a False = feed_open cfg a False"
  by (rule ext) (simp add: feed_def bind_m_def split: prod.split sum.split)

lemma feed_append_open: "sane s \<Longrightarrow> feed cfg (a @ b) False s = then_rows (feed cfg a False) (feed cfg b False) s"
  by (simp add: feed_False feed_open_append)

lemma agrees_error:
  assumes "sane s" "feed cfg a False s = (Inl e, s')"
  shows "agrees fin (([], Some e), s') (feed cfg (a @ b) fin s)"
proof -
  have "then_rows (feed cfg a False) (feed cfg b fin) s = (Inl e, s')" using assms(2) by (simp add: then_rows_def)
  then show ?thesis
    using feed_append [OF assms(1), of cfg a b fin] feed_append_open [OF assms(1), of cfg a b]
    by (cases "feed cfg (a @ b) fin s"; cases "fst (feed cfg (a @ b) fin s)"; cases fin) (auto simp: agrees_def unmark_def)
qed

lemma agrees_step:
  assumes "sane s" "feed cfg a False s = (Inr r1, s1)" "agrees fin ((rows, err), s2) (feed cfg b fin s1)"
  shows "agrees fin ((r1 @ rows, err), s2) (feed cfg (a @ b) fin s)"
proof -
  have eq: "then_rows (feed cfg a False) (feed cfg b fin) s = bind_m (feed cfg b fin) (\<lambda>r2. return_m (r1 @ r2)) s1"
    using assms(2) by (simp add: then_rows_def)
  obtain r t where whole: "feed cfg (a @ b) fin s = (r, t)" by fastforce
  obtain r' t' where rest: "feed cfg b fin s1 = (r', t')" by fastforce
  have "unmark (r, t) = unmark (bind_m (feed cfg b fin) (\<lambda>r2. return_m (r1 @ r2)) s1)"
    using feed_append [OF assms(1), of cfg a b fin] eq whole by simp
  moreover have "(r, t) = bind_m (feed cfg b fin) (\<lambda>r2. return_m (r1 @ r2)) s1" if "\<not> fin"
    using feed_append_open [OF assms(1), of cfg a b] eq whole that by simp
  ultimately show ?thesis using assms(3) whole rest
    by (cases r; cases r'; cases fin) (auto simp: agrees_def unmark_def bind_m_def)
qed

lemma agrees_whole [simp]:
  "agrees fin (([], Some e), t) (Inl e, t)" "agrees fin ((rows, None), t) (Inr rows, t)"
  by (simp_all add: agrees_def)

definition slice_count :: "nat \<Rightarrow> nat" where
  "slice_count n = (n + slice_chars - 1) div slice_chars"

lemma slice_chars_pos [simp]: "0 < slice_chars"
  by (simp add: slice_chars_def)

lemma slice_bounds:
  assumes "k < slice_count n"
  shows "k * slice_chars < n" "Suc k = slice_count n \<longleftrightarrow> n \<le> Suc k * slice_chars"
proof -
  have "n + slice_chars - 1 = n + (slice_chars - 1)" by (simp add: slice_chars_def)
  then have "slice_count n = (n + (slice_chars - 1)) div slice_chars" by (simp add: slice_count_def)
  then show "k * slice_chars < n" "Suc k = slice_count n \<longleftrightarrow> n \<le> Suc k * slice_chars"
    using assms by (auto simp: slice_chars_def)
qed

lemma row_slices_agree:
  assumes "k < slice_count (length str)" "sane s"
  shows "agrees fin (row_slices cfg str fin (map (\<lambda>i. i * slice_chars) [k..<slice_count (length str)]) s)
    (feed cfg (drop (k * slice_chars) str) fin s)"
  using assms
proof (induction "slice_count (length str) - k" arbitrary: k s)
  case (Suc m)
  let ?n = "slice_count (length str)" and ?rest = "drop (k * slice_chars) str"
  let ?stop = "min (k * slice_chars + slice_chars) (length str)"
  have upt: "[k..<?n] = k # [Suc k..<?n]" using Suc.prems(1) by (rule upt_conv_Cons)
  note b = slice_bounds [OF Suc.prems(1)]
  show ?case
  proof (cases "Suc k = ?n")
    case True
    then have "?stop = length str" using b by simp
    then show ?thesis using upt True by (auto simp: Let_def split: prod.split sum.split)
  next
    case False
    let ?a = "take slice_chars ?rest" and ?b = "drop (Suc k * slice_chars) str"
    have e: "?stop = k * slice_chars + slice_chars" "k * slice_chars + slice_chars \<noteq> length str" using b False by auto
    have ab: "?rest = ?a @ ?b" by (metis append_take_drop_id drop_drop mult_Suc)
    have k: "Suc k < ?n" "m = ?n - Suc k" using False Suc by auto
    show ?thesis
    proof (cases "feed cfg ?a False s")
      case (Pair r s1)
      show ?thesis
      proof (cases r)
        case (Inl x)
        have "agrees fin (([], Some x), s1) (feed cfg (?a @ ?b) fin s)"
          by (rule agrees_error [OF Suc.prems(2)]) (use Pair Inl in simp)
        then show ?thesis using Pair Inl upt e ab by (simp add: Let_def)
      next
        case (Inr r1)
        have "sane s1" using wp_InrD [OF feed_sane [OF Suc.prems(2)] Pair [unfolded Inr]] .
        note IH = Suc.hyps(1) [OF k(2) k(1) this]
        obtain rows err s2 where rest: "row_slices cfg str fin (map (\<lambda>i. i * slice_chars) [Suc k..<?n]) s1 = ((rows, err), s2)"
          by (metis surj_pair)
        have "agrees fin ((r1 @ rows, err), s2) (feed cfg (?a @ ?b) fin s)"
          by (rule agrees_step [OF Suc.prems(2)]) (use Pair Inr IH rest in simp_all)
        then show ?thesis using Pair Inr upt e ab rest by (simp add: Let_def)
      qed
    qed
  qed
qed simp

lemma starts_eq: "starts n = map (\<lambda>i. i * slice_chars) [0..<slice_count n]"
  by (simp add: starts_def slice_count_def)

lemma whole_slices_agree:
  assumes "sane s"
  shows "agrees fin (row_slices cfg str fin (if str = [] then [0] else starts (length str)) s) (feed cfg str fin s)"
proof (cases "str = []")
  case True
  then show ?thesis by (auto split: prod.split sum.split)
next
  case False
  then have "0 < slice_count (length str)" by (auto simp: slice_count_def slice_chars_def div_greater_zero_iff Suc_le_eq)
  then show ?thesis using row_slices_agree [of 0 str s fin cfg] False assms by (simp add: starts_eq)
qed

lemma tokenized_rows_agree:
  "sane s \<Longrightarrow> agrees True (tokenized_rows cfg (map (\<lambda>c. (c, False)) cs @ [(c, True)]) s) (feed cfg (concat cs @ c) True s)"
proof (induction cs arbitrary: s)
  case Nil
  then show ?case using whole_slices_agree [of s True cfg c] by (auto split: prod.split option.split)
next
  case (Cons a cs)
  let ?slices = "row_slices cfg a False (if a = [] then [0] else starts (length a)) s"
  obtain r t where a: "feed cfg a False s = (r, t)" by fastforce
  have first: "agrees False ?slices (r, t)" using whole_slices_agree [OF Cons.prems, of False cfg a] a by simp
  show ?case
  proof (cases r)
    case (Inl e)
    then obtain rows where "?slices = ((rows, Some e), t)" using first by (auto simp: agrees_def split: prod.splits)
    moreover have "agrees True (([], Some e), t) (feed cfg (a @ (concat cs @ c)) True s)"
      by (rule agrees_error [OF Cons.prems]) (use a Inl in simp)
    ultimately show ?thesis by (auto simp: agrees_def split: prod.splits sum.splits)
  next
    case (Inr r1)
    then have sl: "?slices = ((r1, None), t)" using first by (auto simp: agrees_def split: prod.splits)
    have "sane t" using wp_InrD [OF feed_sane [OF Cons.prems] a [unfolded Inr]] .
    note IH = Cons.IH [OF this]
    obtain rows err s2 where rest: "tokenized_rows cfg (map (\<lambda>c. (c, False)) cs @ [(c, True)]) t = ((rows, err), s2)"
      by (metis surj_pair)
    have "agrees True ((r1 @ rows, err), s2) (feed cfg (a @ (concat cs @ c)) True s)"
      by (rule agrees_step [OF Cons.prems]) (use a Inr IH rest in simp_all)
    then show ?thesis using sl rest by simp
  qed
qed

lemma row_slices_stopped:
  "t_stopped s \<Longrightarrow> sane s \<Longrightarrow> row_slices cfg str fin ks s = (([], None), s)"
  by (induction ks) (simp_all add: feed_stopped Let_def)

lemma feed_slices_eq:
  "sane s \<Longrightarrow> feed_slices cfg str fin ks s = (case row_slices cfg str fin ks s of
     ((rows, None), t) \<Rightarrow> (Inr (), t) | ((rows, Some e), t) \<Rightarrow> (Inl e, t))"
proof (induction ks arbitrary: s)
  case (Cons k ks)
  let ?stop = "min (k + slice_chars) (length str)"
  obtain r t where a: "feed cfg (take (?stop - k) (drop k str)) (fin \<and> ?stop = length str) s = (r, t)" by fastforce
  show ?case
  proof (cases r)
    case (Inr r1)
    have "sane t" using wp_InrD [OF feed_sane [OF Cons.prems] a [unfolded Inr]] .
    then show ?thesis using a Inr Cons.IH [of t] row_slices_stopped [of t]
      by (auto simp: Let_def split: prod.split option.split)
  qed (use a in \<open>simp add: Let_def\<close>)
qed simp

section \<open>Properties\<close>

definition observed :: "(tok_error + 'a) \<times> tok \<Rightarrow> (tok_error + unit) \<times> tok" where
  "observed out = (map_sum id (\<lambda>_. ()) (fst out), unmark_tok (snd out))"

lemma sane_new_tok [simp]: "sane new_tok"
  by (simp add: new_tok_def)

lemma observed_slices:
  "observed (feed_detection_text cfg sample final new_tok) = observed (feed cfg sample final new_tok)"
proof (cases "sample = []")
  case True
  then show ?thesis
    by (simp add: feed_detection_text_def observed_def bind_m_def split: prod.split sum.split)
next
  case False
  have "agrees final (row_slices cfg sample final (starts (length sample)) new_tok) (feed cfg sample final new_tok)"
    using whole_slices_agree [OF sane_new_tok, of final cfg sample] False by simp
  moreover obtain r t where "feed cfg sample final new_tok = (r, t)" by fastforce
  ultimately show ?thesis using False
    by (cases r; cases final)
      (auto simp: feed_detection_text_def feed_slices_eq [OF sane_new_tok] agrees_def observed_def split: prod.splits option.splits)
qed

text \<open>Detecting the dialect of a sample in slices of 4096 characters is the same as feeding the whole
  sample at once: the same error with its record and line number, and the same completed rows, line
  numbers, quote, escape and delimiter counts (the mark on the last row apart). A carriage return at
  the end of a slice is the case that makes this more than a concatenation.\<close>

theorem detection_slices_invisible:
  "observed (feed_detection_text cfg sample final new_tok) = observed (feed cfg sample final new_tok)"
  by (rule observed_slices)


end
