(* ===== verification/Delimited_Roundtrip.thy ===== *)
theory Delimited_Roundtrip
  imports Delimited_Chunks
begin

text \<open>
  Reading back what a writer of the dialect wrote. The writer quotes every field and protects quote
  and escape characters the way the dialect allows; the tokenizer returns the field values, line
  breaks inside fields included.
\<close>

section \<open>A writer\<close>

definition protect :: "dialect \<Rightarrow> nat \<Rightarrow> pystr" where
  "protect d c =
     (if Some c = d_quote d then (if d_double d then [c, c] else [the (d_escape d), c])
      else if Some c = d_escape d then [c, c] else [c])"

definition field_text :: "dialect \<Rightarrow> pystr \<Rightarrow> pystr" where
  "field_text d v = [the (d_quote d)] @ concat (map (protect d) v) @ [the (d_quote d)]"

fun row_text :: "dialect \<Rightarrow> pystr list \<Rightarrow> pystr" where
  "row_text d [] = [10]"
| "row_text d [v] = field_text d v @ [10]"
| "row_text d (v # w # vs) = field_text d v @ [d_delimiter d] @ row_text d (w # vs)"

definition writable :: "dialect \<Rightarrow> bool" where
  "writable d \<longleftrightarrow> d_quote d \<noteq> None \<and> (d_double d \<or> d_escape d \<noteq> None) \<and>
     Some (d_delimiter d) \<noteq> d_quote d \<and> Some (d_delimiter d) \<noteq> d_escape d \<and> d_quote d \<noteq> d_escape d \<and>
     (\<forall>c \<in> {0, 10, 13}. Some c \<notin> {Some (d_delimiter d), d_quote d, d_escape d})"

definition breaks :: "pystr \<Rightarrow> nat" where
  "breaks s = length (filter (\<lambda>c. c = 10 \<or> c = 13) s)"

lemma breaks_simps [simp]: "breaks [] = 0" "breaks (c # s) = (if c = 10 \<or> c = 13 then Suc (breaks s) else breaks s)"
  "breaks (s @ t) = breaks s + breaks t"
  by (simp_all add: breaks_def)

section \<open>States while reading it back\<close>

text \<open>
  \<open>k\<close> more characters fit into the record, \<open>b\<close> more line breaks into the source; the fields so far have
  the values \<open>vs\<close>.
\<close>

definition in_row :: "config \<Rightarrow> pystr list \<Rightarrow> pystr \<Rightarrow> nat \<Rightarrow> nat \<Rightarrow> nat \<Rightarrow> tok \<Rightarrow> bool" where
  "in_row cfg vs v n k b s \<longleftrightarrow> map f_value (t_fields s) = vs \<and> t_field s = v \<and> t_field_chars s = length v \<and>
     t_field_count s = length vs \<and> \<not> t_escaping s \<and> \<not> t_stopped s \<and> \<not> t_pending_cr s \<and>
     t_record_count s = n \<and> n < c_max_records cfg \<and> t_record_chars s + k \<le> l_max_record_chars (c_limits cfg) \<and>
     t_line_chars s + k \<le> l_max_line_chars (c_limits cfg) \<and> t_line s + b \<le> l_max_lines (c_limits cfg) + 1 \<and>
     \<not> c_shape_only cfg \<and> c_stop_after cfg = None"

definition quoting :: "config \<Rightarrow> pystr list \<Rightarrow> pystr \<Rightarrow> nat \<Rightarrow> nat \<Rightarrow> nat \<Rightarrow> tok \<Rightarrow> bool" where
  "quoting cfg vs v n k b s \<longleftrightarrow> in_row cfg vs v n k b s \<and> t_in_quotes s \<and> \<not> t_after_quote s \<and> t_row_started s"

definition closed :: "config \<Rightarrow> pystr list \<Rightarrow> pystr \<Rightarrow> nat \<Rightarrow> nat \<Rightarrow> nat \<Rightarrow> tok \<Rightarrow> bool" where
  "closed cfg vs v n k b s \<longleftrightarrow> in_row cfg vs v n k b s \<and> \<not> t_in_quotes s \<and> t_after_quote s \<and> t_row_started s"

definition at_field :: "config \<Rightarrow> pystr list \<Rightarrow> nat \<Rightarrow> nat \<Rightarrow> nat \<Rightarrow> tok \<Rightarrow> bool" where
  "at_field cfg vs n k b s \<longleftrightarrow> in_row cfg vs [] n k b s \<and> \<not> t_in_quotes s \<and> \<not> t_after_quote s \<and> \<not> t_field_started s"

lemma step_character:
  assumes "wp (consume_character cfg c) (\<lambda>_. P) (\<lambda>_ _. False) s" "\<not> t_stopped s" "c \<noteq> 10" "c \<noteq> 13"
  shows "\<exists>s'. feed_loop cfg (c # rest) s = feed_loop cfg rest s' \<and> P s'"
  using assms by (auto simp: wp_def bind_m_def split: prod.splits sum.splits)

lemma step_newline:
  assumes "wp (consume_newline cfg nl) (\<lambda>r s'. r = None \<and> P s') (\<lambda>_ _. False) s" "\<not> t_stopped s"
    and "nl = [10] \<or> nl = [13, 10] \<or> (nl = [13] \<and> rest \<noteq> [] \<and> hd rest \<noteq> 10)"
  shows "\<exists>s'. feed_loop cfg (nl @ rest) s = feed_loop cfg rest s' \<and> P s'"
proof -
  obtain x s' where x: "consume_newline cfg nl s = (x, s')" by fastforce
  have "feed_loop cfg (nl @ rest) s = collect (consume_newline cfg nl) (feed_loop cfg rest) s"
    using assms(2,3) by (cases rest) auto
  moreover have "collect (consume_newline cfg nl) (feed_loop cfg rest) s = feed_loop cfg rest s'" "P s'"
    using assms(1) x by (cases x; auto simp: wp_def collect_def bind_m_def split: prod.split sum.split)+
  ultimately show ?thesis by auto
qed

declare feed_loop.simps(2) [simp del]

section \<open>Single characters\<close>

lemma open_quote:
  assumes "at_field cfg vs n (Suc k) b s" "writable (c_dialect cfg)" "1 \<le> b"
  shows "wp (consume_character cfg (the (d_quote (c_dialect cfg)))) (\<lambda>_. quoting cfg vs [] n k b) (\<lambda>_ _. False) s"
  using assms
  by (auto simp: at_field_def quoting_def in_row_def writable_def tok_defs wp_def bind_m_def Let_def)

lemma plain_in_quotes:
  assumes "quoting cfg vs v n (Suc k) b s" "1 \<le> b" "c \<noteq> 0" "Some c \<noteq> d_quote (c_dialect cfg)" "Some c \<noteq> d_escape (c_dialect cfg)"
    and "length v < l_max_field_size (c_limits cfg)"
  shows "wp (consume_character cfg c) (\<lambda>_. quoting cfg vs (v @ [c]) n k b) (\<lambda>_ _. False) s"
  using assms by (auto simp: quoting_def in_row_def tok_defs wp_def bind_m_def Let_def)

lemma close_quote:
  assumes "quoting cfg vs v n (Suc k) b s" "writable (c_dialect cfg)" "1 \<le> b"
  shows "wp (consume_character cfg (the (d_quote (c_dialect cfg)))) (\<lambda>_. closed cfg vs v n k b) (\<lambda>_ _. False) s"
  using assms by (auto simp: quoting_def closed_def in_row_def writable_def tok_defs wp_def bind_m_def Let_def)

lemma quote_again:
  assumes "closed cfg vs v n (Suc k) b s" "writable (c_dialect cfg)" "1 \<le> b" "d_double (c_dialect cfg)"
    and "length v < l_max_field_size (c_limits cfg)"
  shows "wp (consume_character cfg (the (d_quote (c_dialect cfg))))
    (\<lambda>_. quoting cfg vs (v @ [the (d_quote (c_dialect cfg))]) n k b) (\<lambda>_ _. False) s"
  using assms by (auto simp: quoting_def closed_def in_row_def writable_def tok_defs wp_def bind_m_def Let_def)

definition escaped_at :: "config \<Rightarrow> pystr list \<Rightarrow> pystr \<Rightarrow> nat \<Rightarrow> nat \<Rightarrow> nat \<Rightarrow> tok \<Rightarrow> bool" where
  "escaped_at cfg vs v n k b s \<longleftrightarrow> quoting cfg vs v n k b (s\<lparr>t_escaping := False\<rparr>) \<and> t_escaping s"

lemma escape_char:
  assumes "quoting cfg vs v n (Suc k) b s" "writable (c_dialect cfg)" "1 \<le> b" "Some e = d_escape (c_dialect cfg)" "e \<noteq> 0"
  shows "wp (consume_character cfg e) (\<lambda>_. escaped_at cfg vs v n k b) (\<lambda>_ _. False) s"
  using assms by (auto simp: quoting_def escaped_at_def in_row_def writable_def tok_defs wp_def bind_m_def Let_def)

lemma after_escape:
  assumes "escaped_at cfg vs v n (Suc k) b s" "writable (c_dialect cfg)" "1 \<le> b"
    and "Some c = d_quote (c_dialect cfg) \<or> Some c = d_escape (c_dialect cfg)" "length v < l_max_field_size (c_limits cfg)" "c \<noteq> 0"
  shows "wp (consume_character cfg c) (\<lambda>_. quoting cfg vs (v @ [c]) n k b) (\<lambda>_ _. False) s"
  using assms by (auto simp: quoting_def escaped_at_def in_row_def writable_def tok_defs wp_def bind_m_def Let_def)

lemma break_in_quotes:
  assumes "quoting cfg vs v n (length nl + k) (Suc b) s" "1 \<le> b"
    and "length v + length nl \<le> l_max_field_size (c_limits cfg)"
  shows "wp (consume_newline cfg nl) (\<lambda>r s'. r = None \<and> quoting cfg vs (v @ nl) n k b s') (\<lambda>_ _. False) s"
  using assms by (auto simp: quoting_def in_row_def tok_defs wp_def bind_m_def Let_def)

lemma next_field:
  assumes "closed cfg vs v n (Suc k) b s" "writable (c_dialect cfg)" "1 \<le> b" "Suc (length vs) < l_max_columns (c_limits cfg)"
  shows "wp (consume_character cfg (d_delimiter (c_dialect cfg))) (\<lambda>_. at_field cfg (vs @ [v]) n k b) (\<lambda>_ _. False) s"
  using assms by (auto simp: closed_def at_field_def in_row_def writable_def tok_defs wp_def bind_m_def Let_def)

definition at_row :: "config \<Rightarrow> nat \<Rightarrow> nat \<Rightarrow> tok \<Rightarrow> bool" where
  "at_row cfg n b s \<longleftrightarrow> t_fields s = [] \<and> t_field s = [] \<and> t_field_chars s = 0 \<and> t_field_count s = 0 \<and>
     \<not> t_escaping s \<and> \<not> t_stopped s \<and> \<not> t_pending_cr s \<and> \<not> t_in_quotes s \<and> \<not> t_after_quote s \<and>
     \<not> t_field_started s \<and> \<not> t_row_started s \<and> t_record_count s = n \<and> t_record_chars s = 0 \<and> t_line_chars s = 0 \<and>
     t_line s + b \<le> l_max_lines (c_limits cfg) + 1"

lemma end_row:
  assumes "closed cfg vs v n k (Suc b) s" "length vs < l_max_columns (c_limits cfg)"
  shows "wp (consume_newline cfg [10]) (\<lambda>r s'. at_row cfg (Suc n) b s' \<and>
      (\<exists>row. r = Some row \<and> map f_value (r_fields row) = vs @ [v])) (\<lambda>_ _. False) s"
  using assms by (auto simp: closed_def at_row_def in_row_def tok_defs wp_def bind_m_def Let_def row_open_def reset_record_def)

section \<open>Fields and rows\<close>

lemma writable_special:
  "writable d \<Longrightarrow> Some c = d_quote d \<or> Some c = d_escape d \<or> c = d_delimiter d \<Longrightarrow> c \<noteq> 0 \<and> c \<noteq> 10 \<and> c \<noteq> 13"
  by (cases "d_escape d") (auto simp: writable_def)

lemma quoting_less: "quoting cfg vs v n k (Suc b) s \<Longrightarrow> quoting cfg vs v n k b s"
  by (auto simp: quoting_def in_row_def)

lemma in_row_running: "quoting cfg vs v n k b s \<Longrightarrow> \<not> t_stopped s" "closed cfg vs v n k b s \<Longrightarrow> \<not> t_stopped s"
  "escaped_at cfg vs v n k b s \<Longrightarrow> \<not> t_stopped s" "at_field cfg vs n k b s \<Longrightarrow> \<not> t_stopped s"
  by (auto simp: quoting_def closed_def escaped_at_def at_field_def in_row_def)

lemma protected_char:
  assumes w: "writable (c_dialect cfg)" and b: "1 \<le> b" and c: "c \<noteq> 0" "c \<noteq> 10" "c \<noteq> 13"
    and q: "quoting cfg vs v n (length (protect (c_dialect cfg) c) + k) b s" and l: "length v < l_max_field_size (c_limits cfg)"
  shows "\<exists>s'. feed_loop cfg (protect (c_dialect cfg) c @ rest) s = feed_loop cfg rest s' \<and> quoting cfg vs (v @ [c]) n k b s'"
proof -
  let ?d = "c_dialect cfg"
  consider "Some c = d_quote ?d" "d_double ?d"
    | e where "protect ?d c = [e, c]" "Some e = d_escape ?d" "Some c = d_quote ?d \<or> Some c = d_escape ?d"
    | "protect ?d c = [c]" "Some c \<noteq> d_quote ?d" "Some c \<noteq> d_escape ?d"
  proof -
    assume a: "Some c = d_quote ?d \<Longrightarrow> d_double ?d \<Longrightarrow> thesis"
      "\<And>e. protect ?d c = [e, c] \<Longrightarrow> Some e = d_escape ?d \<Longrightarrow> Some c = d_quote ?d \<or> Some c = d_escape ?d \<Longrightarrow> thesis"
      "protect ?d c = [c] \<Longrightarrow> Some c \<noteq> d_quote ?d \<Longrightarrow> Some c \<noteq> d_escape ?d \<Longrightarrow> thesis"
    have "protect ?d c = [the (d_escape ?d), c]" "Some (the (d_escape ?d)) = d_escape ?d"
      if "Some c = d_quote ?d" "\<not> d_double ?d"
      using that w by (auto simp: protect_def writable_def)
    moreover have "protect ?d c = [c, c]" if "Some c \<noteq> d_quote ?d" "Some c = d_escape ?d"
      using that by (simp add: protect_def)
    moreover have "protect ?d c = [c]" if "Some c \<noteq> d_quote ?d" "Some c \<noteq> d_escape ?d"
      using that by (simp add: protect_def)
    ultimately show thesis using a by blast
  qed
  then show ?thesis
  proof cases
    case 1
    then have qc: "the (d_quote ?d) = c" and p: "protect ?d c = [c, c]" by (auto simp: protect_def split: option.splits) (metis option.sel)+
    then have q': "quoting cfg vs v n (Suc (Suc k)) b s" using q by simp
    obtain s1 where s1: "feed_loop cfg (c # c # rest) s = feed_loop cfg (c # rest) s1" "closed cfg vs v n (Suc k) b s1"
      using step_character [OF close_quote [OF q' w b, unfolded qc] in_row_running(1) [OF q'] c(2,3), of "c # rest"] by blast
    obtain s2 where "feed_loop cfg (c # rest) s1 = feed_loop cfg rest s2" "quoting cfg vs (v @ [c]) n k b s2"
      using step_character [OF quote_again [OF s1(2) w b 1(2) l, unfolded qc] in_row_running(2) [OF s1(2)] c(2,3), of rest] by blast
    then show ?thesis using s1 p by auto
  next
    case (2 e)
    have e: "e \<noteq> 0" "e \<noteq> 10" "e \<noteq> 13" using writable_special [OF w, of e] 2(2) by auto
    have q': "quoting cfg vs v n (Suc (Suc k)) b s" using q 2(1) by simp
    obtain s1 where s1: "feed_loop cfg (e # c # rest) s = feed_loop cfg (c # rest) s1" "escaped_at cfg vs v n (Suc k) b s1"
      using step_character [OF escape_char [OF q' w b 2(2) e(1)] in_row_running(1) [OF q'] e(2,3), of "c # rest"] by blast
    obtain s2 where "feed_loop cfg (c # rest) s1 = feed_loop cfg rest s2" "quoting cfg vs (v @ [c]) n k b s2"
      using step_character [OF after_escape [OF s1(2) w b 2(3) l c(1)] in_row_running(3) [OF s1(2)] c(2,3), of rest] by blast
    then show ?thesis using s1 2(1) by auto
  next
    case 3
    have q': "quoting cfg vs v n (Suc k) b s" using q 3(1) by simp
    show ?thesis using step_character [OF plain_in_quotes [OF q' b c(1) 3(2,3) l] in_row_running(1) [OF q'] c(2,3), of rest] 3(1) by simp
  qed
qed

lemma protect_break:
  assumes "writable d" "c = 10 \<or> c = 13"
  shows "protect d c = [c]"
  using assms by (auto simp: protect_def writable_def)

lemma protect_hd: "writable d \<Longrightarrow> c \<noteq> 10 \<Longrightarrow> protect d c \<noteq> [] \<and> hd (protect d c) \<noteq> 10"
  by (cases "d_escape d") (auto simp: protect_def writable_def)

lemma protect_breaks: "writable d \<Longrightarrow> c \<noteq> 10 \<Longrightarrow> c \<noteq> 13 \<Longrightarrow> breaks (protect d c) = 0"
  by (cases "d_escape d") (auto simp: protect_def writable_def)

lemma field_body:
  assumes w: "writable (c_dialect cfg)" and b: "1 \<le> b" and rest: "rest \<noteq> [] \<and> hd rest \<noteq> 10"
  shows "list_all (\<lambda>c. c \<noteq> 0) v \<Longrightarrow> length u + length v \<le> l_max_field_size (c_limits cfg) \<Longrightarrow>
    quoting cfg vs u n (length (concat (map (protect (c_dialect cfg)) v)) + k) (breaks (concat (map (protect (c_dialect cfg)) v)) + b) s \<Longrightarrow>
    \<exists>s'. feed_loop cfg (concat (map (protect (c_dialect cfg)) v) @ rest) s = feed_loop cfg rest s' \<and> quoting cfg vs (u @ v) n k b s'"
proof (induction v arbitrary: u s rule: length_induct)
  case (1 v)
  let ?p = "\<lambda>v. concat (map (protect (c_dialect cfg)) v)"
  have IH: "\<exists>s'. feed_loop cfg (?p v' @ rest) t = feed_loop cfg rest s' \<and> quoting cfg vs (u' @ v') n k b s'"
    if "length v' < length v" "list_all (\<lambda>c. c \<noteq> 0) v'" "length u' + length v' \<le> l_max_field_size (c_limits cfg)"
      "quoting cfg vs u' n (length (?p v') + k) (breaks (?p v') + b) t" for v' u' t
    by (rule 1(1) [rule_format, OF that])
  have newline: ?case if v: "v = nl @ v'" and nl: "nl = [10] \<or> nl = [13, 10] \<or> (nl = [13] \<and> (v' = [] \<or> hd v' \<noteq> 10))" for nl v'
  proof -
    have p: "?p v = nl @ ?p v'" using v nl protect_break [OF w] by auto
    have "quoting cfg vs u n (length nl + (length (?p v') + k)) (breaks nl + (breaks (?p v') + b)) s"
      using 1(4) p by (simp add: add.assoc)
    then have q: "quoting cfg vs u n (length nl + (length (?p v') + k)) (Suc (breaks (?p v') + b)) s"
      using nl quoting_less by auto
    have ok: "1 \<le> breaks (?p v') + b" "length u + length nl \<le> l_max_field_size (c_limits cfg)" using b 1(3) v by auto
    have side: "nl = [10] \<or> nl = [13, 10] \<or> (nl = [13] \<and> ?p v' @ rest \<noteq> [] \<and> hd (?p v' @ rest) \<noteq> 10)"
      using nl rest protect_hd [OF w] by (cases v') (auto simp: hd_append)
    obtain t where t: "feed_loop cfg (nl @ ?p v' @ rest) s = feed_loop cfg (?p v' @ rest) t"
      "quoting cfg vs (u @ nl) n (length (?p v') + k) (breaks (?p v') + b) t"
      using step_newline [OF break_in_quotes [OF q ok] in_row_running(1) [OF q] side] by blast
    obtain s' where "feed_loop cfg (?p v' @ rest) t = feed_loop cfg rest s'" "quoting cfg vs ((u @ nl) @ v') n k b s'"
      using IH [of v' "u @ nl" t] t(2) 1(2,3) v nl by auto
    then show ?case using t(1) p v by auto
  qed
  consider "v = []" | v' where "v = [10] @ v'" | v' where "v = [13, 10] @ v'" | v' where "v = [13] @ v'" "v' = [] \<or> hd v' \<noteq> 10"
    | c v' where "v = c # v'" "c \<noteq> 10" "c \<noteq> 13"
    by (metis append_Cons append_Nil list.exhaust_sel)
  then show ?case
  proof cases
    case 1
    then show ?thesis using \<open>quoting _ _ _ _ _ _ _\<close> by auto
  next
    case (5 c v')
    have c: "c \<noteq> 0" "1 \<le> breaks (?p v') + b" "length u < l_max_field_size (c_limits cfg)" using 5 1(2,3) b by auto
    have "quoting cfg vs u n (length (protect (c_dialect cfg) c) + (length (?p v') + k)) (breaks (?p v') + b) s"
      using 1(4) 5 protect_breaks [OF w] by (simp add: add.assoc)
    from protected_char [OF w c(2,1) 5(2,3) this c(3)]
    obtain t where t: "feed_loop cfg (protect (c_dialect cfg) c @ ?p v' @ rest) s = feed_loop cfg (?p v' @ rest) t"
      "quoting cfg vs (u @ [c]) n (length (?p v') + k) (breaks (?p v') + b) t" by blast
    obtain s' where "feed_loop cfg (?p v' @ rest) t = feed_loop cfg rest s'" "quoting cfg vs ((u @ [c]) @ v') n k b s'"
      using IH [of v' "u @ [c]" t] t(2) 1(2,3) 5 by auto
    then show ?thesis using t(1) 5 by auto
  qed (use newline in blast)+
qed

lemma read_field:
  assumes w: "writable (c_dialect cfg)" and b: "1 \<le> b" and v: "list_all (\<lambda>c. c \<noteq> 0) v" "length v \<le> l_max_field_size (c_limits cfg)"
    and s: "at_field cfg vs n (length (field_text (c_dialect cfg) v) + k) (breaks (field_text (c_dialect cfg) v) + b) s"
  shows "\<exists>s'. feed_loop cfg (field_text (c_dialect cfg) v @ rest) s = feed_loop cfg rest s' \<and> closed cfg vs v n k b s'"
proof -
  let ?p = "concat (map (protect (c_dialect cfg)) v)" and ?q = "the (d_quote (c_dialect cfg))"
  have "Some ?q = d_quote (c_dialect cfg)" using w by (auto simp: writable_def)
  then have q: "?q \<noteq> 0" "?q \<noteq> 10" "?q \<noteq> 13" using writable_special [OF w] by blast+
  have s': "at_field cfg vs n (Suc (length ?p + (Suc k))) (breaks ?p + b) s" using s q by (simp add: field_text_def)
  obtain s1 where s1: "feed_loop cfg (?q # ?p @ ?q # rest) s = feed_loop cfg (?p @ ?q # rest) s1"
    "quoting cfg vs [] n (length ?p + Suc k) (breaks ?p + b) s1"
    using step_character [OF open_quote [OF s' w] in_row_running(4) [OF s'] q(2,3)] b by (meson trans_le_add2)
  obtain s2 where s2: "feed_loop cfg (?p @ ?q # rest) s1 = feed_loop cfg (?q # rest) s2" "quoting cfg vs v n (Suc k) b s2"
    using field_body [OF w b _ v(1), of "?q # rest" "[]" vs n "Suc k" s1] v(2) s1(2) q by auto
  obtain s3 where "feed_loop cfg (?q # rest) s2 = feed_loop cfg rest s3" "closed cfg vs v n k b s3"
    using step_character [OF close_quote [OF s2(2) w b] in_row_running(1) [OF s2(2)] q(2,3)] by blast
  then show ?thesis using s1(1) s2(1) by (auto simp: field_text_def)
qed

definition fits :: "config \<Rightarrow> pystr list \<Rightarrow> bool" where
  "fits cfg vs \<longleftrightarrow> vs \<noteq> [] \<and> length vs \<le> l_max_columns (c_limits cfg) \<and>
     list_all (\<lambda>v. list_all (\<lambda>c. c \<noteq> 0) v \<and> length v \<le> l_max_field_size (c_limits cfg)) vs \<and>
     length (row_text (c_dialect cfg) vs) \<le> min (l_max_record_chars (c_limits cfg)) (l_max_line_chars (c_limits cfg)) + 1"

lemma row_text_Suc: "length (row_text d vs) = Suc (length (row_text d vs) - 1)"
  by (induction d vs rule: row_text.induct) simp_all

lemma read_row:
  assumes w: "writable (c_dialect cfg)"
  shows "list_all (\<lambda>v. list_all (\<lambda>c. c \<noteq> 0) v \<and> length v \<le> l_max_field_size (c_limits cfg)) (v # ws) \<Longrightarrow>
    length vs + length (v # ws) \<le> l_max_columns (c_limits cfg) \<Longrightarrow>
    at_field cfg vs n (length (row_text (c_dialect cfg) (v # ws)) - 1) (breaks (row_text (c_dialect cfg) (v # ws)) + b) s \<Longrightarrow>
    \<exists>row s'. feed_loop cfg (row_text (c_dialect cfg) (v # ws) @ rest) s = bind_m (feed_loop cfg rest) (\<lambda>rows. return_m (row # rows)) s' \<and>
      map f_value (r_fields row) = vs @ v # ws \<and> at_row cfg (Suc n) b s'"
proof (induction ws arbitrary: v vs s)
  case Nil
  let ?d = "c_dialect cfg"
  have s: "at_field cfg vs n (length (field_text ?d v) + 0) (breaks (field_text ?d v) + Suc b) s" using Nil(3) by simp
  obtain s1 where s1: "feed_loop cfg (field_text ?d v @ 10 # rest) s = feed_loop cfg (10 # rest) s1" "closed cfg vs v n 0 (Suc b) s1"
    using read_field [OF w _ _ _ s, of "10 # rest"] Nil(1) by auto
  have "length vs < l_max_columns (c_limits cfg)" using Nil(2) by simp
  from end_row [OF s1(2) this] obtain row s2 where r: "consume_newline cfg [10] s1 = (Inr (Some row), s2)"
    "map f_value (r_fields row) = vs @ [v]" "at_row cfg (Suc n) b s2"
    by (auto simp: wp_def split: prod.splits sum.splits)
  have "feed_loop cfg (10 # rest) s1 = bind_m (feed_loop cfg rest) (\<lambda>rows. return_m (row # rows)) s2"
    using r(1) in_row_running(2) [OF s1(2)] by (simp add: feed_loop.simps(2) collect_def)
  then have "feed_loop cfg (row_text ?d [v] @ rest) s = bind_m (feed_loop cfg rest) (\<lambda>rows. return_m (row # rows)) s2"
    using s1(1) by simp
  then show ?case using r(2,3) by blast
next
  case (Cons x ws)
  let ?d = "c_dialect cfg"
  have s: "at_field cfg vs n (length (field_text ?d v) + Suc (length (row_text ?d (x # ws)) - 1)) (breaks (field_text ?d v) + (breaks (row_text ?d (x # ws)) + b)) s"
    using Cons.prems(3) row_text_Suc [of ?d "x # ws"] writable_special [OF w, of "d_delimiter ?d"] by (simp add: add.assoc)
  have b: "1 \<le> breaks (row_text ?d (x # ws)) + b"
  proof -
    have "0 < breaks (row_text ?d us)" for us by (induction ?d us rule: row_text.induct) simp_all
    then show ?thesis by (simp add: Suc_le_eq)
  qed
  obtain s1 where s1: "feed_loop cfg (field_text ?d v @ d_delimiter ?d # row_text ?d (x # ws) @ rest) s = feed_loop cfg (d_delimiter ?d # row_text ?d (x # ws) @ rest) s1"
    "closed cfg vs v n (Suc (length (row_text ?d (x # ws)) - 1)) (breaks (row_text ?d (x # ws)) + b) s1"
    using read_field [OF w b _ _ s] Cons.prems(1) by auto
  have "Suc (length vs) < l_max_columns (c_limits cfg)" using Cons.prems(2) by simp
  moreover have "d_delimiter ?d \<noteq> 10" "d_delimiter ?d \<noteq> 13" using writable_special [OF w, of "d_delimiter ?d"] by simp_all
  ultimately obtain s2 where s2: "feed_loop cfg (d_delimiter ?d # row_text ?d (x # ws) @ rest) s1 = feed_loop cfg (row_text ?d (x # ws) @ rest) s2"
    "at_field cfg (vs @ [v]) n (length (row_text ?d (x # ws)) - 1) (breaks (row_text ?d (x # ws)) + b) s2"
    using step_character [OF next_field [OF s1(2) w b] in_row_running(2) [OF s1(2)]] by blast
  have c: "length (vs @ [v]) + length (x # ws) \<le> l_max_columns (c_limits cfg)" using Cons.prems(2) by simp
  have p: "list_all (\<lambda>v. list_all (\<lambda>c. c \<noteq> 0) v \<and> length v \<le> l_max_field_size (c_limits cfg)) (x # ws)"
    using Cons.prems(1) by simp
  obtain row s' where "feed_loop cfg (row_text ?d (x # ws) @ rest) s2 = bind_m (feed_loop cfg rest) (\<lambda>rows. return_m (row # rows)) s'"
      "map f_value (r_fields row) = (vs @ [v]) @ x # ws" "at_row cfg (Suc n) b s'"
    using Cons.IH [OF p c s2(2)] by blast
  moreover from this have "feed_loop cfg (row_text ?d (v # x # ws) @ rest) s = bind_m (feed_loop cfg rest) (\<lambda>rows. return_m (row # rows)) s'"
    using s1(1) s2(1) by simp
  ultimately show ?case by (metis append.assoc append_Cons append_Nil)
qed

lemma read_rows:
  assumes w: "writable (c_dialect cfg)" and shape: "\<not> c_shape_only cfg" "c_stop_after cfg = None"
  shows "list_all (fits cfg) rows \<Longrightarrow> n + length rows \<le> c_max_records cfg \<Longrightarrow>
    at_row cfg n (breaks (concat (map (row_text (c_dialect cfg)) rows))) s \<Longrightarrow>
    \<exists>out s'. feed_loop cfg (concat (map (row_text (c_dialect cfg)) rows)) s = (Inr out, s') \<and>
      map (map f_value \<circ> r_fields) out = rows \<and> at_row cfg (n + length rows) 0 s'"
proof (induction rows arbitrary: n s)
  case (Cons r rows)
  let ?d = "c_dialect cfg" and ?rest = "concat (map (row_text (c_dialect cfg)) rows)"
  obtain v ws where r: "r = v # ws" using Cons.prems(1) by (cases r) (auto simp: fits_def)
  have f: "fits cfg (v # ws)" using Cons.prems(1) r by simp
  have "at_field cfg [] n (length (row_text ?d (v # ws)) - 1) (breaks (row_text ?d (v # ws)) + breaks ?rest) s"
    using Cons.prems r f shape by (auto simp: at_row_def at_field_def in_row_def fits_def)
  then obtain row s1 where s1: "feed_loop cfg (row_text ?d (v # ws) @ ?rest) s = bind_m (feed_loop cfg ?rest) (\<lambda>rows. return_m (row # rows)) s1"
      "map f_value (r_fields row) = v # ws" "at_row cfg (Suc n) (breaks ?rest) s1"
    using read_row [OF w, of v ws "[]"] f by (fastforce simp: fits_def)
  obtain out s' where "feed_loop cfg ?rest s1 = (Inr out, s')" "map (map f_value \<circ> r_fields) out = rows" "at_row cfg (Suc n + length rows) 0 s'"
    using Cons.IH [OF _ _ s1(3)] Cons.prems(1,2) by auto
  then show ?case using s1 r by auto
qed (auto simp: at_row_def)

text \<open>C11: What a writer of the dialect wrote is read back. For a dialect with a quote character and a way to
  protect it (doubling or an escape character), tokenizing the quoted text of any table whose rows fit
  the limits returns exactly the field values, including delimiters, quotes, escape characters, empty
  values and line breaks of every kind inside them.\<close>

theorem tokenize_written:
  assumes "writable (c_dialect cfg)" and "\<not> c_shape_only cfg" "c_stop_after cfg = None"
    and "list_all (fits cfg) rows" "length rows \<le> c_max_records cfg"
    and "breaks (concat (map (row_text (c_dialect cfg)) rows)) \<le> l_max_lines (c_limits cfg)"
  shows "\<exists>out s. feed cfg (concat (map (row_text (c_dialect cfg)) rows)) True new_tok = (Inr out, s) \<and>
    map (map f_value \<circ> r_fields) out = rows"
proof -
  have "at_row cfg 0 (breaks (concat (map (row_text (c_dialect cfg)) rows))) new_tok"
    using assms(6) by (simp add: at_row_def new_tok_def)
  then obtain out s' where o: "feed_loop cfg (concat (map (row_text (c_dialect cfg)) rows)) new_tok = (Inr out, s')"
    "map (map f_value \<circ> r_fields) out = rows" "at_row cfg (0 + length rows) 0 s'"
    using read_rows [OF assms(1-4), of 0 new_tok] assms(5) by auto
  have quiet: "\<not> t_pending_cr new_tok" by (simp add: new_tok_def)
  have "source_tail cfg s' = (Inr [], s')" using o(3) by (simp add: at_row_def source_tail_def collect_def row_open_def bind_m_def)
  then have "\<exists>t. end_of_source cfg out s' = (Inr (mark_last out), t)" by (simp add: end_of_source_def Let_def)
  moreover have "feed cfg (concat (map (row_text (c_dialect cfg)) rows)) True new_tok = end_of_source cfg out s'"
    using o(1,3) by (simp add: feed_def feed_open_quiet [OF quiet] bind_m_def at_row_def)
  moreover have "map (map f_value \<circ> r_fields) (mark_last out) = rows"
    using mark_last_map [of "map f_value \<circ> r_fields" out] o(2) by simp
  ultimately show ?thesis by auto
qed

text \<open>The table with the row of a quote with a comma and an empty value, and the row \<open>a\<close>.\<close>

theorem tokenize_written_witness:
  "\<exists>out s. feed ex_config ([34, 34, 34, 44, 34, 44, 34, 34, 10] @ [34, 97, 34, 10]) True new_tok = (Inr out, s) \<and>
     map (map f_value \<circ> r_fields) out = [[[34, 44], []], [[97]]]"
  using tokenize_written [of ex_config "[[[34, 44], []], [[97]]]"]
  by (simp add: ex_config_def ex_dialect_def ex_limits_def writable_def fits_def field_text_def protect_def)

end
