(* ===== verification/Delimited_Rows.thy ===== *)
theory Delimited_Rows
  imports Delimited_Chunks Parser_Selection
begin

text \<open>
  What the tokenizer delivers: every row within the limits and numbered without gaps, errors at real
  positions and in the vocabulary the reader boundary lets through, a mark on the last row of every
  complete source, and the agreement of the shape-only tokenizer of the dialect detection with the
  full one.
\<close>

section \<open>Limits and numbering\<close>

definition row_chars :: "csv_field list \<Rightarrow> nat" where
  "row_chars fs = sum_list (map (length \<circ> f_value) fs)"

definition row_within :: "config \<Rightarrow> csv_row \<Rightarrow> bool" where
  "row_within cfg r \<longleftrightarrow> (let l = c_limits cfg in
     r_index r < c_max_records cfg \<and> r_field_count r \<le> l_max_columns l \<and>
     (\<not> c_shape_only cfg \<longrightarrow> length (r_fields r) = r_field_count r) \<and>
     list_all (\<lambda>f. length (f_value f) \<le> l_max_field_size l) (r_fields r) \<and>
     row_chars (r_fields r) \<le> r_batch_chars r \<and> r_batch_chars r \<le> l_max_record_chars l + 2 \<and>
     1 \<le> r_line_start r \<and> r_line_start r \<le> r_line_end r \<and> r_line_end r \<le> l_max_lines l + 1)"

text \<open>\<open>k\<close> counted characters are not in a field yet.\<close>

definition tok_room :: "config \<Rightarrow> nat \<Rightarrow> tok \<Rightarrow> bool" where
  "tok_room cfg k s \<longleftrightarrow> (let l = c_limits cfg in
     t_record_count s \<le> c_max_records cfg \<and> t_field_count s \<le> l_max_columns l \<and>
     (\<not> c_shape_only cfg \<longrightarrow> length (t_fields s) = t_field_count s) \<and>
     length (t_field s) \<le> t_field_chars s \<and> t_field_chars s \<le> l_max_field_size l \<and>
     list_all (\<lambda>f. length (f_value f) \<le> l_max_field_size l) (t_fields s) \<and>
     row_chars (t_fields s) + length (t_field s) + k \<le> t_record_chars s \<and> t_record_chars s \<le> l_max_record_chars l \<and>
     1 \<le> t_start_line s \<and> t_start_line s \<le> t_line s \<and> 1 \<le> t_content_line s \<and> t_content_line s \<le> t_line s \<and>
     t_line s \<le> l_max_lines l + 1)"

abbreviation tok_within :: "config \<Rightarrow> tok \<Rightarrow> bool" where
  "tok_within cfg \<equiv> tok_room cfg 0"

lemma row_chars_simps [simp]: "row_chars [] = 0" "row_chars (fs @ [f]) = row_chars fs + length (f_value f)"
  by (simp_all add: row_chars_def)

text \<open>Rows delivered so far, between the first and the current record number, on increasing lines.\<close>

definition numbered :: "nat \<Rightarrow> csv_row list \<Rightarrow> nat \<Rightarrow> bool" where
  "numbered n rows m \<longleftrightarrow> n \<le> m \<and> map r_index rows = [n..<m] \<and>
     sorted_wrt (\<lambda>r r'. r_line_end r < r_line_start r') rows"

definition delivering :: "config \<Rightarrow> nat \<Rightarrow> csv_row list \<Rightarrow> tok \<Rightarrow> bool" where
  "delivering cfg n rows s \<longleftrightarrow> tok_within cfg s \<and> list_all (row_within cfg) rows \<and>
     numbered n rows (t_record_count s) \<and> list_all (\<lambda>r. r_line_end r < t_start_line s) rows"

definition delivered :: "config \<Rightarrow> nat \<Rightarrow> csv_row list \<Rightarrow> tok \<Rightarrow> bool" where
  "delivered cfg n rows s \<longleftrightarrow> tok_within cfg s \<and> list_all (row_within cfg) rows \<and> numbered n rows (t_record_count s)"

definition malformed_reasons :: "string list" where
  "malformed_reasons = [''binary_content'', ''dangling_escape'', ''invalid_escape'',
     ''unexpected_character_after_quote'', ''unexpected_quote'', ''unterminated_quote'']"

definition located :: "config \<Rightarrow> tok_error \<Rightarrow> tok \<Rightarrow> bool" where
  "located cfg e s \<longleftrightarrow> (case e of
     Malformed reason record line \<Rightarrow> reason \<in> set malformed_reasons \<and>
       1 \<le> record \<and> record \<le> c_max_records cfg + 1 \<and> 1 \<le> line \<and> line \<le> l_max_lines (c_limits cfg) + 1
   | Limit_Exceeded _ _ \<Rightarrow> True)"

lemma numbered_snoc:
  "numbered n rows m \<Longrightarrow> r_index r = m \<Longrightarrow> list_all (\<lambda>r'. r_line_end r' < r_line_start r) rows \<Longrightarrow>
     numbered n (rows @ [r]) (Suc m)"
  by (auto simp: numbered_def sorted_wrt_append list_all_iff)

lemma sorted_wrt_map: "map f xs = map f ys \<Longrightarrow> map g xs = map g ys \<Longrightarrow>
    sorted_wrt (\<lambda>r r'. f r < (g r' :: nat)) xs = sorted_wrt (\<lambda>r r'. f r < g r') ys"
proof (induction xs ys rule: list_induct2')
  case (4 x xs y ys)
  have "(\<forall>z \<in> set xs. f x < g z) \<longleftrightarrow> (\<forall>v \<in> set (map g xs). f x < v)" by simp
  also have "\<dots> \<longleftrightarrow> (\<forall>z \<in> set ys. f y < g z)" using 4(2,3) by simp
  finally show ?case using 4 by simp
qed auto

lemma numbered_mark: "numbered n rows m \<Longrightarrow> numbered n (mark_last rows) m"
  using mark_last_map [of r_index rows] sorted_wrt_map [of r_line_end "mark_last rows" rows r_line_start]
    mark_last_map [of r_line_end rows] mark_last_map [of r_line_start rows]
  by (simp add: numbered_def)

lemma row_within_mark: "list_all (row_within cfg) rows \<Longrightarrow> list_all (row_within cfg) (mark_last rows)"
proof -
  have "list_all (row_within cfg) rows = list_all (\<lambda>b. b) (map (row_within cfg) rows)" for rows
    by (simp add: list.pred_map comp_def)
  moreover have "map (row_within cfg) (mark_last rows) = map (row_within cfg) rows"
    by (rule mark_last_map) (simp add: row_within_def Let_def)
  ultimately show "list_all (row_within cfg) rows \<Longrightarrow> ?thesis" by simp
qed

lemma tok_room_drop: "tok_room cfg k s \<Longrightarrow> tok_room cfg 0 s"
  by (auto simp: tok_room_def Let_def)

definition same_record :: "tok \<Rightarrow> tok \<Rightarrow> bool" where
  "same_record s s' \<longleftrightarrow> t_record_count s' = t_record_count s \<and> t_start_line s' = t_start_line s"

lemma same_record_refl [simp]: "same_record s s"
  and same_record_trans: "same_record s s' \<Longrightarrow> same_record s' s'' \<Longrightarrow> same_record s s''"
  by (auto simp: same_record_def)

lemma located_failure:
  "tok_room cfg k s \<Longrightarrow> reason \<in> set malformed_reasons \<Longrightarrow> located cfg (failure s reason) s'"
  by (auto simp: tok_room_def located_def failure_def Let_def)

lemma located_limit [simp]: "located cfg (Limit_Exceeded r n) s"
  by (simp add: located_def)

lemma count_regular_room:
  "tok_within cfg s \<Longrightarrow> wp (count_regular cfg) (\<lambda>_ s'. tok_room cfg 1 s' \<and> same_record s s') (located cfg) s"
  by (auto simp: count_regular_def ensure_capacity_def wp_def bind_m_def Let_def tok_room_def same_record_def)

lemma append_value_room:
  "tok_room cfg (length v) s \<Longrightarrow> wp (append_value cfg v) (\<lambda>_ s'. tok_within cfg s' \<and> same_record s s') (located cfg) s"
  by (auto simp: append_value_def wp_def Let_def tok_room_def same_record_def)

lemma finish_field_room:
  "tok_room cfg k s \<Longrightarrow> wp (finish_field cfg) (\<lambda>_ s'. tok_room cfg k s' \<and> same_record s s' \<and>
     t_record_chars s' = t_record_chars s) (located cfg) s"
  by (auto simp: finish_field_def wp_def Let_def tok_room_def same_record_def)

lemma end_field_room:
  assumes "tok_room cfg k s"
  shows "wp (end_field cfg) (\<lambda>_ s'. tok_within cfg s' \<and> same_record s s') (located cfg) s"
proof -
  let ?s = "s\<lparr>t_delimiters := t_delimiters s + 1, t_current_delimiters := t_current_delimiters s + 1\<rparr>"
  have "tok_within cfg ?s" "same_record s ?s" using assms by (auto simp: tok_room_def Let_def same_record_def)
  from finish_field_room [OF this(1)] this(2) show ?thesis
    by (auto simp: end_field_def wp_def bind_m_def split: prod.splits sum.splits intro: same_record_trans)
qed

lemma escaped_room:
  assumes "tok_room cfg 1 s"
  shows "wp (consume_escaped cfg c) (\<lambda>_ s'. tok_within cfg s' \<and> same_record s s') (located cfg) s"
proof -
  let ?s = "if Some c \<noteq> d_escape (c_dialect cfg) then s\<lparr>t_escapes := t_escapes s + 1\<rparr> else s"
  have "tok_room cfg (length [c]) ?s" "same_record s ?s" using assms by (auto simp: tok_room_def Let_def same_record_def)
  from append_value_room [OF this(1)] this(2)
  have "wp (append_value cfg [c]) (\<lambda>_ s'. tok_within cfg (s'\<lparr>t_escaping := False\<rparr>) \<and> same_record s (s'\<lparr>t_escaping := False\<rparr>)) (located cfg) ?s"
    by (elim wp_mono) (auto simp: tok_room_def Let_def same_record_def)
  then have "wp (bind_m (append_value cfg [c]) (\<lambda>_ s. (Inr (), s\<lparr>t_escaping := False\<rparr>))) (\<lambda>_ s'. tok_within cfg s' \<and> same_record s s') (located cfg) ?s"
    by simp
  moreover have "located cfg (failure s ''invalid_escape'') s"
    by (rule located_failure [OF assms]) (simp add: malformed_reasons_def)
  ultimately show ?thesis unfolding wp_def consume_escaped_def Let_def by simp
qed

lemma quoted_room:
  "tok_room cfg 1 s \<Longrightarrow> wp (consume_quoted cfg c) (\<lambda>_ s'. tok_within cfg s' \<and> same_record s s') (located cfg) s"
  using append_value_room [of cfg "[c]" s]
  by (auto simp: consume_quoted_def wp_def tok_room_def Let_def same_record_def)

lemma after_quote_room:
  assumes "tok_room cfg 1 s"
  shows "wp (consume_after_quote cfg c) (\<lambda>_ s'. tok_within cfg s' \<and> same_record s s') (located cfg) s"
proof -
  have "wp (append_value cfg [c]) (\<lambda>_ s'. tok_within cfg (s'\<lparr>t_field_escaped := True, t_in_quotes := True, t_after_quote := False\<rparr>) \<and>
      same_record s (s'\<lparr>t_field_escaped := True, t_in_quotes := True, t_after_quote := False\<rparr>)) (located cfg) s"
    by (rule wp_mono [OF append_value_room]) (use assms in \<open>auto simp: tok_room_def Let_def same_record_def\<close>)
  then have "wp (bind_m (append_value cfg [c]) (\<lambda>_ s. (Inr (), s\<lparr>t_field_escaped := True, t_in_quotes := True, t_after_quote := False\<rparr>)))
      (\<lambda>_ s'. tok_within cfg s' \<and> same_record s s') (located cfg) s" by simp
  moreover have "located cfg (failure s ''unexpected_character_after_quote'') s"
    by (rule located_failure [OF assms]) (simp add: malformed_reasons_def)
  ultimately show ?thesis using end_field_room [OF assms] unfolding wp_def consume_after_quote_def by simp
qed

lemma plain_room:
  assumes "tok_room cfg 1 s"
  shows "wp (consume_plain cfg c) (\<lambda>_ s'. tok_within cfg s' \<and> same_record s s') (located cfg) s"
proof -
  have "located cfg (failure s ''unexpected_quote'') s"
    by (rule located_failure [OF assms]) (simp add: malformed_reasons_def)
  moreover have "tok_within cfg (s\<lparr>t_escaping := a, t_field_escaped := b, t_field_started := c, t_field_quoted := d, t_in_quotes := e, t_quotes := q\<rparr>)"
    for a b c d e q using assms by (auto simp: tok_room_def Let_def)
  ultimately show ?thesis using end_field_room [OF assms] append_value_room [of cfg "[c]" s] assms
    by (auto simp: consume_plain_def wp_def same_record_def tok_room_def Let_def)
qed

lemma within_character:
  assumes "tok_within cfg s"
  shows "wp (consume_character cfg c) (\<lambda>_ s'. tok_within cfg s' \<and> same_record s s') (located cfg) s"
proof -
  have "wp (\<lambda>s0. let s = s0\<lparr>t_row_started := True\<rparr> in
        if t_escaping s then consume_escaped cfg c s
        else if t_in_quotes s then consume_quoted cfg c s
        else if t_after_quote s then consume_after_quote cfg c s
        else consume_plain cfg c s) (\<lambda>_ s'. tok_within cfg s' \<and> same_record s s') (located cfg) s0"
    if "tok_room cfg 1 s0" "same_record s s0" for s0
  proof -
    let ?s = "s0\<lparr>t_row_started := True\<rparr>"
    have "tok_room cfg 1 ?s" "same_record s ?s" using that by (auto simp: tok_room_def Let_def same_record_def)
    then have "wp m (\<lambda>_ s'. tok_within cfg s' \<and> same_record s s') (located cfg) ?s"
      if "wp m (\<lambda>_ s'. tok_within cfg s' \<and> same_record ?s s') (located cfg) ?s" for m
      using that \<open>same_record s ?s\<close> by (elim wp_mono) (auto intro: same_record_trans)
    note this [OF escaped_room] this [OF quoted_room] this [OF after_quote_room] this [OF plain_room]
    then show ?thesis using \<open>tok_room cfg 1 ?s\<close> by (simp add: wp_def Let_def)
  qed
  with count_regular_room [OF assms] have "wp (bind_m (count_regular cfg) (\<lambda>_ s0. let s = s0\<lparr>t_row_started := True\<rparr> in
        if t_escaping s then consume_escaped cfg c s
        else if t_in_quotes s then consume_quoted cfg c s
        else if t_after_quote s then consume_after_quote cfg c s
        else consume_plain cfg c s)) (\<lambda>_ s'. tok_within cfg s' \<and> same_record s s') (located cfg) s"
    unfolding wp_bind by (elim wp_mono) auto
  moreover have "located cfg (failure s ''binary_content'') s"
    by (rule located_failure [OF assms]) (simp add: malformed_reasons_def)
  ultimately show ?thesis unfolding consume_character_def wp_def by simp
qed

lemma emit_row_delivers:
  assumes "tok_within cfg s" "line = t_line s" "k \<le> 2" "numbered n rows (t_record_count s)"
    "list_all (row_within cfg) rows" "list_all (\<lambda>r. r_line_end r < t_start_line s) rows"
  shows "wp (emit_row cfg line k) (\<lambda>r s'. tok_within cfg s' \<and> t_line s' = t_line s \<and> t_start_line s' = t_line s \<and>
      list_all (row_within cfg) (rows @ [r]) \<and> numbered n (rows @ [r]) (t_record_count s') \<and>
      r_line_end r = t_line s) (located cfg) s"
proof -
  let ?Q = "\<lambda>r s'. tok_within cfg s' \<and> t_line s' = t_line s \<and> t_start_line s' = t_line s \<and>
      list_all (row_within cfg) (rows @ [r]) \<and> numbered n (rows @ [r]) (t_record_count s') \<and> r_line_end r = t_line s"
  have close: "wp (close_row cfg line k (fs, m)) ?Q (located cfg) s'"
    if room: "tok_within cfg s'" and "same_record s s'" "t_line s' = t_line s" "t_record_count s' < c_max_records cfg"
      and f: "m \<le> l_max_columns (c_limits cfg)" "\<not> c_shape_only cfg \<longrightarrow> length fs = m"
        "list_all (\<lambda>f. length (f_value f) \<le> l_max_field_size (c_limits cfg)) fs" "row_chars fs \<le> t_record_chars s'"
    for fs m s'
  proof -
    have "tok_within cfg (reset_record (s'\<lparr>t_record_count := Suc (t_record_count s'), t_completed := cs, t_stopped := st\<rparr>))" for cs st
      using room that(4) by (auto simp: tok_room_def Let_def reset_record_def)
    moreover have "numbered n (rows @ [r]) (Suc (t_record_count s'))"
      if "r_index r = t_record_count s'" "r_line_start r = t_start_line s'" for r
      using assms(4,6) that \<open>same_record s s'\<close> by (intro numbered_snoc) (auto simp: same_record_def)
    ultimately show ?thesis using room that assms(2,3,5)
      by (auto simp: close_row_def wp_def Let_def reset_record_def row_within_def tok_room_def same_record_def)
  qed
  have finish: "wp (finish_field cfg) (\<lambda>_ s'. tok_within cfg s' \<and> same_record s s' \<and> t_line s' = t_line s) (located cfg) s"
    using finish_field_room [OF assms(1)] by (auto simp: wp_def finish_field_def Let_def)
  have contents: "wp (row_contents cfg) (\<lambda>(fs, m) s'. tok_within cfg s' \<and> same_record s s' \<and> t_line s' = t_line s \<and>
      m \<le> l_max_columns (c_limits cfg) \<and> (\<not> c_shape_only cfg \<longrightarrow> length fs = m) \<and>
      list_all (\<lambda>f. length (f_value f) \<le> l_max_field_size (c_limits cfg)) fs \<and> row_chars fs \<le> t_record_chars s') (located cfg) s"
  proof (cases "row_open s")
    case True
    have "wp (bind_m (finish_field cfg) (\<lambda>_ s. (Inr (t_fields s, t_field_count s), s))) (\<lambda>(fs, m) s'. tok_within cfg s' \<and> same_record s s' \<and> t_line s' = t_line s \<and>
      m \<le> l_max_columns (c_limits cfg) \<and> (\<not> c_shape_only cfg \<longrightarrow> length fs = m) \<and>
      list_all (\<lambda>f. length (f_value f) \<le> l_max_field_size (c_limits cfg)) fs \<and> row_chars fs \<le> t_record_chars s') (located cfg) s"
      unfolding wp_bind wp_fun by (rule wp_mono [OF finish]) (auto simp: tok_room_def Let_def)
    then show ?thesis by (rule wp_step) (simp add: row_contents_def True)
  next
    case False
    then show ?thesis using assms(1) by (intro wp_returns [of _ "([], 0)" s]) (auto simp: row_contents_def)
  qed
  show ?thesis
  proof (cases "t_record_count s < c_max_records cfg")
    case True
    have "wp (bind_m (row_contents cfg) (close_row cfg line k)) ?Q (located cfg) s"
      unfolding wp_bind
      by (rule wp_mono [OF contents]) (use close True in \<open>auto simp: same_record_def\<close>)
    then show ?thesis by (rule wp_step) (use True in \<open>simp add: emit_row_def ensure_capacity_def\<close>)
  qed (auto simp: emit_row_def ensure_capacity_def wp_def bind_m_def)
qed

lemma newline_in_value_within:
  assumes "tok_within cfg s" "t_line s \<le> l_max_lines (c_limits cfg)"
  shows "wp (newline_in_value cfg nl) (\<lambda>_ s'. tok_within cfg s' \<and> same_record s s') (located cfg) s"
proof -
  let ?s = "s\<lparr>t_record_chars := t_record_chars s + length nl, t_content_line := t_line s\<rparr>"
  show ?thesis
  proof (cases "l_max_record_chars (c_limits cfg) < length nl + t_record_chars s")
    case False
    have room: "tok_room cfg (length nl) ?s" using assms False by (auto simp: tok_room_def Let_def)
    have "wp (append_value cfg nl) (\<lambda>_ s'. tok_within cfg s' \<and> same_record s s' \<and> t_line s' = t_line s) (located cfg) ?s"
      using append_value_room [OF room] by (auto simp: wp_def append_value_def Let_def same_record_def)
    then have "wp (bind_m (append_value cfg nl) (\<lambda>_ s. (Inr (), s\<lparr>t_escaping := False, t_line := t_line s + 1, t_line_chars := 0\<rparr>)))
        (\<lambda>_ s'. tok_within cfg s' \<and> same_record s s') (located cfg) ?s"
      unfolding wp_bind wp_fun
      by (rule wp_mono) (use assms(2) in \<open>auto simp: tok_room_def Let_def same_record_def\<close>)
    then show ?thesis by (rule wp_step) (use False in \<open>simp add: newline_in_value_def\<close>)
  qed (simp add: newline_in_value_def wp_def)
qed

lemma newline_delivers:
  assumes d: "delivering cfg n rows s" and nl: "length nl \<le> 2"
  shows "wp (consume_newline cfg nl) (\<lambda>r. delivering cfg n (rows @ (case r of None \<Rightarrow> [] | Some row \<Rightarrow> [row]))) (located cfg) s"
proof -
  note d' = d [unfolded delivering_def]
  have kept: "delivering cfg n rows s'" if "tok_within cfg s'" "same_record s s'" for s'
    using d that by (auto simp: delivering_def same_record_def)
  have esc: "tok_within cfg (s\<lparr>t_escapes := m\<rparr>)" "same_record s (s\<lparr>t_escapes := m\<rparr>)" for m
    using d' by (auto simp: tok_room_def Let_def same_record_def)
  show ?thesis
  proof (cases "c_max_records cfg \<le> t_record_count s \<or> l_max_lines (c_limits cfg) < t_line s")
    case True
    then show ?thesis by (auto simp: consume_newline_def ensure_capacity_def wp_def bind_m_def)
  next
    case False
    let ?in_value = "bind_m (newline_in_value cfg nl) (\<lambda>_. return_m None)"
    have val: "wp ?in_value (\<lambda>r. delivering cfg n (rows @ (case r of None \<Rightarrow> [] | Some row \<Rightarrow> [row]))) (located cfg) s'"
      if "tok_within cfg s'" "same_record s s'" "t_line s' = t_line s" for s'
    proof -
      have "wp (newline_in_value cfg nl) (\<lambda>_. delivering cfg n rows) (located cfg) s'"
        by (rule wp_mono [OF newline_in_value_within])
          (use that False in \<open>auto intro: kept same_record_trans\<close>)
      then show ?thesis by simp
    qed
    consider "t_escaping s" | "\<not> t_escaping s" "t_in_quotes s" | "\<not> t_escaping s" "\<not> t_in_quotes s" by blast
    then show ?thesis
    proof cases
      case 1
      show ?thesis by (rule wp_step [OF val [OF esc]]) (use 1 False in \<open>simp_all add: consume_newline_def ensure_capacity_def\<close>)
    next
      case 2
      show ?thesis by (rule wp_step [OF val [of s]]) (use 2 False d' in \<open>simp_all add: consume_newline_def ensure_capacity_def\<close>)
    next
      case 3
      have "wp (emit_row cfg (t_line s) (length nl)) (\<lambda>r s'. delivering cfg n (rows @ [r])
          (s'\<lparr>t_line := t_line s' + 1, t_line_chars := 0, t_start_line := t_line s' + 1\<rparr>)) (located cfg) s"
      proof (rule wp_mono [OF emit_row_delivers [where n = n and rows = rows]])
        fix r s' assume a: "tok_within cfg s' \<and> t_line s' = t_line s \<and> t_start_line s' = t_line s \<and>
          list_all (row_within cfg) (rows @ [r]) \<and> numbered n (rows @ [r]) (t_record_count s') \<and> r_line_end r = t_line s"
        have "list_all (\<lambda>r. r_line_end r < Suc (t_line s)) (rows @ [r])"
          using d' a by (auto simp: list_all_iff tok_room_def Let_def)
        then show "delivering cfg n (rows @ [r]) (s'\<lparr>t_line := t_line s' + 1, t_line_chars := 0, t_start_line := t_line s' + 1\<rparr>)"
          using a False by (auto simp: delivering_def tok_room_def Let_def)
      qed (use d' nl in auto)
      then have "wp (bind_m (emit_row cfg (t_line s) (length nl)) (\<lambda>row s.
          (Inr (Some row), s\<lparr>t_line := t_line s + 1, t_line_chars := 0, t_start_line := t_line s + 1\<rparr>)))
        (\<lambda>r. delivering cfg n (rows @ (case r of None \<Rightarrow> [] | Some row \<Rightarrow> [row]))) (located cfg) s" by simp
      then show ?thesis by (rule wp_step) (use 3 False in \<open>simp add: consume_newline_def ensure_capacity_def\<close>)
    qed
  qed
qed

lemma feed_delivers: "wp (feed cfg str final) (delivered cfg 0) (located cfg) new_tok"
proof (rule feed_rule [where I = "delivering cfg 0"])
  show "delivering cfg 0 [] new_tok"
    by (simp add: delivering_def new_tok_def tok_room_def numbered_def Let_def)
next
  fix nl :: "nat list" and acc s assume "nl \<in> {[10], [13], [13, 10]}" "delivering cfg 0 acc s"
  then show "wp (consume_newline cfg nl) (\<lambda>r. delivering cfg 0 (acc @ (case r of None \<Rightarrow> [] | Some row \<Rightarrow> [row]))) (located cfg) s"
    by (intro newline_delivers) auto
next
  fix c acc s assume d: "delivering cfg 0 acc s"
  then have "wp (consume_character cfg c) (\<lambda>_ s'. tok_within cfg s' \<and> same_record s s') (located cfg) s"
    by (intro within_character) (simp add: delivering_def)
  then show "wp (consume_character cfg c) (\<lambda>_. delivering cfg 0 acc) (located cfg) s"
    by (rule wp_mono) (use d in \<open>auto simp: delivering_def same_record_def\<close>)
next
  fix acc s b assume "delivering cfg 0 acc s"
  then show "delivering cfg 0 acc (s\<lparr>t_pending_cr := b\<rparr>)" by (auto simp: delivering_def tok_room_def Let_def)
next
  fix acc s assume "delivering cfg 0 acc s"
  then have "tok_within cfg s" by (simp add: delivering_def)
  then show "located cfg (failure s ''dangling_escape'') s" "located cfg (failure s ''unterminated_quote'') s"
    by (auto intro: located_failure simp: malformed_reasons_def)
next
  fix acc s assume "delivering cfg 0 acc s" "row_open s"
  then have d: "delivering cfg 0 acc s" by simp
  show "wp (emit_row cfg (t_line s) 0) (\<lambda>r. delivered cfg 0 (acc @ [r])) (located cfg) s"
    by (rule wp_mono [OF emit_row_delivers [where n = 0 and rows = acc]])
      (use d in \<open>auto simp: delivering_def delivered_def\<close>)
next
  fix acc s
  show "delivering cfg 0 acc s \<Longrightarrow> delivered cfg 0 acc s" by (simp add: delivering_def delivered_def)
  assume d: "delivered cfg 0 acc s"
  then show "delivered cfg 0 (mark_last acc) s"
    using numbered_mark row_within_mark by (auto simp: delivered_def)
  show "delivered cfg 0 acc (s\<lparr>t_completed := mark_last (t_completed s)\<rparr>)"
    using d by (auto simp: delivered_def tok_room_def Let_def)
qed


section \<open>Errors at the reader boundary\<close>

definition malformed_details :: "string \<Rightarrow> nat \<Rightarrow> nat \<Rightarrow> (string \<times> detail) list" where
  "malformed_details reason record_number line_number =
     [(''reason'', D_Str reason), (''record_number'', D_Int (int record_number)),
      (''line_number'', D_Int (int line_number))]"

text \<open>What the tokenizer reports about a malformed row reaches the caller. The reader boundary rebuilds
  errors of adapters from a fixed vocabulary; the reason, the record number and the line number of
  every malformed row pass it unchanged.\<close>

theorem malformed_row_survives_boundary:
  assumes "feed cfg decoded final new_tok = (Inl (Malformed reason record_number line_number), s)"
    and "valid_row_limits (c_limits cfg)" and "c_max_records cfg < 2 ^ 63 - 1"
  shows "rebuild_allowed ''PARSER_MALFORMED_INPUT'' (malformed_details reason record_number line_number) =
    Some (Parser_Failure ''PARSER_MALFORMED_INPUT'' (malformed_details reason record_number line_number))"
proof -
  have l: "reason \<in> set malformed_reasons" "1 \<le> record_number" "record_number \<le> c_max_records cfg + 1"
    "1 \<le> line_number" "line_number \<le> l_max_lines (c_limits cfg) + 1"
    using wp_InlD [OF feed_delivers assms(1)] by (simp_all add: located_def)
  have "l_max_lines (c_limits cfg) \<le> 10000000" using assms(2)
    by (simp add: valid_row_limits_def valid_text_limits_def positive_to_def)
  then have "1 \<le> int record_number \<and> int record_number \<le> 2 ^ 63 - 1" "1 \<le> int line_number \<and> int line_number \<le> 2 ^ 63 - 1"
    using l assms(3) by auto
  then show ?thesis using l(1)
    by (auto simp: rebuild_allowed_def allowed_policy_def malformed_reasons_def malformed_details_def
        allowed_texts_def allowed_positions_def)
qed

section \<open>The end of a source\<close>

definition alive :: "tok \<Rightarrow> bool" where
  "alive s \<longleftrightarrow> \<not> t_stopped s \<and> (t_escaping s \<or> t_in_quotes s \<longrightarrow> t_row_started s)"

definition unmarked :: "csv_row list \<Rightarrow> bool" where
  "unmarked rows \<longleftrightarrow> list_all (\<lambda>r. \<not> r_source_last r) rows"

definition moving :: "csv_row list \<Rightarrow> tok \<Rightarrow> bool" where
  "moving acc s \<longleftrightarrow> alive s \<and> unmarked acc \<and> (acc \<noteq> [] \<or> t_row_started s)"

lemma newline_post:
  "c_stop_after cfg = None \<Longrightarrow> wp (consume_newline cfg nl) (\<lambda>r s'. t_stopped s' = t_stopped s \<and> (case r of
     None \<Rightarrow> t_row_started s' | Some row \<Rightarrow> \<not> r_source_last row \<and> \<not> t_escaping s' \<and> \<not> t_in_quotes s'))
     (\<lambda>_ _. True) s"
  by (auto simp: tok_defs wp_def bind_m_def Let_def reset_record_def split: prod.splits sum.splits if_splits)

lemma character_post:
  "wp (consume_character cfg c) (\<lambda>_ s'. t_stopped s' = t_stopped s \<and> t_row_started s') (\<lambda>_ _. True) s"
  by (auto simp: tok_defs wp_def bind_m_def Let_def split: prod.splits sum.splits if_splits)

lemma newline_moves:
  "alive s \<Longrightarrow> c_stop_after cfg = None \<Longrightarrow> unmarked acc \<Longrightarrow>
     wp (consume_newline cfg nl) (\<lambda>r. moving (acc @ (case r of None \<Rightarrow> [] | Some row \<Rightarrow> [row]))) (\<lambda>_ _. True) s"
  by (rule wp_mono [OF newline_post]) (auto simp: alive_def unmarked_def moving_def split: option.splits)

lemma character_moves:
  "alive s \<Longrightarrow> unmarked acc \<Longrightarrow> wp (consume_character cfg c) (\<lambda>_. moving acc) (\<lambda>_ _. True) s"
  by (rule wp_mono [OF character_post]) (auto simp: alive_def moving_def)

lemma loop_moves:
  assumes "c_stop_after cfg = None" "moving acc s"
  shows "wp (feed_loop cfg str) (\<lambda>rows. moving (acc @ rows)) (\<lambda>_ _. True) s"
proof (rule feed_loop_rule [where I = moving])
  show "moving acc s" by (rule assms)
  show "moving acc' (s'\<lparr>t_pending_cr := b\<rparr>)" if "moving acc' s'" for acc' s' b
    using that by (simp add: moving_def alive_def)
  show "wp (consume_newline cfg nl) (\<lambda>r. moving (acc' @ (case r of None \<Rightarrow> [] | Some row \<Rightarrow> [row]))) (\<lambda>_ _. True) s'"
    if "moving acc' s'" for nl acc' s'
    by (rule newline_moves) (use that assms in \<open>auto simp: moving_def\<close>)
  show "wp (consume_character cfg c) (\<lambda>_. moving acc') (\<lambda>_ _. True) s'" if "moving acc' s'" for c acc' s'
    by (rule character_moves) (use that in \<open>auto simp: moving_def\<close>)
qed

lemma then_loop_moves:
  assumes "c_stop_after cfg = None" "alive s"
  shows "wp (collect (consume_newline cfg nl) (feed_loop cfg str)) moving (\<lambda>_ _. True) s"
    "wp (bind_m (consume_character cfg c) (\<lambda>_. feed_loop cfg str)) moving (\<lambda>_ _. True) s"
proof -
  have n: "unmarked []" by (simp add: unmarked_def)
  have "wp (consume_newline cfg nl) (\<lambda>r. wp (feed_loop cfg str) (\<lambda>rows. moving (case r of None \<Rightarrow> rows | Some row \<Rightarrow> row # rows)) (\<lambda>_ _. True)) (\<lambda>_ _. True) s"
  proof (rule wp_mono [OF newline_moves [OF assms(2,1) n]])
    fix r s' assume "moving ([] @ (case r of None \<Rightarrow> [] | Some row \<Rightarrow> [row])) s'"
    from loop_moves [OF assms(1) this, of str]
    show "wp (feed_loop cfg str) (\<lambda>rows. moving (case r of None \<Rightarrow> rows | Some row \<Rightarrow> row # rows)) (\<lambda>_ _. True) s'"
      by (cases r) simp_all
  qed simp
  then show "wp (collect (consume_newline cfg nl) (feed_loop cfg str)) moving (\<lambda>_ _. True) s" by (simp add: collect_def)
  show "wp (bind_m (consume_character cfg c) (\<lambda>_. feed_loop cfg str)) moving (\<lambda>_ _. True) s"
    unfolding wp_bind
    by (rule wp_mono [OF character_moves [OF assms(2) n]]) (use loop_moves [OF assms(1), of "[]"] in auto)
qed

lemma open_moves:
  assumes "c_stop_after cfg = None" "alive s"
  shows "wp (feed_open cfg str final) (\<lambda>rows s'. alive s' \<and> unmarked rows \<and>
      (str \<noteq> [] \<longrightarrow> rows \<noteq> [] \<or> t_row_started s' \<or> t_pending_cr s')) (\<lambda>_ _. True) s"
proof -
  have weak: "wp m (\<lambda>rows s'. alive s' \<and> unmarked rows \<and> (str \<noteq> [] \<longrightarrow> rows \<noteq> [] \<or> t_row_started s' \<or> t_pending_cr s')) (\<lambda>_ _. True) s"
    if "wp m' moving (\<lambda>_ _. True) s'" "m s = m' s'" for m m' s'
  proof -
    have "wp m moving (\<lambda>_ _. True) s" using that by (rule wp_step)
    then show ?thesis by (rule wp_mono) (auto simp: moving_def)
  qed
  have alive: "alive (s\<lparr>t_pending_cr := False\<rparr>)" using assms(2) by (simp add: alive_def)
  note moves = then_loop_moves [OF assms(1) alive] then_loop_moves [OF assms]
  show ?thesis
  proof (cases "t_pending_cr s \<and> (str \<noteq> [] \<or> final)")
    case True
    show ?thesis
    proof (cases "take 1 str = [10]")
      case True
      then show ?thesis using \<open>t_pending_cr s \<and> (str \<noteq> [] \<or> final)\<close> by (intro weak [OF moves(1)]) (simp add: feed_open_def)
    next
      case False
      then show ?thesis using True by (intro weak [OF moves(1)]) (simp add: feed_open_def)
    qed
  next
    case False
    then have f: "feed_open cfg str final s = feed_loop cfg str s" by (auto simp: feed_open_def)
    show ?thesis
    proof (cases str)
      case Nil
      then show ?thesis using f assms(2) by (simp add: wp_def unmarked_def)
    next
      case (Cons c cs)
      have ns: "\<not> t_stopped s" using assms(2) by (simp add: alive_def)
      consider "c = 13" "cs = []" | t where "c = 13" "cs = 10 # t" | d t where "c = 13" "cs = d # t" "d \<noteq> 10"
        | "c = 10" | "c \<noteq> 10" "c \<noteq> 13" by (metis neq_Nil_conv)
      then show ?thesis
      proof cases
        case 1
        then show ?thesis using f ns Cons assms(2) by (simp add: wp_def unmarked_def alive_def)
      next
        case (2 t)
        then show ?thesis using f ns Cons by (intro weak [OF moves(3)]) simp
      next
        case (3 d t)
        then show ?thesis using f ns Cons by (intro weak [OF moves(3)]) simp
      next
        case 4
        then show ?thesis using f ns Cons by (intro weak [OF moves(3)]) simp
      next
        case 5
        then show ?thesis using f ns Cons by (intro weak [OF moves(4)]) simp
      qed
    qed
  qed
qed

definition end_marked :: "csv_row list \<Rightarrow> bool" where
  "end_marked rows \<longleftrightarrow> rows \<noteq> [] \<and> r_source_last (last rows) \<and> unmarked (butlast rows)"

lemma end_marked_append: "unmarked xs \<Longrightarrow> end_marked ys \<Longrightarrow> end_marked (xs @ ys)"
  by (simp add: end_marked_def unmarked_def butlast_append)

lemma emit_unmarked: "emit_row cfg n k s = (Inr r, s') \<Longrightarrow> \<not> r_source_last r"
  by (auto simp: emit_row_def close_row_def bind_m_def Let_def split: prod.splits sum.splits if_splits)

lemma tail_rows:
  assumes "c_stop_after cfg = None" "source_tail cfg s = (Inr rows, s')"
  shows "unmarked rows \<and> (t_row_started s \<or> t_pending_cr s \<longrightarrow> rows \<noteq> [])"
proof -
  let ?first = "\<lambda>s. if t_pending_cr s then consume_newline cfg [13] (s\<lparr>t_pending_cr := False\<rparr>) else (Inr None, s)"
  obtain r s1 where r: "?first s = (Inr r, s1)" and
    rest: "(if t_escaping s1 then (Inl (failure s1 ''dangling_escape''), s1)
       else if t_in_quotes s1 then (Inl (failure s1 ''unterminated_quote''), s1)
       else if row_open s1 then bind_m (emit_row cfg (t_line s1) 0) (\<lambda>r. return_m [r]) s1
       else (Inr [], s1)) = (Inr (case r of None \<Rightarrow> rows | Some x \<Rightarrow> tl rows), s') \<and>
      (case r of None \<Rightarrow> True | Some x \<Rightarrow> rows \<noteq> [] \<and> hd rows = x)"
    using assms(2) by (auto simp: source_tail_def collect_def bind_m_def split: prod.splits sum.splits option.splits)
  have first: "case r of None \<Rightarrow> t_row_started s \<or> t_pending_cr s \<longrightarrow> t_row_started s1 | Some x \<Rightarrow> \<not> r_source_last x"
  proof (cases "t_pending_cr s")
    case True
    then have "consume_newline cfg [13] (s\<lparr>t_pending_cr := False\<rparr>) = (Inr r, s1)" using r by simp
    from wp_InrD [OF newline_post [OF assms(1)] this] show ?thesis by (auto split: option.splits)
  qed (use r in auto)
  have emitted: "unmarked xs \<and> (t_row_started s1 \<longrightarrow> xs \<noteq> [])"
    if "(if t_escaping s1 then (Inl (failure s1 ''dangling_escape''), s1)
       else if t_in_quotes s1 then (Inl (failure s1 ''unterminated_quote''), s1)
       else if row_open s1 then bind_m (emit_row cfg (t_line s1) 0) (\<lambda>r. return_m [r]) s1
       else (Inr [], s1)) = (Inr xs, s')" for xs
    using that emit_unmarked
    by (auto simp: unmarked_def bind_m_def row_open_def split: prod.splits sum.splits if_splits)
  show ?thesis
  proof (cases r)
    case None
    then show ?thesis using emitted [of rows] rest first by auto
  next
    case (Some x)
    then show ?thesis using rest emitted [of "tl rows"] first by (cases rows) (auto simp: unmarked_def)
  qed
qed

lemma mark_last_end: "unmarked rows \<Longrightarrow> rows \<noteq> [] \<Longrightarrow> end_marked (mark_last rows)"
  by (auto simp: end_marked_def mark_last_def unmarked_def list_all_iff dest: in_set_butlastD)

lemma feed_marks:
  assumes "c_stop_after cfg = None" "alive s" "feed cfg str final s = (Inr rows, s')"
  shows "if final then str \<noteq> [] \<longrightarrow> end_marked rows else alive s' \<and> unmarked rows"
proof -
  obtain rows1 s1 where o: "feed_open cfg str final s = (Inr rows1, s1)"
    and f: "(if final \<and> \<not> t_stopped s1 then end_of_source cfg rows1 s1 else (Inr rows1, s1)) = (Inr rows, s')"
    using assms(3) by (auto simp: feed_def bind_m_def split: prod.splits sum.splits)
  note m = wp_InrD [OF open_moves [OF assms(1,2)] o]
  show ?thesis
  proof (cases final)
    case True
    then have "end_of_source cfg rows1 s1 = (Inr rows, s')" using f m by (simp add: alive_def)
    then obtain t where t: "source_tail cfg s1 = (Inr t, s') \<or> (\<exists>s2. source_tail cfg s1 = (Inr t, s2))" "rows = mark_last (rows1 @ t)"
      by (auto simp: end_of_source_def bind_m_def Let_def split: prod.splits sum.splits)
    then have "unmarked t" "t_row_started s1 \<or> t_pending_cr s1 \<longrightarrow> t \<noteq> []" using tail_rows [OF assms(1)] by blast+
    then have "end_marked rows" if "str \<noteq> []"
      unfolding t(2) using that m by (intro mark_last_end) (auto simp: unmarked_def)
    then show ?thesis using True by simp
  qed (use f m in auto)
qed

lemma slices_mark:
  assumes "c_stop_after cfg = None" "k < slice_count (length str)"
    "row_slices cfg str fin (map (\<lambda>i. i * slice_chars) [k..<slice_count (length str)]) s = ((rows, None), s')" "alive s"
  shows "if fin then end_marked rows else alive s' \<and> unmarked rows"
  using assms(2-)
proof (induction "slice_count (length str) - k" arbitrary: k s rows)
  case (Suc m)
  let ?n = "slice_count (length str)" and ?stop = "min (k * slice_chars + slice_chars) (length str)"
  have upt: "[k..<?n] = k # [Suc k..<?n]" using Suc.prems(1) by (rule upt_conv_Cons)
  note b = slice_bounds [OF Suc.prems(1)]
  let ?piece = "take (?stop - k * slice_chars) (drop (k * slice_chars) str)"
  obtain r1 s1 others where r1: "feed cfg ?piece (fin \<and> ?stop = length str) s = (Inr r1, s1)"
    and rest: "row_slices cfg str fin (map (\<lambda>i. i * slice_chars) [Suc k..<?n]) s1 = ((others, None), s')"
    and rows: "rows = r1 @ others"
    using Suc.prems(2) upt by (auto simp: Let_def split: prod.splits sum.splits)
  note marks = feed_marks [OF assms(1) Suc.prems(3) r1]
  show ?case
  proof (cases "Suc k = ?n")
    case True
    then have e: "?stop = length str" using b by simp
    have "?piece \<noteq> []" using b(1) e by simp
    then show ?thesis using marks e True rest rows by (auto split: if_splits)
  next
    case False
    then have e: "?stop \<noteq> length str" "k * slice_chars + slice_chars \<noteq> length str" using b by simp_all
    have "if fin then end_marked others else alive s' \<and> unmarked others"
      by (rule Suc.hyps(1) [OF _ _ rest]) (use Suc False marks e in auto)
    then show ?thesis using marks e rows end_marked_append by (auto simp: unmarked_def split: if_splits)
  qed
qed simp

lemma chunk_marks:
  assumes "c_stop_after cfg = None" "alive s" "fin \<longrightarrow> str \<noteq> []"
    "row_slices cfg str fin (if str = [] then [0] else starts (length str)) s = ((rows, None), s')"
  shows "if fin then end_marked rows else alive s' \<and> unmarked rows"
proof (cases "str = []")
  case True
  then show ?thesis using assms by (simp add: feed_nothing unmarked_def)
next
  case False
  then have "0 < slice_count (length str)" by (auto simp: slice_count_def slice_chars_def div_greater_zero_iff Suc_le_eq)
  then show ?thesis using slices_mark [OF assms(1), of 0 str] assms(2,4) False by (simp add: starts_eq)
qed

lemma tokenized_marks:
  assumes "c_stop_after cfg = None" "last_chunk \<noteq> []"
  shows "alive s \<Longrightarrow> tokenized_rows cfg (map (\<lambda>c. (c, False)) chunks @ [(last_chunk, True)]) s = ((rows, None), s') \<Longrightarrow> end_marked rows"
proof (induction chunks arbitrary: s rows)
  case Nil
  then show ?case using chunk_marks [OF assms(1), of s True last_chunk] assms(2)
    by (auto split: prod.splits option.splits)
next
  case (Cons a chunks)
  obtain r1 s1 others where a: "row_slices cfg a False (if a = [] then [0] else starts (length a)) s = ((r1, None), s1)"
    and rest: "tokenized_rows cfg (map (\<lambda>c. (c, False)) chunks @ [(last_chunk, True)]) s1 = ((others, None), s')"
    and rows: "rows = r1 @ others"
    using Cons.prems(2) by (simp split: prod.splits option.splits)
  have "alive s1" "unmarked r1" using chunk_marks [OF assms(1) Cons.prems(1) _ a] by simp_all
  then show ?case using Cons.IH [OF _ rest] rows end_marked_append by simp
qed

text \<open>C37: The end of a source is always announced. When the last decoded chunk is not empty and the text
  is accepted, the parser receives at least one row and exactly the last one carries
  \<open>is_source_last\<close>, so it always closes the extraction with a final batch. (The loop of the parser
  relies on this: it only closes what is pending when no row was marked.)\<close>

theorem source_end_announced:
  assumes "tokenized_rows cfg (map (\<lambda>c. (c, False)) chunks @ [(last_chunk, True)]) new_tok = ((rows, None), s)"
    and "last_chunk \<noteq> []" and "c_stop_after cfg = None"
  shows "rows \<noteq> [] \<and> r_source_last (last rows) \<and> (\<forall>r \<in> set (butlast rows). \<not> r_source_last r)"
proof -
  have "alive new_tok" by (simp add: alive_def new_tok_def)
  then have "end_marked rows" using tokenized_marks [OF assms(3,2)] assms(1) by blast
  then show ?thesis by (simp add: end_marked_def unmarked_def list_all_iff)
qed

section \<open>A concrete source\<close>

lemmas ex_eval = ex_config_def ex_dialect_def ex_limits_def tok_defs new_tok_def feed_def feed_open_def
  bind_m_def collect_def end_of_source_def source_tail_def reset_record_def row_open_def failure_def Let_def
  mark_last_def

lemma ex_malformed: "\<exists>s. feed ex_config [34] True new_tok = (Inl (Malformed ''unterminated_quote'' 1 1), s)"
  by (simp add: ex_eval)

theorem malformed_row_survives_boundary_witness:
  "rebuild_allowed ''PARSER_MALFORMED_INPUT'' (malformed_details ''unterminated_quote'' 1 1) =
    Some (Parser_Failure ''PARSER_MALFORMED_INPUT'' (malformed_details ''unterminated_quote'' 1 1))"
proof -
  obtain s where "feed ex_config [34] True new_tok = (Inl (Malformed ''unterminated_quote'' 1 1), s)"
    using ex_malformed by blast
  then show ?thesis
    by (rule malformed_row_survives_boundary)
      (simp_all add: ex_config_def ex_limits_def valid_row_limits_def valid_text_limits_def positive_to_def
        max_columns_bound_def max_field_bound_def max_record_bound_def max_cells_bound_def)
qed

text \<open>The source \<open>a\<close>, line feed, \<open>b\<close> in two chunks.\<close>

lemma ex_rows: "\<exists>r s. tokenized_rows ex_config (map (\<lambda>c. (c, False)) [[97, 10]] @ [([98], True)]) new_tok = ((r, None), s)"
  by (simp add: ex_eval starts_def slice_chars_def)

theorem source_end_announced_witness:
  "\<exists>rows s. tokenized_rows ex_config (map (\<lambda>c. (c, False)) [[97, 10]] @ [([98], True)]) new_tok = ((rows, None), s) \<and>
     rows \<noteq> [] \<and> r_source_last (last rows)"
proof -
  obtain rows s where r: "tokenized_rows ex_config (map (\<lambda>c. (c, False)) [[97, 10]] @ [([98], True)]) new_tok = ((rows, None), s)"
    using ex_rows by blast
  then have "rows \<noteq> [] \<and> r_source_last (last rows)"
    using source_end_announced [OF r] by (simp add: ex_config_def)
  then show ?thesis using r by blast
qed

end
