(* ===== verification/Delimited_Shape.thy ===== *)
theory Delimited_Shape
  imports Delimited_Chunks
begin

text \<open>
  The detection of the dialect runs the tokenizer with \<open>shape_only\<close>, which keeps no field values. It is
  a refinement: on every text it makes the decisions of the full tokenizer, so what the detection
  counts and rejects is what the parser will later see.
\<close>

definition via :: "('a \<Rightarrow> 'b) \<Rightarrow> ('s \<Rightarrow> 's) \<Rightarrow> ('e + 'a) \<times> 's \<Rightarrow> ('e + 'b) \<times> 's" where
  "via g h out = (map_sum id g (fst out), h (snd out))"

lemma via_simps [simp]: "via g h (Inr a, s) = (Inr (g a), h s)" "via g h (Inl e, s) = (Inl e, h s)"
  by (simp_all add: via_def)

lemma bind_via:
  assumes "m' (h s) = via g h (m s)" and "\<And>a t. m s = (Inr a, t) \<Longrightarrow> f' (g a) (h t) = via k h (f a t)"
  shows "bind_m m' f' (h s) = via k h (bind_m m f s)"
  using assms by (cases "m s"; cases "fst (m s)") (auto simp: bind_m_def)

definition shape_row :: "csv_row \<Rightarrow> csv_row" where
  "shape_row r = r\<lparr>r_fields := []\<rparr>"

definition shape_tok :: "tok \<Rightarrow> tok" where
  "shape_tok s = s\<lparr>t_fields := [], t_field := [], t_completed := map shape_row (t_completed s)\<rparr>"

definition shape_config :: "config \<Rightarrow> config" where
  "shape_config cfg = cfg\<lparr>c_shape_only := True\<rparr>"

definition started :: "tok \<Rightarrow> bool" where
  "started s \<longleftrightarrow> (t_fields s \<noteq> [] \<longrightarrow> t_row_started s)"

lemma shape_sel [simp]:
  "t_fields (shape_tok s) = []" "t_field (shape_tok s) = []" "t_field_chars (shape_tok s) = t_field_chars s"
  "t_field_count (shape_tok s) = t_field_count s" "t_field_quoted (shape_tok s) = t_field_quoted s"
  "t_field_escaped (shape_tok s) = t_field_escaped s" "t_field_started (shape_tok s) = t_field_started s"
  "t_row_started (shape_tok s) = t_row_started s" "t_in_quotes (shape_tok s) = t_in_quotes s"
  "t_after_quote (shape_tok s) = t_after_quote s" "t_escaping (shape_tok s) = t_escaping s"
  "t_pending_cr (shape_tok s) = t_pending_cr s" "t_stopped (shape_tok s) = t_stopped s"
  "t_record_chars (shape_tok s) = t_record_chars s" "t_line_chars (shape_tok s) = t_line_chars s"
  "t_line (shape_tok s) = t_line s" "t_start_line (shape_tok s) = t_start_line s"
  "t_content_line (shape_tok s) = t_content_line s" "t_record_count (shape_tok s) = t_record_count s"
  "t_completed (shape_tok s) = map shape_row (t_completed s)"
  "t_delimiters (shape_tok s) = t_delimiters s" "t_current_delimiters (shape_tok s) = t_current_delimiters s"
  "t_quotes (shape_tok s) = t_quotes s" "t_escapes (shape_tok s) = t_escapes s"
  by (simp_all add: shape_tok_def)

lemma shape_upd [simp]:
  "(shape_tok s)\<lparr>t_field_chars := v0\<rparr> = shape_tok (s\<lparr>t_field_chars := v0\<rparr>)"
  "(shape_tok s)\<lparr>t_field_count := v1\<rparr> = shape_tok (s\<lparr>t_field_count := v1\<rparr>)"
  "(shape_tok s)\<lparr>t_field_quoted := v2\<rparr> = shape_tok (s\<lparr>t_field_quoted := v2\<rparr>)"
  "(shape_tok s)\<lparr>t_field_escaped := v3\<rparr> = shape_tok (s\<lparr>t_field_escaped := v3\<rparr>)"
  "(shape_tok s)\<lparr>t_field_started := v4\<rparr> = shape_tok (s\<lparr>t_field_started := v4\<rparr>)"
  "(shape_tok s)\<lparr>t_row_started := v5\<rparr> = shape_tok (s\<lparr>t_row_started := v5\<rparr>)"
  "(shape_tok s)\<lparr>t_in_quotes := v6\<rparr> = shape_tok (s\<lparr>t_in_quotes := v6\<rparr>)"
  "(shape_tok s)\<lparr>t_after_quote := v7\<rparr> = shape_tok (s\<lparr>t_after_quote := v7\<rparr>)"
  "(shape_tok s)\<lparr>t_escaping := v8\<rparr> = shape_tok (s\<lparr>t_escaping := v8\<rparr>)"
  "(shape_tok s)\<lparr>t_pending_cr := v9\<rparr> = shape_tok (s\<lparr>t_pending_cr := v9\<rparr>)"
  "(shape_tok s)\<lparr>t_stopped := v10\<rparr> = shape_tok (s\<lparr>t_stopped := v10\<rparr>)"
  "(shape_tok s)\<lparr>t_record_chars := v11\<rparr> = shape_tok (s\<lparr>t_record_chars := v11\<rparr>)"
  "(shape_tok s)\<lparr>t_line_chars := v12\<rparr> = shape_tok (s\<lparr>t_line_chars := v12\<rparr>)"
  "(shape_tok s)\<lparr>t_line := v13\<rparr> = shape_tok (s\<lparr>t_line := v13\<rparr>)"
  "(shape_tok s)\<lparr>t_start_line := v14\<rparr> = shape_tok (s\<lparr>t_start_line := v14\<rparr>)"
  "(shape_tok s)\<lparr>t_content_line := v15\<rparr> = shape_tok (s\<lparr>t_content_line := v15\<rparr>)"
  "(shape_tok s)\<lparr>t_record_count := v16\<rparr> = shape_tok (s\<lparr>t_record_count := v16\<rparr>)"
  "(shape_tok s)\<lparr>t_delimiters := v17\<rparr> = shape_tok (s\<lparr>t_delimiters := v17\<rparr>)"
  "(shape_tok s)\<lparr>t_current_delimiters := v18\<rparr> = shape_tok (s\<lparr>t_current_delimiters := v18\<rparr>)"
  "(shape_tok s)\<lparr>t_quotes := v19\<rparr> = shape_tok (s\<lparr>t_quotes := v19\<rparr>)"
  "(shape_tok s)\<lparr>t_escapes := v20\<rparr> = shape_tok (s\<lparr>t_escapes := v20\<rparr>)"
  by (simp_all add: shape_tok_def)

lemma config_sel [simp]:
  "c_dialect (shape_config cfg) = c_dialect cfg" "c_limits (shape_config cfg) = c_limits cfg"
  "c_max_records (shape_config cfg) = c_max_records cfg" "c_stop_after (shape_config cfg) = c_stop_after cfg"
  "c_retain (shape_config cfg) = c_retain cfg" "c_shape_only (shape_config cfg)"
  by (simp_all add: shape_config_def)

lemma failure_shape [simp]: "failure (shape_tok s) reason = failure s reason"
  by (simp add: failure_def)

lemma bind_shape:
  assumes "m' (shape_tok s) = via g shape_tok (m s)"
    and "\<And>a t. m s = (Inr a, t) \<Longrightarrow> f' (g a) (shape_tok t) = via k shape_tok (f a t)"
  shows "bind_m m' f' (shape_tok s) = via k shape_tok (bind_m m f s)"
  using assms by (rule bind_via)

lemma via_if: "via g h (if c then x else y) = (if c then via g h x else via g h y)"
  by simp

lemma count_regular_shape: "count_regular (shape_config cfg) (shape_tok s) = via id shape_tok (count_regular cfg s)"
  by (simp add: count_regular_def ensure_capacity_def bind_m_def Let_def shape_tok_def)

lemma append_value_shape: "append_value (shape_config cfg) v (shape_tok s) = via id shape_tok (append_value cfg v s)"
  by (simp add: append_value_def Let_def shape_tok_def)

lemma finish_field_shape: "finish_field (shape_config cfg) (shape_tok s) = via id shape_tok (finish_field cfg s)"
  by (simp add: finish_field_def Let_def shape_tok_def)

lemma end_field_shape: "end_field (shape_config cfg) (shape_tok s) = via id shape_tok (end_field cfg s)"
proof -
  let ?bump = "\<lambda>s. s\<lparr>t_delimiters := t_delimiters s + 1, t_current_delimiters := t_current_delimiters s + 1\<rparr>"
  have "?bump (shape_tok s) = shape_tok (?bump s)" by (simp add: shape_tok_def)
  then show ?thesis unfolding end_field_def
    by (simp only:) (rule bind_shape, rule finish_field_shape, simp)
qed

lemma escaped_shape: "consume_escaped (shape_config cfg) c (shape_tok s) = via id shape_tok (consume_escaped cfg c s)"
proof -
  have "bind_m (append_value (shape_config cfg) [c]) (\<lambda>_ s. (Inr (), s\<lparr>t_escaping := False\<rparr>)) (shape_tok t) =
      via id shape_tok (bind_m (append_value cfg [c]) (\<lambda>_ s. (Inr (), s\<lparr>t_escaping := False\<rparr>)) t)" for c t
    by (rule bind_shape, rule append_value_shape) simp
  then show ?thesis by (simp add: consume_escaped_def Let_def)
qed

lemma quoted_shape: "consume_quoted (shape_config cfg) c (shape_tok s) = via id shape_tok (consume_quoted cfg c s)"
  by (simp add: consume_quoted_def append_value_shape)

lemma after_quote_shape: "consume_after_quote (shape_config cfg) c (shape_tok s) = via id shape_tok (consume_after_quote cfg c s)"
proof -
  have "bind_m (append_value (shape_config cfg) [c]) (\<lambda>_ s. (Inr (), s\<lparr>t_field_escaped := True, t_in_quotes := True, t_after_quote := False\<rparr>)) (shape_tok s) =
      via id shape_tok (bind_m (append_value cfg [c]) (\<lambda>_ s. (Inr (), s\<lparr>t_field_escaped := True, t_in_quotes := True, t_after_quote := False\<rparr>)) s)"
    by (rule bind_shape, rule append_value_shape) simp
  then show ?thesis by (simp add: consume_after_quote_def end_field_shape)
qed

lemma plain_shape: "consume_plain (shape_config cfg) c (shape_tok s) = via id shape_tok (consume_plain cfg c s)"
  by (simp add: consume_plain_def append_value_shape end_field_shape)

lemma character_shape: "consume_character (shape_config cfg) c (shape_tok s) = via id shape_tok (consume_character cfg c s)"
proof -
  have "(let s = shape_tok t\<lparr>t_row_started := True\<rparr> in
        if t_escaping s then consume_escaped (shape_config cfg) c s
        else if t_in_quotes s then consume_quoted (shape_config cfg) c s
        else if t_after_quote s then consume_after_quote (shape_config cfg) c s
        else consume_plain (shape_config cfg) c s) = via id shape_tok (let s = t\<lparr>t_row_started := True\<rparr> in
        if t_escaping s then consume_escaped cfg c s
        else if t_in_quotes s then consume_quoted cfg c s
        else if t_after_quote s then consume_after_quote cfg c s
        else consume_plain cfg c s)" for t
    by (simp add: Let_def escaped_shape quoted_shape after_quote_shape plain_shape)
  then have "bind_m (count_regular (shape_config cfg)) (\<lambda>_ s0. let s = s0\<lparr>t_row_started := True\<rparr> in
        if t_escaping s then consume_escaped (shape_config cfg) c s
        else if t_in_quotes s then consume_quoted (shape_config cfg) c s
        else if t_after_quote s then consume_after_quote (shape_config cfg) c s
        else consume_plain (shape_config cfg) c s) (shape_tok s) = via id shape_tok
      (bind_m (count_regular cfg) (\<lambda>_ s0. let s = s0\<lparr>t_row_started := True\<rparr> in
        if t_escaping s then consume_escaped cfg c s
        else if t_in_quotes s then consume_quoted cfg c s
        else if t_after_quote s then consume_after_quote cfg c s
        else consume_plain cfg c s) s)"
    by (intro bind_shape [where g = id] count_regular_shape)
  then show ?thesis by (simp add: consume_character_def)
qed

lemma contents_shape:
  assumes "started s"
  shows "row_contents (shape_config cfg) (shape_tok s) = via (apfst (\<lambda>_. [])) shape_tok (row_contents cfg s)"
proof -
  have "row_open (shape_tok s) = row_open s" using assms by (auto simp: row_open_def started_def)
  moreover have "bind_m (finish_field (shape_config cfg)) (\<lambda>_ s. (Inr (t_fields s, t_field_count s), s)) (shape_tok s) =
      via (apfst (\<lambda>_. [])) shape_tok (bind_m (finish_field cfg) (\<lambda>_ s. (Inr (t_fields s, t_field_count s), s)) s)"
    by (rule bind_shape, rule finish_field_shape) simp
  ultimately show ?thesis by (simp add: row_contents_def)
qed

lemma close_shape:
  "close_row (shape_config cfg) n k (apfst (\<lambda>_. []) contents) (shape_tok s) = via shape_row shape_tok (close_row cfg n k contents s)"
  by (cases "c_stop_after cfg") (simp_all add: close_row_def Let_def reset_record_def shape_tok_def shape_row_def)

lemma emit_shape:
  assumes "started s"
  shows "emit_row (shape_config cfg) n k (shape_tok s) = via shape_row shape_tok (emit_row cfg n k s)"
proof (cases "t_record_count s < c_max_records cfg")
  case True
  have "bind_m (row_contents (shape_config cfg)) (close_row (shape_config cfg) n k) (shape_tok s) =
      via shape_row shape_tok (bind_m (row_contents cfg) (close_row cfg n k) s)"
    by (rule bind_shape, rule contents_shape [OF assms], rule close_shape)
  then show ?thesis using True by (simp add: emit_row_def ensure_capacity_def)
qed (simp add: emit_row_def ensure_capacity_def bind_m_def)

lemma newline_in_value_shape: "newline_in_value (shape_config cfg) nl (shape_tok s) = via id shape_tok (newline_in_value cfg nl s)"
proof -
  have "bind_m (append_value (shape_config cfg) nl) (\<lambda>_ s. (Inr (), s\<lparr>t_escaping := False, t_line := t_line s + 1, t_line_chars := 0\<rparr>)) (shape_tok t) =
      via id shape_tok (bind_m (append_value cfg nl) (\<lambda>_ s. (Inr (), s\<lparr>t_escaping := False, t_line := t_line s + 1, t_line_chars := 0\<rparr>)) t)" for t
    by (rule bind_shape, rule append_value_shape) simp
  then show ?thesis by (simp add: newline_in_value_def Let_def)
qed

lemma newline_shape:
  assumes "started s"
  shows "consume_newline (shape_config cfg) nl (shape_tok s) = via (map_option shape_row) shape_tok (consume_newline cfg nl s)"
proof -
  have in_value: "bind_m (newline_in_value (shape_config cfg) nl) (\<lambda>_. return_m None) (shape_tok t) =
      via (map_option shape_row) shape_tok (bind_m (newline_in_value cfg nl) (\<lambda>_. return_m None) t)" for t
    by (rule bind_shape, rule newline_in_value_shape) simp
  have row: "bind_m (emit_row (shape_config cfg) n k) (\<lambda>row s. (Inr (Some row), s\<lparr>t_line := t_line s + 1, t_line_chars := 0, t_start_line := t_line s + 1\<rparr>)) (shape_tok s) =
      via (map_option shape_row) shape_tok (bind_m (emit_row cfg n k) (\<lambda>row s. (Inr (Some row), s\<lparr>t_line := t_line s + 1, t_line_chars := 0, t_start_line := t_line s + 1\<rparr>)) s)" for n k
    by (rule bind_shape, rule emit_shape [OF assms]) simp
  show ?thesis
    by (cases "c_max_records cfg \<le> t_record_count s") (simp_all add: consume_newline_def ensure_capacity_def in_value row [simplified])
qed

section \<open>Whole feeds\<close>

lemma started_newline: "started s \<Longrightarrow> wp (consume_newline cfg nl) (\<lambda>_. started) (\<lambda>_ _. True) s"
  by (auto simp: tok_defs wp_def bind_m_def Let_def reset_record_def started_def split: prod.splits sum.splits if_splits)

lemma started_character: "wp (consume_character cfg c) (\<lambda>_. started) (\<lambda>_ _. True) s"
  by (auto simp: tok_defs wp_def bind_m_def Let_def started_def split: prod.splits sum.splits if_splits)

lemma started_pending [simp]: "started (s\<lparr>t_pending_cr := b\<rparr>) = started s"
  by (simp add: started_def)

lemma collect_shape:
  assumes "m' (shape_tok s) = via (map_option shape_row) shape_tok (m s)"
    and "\<And>r t. m s = (Inr r, t) \<Longrightarrow> rest' (shape_tok t) = via (map shape_row) shape_tok (rest t)"
  shows "collect m' rest' (shape_tok s) = via (map shape_row) shape_tok (collect m rest s)"
  unfolding collect_def
proof (rule bind_shape [where m' = m' and m = m, OF assms(1)])
  fix r t assume "m s = (Inr r, t)"
  note rest = assms(2) [OF this]
  show "bind_m rest' (\<lambda>rows. return_m (case map_option shape_row r of None \<Rightarrow> rows | Some row \<Rightarrow> row # rows)) (shape_tok t) =
      via (map shape_row) shape_tok (bind_m rest (\<lambda>rows. return_m (case r of None \<Rightarrow> rows | Some row \<Rightarrow> row # rows)) t)"
    by (rule bind_shape [where m' = rest' and m = rest, OF rest]) (cases r; simp)
qed

lemma loop_shape:
  "started s \<Longrightarrow> feed_loop (shape_config cfg) str (shape_tok s) = via (map shape_row) shape_tok (feed_loop cfg str s)"
proof (induction str arbitrary: s rule: length_induct)
  case (1 str)
  have nl: "collect (consume_newline (shape_config cfg) nl) (feed_loop (shape_config cfg) t) (shape_tok s) =
      via (map shape_row) shape_tok (collect (consume_newline cfg nl) (feed_loop cfg t) s)" if "length t < length str" for nl t
    by (rule collect_shape, rule newline_shape [OF 1(2)])
      (use 1(1) that wp_InrD [OF started_newline [OF 1(2)]] in blast)
  have ch: "bind_m (consume_character (shape_config cfg) c) (\<lambda>_. feed_loop (shape_config cfg) t) (shape_tok s) =
      via (map shape_row) shape_tok (bind_m (consume_character cfg c) (\<lambda>_. feed_loop cfg t) s)" if "length t < length str" for c t
    by (rule bind_shape, rule character_shape) (use 1(1) that wp_InrD [OF started_character] in blast)
  show ?case
  proof (cases str)
    case (Cons c cs)
    then show ?thesis using nl [of cs] nl [of "tl cs"] ch [of cs c] by (cases cs) auto
  qed simp
qed

lemma open_shape:
  assumes "started s"
  shows "feed_open (shape_config cfg) str final (shape_tok s) = via (map shape_row) shape_tok (feed_open cfg str final s)"
proof -
  have "collect (consume_newline (shape_config cfg) nl) (feed_loop (shape_config cfg) t) (shape_tok (s\<lparr>t_pending_cr := False\<rparr>)) =
      via (map shape_row) shape_tok (collect (consume_newline cfg nl) (feed_loop cfg t) (s\<lparr>t_pending_cr := False\<rparr>))" for nl t
    by (rule collect_shape, rule newline_shape)
      (use assms loop_shape wp_InrD [OF started_newline] started_pending in blast)+
  then show ?thesis using loop_shape [OF assms]
    by (cases "t_pending_cr s \<and> (str \<noteq> [] \<or> final)"; cases "take 1 str = [10]")
      (auto simp only: feed_open_def shape_sel shape_upd if_True if_False simp_thms)
qed

lemma mark_shape [simp]: "mark_last (map shape_row rows) = map shape_row (mark_last rows)"
  by (simp add: mark_last_def last_map map_butlast shape_row_def)

lemma open_started:
  assumes "started s"
  shows "wp (feed_open cfg str final) (\<lambda>_. started) (\<lambda>_ _. True) s"
proof -
  have loop: "wp (feed_loop cfg t) (\<lambda>_. started) (\<lambda>_ _. True) s'" if "started s'" for t s'
    by (rule feed_loop_rule [where I = "\<lambda>_. started", OF started_newline wp_mono [OF started_character] _ that]) auto
  have step: "wp (collect (consume_newline cfg nl) (feed_loop cfg t)) (\<lambda>_. started) (\<lambda>_ _. True) s'"
    if "started s'" for nl t s'
    unfolding wp_collect by (rule wp_mono [OF started_newline [OF that] loop]) auto
  have "started (s\<lparr>t_pending_cr := False\<rparr>)" using assms by simp
  then show ?thesis using step loop assms
    by (cases "t_pending_cr s \<and> (str \<noteq> [] \<or> final)"; cases "take 1 str = [10]") (auto simp: wp_def feed_open_def)
qed

lemma tail_shape:
  assumes "started s"
  shows "source_tail (shape_config cfg) (shape_tok s) = via (map shape_row) shape_tok (source_tail cfg s)"
  unfolding source_tail_def
proof (rule collect_shape)
  show "(if t_pending_cr (shape_tok s) then consume_newline (shape_config cfg) [13] (shape_tok s\<lparr>t_pending_cr := False\<rparr>) else (Inr None, shape_tok s)) =
      via (map_option shape_row) shape_tok (if t_pending_cr s then consume_newline cfg [13] (s\<lparr>t_pending_cr := False\<rparr>) else (Inr None, s))"
    using newline_shape [of "s\<lparr>t_pending_cr := False\<rparr>"] assms by simp
  fix r t assume "(if t_pending_cr s then consume_newline cfg [13] (s\<lparr>t_pending_cr := False\<rparr>) else (Inr None, s)) = (Inr r, t)"
  then have t: "started t"
    using assms wp_InrD [OF started_newline [of "s\<lparr>t_pending_cr := False\<rparr>" cfg "[13]"]] by (auto split: if_splits)
  then have o: "row_open (shape_tok t) = row_open t" by (auto simp: row_open_def started_def)
  have "bind_m (emit_row (shape_config cfg) (t_line t) 0) (\<lambda>r. return_m [r]) (shape_tok t) =
      via (map shape_row) shape_tok (bind_m (emit_row cfg (t_line t) 0) (\<lambda>r. return_m [r]) t)"
    by (rule bind_shape, rule emit_shape [OF t]) simp
  then show "(if t_escaping (shape_tok t) then (Inl (failure (shape_tok t) ''dangling_escape''), shape_tok t)
       else if t_in_quotes (shape_tok t) then (Inl (failure (shape_tok t) ''unterminated_quote''), shape_tok t)
       else if row_open (shape_tok t) then bind_m (emit_row (shape_config cfg) (t_line (shape_tok t)) 0) (\<lambda>r. return_m [r]) (shape_tok t)
       else (Inr [], shape_tok t)) = via (map shape_row) shape_tok
      (if t_escaping t then (Inl (failure t ''dangling_escape''), t)
       else if t_in_quotes t then (Inl (failure t ''unterminated_quote''), t)
       else if row_open t then bind_m (emit_row cfg (t_line t) 0) (\<lambda>r. return_m [r]) t
       else (Inr [], t))"
    using o by simp
qed

lemma end_shape:
  assumes "started s"
  shows "end_of_source (shape_config cfg) (map shape_row rows) (shape_tok s) = via (map shape_row) shape_tok (end_of_source cfg rows s)"
  unfolding end_of_source_def
  by (rule bind_shape, rule tail_shape [OF assms]) (auto simp: Let_def shape_tok_def simp flip: map_append)

text \<open>C34: Measuring without values is a refinement of tokenizing. Whatever the text and the limits, the
  shape-only tokenizer of the dialect detection ends with the same error at the same position, emits
  rows with the same numbers of fields, characters and lines, and leaves the same counters and
  position as the full tokenizer; only the field values are missing.\<close>

theorem shape_only_refines:
  "feed (shape_config cfg) decoded final new_tok =
     via (map shape_row) shape_tok (feed cfg decoded final new_tok)"
proof -
  have n: "started new_tok" by (simp add: started_def new_tok_def)
  have "shape_tok new_tok = new_tok" by (simp add: shape_tok_def new_tok_def)
  moreover have "feed (shape_config cfg) decoded final (shape_tok new_tok) =
     via (map shape_row) shape_tok (feed cfg decoded final new_tok)"
    unfolding feed_def
  proof (rule bind_shape, rule open_shape [OF n])
    fix rows t assume "feed_open cfg decoded final new_tok = (Inr rows, t)"
    then have "started t" using wp_InrD [OF open_started [OF n]] by blast
    then show "(if final \<and> \<not> t_stopped (shape_tok t) then end_of_source (shape_config cfg) (map shape_row rows) (shape_tok t)
        else (Inr (map shape_row rows), shape_tok t)) =
      via (map shape_row) shape_tok (if final \<and> \<not> t_stopped t then end_of_source cfg rows t else (Inr rows, t))"
      by (simp add: end_shape)
  qed
  ultimately show ?thesis by simp
qed

end
