(* ===== verification/Delimited_Detection.thy ===== *)
theory Delimited_Detection
  imports Delimited_Rows Delimited_Shape
begin

text \<open>
  Detection of the dialect of delimited text (\<open>_dialects\<close> to \<open>_detect_dialect\<close> of
  \<open>parsers/builtin/delimited.py\<close>): every candidate dialect is tried on the sample with a shape-only
  tokenizer, the trials are compared, and the winner is validated with the limits of the caller.
\<close>

section \<open>Options\<close>

record detection_options =
  o_delimiters :: "pystr list"
  o_quotes :: "pystr option list"
  o_escapes :: "pystr option list"
  o_override :: "dialect option"

definition candidate_tuple :: "pystr option list \<Rightarrow> bool \<Rightarrow> bool \<Rightarrow> bool" where
  "candidate_tuple vs optional allow_tab \<longleftrightarrow> vs \<noteq> [] \<and> length vs \<le> 128 \<and> distinct vs \<and>
     list_all (\<lambda>v. dialect_character v optional allow_tab) vs"

definition valid_options :: "detection_options \<Rightarrow> bool" where
  "valid_options opts \<longleftrightarrow> candidate_tuple (map Some (o_delimiters opts)) False True \<and>
     candidate_tuple (o_quotes opts) True False \<and> candidate_tuple (o_escapes opts) True False"

datatype detect_error = Ambiguous | Row_Error tok_error | Too_Many

fun add_dialects :: "nat \<Rightarrow> dialect list \<Rightarrow> dialect option list \<Rightarrow> detect_error + dialect list" where
  "add_dialects maximum acc [] = Inr acc"
| "add_dialects maximum acc (None # ds) = add_dialects maximum acc ds"
| "add_dialects maximum acc (Some d # ds) =
     (if maximum \<le> length acc then Inl Too_Many else add_dialects maximum (acc @ [d]) ds)"

definition dialects :: "detection_options \<Rightarrow> nat \<Rightarrow> detect_error + dialect list" where
  "dialects opts maximum = (case o_override opts of
     Some d \<Rightarrow> Inr [d]
   | None \<Rightarrow> add_dialects maximum [] (concat (map (\<lambda>delim. concat (map (\<lambda>quote. map (\<lambda>escape.
       new_dialect delim quote escape True) (o_escapes opts)) (o_quotes opts))) (o_delimiters opts))))"

section \<open>Evidence in the rows\<close>

definition min_on :: "('a \<Rightarrow> 'k::linorder) \<Rightarrow> 'a list \<Rightarrow> 'a" where
  "min_on key xs = min_by key (hd xs) (tl xs)"

definition row_consistency :: "csv_row list \<Rightarrow> bool \<Rightarrow> rat option" where
  "row_consistency rows forced =
     (let widths = filter (\<lambda>w. 0 < w) (map r_field_count rows) in
      if length widths < (if forced then 1 else 2) then None
      else if \<not> forced \<and> length (filter (\<lambda>w. 2 \<le> w) widths) < 2 then None
      else let dominant = min_on (\<lambda>w. (- int (count_list widths w), - int w)) (remdups widths) in
        if dominant < 2 \<or> (\<not> forced \<and> count_list widths dominant < 2) then None
        else Some (of_nat (count_list widths dominant) / of_nat (length widths)))"

record header_candidate =
  h_row_index :: nat
  h_confidence :: rat        \<comment> \<open>the literal of the source\<close>
  h_duplicates :: nat

definition header_candidate :: "csv_row list \<Rightarrow> header_candidate option" where
  "header_candidate rows = (case rows of
     [] \<Rightarrow> None
   | first # others \<Rightarrow>
       (let values = map f_value (r_fields first) in
        if length values < 2 \<or> [] \<in> set values then None
        else
          let duplicates = length values - card (set values);
              corroborated = list_ex (\<lambda>r. length (r_fields r) = length (r_fields first)) others in
          Some \<lparr>h_row_index = r_index first,
                h_confidence = (if duplicates \<noteq> 0 \<and> corroborated then 45 / 100
                  else if duplicates \<noteq> 0 then 30 / 100 else if corroborated then 60 / 100 else 35 / 100),
                h_duplicates = duplicates\<rparr>))"

definition shape_limits :: "pystr \<Rightarrow> row_limits \<Rightarrow> row_limits" where
  "shape_limits text l =
     (let sample = max (length text) 1 in
      l\<lparr>l_max_columns := min max_columns_bound (sample + 1), l_max_field_size := min max_field_bound sample,
        l_max_record_chars := min max_record_bound sample, l_max_batch_cells := max_cells_bound,
        l_max_batch_chars := max_record_bound + 2, l_max_line_chars := min (16 * 1024 * 1024) sample,
        l_max_lines := 10000000\<rparr>)"

section \<open>Trials\<close>

record accepted =
  k_dialect :: dialect
  k_consistency :: rat
  k_row_count :: nat
  k_quotes :: nat
  k_escapes :: nat
  k_order :: nat

record failed =
  x_dialect :: dialect
  x_error :: tok_error
  x_consistency :: "rat option"
  x_partial :: "rat option"
  x_current_delimiters :: nat
  x_delimiters :: nat
  x_quotes :: nat
  x_escapes :: nat
  x_order :: nat

record limited =
  y_dialect :: dialect
  y_error :: tok_error
  y_consistency :: "rat option"
  y_delimiters :: nat
  y_order :: nat

datatype trial = Accepted accepted | Failed failed | Limited limited | Rejected

definition score :: "accepted \<Rightarrow> rat \<times> bool \<times> nat" where
  "score c = (k_consistency c, 0 < k_quotes c, k_row_count c)"

definition probe_config :: "dialect \<Rightarrow> row_limits \<Rightarrow> nat \<Rightarrow> nat \<Rightarrow> bool \<Rightarrow> bool \<Rightarrow> config" where
  "probe_config d l records stop retain shape = \<lparr>c_dialect = d, c_limits = l, c_max_records = records,
     c_stop_after = Some stop, c_retain = retain, c_shape_only = shape\<rparr>"

definition try_dialect :: "pystr \<Rightarrow> bool \<Rightarrow> row_limits \<Rightarrow> nat \<Rightarrow> dialect \<Rightarrow> trial" where
  "try_dialect text whole l order d =
     (let cfg = probe_config d (shape_limits text l) (max (l_max_header_probe_rows l) 2) (l_max_header_probe_rows l) True True in
      case feed_detection_text cfg text whole new_tok of
        (Inl (Malformed r n m), s) \<Rightarrow> Failed \<lparr>x_dialect = d, x_error = Malformed r n m,
          x_consistency = row_consistency (t_completed s) False, x_partial = row_consistency (t_completed s) True,
          x_current_delimiters = t_current_delimiters s, x_delimiters = t_delimiters s,
          x_quotes = t_quotes s, x_escapes = t_escapes s, x_order = order\<rparr>
      | (Inl (Limit_Exceeded r n), s) \<Rightarrow> Limited \<lparr>y_dialect = d, y_error = Limit_Exceeded r n,
          y_consistency = row_consistency (t_completed s) False, y_delimiters = t_delimiters s, y_order = order\<rparr>
      | (Inr _, s) \<Rightarrow> (case row_consistency (t_completed s) False of
          None \<Rightarrow> Rejected
        | Some c \<Rightarrow> if t_delimiters s = 0 then Rejected
            else Accepted \<lparr>k_dialect = d, k_consistency = c, k_row_count = length (t_completed s),
                           k_quotes = t_quotes s, k_escapes = t_escapes s, k_order = order\<rparr>))"

definition trials :: "pystr \<Rightarrow> bool \<Rightarrow> row_limits \<Rightarrow> dialect list \<Rightarrow> trial list" where
  "trials text whole l ds = map (\<lambda>(order, d). try_dialect text whole l order d) (List.enumerate 0 ds)"

definition accepted_of :: "trial list \<Rightarrow> accepted list" where
  "accepted_of ts = concat (map (\<lambda>t. case t of Accepted c \<Rightarrow> [c] | _ \<Rightarrow> []) ts)"

definition failed_of :: "trial list \<Rightarrow> failed list" where
  "failed_of ts = concat (map (\<lambda>t. case t of Failed c \<Rightarrow> [c] | _ \<Rightarrow> []) ts)"

definition limited_of :: "trial list \<Rightarrow> limited list" where
  "limited_of ts = concat (map (\<lambda>t. case t of Limited c \<Rightarrow> [c] | _ \<Rightarrow> []) ts)"

section \<open>No dialect was accepted\<close>

definition worst_failure :: "failed list \<Rightarrow> failed" where
  "worst_failure xs = min_on (\<lambda>x. (- int (x_quotes x), - int (x_escapes x), x_order x)) xs"

definition one_delimiter :: "dialect list \<Rightarrow> bool" where
  "one_delimiter ds \<longleftrightarrow> card (set (map d_delimiter ds)) = 1"

definition explain_limits :: "pystr \<Rightarrow> bool \<Rightarrow> row_limits \<Rightarrow> limited list \<Rightarrow> detect_error option" where
  "explain_limits text whole l limits =
     (let strong = filter (\<lambda>y. y_consistency y \<noteq> None) (filter (\<lambda>y. 0 < y_delimiters y) limits) in
      if strong = [] then None
      else if one_delimiter (map y_dialect strong)
      then let y = min_on y_order strong;
               cfg = probe_config (y_dialect y) l (max (l_max_header_probe_rows l) 2) (l_max_header_probe_rows l) False True in
        (case fst (feed_detection_text cfg text whole new_tok) of
           Inl e \<Rightarrow> Some (Row_Error e) | Inr _ \<Rightarrow> Some (Row_Error (y_error y)))
      else Some Ambiguous)"

definition explain_rejection :: "pystr \<Rightarrow> bool \<Rightarrow> row_limits \<Rightarrow> failed list \<Rightarrow> limited list \<Rightarrow> detect_error option" where
  "explain_rejection text whole l failures limits =
     (let plausible = filter (\<lambda>x. 0 < x_delimiters x \<and> (x_partial x \<noteq> None \<or> 0 < x_quotes x)) failures;
          structured = filter (\<lambda>x. x_consistency x \<noteq> None) plausible in
      if structured \<noteq> []
      then if 1 < card (set (map (d_delimiter \<circ> x_dialect) structured)) then Some Ambiguous
           else Some (Row_Error (x_error (worst_failure structured)))
      else if whole \<and> plausible \<noteq> [] \<and> one_delimiter (map x_dialect plausible)
      then Some (Row_Error (x_error (worst_failure plausible)))
      else explain_limits text whole l limits)"

section \<open>The winner\<close>

definition strongest_candidates :: "accepted list \<Rightarrow> accepted list" where
  "strongest_candidates cs = filter (\<lambda>c. score c = Max (set (map score cs))) cs"

text \<open>The escape character the strongest candidates agree on.\<close>

definition settle_escape :: "accepted list \<Rightarrow> detect_error + accepted list" where
  "settle_escape cs =
     (let evidenced = remdups (map (d_escape \<circ> k_dialect) (filter (\<lambda>c. 0 < k_escapes c) cs)) in
      if 1 < length evidenced then Inl Ambiguous
      else case evidenced of
        e # _ \<Rightarrow> if list_ex (\<lambda>c. d_escape (k_dialect c) \<noteq> e) cs then Inl Ambiguous
                 else Inr (filter (\<lambda>c. d_escape (k_dialect c) = e) cs)
      | [] \<Rightarrow> let plain = filter (\<lambda>c. d_escape (k_dialect c) = None) cs in
          if plain \<noteq> [] then Inr plain
          else if 1 < card (set (map (d_escape \<circ> k_dialect) cs)) then Inl Ambiguous else Inr cs)"

definition select_candidate :: "accepted list \<Rightarrow> detect_error + accepted" where
  "select_candidate cs =
     (let best = strongest_candidates cs in
      if 1 < card (set (map (d_delimiter \<circ> k_dialect) best)) then Inl Ambiguous
      else if 1 < card (set (map (d_quote \<circ> k_dialect) (filter (\<lambda>c. 0 < k_quotes c) best))) then Inl Ambiguous
      else bindE (settle_escape best) (\<lambda>rest. Inr (min_on k_order rest)))"

definition quote_objection :: "accepted \<Rightarrow> failed list \<Rightarrow> detect_error option" where
  "quote_objection c failures =
     (let quoted = filter (\<lambda>x. mal_reason (x_error x) \<in> set [''unexpected_character_after_quote'', ''unterminated_quote''] \<and>
            0 < x_quotes x \<and> 0 < x_delimiters x) failures;
          other = filter (\<lambda>x. d_delimiter (x_dialect x) \<noteq> d_delimiter (k_dialect c) \<and>
            (x_consistency x \<noteq> None \<or> (x_partial x \<noteq> None \<and> 0 < x_current_delimiters x))) quoted;
          stronger = filter (\<lambda>x. k_quotes c = 0 \<and> d_delimiter (x_dialect x) = d_delimiter (k_dialect c) \<and>
            k_quotes c < x_quotes x) quoted in
      if other \<noteq> [] then Some Ambiguous
      else if stronger \<noteq> [] then Some (Row_Error (x_error (min_on (\<lambda>x. (- int (x_quotes x), x_order x)) stronger)))
      else None)"

text \<open>Decimals of 28 digits, rounded half to even, for values in \<open>(0, 1]\<close>.\<close>

definition half_even :: "rat \<Rightarrow> int" where
  "half_even x = (let f = \<lfloor>x\<rfloor>; d = x - of_int f in
     if d < 1 / 2 then f else if 1 / 2 < d then f + 1 else if even f then f else f + 1)"

definition decimal28 :: "rat \<Rightarrow> rat" where
  "decimal28 x = (case find (\<lambda>e. 10 ^ 27 \<le> x * 10 ^ e) [0..<64] of
     None \<Rightarrow> x | Some e \<Rightarrow> of_int (half_even (x * 10 ^ e)) / 10 ^ e)"

record detection =
  det_dialect :: dialect
  det_header :: "header_candidate option"
  det_confidence :: rat
  det_warnings :: "string list"

definition dialect_warnings :: "nat \<Rightarrow> nat \<Rightarrow> string list" where
  "dialect_warnings quotes escapes =
     (if quotes = 0 then [''PARSER_DIALECT_QUOTE_INCONCLUSIVE''] else []) @
     (if escapes = 0 then [''PARSER_DIALECT_ESCAPE_INCONCLUSIVE''] else [])"

definition detect_forced :: "pystr \<Rightarrow> bool \<Rightarrow> row_limits \<Rightarrow> dialect \<Rightarrow> detect_error + detection option" where
  "detect_forced text whole l d =
     (let rows = l_max_header_probe_rows l in
      case feed_detection_text (probe_config d l rows rows True False) text whole new_tok of
        (Inl e, _) \<Rightarrow> Inl (Row_Error e)
      | (Inr _, s) \<Rightarrow> Inr (Some \<lparr>det_dialect = d, det_header = header_candidate (t_completed s),
          det_confidence = 99 / 100, det_warnings = dialect_warnings (t_quotes s) (t_escapes s)\<rparr>))"

definition validate_candidate :: "pystr \<Rightarrow> bool \<Rightarrow> row_limits \<Rightarrow> accepted \<Rightarrow> detect_error + detection" where
  "validate_candidate text whole l c =
     (case feed_detection_text (probe_config (k_dialect c) l (max (l_max_header_probe_rows l) 2) (l_max_header_probe_rows l) True False)
        text whole new_tok of
        (Inl e, _) \<Rightarrow> Inl (Row_Error e)
      | (Inr _, s) \<Rightarrow> Inr \<lparr>det_dialect = k_dialect c, det_header = header_candidate (t_completed s),
          det_confidence = decimal28 (decimal28 (k_consistency c) * (if 3 \<le> k_row_count c then 95 / 100 else 90 / 100)),
          det_warnings = dialect_warnings (k_quotes c) (k_escapes c)\<rparr>)"

definition detect_dialect :: "pystr \<Rightarrow> bool \<Rightarrow> detection_options \<Rightarrow> row_limits \<Rightarrow> detect_error + detection option" where
  "detect_dialect text whole opts l =
     bindE (dialects opts (l_max_dialect_candidates l)) (\<lambda>ds.
       case o_override opts of
         Some d \<Rightarrow> detect_forced text whole l d
       | None \<Rightarrow>
           (let ts = trials text whole l ds; cs = accepted_of ts in
            if cs = [] then (case explain_rejection text whole l (failed_of ts) (limited_of ts) of
                None \<Rightarrow> Inr None | Some e \<Rightarrow> Inl e)
            else bindE (select_candidate cs) (\<lambda>c. case quote_objection c (failed_of ts) of
                Some e \<Rightarrow> Inl e
              | None \<Rightarrow> bindE (validate_candidate text whole l c) (\<lambda>d. Inr (Some d)))))"

section \<open>Lemmas\<close>

lemma min_on_in: "xs \<noteq> [] \<Longrightarrow> min_on key xs \<in> set xs"
  using min_by_in [of key "hd xs" "tl xs"] by (simp add: min_on_def)

lemma add_dialects_Inr:
  "add_dialects m acc ds = Inr out \<Longrightarrow> length acc \<le> m \<Longrightarrow> length out \<le> m \<and> set out \<subseteq> set acc \<union> {d. Some d \<in> set ds}"
proof (induction m acc ds rule: add_dialects.induct)
  case (3 m acc d ds)
  then have "add_dialects m (acc @ [d]) ds = Inr out" "length (acc @ [d]) \<le> m" by (simp_all split: if_splits)
  then show ?case using 3 by (auto split: if_splits)
qed auto

definition well_formed :: "dialect \<Rightarrow> bool" where
  "well_formed d \<longleftrightarrow> d_double d \<and> Some (d_delimiter d) \<noteq> d_quote d \<and> Some (d_delimiter d) \<noteq> d_escape d \<and>
     (d_quote d = d_escape d \<longrightarrow> d_quote d = None) \<and>
     (\<forall>c. Some c \<in> {Some (d_delimiter d), d_quote d, d_escape d} \<longrightarrow> c \<notin> {0, 10, 13} \<and>
        (forbidden_category c \<longrightarrow> c = 9 \<and> c = d_delimiter d))"

lemma dialect_characterD:
  "dialect_character (Some v) optional tab \<Longrightarrow> \<exists>c. v = [c] \<and> c \<notin> {0, 10, 13} \<and> (forbidden_category c \<longrightarrow> tab \<and> c = 9)"
  by (auto simp: dialect_character_def split: list.splits)

lemma new_dialect_well_formed:
  assumes "new_dialect delim quote escape True = Some d"
  shows "well_formed d"
proof -
  obtain c where c: "delim = [c]" "c \<notin> {0, 10, 13}" "forbidden_category c \<longrightarrow> c = 9"
    using assms dialect_characterD [of delim False True] by (auto simp: new_dialect_def split: if_splits)
  have opt: "\<exists>x. v = [x] \<and> x \<notin> {0, 10, 13} \<and> \<not> forbidden_category x" if "dialect_character (Some v) True False" for v
    using dialect_characterD [OF that] by simp
  have chars: "dialect_character quote True False" "dialect_character escape True False"
    and dist: "distinct ([delim] @ (case quote of None \<Rightarrow> [] | Some q \<Rightarrow> [q]) @ (case escape of None \<Rightarrow> [] | Some e \<Rightarrow> [e]))"
    and d: "d = \<lparr>d_delimiter = hd delim, d_quote = map_option hd quote, d_escape = map_option hd escape, d_double = True\<rparr>"
    using assms by (auto simp: new_dialect_def split: if_splits)
  show ?thesis
  proof (cases quote)
    case None
    then show ?thesis using c chars dist d opt by (cases escape) (auto simp: well_formed_def dest!: opt)
  next
    case (Some q)
    then show ?thesis using c chars dist d opt by (cases escape) (auto simp: well_formed_def dest!: opt)
  qed
qed

lemma dialects_Inr:
  assumes "dialects opts m = Inr ds" "o_override opts = None"
  shows "length ds \<le> m \<and> (\<forall>d \<in> set ds. well_formed d)"
  using add_dialects_Inr [of m "[]" _ ds] assms new_dialect_well_formed
  by (fastforce simp: dialects_def)

lemma row_consistency_range:
  assumes "row_consistency rows forced = Some c"
  shows "0 < c \<and> c \<le> 1"
proof -
  define widths where "widths = filter (\<lambda>w. 0 < w) (map r_field_count rows)"
  define dominant where "dominant = min_on (\<lambda>w. (- int (count_list widths w), - int w)) (remdups widths)"
  have c: "c = of_nat (count_list widths dominant) / of_nat (length widths)" and ne: "widths \<noteq> []"
    using assms unfolding row_consistency_def Let_def widths_def [symmetric] dominant_def [symmetric]
    by (auto split: if_splits)
  have "dominant \<in> set widths" using min_on_in [of "remdups widths"] ne by (simp add: dominant_def)
  then have "0 < count_list widths dominant" by (metis count_list_0_iff gr0I)
  moreover have "count_list widths dominant \<le> length widths" by (simp add: count_le_length)
  moreover have "0 < length widths" using ne by simp
  ultimately show ?thesis using c by (simp add: divide_le_eq_1)
qed

lemma half_even_le: "x \<le> of_int n \<Longrightarrow> half_even x \<le> n"
proof -
  assume x: "x \<le> of_int n"
  have f: "\<lfloor>x\<rfloor> \<le> n" using x by linarith
  moreover have "\<lfloor>x\<rfloor> + 1 \<le> n" if "1 / 2 \<le> x - of_int \<lfloor>x\<rfloor>"
  proof -
    have "of_int \<lfloor>x\<rfloor> < (of_int n :: rat)" using that x by linarith
    then show ?thesis by simp
  qed
  ultimately show ?thesis by (auto simp: half_even_def Let_def)
qed

lemma half_even_ge: "\<lfloor>x\<rfloor> \<le> half_even x"
  by (simp add: half_even_def Let_def)

lemma decimal28_range:
  assumes "0 < x" "x \<le> of_int n / 100" "n \<le> 100"
  shows "0 < decimal28 x \<and> decimal28 x \<le> of_int n / 100"
proof (cases "find (\<lambda>e. 10 ^ 27 \<le> x * 10 ^ e) [0..<64]")
  case (Some e)
  then have e: "10 ^ 27 \<le> x * 10 ^ e" by (auto dest: find_SomeD)
  have "x \<le> 1" using assms(2,3) by (simp add: field_simps)
  then have "x * 10 ^ e \<le> 10 ^ e" using mult_right_mono [of x 1 "10 ^ e"] by simp
  then have "(10 :: rat) ^ 27 \<le> 10 ^ e" using e by linarith
  then have "27 \<le> e" using power_increasing_iff [of "10 :: rat" 27 e] by simp
  then have "2 + (e - 2) = e" by linarith
  then have "(10 :: rat) ^ e = 10 ^ 2 * 10 ^ (e - 2)" by (metis power_add)
  then have k: "(10 :: rat) ^ e = 100 * 10 ^ (e - 2)" by simp
  have "x * 10 ^ e \<le> of_int n / 100 * 10 ^ e" using assms(2) by (intro mult_right_mono) auto
  also have "\<dots> = of_int (n * 10 ^ (e - 2))" by (simp add: k)
  finally have "half_even (x * 10 ^ e) \<le> n * 10 ^ (e - 2)" by (rule half_even_le)
  then have "(of_int (half_even (x * 10 ^ e)) :: rat) \<le> of_int (n * 10 ^ (e - 2))" by (simp only: of_int_le_iff)
  then have "of_int (half_even (x * 10 ^ e)) / 10 ^ e \<le> (of_int n / 100 :: rat)" by (simp add: k field_simps)
  moreover have "0 < half_even (x * 10 ^ e)"
  proof -
    have "(1 :: rat) \<le> 10 ^ 27" by simp
    then have "1 \<le> x * 10 ^ e" using e by (rule order_trans)
    then have "1 \<le> \<lfloor>x * 10 ^ e\<rfloor>" by (simp add: le_floor_iff)
    then have "1 \<le> half_even (x * 10 ^ e)" using half_even_ge order_trans by blast
    then show ?thesis by simp
  qed
  ultimately show ?thesis using Some by (simp add: decimal28_def)
qed (use assms in \<open>simp add: decimal28_def\<close>)

lemma mem_accepted: "c \<in> set (accepted_of ts) \<longleftrightarrow> Accepted c \<in> set ts"
  by (auto simp: accepted_of_def split: trial.splits intro: bexI [of _ "Accepted c"])

lemma settle_escape_in:
  assumes "settle_escape cs = Inr rest" "cs \<noteq> []"
  shows "rest \<noteq> [] \<and> set rest \<subseteq> set cs"
proof -
  define evidenced where "evidenced = remdups (map (d_escape \<circ> k_dialect) (filter (\<lambda>c. 0 < k_escapes c) cs))"
  note s = assms(1) [unfolded settle_escape_def Let_def evidenced_def [symmetric]]
  show ?thesis
  proof (cases evidenced)
    case Nil
    then show ?thesis using s assms(2) by (auto split: if_splits)
  next
    case (Cons e es)
    then have r: "rest = filter (\<lambda>c. d_escape (k_dialect c) = e) cs" and "\<forall>c \<in> set cs. d_escape (k_dialect c) = e"
      using s by (auto simp: list_ex_iff split: if_splits)
    then have "rest = cs" by simp
    then show ?thesis using assms(2) by simp
  qed
qed

lemma select_candidate_best:
  assumes "select_candidate cs = Inr c" "cs \<noteq> []"
  shows "c \<in> set cs \<and> (\<forall>c' \<in> set cs. score c' \<le> score c \<and>
    (score c' = score c \<longrightarrow> d_delimiter (k_dialect c') = d_delimiter (k_dialect c)))"
proof -
  let ?best = "strongest_candidates cs"
  obtain rest where one: "\<not> 1 < card (set (map (d_delimiter \<circ> k_dialect) ?best))"
    and rest: "settle_escape ?best = Inr rest" and c: "c = min_on k_order rest"
    using assms(1) by (auto simp: select_candidate_def Let_def result_simps split: if_splits)
  have "Max (set (map score cs)) \<in> set (map score cs)" using assms(2) by (intro Max_in) auto
  then have ne: "?best \<noteq> []" by (auto simp: strongest_candidates_def filter_empty_conv)
  have "c \<in> set ?best" using min_on_in settle_escape_in [OF rest ne] c by blast
  then have best: "c \<in> set cs" "score c = Max (set (map score cs))" by (auto simp: strongest_candidates_def)
  have same: "d_delimiter (k_dialect c') = d_delimiter (k_dialect c)" if "c' \<in> set ?best" for c'
  proof (rule ccontr)
    assume "\<not> ?thesis"
    then have "card {d_delimiter (k_dialect c'), d_delimiter (k_dialect c)} = 2" by simp
    moreover have "{d_delimiter (k_dialect c'), d_delimiter (k_dialect c)} \<subseteq> set (map (d_delimiter \<circ> k_dialect) ?best)"
      using that \<open>c \<in> set ?best\<close> by auto
    ultimately have "2 \<le> card (set (map (d_delimiter \<circ> k_dialect) ?best))" by (metis card_mono List.finite_set)
    then show False using one by simp
  qed
  have "score c' \<le> score c" if "c' \<in> set cs" for c' using that best(2) by simp
  moreover have "c' \<in> set ?best" if "c' \<in> set cs" "score c' = score c" for c'
    using that best(2) by (simp add: strongest_candidates_def)
  ultimately show ?thesis using best(1) same by blast
qed

lemma trials_accepted:
  assumes "Accepted c \<in> set (trials text whole l ds)"
  shows "k_dialect c \<in> set ds \<and> 0 < k_consistency c \<and> k_consistency c \<le> 1"
proof -
  obtain i d where "(i, d) \<in> set (List.enumerate 0 ds)" and t: "try_dialect text whole l i d = Accepted c"
    using assms by (auto simp: trials_def)
  then have "d \<in> set ds" by (metis enumerate_eq_zip set_zip_rightD)
  moreover have "k_dialect c = d \<and> (\<exists>rows. row_consistency rows False = Some (k_consistency c))"
    using t by (auto simp: try_dialect_def Let_def split: sum.splits prod.splits option.splits tok_error.splits if_splits)
  ultimately show ?thesis using row_consistency_range by metis
qed

lemma detect_Inr:
  assumes "detect_dialect text whole opts l = Inr (Some det)" "o_override opts = None"
  obtains ds c where "dialects opts (l_max_dialect_candidates l) = Inr ds"
    "accepted_of (trials text whole l ds) \<noteq> []"
    "select_candidate (accepted_of (trials text whole l ds)) = Inr c"
    "validate_candidate text whole l c = Inr det"
  using assms
  by (auto simp: detect_dialect_def Let_def result_simps split: if_splits option.splits)

text \<open>C13: A detected dialect is the unambiguous best. Without an override it comes from one of the
  candidates, whose trial on the sample had the highest score (consistency of the widths, use of
  quotes, number of rows); every candidate with the same score has the same delimiter; the whole
  sample is accepted by the full tokenizer with this dialect under the limits of the caller; and the
  confidence is positive and at most 0.95.\<close>

theorem detected_dialect_best:
  assumes "detect_dialect sample whole opts l = Inr (Some det)" and "o_override opts = None"
  shows "\<exists>ds c. dialects opts (l_max_dialect_candidates l) = Inr ds \<and> length ds \<le> l_max_dialect_candidates l \<and>
    Accepted c \<in> set (trials sample whole l ds) \<and> det_dialect det = k_dialect c \<and>
    (\<forall>c'. Accepted c' \<in> set (trials sample whole l ds) \<longrightarrow> score c' \<le> score c \<and>
       (score c' = score c \<longrightarrow> d_delimiter (k_dialect c') = d_delimiter (det_dialect det))) \<and>
    (\<exists>rows s. feed (probe_config (det_dialect det) l (max (l_max_header_probe_rows l) 2) (l_max_header_probe_rows l) True False)
       sample whole new_tok = (Inr rows, s)) \<and>
    0 < det_confidence det \<and> det_confidence det \<le> 95 / 100"
proof -
  obtain ds c where d: "dialects opts (l_max_dialect_candidates l) = Inr ds"
    "accepted_of (trials sample whole l ds) \<noteq> []" "select_candidate (accepted_of (trials sample whole l ds)) = Inr c"
    "validate_candidate sample whole l c = Inr det"
    using detect_Inr [OF assms] by blast
  note best = select_candidate_best [OF d(3,2)]
  have acc: "Accepted c \<in> set (trials sample whole l ds)" using best unfolding mem_accepted by blast
  let ?cfg = "probe_config (k_dialect c) l (max (l_max_header_probe_rows l) 2) (l_max_header_probe_rows l) True False"
  obtain s where s: "feed_detection_text ?cfg sample whole new_tok = (Inr (), s)"
    and det: "det_dialect det = k_dialect c"
      "det_confidence det = decimal28 (decimal28 (k_consistency c) * (if 3 \<le> k_row_count c then 95 / 100 else 90 / 100))"
    using d(4) by (auto simp: validate_candidate_def split: sum.splits prod.splits)
  obtain r t where f: "feed ?cfg sample whole new_tok = (r, t)" by fastforce
  have "observed (r, t) = observed (Inr (), s)" using observed_slices [of ?cfg sample whole] s f by simp
  then obtain rows where "r = Inr rows" by (cases r) (auto simp: observed_def)
  have x: "0 < decimal28 (k_consistency c)" "decimal28 (k_consistency c) \<le> 1"
    using decimal28_range [of "k_consistency c" 100] trials_accepted [OF acc] by simp_all
  have "0 < det_confidence det \<and> det_confidence det \<le> 95 / 100"
  proof -
    have "0 < decimal28 (decimal28 (k_consistency c) * w) \<and> decimal28 (decimal28 (k_consistency c) * w) \<le> 95 / 100"
      if "w = 95 / 100 \<or> w = 90 / 100" for w
    proof -
      have w: "0 < w" "w \<le> 95 / 100" using that by auto
      have "decimal28 (k_consistency c) * w \<le> 1 * w" using x w by (intro mult_right_mono) auto
      then have "decimal28 (k_consistency c) * w \<le> of_int 95 / 100" using w(2) by simp
      moreover have "0 < decimal28 (k_consistency c) * w" using x w by simp
      ultimately have "0 < decimal28 (decimal28 (k_consistency c) * w) \<and> decimal28 (decimal28 (k_consistency c) * w) \<le> of_int 95 / 100"
        by (intro decimal28_range) simp_all
      then show ?thesis by simp
    qed
    then show ?thesis using det(2) by (simp del: times_divide_eq_right)
  qed
  moreover have "\<forall>c'. Accepted c' \<in> set (trials sample whole l ds) \<longrightarrow> score c' \<le> score c \<and>
      (score c' = score c \<longrightarrow> d_delimiter (k_dialect c') = d_delimiter (det_dialect det))"
  proof (intro allI impI)
    fix c' assume "Accepted c' \<in> set (trials sample whole l ds)"
    then have "c' \<in> set (accepted_of (trials sample whole l ds))" by (simp add: mem_accepted)
    from bspec [OF conjunct2 [OF best] this]
    show "score c' \<le> score c \<and> (score c' = score c \<longrightarrow> d_delimiter (k_dialect c') = d_delimiter (det_dialect det))"
      unfolding det(1) .
  qed
  moreover have "\<exists>rows s. feed (probe_config (det_dialect det) l (max (l_max_header_probe_rows l) 2) (l_max_header_probe_rows l) True False)
       sample whole new_tok = (Inr rows, s)"
    using f \<open>r = Inr rows\<close> det(1) by simp
  moreover have "length ds \<le> l_max_dialect_candidates l" using dialects_Inr [OF d(1) assms(2)] by simp
  ultimately show ?thesis using d(1) acc det(1) by blast
qed

text \<open>Detected dialects are well formed. The delimiter, quote and escape character are pairwise
  different, none is NUL, a line break, a control or formatting character (a tab may only be the
  delimiter), and quotes are doubled.\<close>

theorem detected_dialect_well_formed:
  assumes "detect_dialect sample whole opts l = Inr (Some det)" and "o_override opts = None"
  shows "well_formed (det_dialect det)"
proof -
  obtain ds c where d: "dialects opts (l_max_dialect_candidates l) = Inr ds"
    "accepted_of (trials sample whole l ds) \<noteq> []" "select_candidate (accepted_of (trials sample whole l ds)) = Inr c"
    "validate_candidate sample whole l c = Inr det"
    using detect_Inr [OF assms] by blast
  have "Accepted c \<in> set (trials sample whole l ds)" using select_candidate_best [OF d(3,2)] unfolding mem_accepted by blast
  then have "k_dialect c \<in> set ds" using trials_accepted by blast
  moreover have "det_dialect det = k_dialect c" using d(4) by (auto simp: validate_candidate_def split: sum.splits prod.splits)
  ultimately show ?thesis using dialects_Inr [OF d(1) assms(2)] by simp
qed

section \<open>A concrete sample\<close>

text \<open>The sample \<open>a,b\<close> and \<open>c,d\<close> on two lines, one delimiter and one quote character to try.\<close>

definition ex_sample :: pystr where
  "ex_sample = [97, 44, 98, 10, 99, 44, 100, 10]"

definition ex_options :: detection_options where
  "ex_options = \<lparr>o_delimiters = [[44]], o_quotes = [Some [34]], o_escapes = [None], o_override = None\<rparr>"

lemma ex_dialects: "dialects ex_options m = (if m = 0 then Inl Too_Many else Inr [ex_dialect])"
  by (simp add: dialects_def ex_options_def new_dialect_def dialect_character_def forbidden_category_def
      forbidden_ranges_def ex_dialect_def)

lemmas feed_eval = tok_defs new_tok_def feed_def feed_open_def bind_m_def collect_def end_of_source_def source_tail_def
  reset_record_def row_open_def failure_def Let_def mark_last_def

lemma ex_fed:
  assumes "2 \<le> l_max_columns l" "1 \<le> l_max_field_size l" "3 \<le> l_max_record_chars l" "3 \<le> l_max_line_chars l"
    "8 \<le> l_max_lines l"
  shows "\<exists>s. feed_detection_text (probe_config ex_dialect l 3 3 True shape) ex_sample True new_tok = (Inr (), s) \<and>
    map r_field_count (t_completed s) = [2, 2] \<and> t_delimiters s = 2 \<and> t_quotes s = 0 \<and> t_escapes s = 0"
  using assms by (cases shape)
    (simp_all add: feed_detection_text_def starts_def slice_chars_def ex_sample_def feed_eval probe_config_def ex_dialect_def)

lemma ex_detected: "\<exists>det. detect_dialect ex_sample True ex_options ex_limits = Inr (Some det) \<and> det_dialect det = ex_dialect"
proof -
  let ?l = "shape_limits ex_sample ex_limits"
  have lim: "2 \<le> l_max_columns ?l" "1 \<le> l_max_field_size ?l" "3 \<le> l_max_record_chars ?l" "3 \<le> l_max_line_chars ?l" "8 \<le> l_max_lines ?l"
    by (simp_all add: shape_limits_def ex_sample_def max_columns_bound_def max_field_bound_def max_record_bound_def Let_def)
  obtain s1 where s1: "feed_detection_text (probe_config ex_dialect ?l 3 3 True True) ex_sample True new_tok = (Inr (), s1)"
    "map r_field_count (t_completed s1) = [2, 2]" "t_delimiters s1 = 2" "t_quotes s1 = 0" "t_escapes s1 = 0"
    using ex_fed [OF lim, of True] by auto
  have "2 \<le> l_max_columns ex_limits" "1 \<le> l_max_field_size ex_limits" "3 \<le> l_max_record_chars ex_limits"
    "3 \<le> l_max_line_chars ex_limits" "8 \<le> l_max_lines ex_limits" by (simp_all add: ex_limits_def)
  from ex_fed [OF this, of False] obtain s2 where
    s2: "feed_detection_text (probe_config ex_dialect ex_limits 3 3 True False) ex_sample True new_tok = (Inr (), s2)" by auto
  have h: "l_max_header_probe_rows ex_limits = 3" "l_max_dialect_candidates ex_limits = 9" by (simp_all add: ex_limits_def)
  have c: "row_consistency (t_completed s1) False = Some 1"
    unfolding row_consistency_def s1(2) by (simp add: Let_def min_on_def)
  have t: "trials ex_sample True ex_limits [ex_dialect] =
      [Accepted \<lparr>k_dialect = ex_dialect, k_consistency = 1, k_row_count = length (t_completed s1), k_quotes = 0, k_escapes = 0, k_order = 0\<rparr>]"
    using s1 c h by (simp add: trials_def try_dialect_def Let_def)
  have "d_escape ex_dialect = None" by (simp add: ex_dialect_def)
  then have "select_candidate (accepted_of (trials ex_sample True ex_limits [ex_dialect])) =
      Inr \<lparr>k_dialect = ex_dialect, k_consistency = 1, k_row_count = length (t_completed s1), k_quotes = 0, k_escapes = 0, k_order = 0\<rparr>"
    unfolding t by (simp add: accepted_of_def select_candidate_def strongest_candidates_def settle_escape_def min_on_def Let_def)
  moreover have "o_override ex_options = None" by (simp add: ex_options_def)
  ultimately show ?thesis using t s2 h
    by (simp add: detect_dialect_def ex_dialects accepted_of_def failed_of_def quote_objection_def validate_candidate_def Let_def)
qed

theorem detected_dialect_best_witness:
  "\<exists>det ds c. detect_dialect ex_sample True ex_options ex_limits = Inr (Some det) \<and>
     Accepted c \<in> set (trials ex_sample True ex_limits ds) \<and> det_dialect det = k_dialect c"
proof -
  obtain det where "detect_dialect ex_sample True ex_options ex_limits = Inr (Some det)" using ex_detected by blast
  moreover have "o_override ex_options = None" by (simp add: ex_options_def)
  ultimately show ?thesis using detected_dialect_best by blast
qed

theorem detected_dialect_well_formed_witness:
  "\<exists>det. detect_dialect ex_sample True ex_options ex_limits = Inr (Some det) \<and> well_formed (det_dialect det)"
proof -
  obtain det where "detect_dialect ex_sample True ex_options ex_limits = Inr (Some det)" using ex_detected by blast
  moreover have "o_override ex_options = None" by (simp add: ex_options_def)
  ultimately show ?thesis using detected_dialect_well_formed by blast
qed

end
