(* ===== verification/Delimited_Batches.thy ===== *)
theory Delimited_Batches
  imports Delimited_Detection
begin

text \<open>
  The parser of delimited text (\<open>DelimitedTextParser._parse\<close>): rows of the tokenizer are grouped into
  batches with a table each, physical references are indexed up to a bound, and the last batch carries
  the manifest. Decoded chunks are an input (the codecs are the environment's); the fingerprints of
  batches and manifests are functions \<open>hash\<close> and \<open>manifest_hash\<close>. Numbers stand for the identifiers
  \<open>cell-n\<close> and \<open>value-n\<close>. A generator is the list of batches it yields with the error that ended it.
\<close>

section \<open>Tables\<close>

datatype meta_value = MV_Text pystr | MV_None | MV_Bool bool | MV_Int nat | MV_Float rat

record table_cell =
  cl_number :: nat
  cl_row :: nat
  cl_column :: nat
  cl_value :: pystr
  cl_metadata :: "(string \<times> meta_value) list"

record segment =
  sg_cells :: "table_cell list"
  sg_index :: nat
  sg_row_start :: nat
  sg_row_end :: nat
  sg_is_last :: bool
  sg_metadata :: "(string \<times> meta_value) list"

definition optional_char :: "nat option \<Rightarrow> meta_value" where
  "optional_char c = (case c of None \<Rightarrow> MV_None | Some x \<Rightarrow> MV_Text [x])"

definition table_metadata :: "dialect \<Rightarrow> header_candidate option \<Rightarrow> csv_row list \<Rightarrow> (string \<times> meta_value) list" where
  "table_metadata d header rows =
     (let widths = map (length \<circ> r_fields) rows in
      [(''delimiter'', MV_Text [d_delimiter d]),
       (''quote_char'', optional_char (d_quote d)),
       (''escape_char'', optional_char (d_escape d)),
       (''double_quote'', MV_Bool (d_double d)),
       (''header_candidate'', MV_Bool (header \<noteq> None)),
       (''header_candidate_row'', case header of None \<Rightarrow> MV_None | Some h \<Rightarrow> MV_Int (h_row_index h)),
       (''header_candidate_confidence'', case header of None \<Rightarrow> MV_None | Some h \<Rightarrow> MV_Float (h_confidence h)),
       (''header_candidate_duplicate_values'', case header of None \<Rightarrow> MV_None | Some h \<Rightarrow> MV_Int (h_duplicates h)),
       (''row_count'', MV_Int (length rows)),
       (''minimum_column_count'', MV_Int (Min (set widths))),
       (''maximum_column_count'', MV_Int (Max (set widths))),
       (''ragged_rows'', MV_Bool (1 < card (set widths))),
       (''blank_row_count'', MV_Int (length (filter (\<lambda>r. r_fields r = []) rows)))])"

definition row_cells :: "csv_row \<Rightarrow> nat \<Rightarrow> table_cell list" where
  "row_cells r first = map (\<lambda>(column, f). \<lparr>cl_number = first + column, cl_row = r_index r, cl_column = column,
     cl_value = f_value f, cl_metadata = [(''quoted'', MV_Bool (f_quoted f)), (''escaped'', MV_Bool (f_escaped f)),
       (''explicit_empty'', MV_Bool (f_value f = []))]\<rparr>) (List.enumerate 0 (r_fields r))"

fun table_cells :: "csv_row list \<Rightarrow> nat \<Rightarrow> table_cell list" where
  "table_cells [] first = []"
| "table_cells (r # rows) first = row_cells r first @ table_cells rows (first + length (r_fields r))"

definition table_for_rows ::
  "csv_row list \<Rightarrow> dialect \<Rightarrow> header_candidate option \<Rightarrow> nat \<Rightarrow> bool \<Rightarrow> nat \<Rightarrow> segment \<times> nat" where
  "table_for_rows rows d header segment_index is_last first =
     (let cells = table_cells rows first in
      (\<lparr>sg_cells = cells, sg_index = segment_index, sg_row_start = r_index (hd rows), sg_row_end = r_index (last rows),
        sg_is_last = is_last, sg_metadata = table_metadata d header rows\<rparr>, first + length cells))"

section \<open>Batches\<close>

datatype physical_ref = Table_Ref nat | Cell_Ref nat nat | Value_Ref nat nat   \<comment> \<open>batch index, number\<close>

definition max_indexed_refs :: nat where "max_indexed_refs = 10000"

fun include_refs :: "nat \<Rightarrow> physical_ref list \<Rightarrow> physical_ref list \<Rightarrow> physical_ref list" where
  "include_refs limit refs [] = refs"
| "include_refs limit refs (x # xs) = (if limit \<le> length refs then refs else include_refs limit (refs @ [x]) xs)"

definition bounded_indexed_refs :: "nat \<Rightarrow> segment option \<Rightarrow> nat \<Rightarrow> physical_ref list" where
  "bounded_indexed_refs batch_index table limit = (case table of
     None \<Rightarrow> []
   | Some t \<Rightarrow> if limit = 0 then [] else
       include_refs limit (include_refs limit [] [Table_Ref batch_index])
         (map (\<lambda>c. Cell_Ref batch_index (cl_number c)) (sg_cells t) @
          map (\<lambda>c. Value_Ref batch_index (cl_number c)) (sg_cells t)))"

record extracted_summary =
  sm_index :: nat
  sm_records :: nat
  sm_fingerprint :: pystr

record manifest =
  mf_batches :: "extracted_summary list"
  mf_refs :: "physical_ref list"
  mf_records :: nat
  mf_fingerprint :: pystr

record batch =
  bt_index :: nat
  bt_table :: "segment option"
  bt_records :: nat
  bt_refs :: "physical_ref list"
  bt_is_last :: bool
  bt_fingerprint :: pystr
  bt_manifest :: "manifest option"

definition to_extracted_summary :: "batch \<Rightarrow> extracted_summary" where
  "to_extracted_summary b = \<lparr>sm_index = bt_index b, sm_records = bt_records b, sm_fingerprint = bt_fingerprint b\<rparr>"

definition build_batch ::
  "(batch \<Rightarrow> pystr) \<Rightarrow> (manifest \<Rightarrow> pystr) \<Rightarrow> nat \<Rightarrow> segment option \<Rightarrow> nat \<Rightarrow> extracted_summary list \<Rightarrow> physical_ref list \<Rightarrow>
     bool \<Rightarrow> batch" where
  "build_batch hash manifest_hash batch_index table records prior_summaries prior_refs is_last =
     (let refs = bounded_indexed_refs batch_index table (max_indexed_refs - length prior_refs);
          draft = \<lparr>bt_index = batch_index, bt_table = table, bt_records = records, bt_refs = refs,
                   bt_is_last = False, bt_fingerprint = [], bt_manifest = None\<rparr>;
          fingerprint = hash (draft\<lparr>bt_is_last := is_last\<rparr>);
          summary = to_extracted_summary (draft\<lparr>bt_fingerprint := fingerprint\<rparr>);
          summaries = prior_summaries @ [summary];
          seed = \<lparr>mf_batches = summaries, mf_refs = prior_refs @ refs,
                  mf_records = sum_list (map sm_records summaries), mf_fingerprint = []\<rparr> in
      draft\<lparr>bt_fingerprint := fingerprint, bt_is_last := is_last,
        bt_manifest := (if is_last then Some (seed\<lparr>mf_fingerprint := manifest_hash seed\<rparr>) else None)\<rparr>)"

section \<open>The loop over rows\<close>

record parse_context =
  px_max_bytes :: nat
  px_max_records :: nat
  px_max_physical :: nat
  px_batch_size :: nat
  px_max_batches :: nat

record parse_env =
  pe_hash :: "batch \<Rightarrow> pystr"
  pe_manifest_hash :: "manifest \<Rightarrow> pystr"
  pe_dialect :: dialect
  pe_limits :: row_limits
  pe_context :: parse_context

record parse_state =
  ps_header :: "header_candidate option"
  ps_summaries :: "extracted_summary list"
  ps_refs :: "physical_ref list"
  ps_pending :: "csv_row list"
  ps_cells :: nat
  ps_chars :: nat
  ps_physical :: nat
  ps_index :: nat
  ps_next_cell :: nat

definition new_parse_state :: "header_candidate option \<Rightarrow> parse_state" where
  "new_parse_state header = \<lparr>ps_header = header, ps_summaries = [], ps_refs = [], ps_pending = [], ps_cells = 0,
     ps_chars = 0, ps_physical = 0, ps_index = 0, ps_next_cell = 0\<rparr>"

text \<open>The batch of the pending rows, and the state for the next one.\<close>

definition pending_batch :: "parse_env \<Rightarrow> parse_state \<Rightarrow> bool \<Rightarrow> batch \<times> nat" where
  "pending_batch E p is_last =
     (case table_for_rows (ps_pending p) (pe_dialect E) (ps_header p) (ps_index p) is_last (ps_next_cell p) of
        (table, next_cell) \<Rightarrow> (build_batch (pe_hash E) (pe_manifest_hash E) (ps_index p) (Some table)
          (length (ps_pending p)) (ps_summaries p) (ps_refs p) is_last, next_cell))"

definition flush :: "parse_env \<Rightarrow> parse_state \<Rightarrow> batch \<times> parse_state" where
  "flush E p = (case pending_batch E p False of (b, next_cell) \<Rightarrow>
     (b, p\<lparr>ps_summaries := ps_summaries p @ [to_extracted_summary b], ps_refs := ps_refs p @ bt_refs b, ps_pending := [],
           ps_cells := 0, ps_chars := 0, ps_index := ps_index p + 1, ps_next_cell := next_cell\<rparr>))"

definition batch_limit :: "parse_env \<Rightarrow> tok_error" where
  "batch_limit E = Limit_Exceeded ''batch_count'' (px_max_batches (pe_context E))"

text \<open>The part of an iteration before the row is added: the batch that would overflow is closed.\<close>

definition make_room :: "parse_env \<Rightarrow> parse_state \<Rightarrow> csv_row \<Rightarrow> tok_error + batch list \<times> parse_state" where
  "make_room E p row =
     (let l = pe_limits E in
      if ps_pending p \<noteq> [] \<and> (l_max_batch_cells l < ps_cells p + length (r_fields row) \<or>
                              l_max_batch_chars l < ps_chars p + r_batch_chars row)
      then (if px_max_batches (pe_context E) \<le> ps_index p + 1 then Inl (batch_limit E)
            else case flush E p of (b, p') \<Rightarrow> Inr ([b], p'))
      else Inr ([], p))"

definition add_row :: "parse_env \<Rightarrow> parse_state \<Rightarrow> csv_row \<Rightarrow> tok_error + parse_state" where
  "add_row E p row =
     (let c = pe_context E; objects = 2 * length (r_fields row) + (if ps_pending p = [] then 1 else 0) in
      if px_max_physical c < objects + ps_physical p then Inl (Limit_Exceeded ''physical_objects'' (px_max_physical c))
      else Inr (p\<lparr>ps_pending := ps_pending p @ [row], ps_cells := ps_cells p + length (r_fields row),
                  ps_chars := ps_chars p + r_batch_chars row, ps_physical := ps_physical p + objects\<rparr>))"

definition batch_full :: "parse_env \<Rightarrow> parse_state \<Rightarrow> bool" where
  "batch_full E p \<longleftrightarrow> px_batch_size (pe_context E) \<le> length (ps_pending p) \<or>
     l_max_batch_cells (pe_limits E) \<le> ps_cells p \<or> l_max_batch_chars (pe_limits E) \<le> ps_chars p"

text \<open>Batches yielded by an iteration with its outcome: an error, the end, or the state to go on with.\<close>

datatype outcome = Raised tok_error | Finished | Going parse_state

definition step_row :: "parse_env \<Rightarrow> parse_state \<Rightarrow> csv_row \<Rightarrow> batch list \<times> outcome" where
  "step_row E p0 row =
     (let p1 = (if ps_header p0 = None \<and> r_index row = 0 then p0\<lparr>ps_header := header_candidate [row]\<rparr> else p0);
          max_batches = px_max_batches (pe_context E) in
      case make_room E p1 row of
        Inl e \<Rightarrow> ([], Raised e)
      | Inr (out, p2) \<Rightarrow>
          (case add_row E p2 row of
             Inl e \<Rightarrow> (out, Raised e)
           | Inr p3 \<Rightarrow>
               if \<not> batch_full E p3 \<and> \<not> r_source_last row then (out, Going p3)
               else if max_batches \<le> ps_index p3 \<or> (\<not> r_source_last row \<and> max_batches \<le> ps_index p3 + 1)
               then (out, Raised (batch_limit E))
               else if r_source_last row then (out @ [fst (pending_batch E p3 True)], Finished)
               else (case flush E p3 of (b, p4) \<Rightarrow> (out @ [b], Going p4))))"

fun run_rows :: "parse_env \<Rightarrow> parse_state \<Rightarrow> csv_row list \<Rightarrow> batch list \<times> outcome" where
  "run_rows E p [] = ([], Going p)"
| "run_rows E p (row # rows) = (case step_row E p row of
     (out, Going p') \<Rightarrow> (case run_rows E p' rows of (others, o') \<Rightarrow> (out @ others, o'))
   | (out, stop) \<Rightarrow> (out, stop))"

definition empty_batch :: "parse_env \<Rightarrow> batch" where
  "empty_batch E = build_batch (pe_hash E) (pe_manifest_hash E) 0 None 0 [] [] True"

definition after_rows :: "parse_env \<Rightarrow> parse_state \<Rightarrow> batch list \<times> tok_error option" where
  "after_rows E p =
     (if ps_pending p \<noteq> []
      then (if px_max_batches (pe_context E) \<le> ps_index p then ([], Some (batch_limit E))
            else ([fst (pending_batch E p True)], None))
      else if ps_summaries p = [] then ([empty_batch E], None) else ([], None))"

text \<open>The rows and the error of the tokenizer's generator, consumed in order.\<close>

definition batches_of :: "parse_env \<Rightarrow> header_candidate option \<Rightarrow> csv_row list \<times> tok_error option \<Rightarrow> batch list \<times> tok_error option" where
  "batches_of E header source = (case source of (rows, err) \<Rightarrow>
     (case run_rows E (new_parse_state header) rows of
        (out, Raised e) \<Rightarrow> (out, Some e)
      | (out, Finished) \<Rightarrow> (out, None)
      | (out, Going p) \<Rightarrow> (case err of
          Some e \<Rightarrow> (out, Some e)
        | None \<Rightarrow> (case after_rows E p of (others, e) \<Rightarrow> (out @ others, e)))))"

section \<open>The parser\<close>

datatype parse_error = Row_Failure tok_error | Dialect_Ambiguous | Dialect_Unconfirmed | Options_Invalid

record decoded_source =
  ds_size :: nat
  ds_prefix :: pystr
  ds_prefix_whole :: bool
  ds_chunks :: "(pystr \<times> bool) list"

definition parse ::
  "(batch \<Rightarrow> pystr) \<Rightarrow> (manifest \<Rightarrow> pystr) \<Rightarrow> detection_options \<Rightarrow> row_limits \<Rightarrow> parse_context \<Rightarrow> decoded_source \<Rightarrow>
     batch list \<times> parse_error option" where
  "parse hash manifest_hash opts l ctx source =
     (if px_max_bytes ctx < ds_size source
      then ([], Some (Row_Failure (Limit_Exceeded ''source_bytes'' (px_max_bytes ctx))))
      else if ds_size source = 0 then ([build_batch hash manifest_hash 0 None 0 [] [] True], None)
      else case detect_dialect (ds_prefix source) (ds_prefix_whole source) opts l of
        Inl (Row_Error e) \<Rightarrow> ([], Some (Row_Failure e))
      | Inl Ambiguous \<Rightarrow> ([], Some Dialect_Ambiguous)
      | Inl Too_Many \<Rightarrow> ([], Some Options_Invalid)
      | Inr None \<Rightarrow> ([], Some Dialect_Unconfirmed)
      | Inr (Some det) \<Rightarrow>
          (let cfg = \<lparr>c_dialect = det_dialect det, c_limits = l, c_max_records = px_max_records ctx,
                      c_stop_after = None, c_retain = False, c_shape_only = False\<rparr>;
               E = \<lparr>pe_hash = hash, pe_manifest_hash = manifest_hash, pe_dialect = det_dialect det, pe_limits = l,
                    pe_context = ctx\<rparr> in
           case batches_of E (det_header det) (fst (tokenized_rows cfg (ds_chunks source) new_tok)) of
             (out, e) \<Rightarrow> (out, map_option Row_Failure e)))"

section \<open>Lemmas\<close>

lemma table_cells_append: "table_cells (a @ b) k = table_cells a k @ table_cells b (k + length (table_cells a k))"
  by (induction a arbitrary: k) (simp_all add: row_cells_def add.assoc)

lemma length_table_cells: "length (table_cells rows k) = sum_list (map (length \<circ> r_fields) rows)"
  by (induction rows arbitrary: k) (simp_all add: row_cells_def)

lemma length_include_refs: "length (include_refs limit refs xs) \<le> max limit (length refs)"
proof (induction xs arbitrary: refs)
  case (Cons x xs)
  then show ?case using Cons [of "refs @ [x]"] by auto
qed simp

lemma length_bounded_refs: "length (bounded_indexed_refs i t limit) \<le> limit"
  using length_include_refs [of limit "include_refs limit [] [Table_Ref i]"] 
  by (auto simp: bounded_indexed_refs_def split: option.split intro: order_trans [OF length_include_refs])

definition batch_cells :: "batch \<Rightarrow> table_cell list" where
  "batch_cells b = (case bt_table b of None \<Rightarrow> [] | Some t \<Rightarrow> sg_cells t)"

lemma pending_batch_eq:
  "pending_batch E p is_last = (b, k) \<Longrightarrow> bt_index b = ps_index p \<and> bt_is_last b = is_last \<and>
     bt_records b = length (ps_pending p) \<and> batch_cells b = table_cells (ps_pending p) (ps_next_cell p) \<and>
     k = ps_next_cell p + length (batch_cells b) \<and> length (bt_refs b) \<le> max_indexed_refs - length (ps_refs p) \<and>
     (if is_last then \<exists>m. bt_manifest b = Some m \<and> mf_batches m = ps_summaries p @ [to_extracted_summary b] \<and>
         mf_refs m = ps_refs p @ bt_refs b \<and> mf_records m = sum_list (map sm_records (ps_summaries p)) + bt_records b
      else bt_manifest b = None)"
  by (auto simp: pending_batch_def table_for_rows_def build_batch_def batch_cells_def to_extracted_summary_def Let_def length_bounded_refs)

definition small :: "parse_env \<Rightarrow> batch \<Rightarrow> bool" where
  "small E b \<longleftrightarrow> bt_records b \<le> px_batch_size (pe_context E) \<and> length (batch_cells b) \<le> l_max_batch_cells (pe_limits E)"

text \<open>The books of the loop after the rows \<open>seen\<close>, with the batches yielded so far.\<close>

definition books :: "parse_env \<Rightarrow> parse_state \<Rightarrow> csv_row list \<Rightarrow> batch list \<Rightarrow> bool" where
  "books E p seen out \<longleftrightarrow>
     ps_index p = length out \<and> map bt_index out = [0..<length out] \<and>
     list_all (\<lambda>b. \<not> bt_is_last b \<and> bt_manifest b = None \<and> small E b) out \<and>
     ps_summaries p = map to_extracted_summary out \<and> ps_refs p = concat (map bt_refs out) \<and> length (ps_refs p) \<le> max_indexed_refs \<and>
     sum_list (map bt_records out) + length (ps_pending p) = length seen \<and>
     concat (map batch_cells out) @ table_cells (ps_pending p) (ps_next_cell p) = table_cells seen 0 \<and>
     ps_next_cell p = length (concat (map batch_cells out)) \<and>
     ps_cells p = sum_list (map (length \<circ> r_fields) (ps_pending p)) \<and>
     length (ps_pending p) \<le> px_batch_size (pe_context E) \<and> ps_cells p \<le> l_max_batch_cells (pe_limits E) \<and>
     (out \<noteq> [] \<longrightarrow> length out < px_max_batches (pe_context E))"

lemma flush_books:
  assumes "books E p seen out" "ps_index p + 1 < px_max_batches (pe_context E)" "flush E p = (b, p')"
  shows "books E p' seen (out @ [b]) \<and> ps_pending p' = [] \<and> ps_header p' = ps_header p"
proof -
  obtain k where pb: "pending_batch E p False = (b, k)" and p': "p' = p\<lparr>ps_summaries := ps_summaries p @ [to_extracted_summary b],
      ps_refs := ps_refs p @ bt_refs b, ps_pending := [], ps_cells := 0, ps_chars := 0, ps_index := ps_index p + 1, ps_next_cell := k\<rparr>"
    using assms(3) by (auto simp: flush_def split: prod.splits)
  note b = pending_batch_eq [OF pb]
  have "small E b" using assms(1) b by (simp add: small_def books_def length_table_cells)
  then show ?thesis using assms(1,2) b p' by (auto simp: books_def)
qed

lemma books_header: "books E (p\<lparr>ps_header := h\<rparr>) seen out = books E p seen out"
  by (simp add: books_def)

lemma make_room_books:
  assumes "books E p seen out" "make_room E p row = Inr (more_out, p')"
    and "length (r_fields row) \<le> l_max_batch_cells (pe_limits E)"
    and "ps_pending p \<noteq> [] \<Longrightarrow> length (ps_pending p) < px_batch_size (pe_context E)"
    and "0 < px_batch_size (pe_context E)"
  shows "books E p' seen (out @ more_out) \<and> ps_cells p' + length (r_fields row) \<le> l_max_batch_cells (pe_limits E) \<and>
    length (ps_pending p') < px_batch_size (pe_context E)"
proof (cases "ps_pending p \<noteq> [] \<and> (l_max_batch_cells (pe_limits E) < ps_cells p + length (r_fields row) \<or>
    l_max_batch_chars (pe_limits E) < ps_chars p + r_batch_chars row)")
  case True
  then obtain b where f: "flush E p = (b, p')" "more_out = [b]" "ps_index p + 1 < px_max_batches (pe_context E)"
    using assms(2) by (auto simp: make_room_def Let_def split: if_splits prod.splits)
  note fl = flush_books [OF assms(1) f(3,1)]
  then have "ps_cells p' = 0" by (simp add: books_def)
  then show ?thesis using fl f(2) assms(3,5) by simp
next
  case False
  then have "more_out = []" "p' = p" using assms(2) by (auto simp: make_room_def Let_def split: if_splits)
  moreover have "ps_cells p = 0" if "ps_pending p = []" using assms(1) that by (simp add: books_def)
  ultimately show ?thesis using False assms by (cases "ps_pending p = []") auto
qed

lemma add_row_books:
  assumes "books E p seen out" "add_row E p row = Inr p'"
    and "ps_cells p + length (r_fields row) \<le> l_max_batch_cells (pe_limits E)" "length (ps_pending p) < px_batch_size (pe_context E)"
  shows "books E p' (seen @ [row]) out \<and> ps_pending p' \<noteq> []"
proof -
  obtain n where p': "p' = p\<lparr>ps_pending := ps_pending p @ [row], ps_cells := ps_cells p + length (r_fields row),
                  ps_chars := ps_chars p + r_batch_chars row, ps_physical := n\<rparr>"
    using assms(2) by (auto simp: add_row_def Let_def split: if_splits)
  have "concat (map batch_cells out) @ table_cells (ps_pending p @ [row]) (ps_next_cell p) = table_cells (seen @ [row]) 0"
    using assms(1) unfolding books_def
    by (simp add: table_cells_append flip: append_assoc) (metis length_append)
  then show ?thesis using assms p' by (auto simp: books_def)
qed

definition plain_rows :: "parse_env \<Rightarrow> csv_row list \<Rightarrow> bool" where
  "plain_rows E rows \<longleftrightarrow> list_all (\<lambda>r. length (r_fields r) \<le> l_max_batch_cells (pe_limits E)) rows"

text \<open>What a finished generator has delivered.\<close>

definition complete_run :: "parse_env \<Rightarrow> csv_row list \<Rightarrow> batch list \<Rightarrow> bool" where
  "complete_run E rows out \<longleftrightarrow> out \<noteq> [] \<and> length out \<le> max 1 (px_max_batches (pe_context E)) \<and>
     map bt_index out = [0..<length out] \<and> list_all (small E) out \<and>
     list_all (\<lambda>b. \<not> bt_is_last b \<and> bt_manifest b = None) (butlast out) \<and> bt_is_last (last out) \<and>
     (\<exists>m. bt_manifest (last out) = Some m \<and> mf_batches m = map to_extracted_summary out \<and>
        mf_refs m = concat (map bt_refs out) \<and> length (mf_refs m) \<le> max_indexed_refs \<and> mf_records m = length rows) \<and>
     concat (map batch_cells out) = table_cells rows 0"

lemma close_books:
  assumes "books E p seen out" "ps_index p < px_max_batches (pe_context E)" "pending_batch E p True = (b, k)"
  shows "complete_run E seen (out @ [b])"
proof -
  note b = pending_batch_eq [OF assms(3)]
  have "small E b" using assms(1) b by (simp add: small_def books_def length_table_cells)
  moreover have "sum_list (map sm_records (map to_extracted_summary out)) = sum_list (map bt_records out)"
    by (simp add: to_extracted_summary_def comp_def)
  moreover have "list_all (small E) out" "list_all (\<lambda>b. \<not> bt_is_last b \<and> bt_manifest b = None) out"
    using assms(1) by (auto simp: books_def list_all_iff)
  ultimately show ?thesis using assms(1,2) b by (auto simp: complete_run_def books_def)
qed

lemma step_books:
  assumes "books E p seen out" "step_row E p row = (more_out, result)"
    and "length (r_fields row) \<le> l_max_batch_cells (pe_limits E)" "0 < px_batch_size (pe_context E)"
    and "ps_pending p \<noteq> [] \<Longrightarrow> length (ps_pending p) < px_batch_size (pe_context E)"
  shows "case result of
      Going p' \<Rightarrow> books E p' (seen @ [row]) (out @ more_out) \<and> \<not> r_source_last row \<and>
        (ps_pending p' \<noteq> [] \<longrightarrow> length (ps_pending p') < px_batch_size (pe_context E)) \<and>
        (ps_pending p' = [] \<longrightarrow> ps_summaries p' \<noteq> [])
    | Finished \<Rightarrow> r_source_last row \<and> complete_run E (seen @ [row]) (out @ more_out)
    | Raised e \<Rightarrow> True"
proof -
  define p1 where "p1 = (if ps_header p = None \<and> r_index row = 0 then p\<lparr>ps_header := header_candidate [row]\<rparr> else p)"
  have b1: "books E p1 seen out" "ps_pending p1 = ps_pending p" using assms(1) by (auto simp: p1_def books_header)
  note step = assms(2) [unfolded step_row_def Let_def p1_def [symmetric]]
  show ?thesis
  proof (cases "make_room E p1 row")
    case (Inr x)
    then obtain out1 p2 where r: "make_room E p1 row = Inr (out1, p2)" by (cases x) auto

    have b2: "books E p2 seen (out @ out1)" "ps_cells p2 + length (r_fields row) \<le> l_max_batch_cells (pe_limits E)"
      "length (ps_pending p2) < px_batch_size (pe_context E)"
      using make_room_books [OF b1(1) r assms(3) _ assms(4)] assms(5) b1(2) by auto
    show ?thesis
    proof (cases "add_row E p2 row")
      case (Inr p3)
      note b3 = add_row_books [OF b2(1) Inr b2(2,3)]
      obtain b k where pb: "pending_batch E p3 True = (b, k)" by fastforce
      obtain b4 p4 where fl: "flush E p3 = (b4, p4)" by fastforce
      consider "\<not> batch_full E p3" "\<not> r_source_last row" "result = Going p3" "more_out = out1"
        | e where "result = Raised e"
        | "ps_index p3 < px_max_batches (pe_context E)" "r_source_last row" "result = Finished" "more_out = out1 @ [b]"
        | "ps_index p3 + 1 < px_max_batches (pe_context E)" "\<not> r_source_last row" "result = Going p4" "more_out = out1 @ [b4]"
        using step r Inr pb fl by (auto split: if_splits)
      then show ?thesis
      proof cases
        case 1
        then have "length (ps_pending p3) < px_batch_size (pe_context E)" by (simp add: batch_full_def)
        then show ?thesis using 1 b3 by simp
      next
        case (2 e)
        then show ?thesis by simp
      next
        case 3
        have "complete_run E (seen @ [row]) ((out @ out1) @ [b])"
          by (rule close_books [OF _ 3(1) pb]) (use b3 in simp)
        then show ?thesis using 3 by simp
      next
        case 4
        have "books E p4 (seen @ [row]) ((out @ out1) @ [b4]) \<and> ps_pending p4 = []"
          using flush_books [OF _ 4(1) fl] b3 by blast
        moreover from this have "ps_summaries p4 \<noteq> []" by (simp add: books_def)
        ultimately show ?thesis using 4 by simp
      qed
    qed (use step r in auto)
  qed (use step in auto)
qed

lemma run_books:
  assumes "0 < px_batch_size (pe_context E)"
  shows "books E p seen out \<Longrightarrow> (ps_pending p \<noteq> [] \<Longrightarrow> length (ps_pending p) < px_batch_size (pe_context E)) \<Longrightarrow>
    plain_rows E rows \<Longrightarrow> run_rows E p rows = (more_out, result) \<Longrightarrow> unmarked (butlast rows) \<Longrightarrow>
    (case result of
      Going p' \<Rightarrow> rows = [] \<or> \<not> r_source_last (last rows)
    | Finished \<Rightarrow> rows \<noteq> [] \<and> r_source_last (last rows) \<and> complete_run E (seen @ rows) (out @ more_out)
    | Raised e \<Rightarrow> True)"
proof (induction rows arbitrary: p seen out more_out)
  case (Cons row rows)
  obtain out1 r1 where s: "step_row E p row = (out1, r1)" by fastforce
  have small: "length (r_fields row) \<le> l_max_batch_cells (pe_limits E)" "plain_rows E rows"
    using Cons.prems(3) by (simp_all add: plain_rows_def)
  note st = step_books [OF Cons.prems(1) s small(1) assms Cons.prems(2)]
  show ?case
  proof (cases r1)
    case (Raised e)
    then have "result = Raised e" using Cons.prems(4) s by simp
    then show ?thesis by simp
  next
    case Finished
    then have "r_source_last row" "result = Finished" "more_out = out1" using st Cons.prems(4) s by auto
    moreover from this have "rows = []" using Cons.prems(5) by (auto simp: unmarked_def split: if_splits)
    ultimately show ?thesis using st Finished by simp
  next
    case (Going p')
    then obtain out2 where run: "run_rows E p' rows = (out2, result)" "more_out = out1 @ out2"
      using Cons.prems(4) s by (auto split: prod.splits)
    have u: "unmarked (butlast rows)" using Cons.prems(5) by (auto simp: unmarked_def split: if_splits)
    have "case result of Going p' \<Rightarrow> rows = [] \<or> \<not> r_source_last (last rows)
        | Finished \<Rightarrow> rows \<noteq> [] \<and> r_source_last (last rows) \<and> complete_run E ((seen @ [row]) @ rows) ((out @ out1) @ out2) | Raised e \<Rightarrow> True"
      by (rule Cons.IH [OF _ _ small(2) run(1) u]) (use st Going in auto)
    then show ?thesis using st Going run(2) by (auto split: outcome.splits)
  qed
qed auto

lemma slices_unmarked:
  assumes "c_stop_after cfg = None" "k < slice_count (length str)"
    "row_slices cfg str fin (map (\<lambda>i. i * slice_chars) [k..<slice_count (length str)]) s = ((rows, Some e), s')" "alive s"
  shows "unmarked rows"
  using assms(2-)
proof (induction "slice_count (length str) - k" arbitrary: k s rows)
  case (Suc m)
  let ?n = "slice_count (length str)" and ?stop = "min (k * slice_chars + slice_chars) (length str)"
  let ?piece = "take (?stop - k * slice_chars) (drop (k * slice_chars) str)"
  have upt: "[k..<?n] = k # [Suc k..<?n]" using Suc.prems(1) by (rule upt_conv_Cons)
  note b = slice_bounds [OF Suc.prems(1)]
  show ?case
  proof (cases "feed cfg ?piece (fin \<and> ?stop = length str) s")
    case (Pair r s1)
    show ?thesis
    proof (cases r)
      case (Inl x)
      then show ?thesis using Pair Suc.prems(2) upt by (simp add: Let_def unmarked_def)
    next
      case (Inr r1)
      then obtain others where rest: "row_slices cfg str fin (map (\<lambda>i. i * slice_chars) [Suc k..<?n]) s1 = ((others, Some e), s')"
        and rows: "rows = r1 @ others"
        using Pair Suc.prems(2) upt by (auto simp: Let_def split: prod.splits)
      have k: "Suc k < ?n"
      proof (rule ccontr)
        assume "\<not> ?thesis"
        then have none: "[Suc k..<?n] = []" by simp
        show False using rest unfolding none by simp
      qed
      then have inner: "\<not> (fin \<and> ?stop = length str)" using b by simp
      have "alive s1 \<and> unmarked r1"
        using feed_marks [OF assms(1) Suc.prems(3) Pair [unfolded Inr]] unfolding if_not_P [OF inner] .
      moreover have "unmarked others" by (rule Suc.hyps(1) [OF _ k rest]) (use Suc.hyps(2) \<open>alive s1 \<and> unmarked r1\<close> in auto)
      ultimately show ?thesis using rows by (simp add: unmarked_def)
    qed
  qed
qed simp

lemma tokenized_unmarked:
  assumes "c_stop_after cfg = None"
  shows "alive s \<Longrightarrow> tokenized_rows cfg (map (\<lambda>c. (c, False)) chunks @ [(last_chunk, True)]) s = ((rows, Some e), s') \<Longrightarrow>
    last_chunk \<noteq> [] \<Longrightarrow> unmarked rows"
proof (induction chunks arbitrary: s rows)
  case Nil
  then have "0 < slice_count (length last_chunk)" by (auto simp: slice_count_def slice_chars_def div_greater_zero_iff Suc_le_eq)
  then show ?case using slices_unmarked [OF assms, of 0 last_chunk True s rows e s'] Nil
    by (auto simp: starts_eq split: prod.splits option.splits)
next
  case (Cons a chunks)
  obtain r1 er s1 where a: "row_slices cfg a False (if a = [] then [0] else starts (length a)) s = ((r1, er), s1)"
    by (metis surj_pair)
  show ?case
  proof (cases er)
    case None
    then obtain others where rest: "tokenized_rows cfg (map (\<lambda>c. (c, False)) chunks @ [(last_chunk, True)]) s1 = ((others, Some e), s')"
      and rows: "rows = r1 @ others" using Cons.prems(2) a by (auto split: prod.splits)
    have "alive s1" "unmarked r1" using chunk_marks [OF assms Cons.prems(1) _ a [unfolded None]] by simp_all
    then show ?thesis using Cons.IH [OF _ rest Cons.prems(3)] rows by (simp add: unmarked_def)
  next
    case (Some x)
    then have "rows = r1" "x = e" using Cons.prems(2) a by simp_all
    moreover have "unmarked r1"
    proof (cases "a = []")
      case True
      then show ?thesis using a Some by (simp add: feed_nothing)
    next
      case False
      then have "0 < slice_count (length a)" by (auto simp: slice_count_def slice_chars_def div_greater_zero_iff Suc_le_eq)
      then show ?thesis using slices_unmarked [OF assms, of 0 a False s r1 x s1] a Some False Cons.prems(1)
        by (simp add: starts_eq)
    qed
    ultimately show ?thesis by simp
  qed
qed

lemma tokenized_columns:
  assumes "tokenized_rows cfg (map (\<lambda>c. (c, False)) chunks @ [(last_chunk, True)]) new_tok = ((rows, None), s)"
    and "\<not> c_shape_only cfg"
  shows "list_all (\<lambda>r. length (r_fields r) \<le> l_max_columns (c_limits cfg)) rows"
proof -
  obtain r t where f: "feed cfg (concat chunks @ last_chunk) True new_tok = (r, t)" by fastforce
  have "agrees True ((rows, None), s) (r, t)"
    using tokenized_rows_agree [OF sane_new_tok, of cfg chunks last_chunk] assms(1) f by simp
  then obtain all_rows where r: "r = Inr all_rows" "map unmark_row rows = map unmark_row all_rows"
    by (auto simp: agrees_def split: sum.splits)
  have "list_all (row_within cfg) all_rows"
    using wp_InrD [OF feed_delivers f [unfolded r(1)]] by (simp add: delivered_def)
  then have "list_all (\<lambda>r. length (r_fields r) \<le> l_max_columns (c_limits cfg)) (map unmark_row all_rows)"
    using assms(2) by (auto simp: list_all_iff row_within_def unmark_row_def Let_def)
  then have "list_all (\<lambda>r. length (r_fields r) \<le> l_max_columns (c_limits cfg)) (map unmark_row rows)" using r(2) by simp
  then show ?thesis by (simp add: list.pred_map comp_def unmark_row_def)
qed

section \<open>What a completed extraction has delivered\<close>

lemma run_finished: "run_rows E p rows = (out, Finished) \<Longrightarrow> \<not> unmarked rows"
proof (induction rows arbitrary: p out)
  case (Cons row rows)
  obtain out1 r where s: "step_row E p row = (out1, r)" by fastforce
  have "r_source_last row" if "r = Finished"
    using s that by (auto simp: step_row_def Let_def split: sum.splits prod.splits if_splits)
  then show ?case using Cons s by (cases r) (auto simp: unmarked_def split: prod.splits)
qed simp

lemma batches_complete:
  assumes "0 < px_batch_size (pe_context E)" "err = None \<Longrightarrow> plain_rows E rows \<and> end_marked rows" "err \<noteq> None \<Longrightarrow> unmarked rows"
    and "batches_of E header (rows, err) = (out, None)"
  shows "err = None \<and> complete_run E rows out"
proof -
  obtain out1 res where run: "run_rows E (new_parse_state header) rows = (out1, res)" by fastforce
  have none: "err = None"
    using assms(3,4) run by (cases err; cases res) (auto simp: batches_of_def dest: run_finished)
  note marked = assms(2) [OF none]
  have "books E (new_parse_state header) [] []" by (simp add: books_def new_parse_state_def)
  moreover have "unmarked (butlast rows)" using marked by (simp add: end_marked_def)
  ultimately have "case res of
      Going p' \<Rightarrow> rows = [] \<or> \<not> r_source_last (last rows)
    | Finished \<Rightarrow> rows \<noteq> [] \<and> r_source_last (last rows) \<and> complete_run E ([] @ rows) ([] @ out1)
    | Raised e \<Rightarrow> True"
    using run_books [OF assms(1) _ _ _ run] marked by (simp add: new_parse_state_def)
  then show ?thesis using none marked assms(4) run by (cases res) (auto simp: batches_of_def end_marked_def)
qed

definition delimited_config :: "dialect \<Rightarrow> row_limits \<Rightarrow> parse_context \<Rightarrow> config" where
  "delimited_config d l ctx = \<lparr>c_dialect = d, c_limits = l, c_max_records = px_max_records ctx,
     c_stop_after = None, c_retain = False, c_shape_only = False\<rparr>"

definition delimited_env :: "(batch \<Rightarrow> pystr) \<Rightarrow> (manifest \<Rightarrow> pystr) \<Rightarrow> dialect \<Rightarrow> row_limits \<Rightarrow> parse_context \<Rightarrow> parse_env" where
  "delimited_env hash mhash d l ctx = \<lparr>pe_hash = hash, pe_manifest_hash = mhash, pe_dialect = d, pe_limits = l, pe_context = ctx\<rparr>"

text \<open>C7: A delimited extraction that ends without an error is complete. The rows the tokenizer found
  in the decoded source reach the batches cell by cell, in order, each once and with consecutive cell
  numbers; batch indexes are consecutive from zero; no batch exceeds the requested batch size, the cell
  limit or the number of batches allowed; exactly the last batch is final, and its manifest lists the
  summaries of all batches, all indexed references (at most 10000) and the number of rows.\<close>

theorem parse_delivers:
  assumes "parse hash mhash opts l ctx source = (out, None)" and "valid_row_limits l" and "0 < px_batch_size ctx"
    and "0 < ds_size source" "ds_chunks source = map (\<lambda>c. (c, False)) chunks @ [(last_chunk, True)]" "last_chunk \<noteq> []"
  shows "\<exists>det rows s. detect_dialect (ds_prefix source) (ds_prefix_whole source) opts l = Inr (Some det) \<and>
    tokenized_rows (delimited_config (det_dialect det) l ctx) (ds_chunks source) new_tok = ((rows, None), s) \<and>
    out \<noteq> [] \<and> length out \<le> max 1 (px_max_batches ctx) \<and> map bt_index out = [0..<length out] \<and>
    (\<forall>b \<in> set out. bt_records b \<le> px_batch_size ctx \<and> length (batch_cells b) \<le> l_max_batch_cells l) \<and>
    (\<forall>b \<in> set (butlast out). \<not> bt_is_last b \<and> bt_manifest b = None) \<and> bt_is_last (last out) \<and>
    (\<exists>m. bt_manifest (last out) = Some m \<and> mf_batches m = map to_extracted_summary out \<and>
       mf_refs m = concat (map bt_refs out) \<and> length (mf_refs m) \<le> 10000 \<and> mf_records m = length rows) \<and>
    concat (map batch_cells out) = table_cells rows 0"
proof -
  have "\<exists>det. detect_dialect (ds_prefix source) (ds_prefix_whole source) opts l = Inr (Some det)"
    using assms(1,4) by (auto simp: parse_def split: if_splits sum.splits detect_error.splits option.splits)
  then obtain det where det: "detect_dialect (ds_prefix source) (ds_prefix_whole source) opts l = Inr (Some det)" ..
  define cfg where "cfg = delimited_config (det_dialect det) l ctx"
  define E where "E = delimited_env hash mhash (det_dialect det) l ctx"
  obtain rows err s where t: "tokenized_rows cfg (ds_chunks source) new_tok = ((rows, err), s)" by (metis surj_pair)
  have b: "batches_of E (det_header det) (rows, err) = (out, None)"
    using assms(1,4) det t
    by (auto simp: parse_def Let_def E_def cfg_def delimited_config_def delimited_env_def split: if_splits prod.splits)
  have c: "c_stop_after cfg = None" "\<not> c_shape_only cfg" "c_limits cfg = l" by (simp_all add: cfg_def delimited_config_def)
  have E: "pe_context E = ctx" "pe_limits E = l" by (simp_all add: E_def delimited_env_def)
  note t' = t [unfolded assms(5)]
  have alive: "alive new_tok" by (simp add: alive_def new_tok_def)
  have "end_marked rows" if "err = None" using tokenized_marks [OF c(1) assms(6) alive] t' that by simp
  moreover have "unmarked rows" if "err \<noteq> None" using tokenized_unmarked [OF c(1) alive _ assms(6)] t' that by auto
  moreover have "plain_rows E rows" if "err = None"
    using tokenized_columns [OF t' [unfolded that] c(2)] assms(2) by (auto simp: plain_rows_def E c(3) list_all_iff valid_row_limits_def)
  ultimately have "err = None \<and> complete_run E rows out" by (intro batches_complete [OF _ _ _ b]) (simp_all add: E assms(3))
  then show ?thesis using det t E
    by (auto simp: complete_run_def cfg_def small_def list_all_iff max_indexed_refs_def)
qed

section \<open>A concrete extraction\<close>

definition ex_context :: parse_context where
  "ex_context = \<lparr>px_max_bytes = 100, px_max_records = 5, px_max_physical = 100, px_batch_size = 1, px_max_batches = 3\<rparr>"

definition ex_decoded :: decoded_source where
  "ex_decoded = \<lparr>ds_size = 8, ds_prefix = ex_sample, ds_prefix_whole = True, ds_chunks = [(ex_sample, True)]\<rparr>"

lemma ex_tokenized: "\<exists>r0 r1 s. tokenized_rows (delimited_config ex_dialect ex_limits ex_context) [(ex_sample, True)] new_tok =
    (([r0, r1], None), s) \<and> length (r_fields r0) = 2 \<and> length (r_fields r1) = 2 \<and> r_batch_chars r0 \<le> 4 \<and> r_batch_chars r1 \<le> 4 \<and>
    \<not> r_source_last r0 \<and> r_source_last r1"
  by (simp add: starts_def slice_chars_def ex_sample_def feed_eval delimited_config_def ex_dialect_def ex_limits_def ex_context_def)

lemma ex_parsed: "\<exists>out. parse (\<lambda>_. []) (\<lambda>_. []) ex_options ex_limits ex_context ex_decoded = (out, None)"
proof -
  obtain det where det: "detect_dialect ex_sample True ex_options ex_limits = Inr (Some det)" "det_dialect det = ex_dialect"
    using ex_detected by blast
  obtain r0 r1 s where t: "tokenized_rows (delimited_config ex_dialect ex_limits ex_context) [(ex_sample, True)] new_tok =
      (([r0, r1], None), s)"
    and r: "length (r_fields r0) = 2" "length (r_fields r1) = 2" "r_batch_chars r0 \<le> 4" "r_batch_chars r1 \<le> 4"
      "\<not> r_source_last r0" "r_source_last r1"
    using ex_tokenized by blast
  let ?E = "delimited_env (\<lambda>_. []) (\<lambda>_. []) ex_dialect ex_limits ex_context"
  have "snd (batches_of ?E (det_header det) ([r0, r1], None)) = None"
    using r by (cases "det_header det = None \<and> r_index r0 = 0") (simp_all add: batches_of_def step_row_def make_room_def
        add_row_def batch_full_def flush_def new_parse_state_def delimited_env_def ex_limits_def ex_context_def Let_def split_beta
        del: One_nat_def)
  then obtain out where "batches_of ?E (det_header det) ([r0, r1], None) = (out, None)" by (metis prod.collapse)
  then show ?thesis using det t
    by (simp add: parse_def ex_decoded_def ex_context_def delimited_config_def delimited_env_def del: tokenized_rows.simps)
qed

theorem parse_delivers_witness:
  "\<exists>out. parse (\<lambda>_. []) (\<lambda>_. []) ex_options ex_limits ex_context ex_decoded = (out, None) \<and>
     out \<noteq> [] \<and> bt_is_last (last out) \<and> map bt_index out = [0..<length out]"
proof -
  obtain out where p: "parse (\<lambda>_. []) (\<lambda>_. []) ex_options ex_limits ex_context ex_decoded = (out, None)" using ex_parsed by blast
  have "ds_chunks ex_decoded = map (\<lambda>c. (c, False)) [] @ [(ex_sample, True)]" by (simp add: ex_decoded_def)
  from parse_delivers [OF p _ _ _ this] have "out \<noteq> [] \<and> bt_is_last (last out) \<and> map bt_index out = [0..<length out]"
    by (auto simp: ex_limits_def ex_context_def ex_decoded_def ex_sample_def valid_row_limits_def valid_text_limits_def positive_to_def
        max_columns_bound_def max_field_bound_def max_record_bound_def max_cells_bound_def)
  then show ?thesis using p by blast
qed

end
