(* ===== verification/Json_Lexer.thy ===== *)
theory Json_Lexer
  imports Prelude
begin

text \<open>
  The lexer of \<open>parsers/builtin/_json.py\<close>: limits, positions, the character source and \<open>_JsonLexer\<close>.
  A character source is the text that can still be read and what happens past its end: nothing (the end
  of the source or record) or the error of the reading or decoding that comes next. Characters are
  pulled one by one, so the error appears exactly when the text before it is used up. A method returns
  an error or its result with the next state. The state also holds the counters of the tree parser,
  which the lexer does not touch.
\<close>

section \<open>Limits\<close>

record json_limits =
  jl_read_chunk :: nat
  jl_probe_bytes :: nat
  jl_probe_records :: nat
  jl_record_chars :: nat
  jl_value_chars :: nat
  jl_number_chars :: nat
  jl_keys :: nat
  jl_columns :: nat
  jl_nodes :: nat
  jl_array_items :: nat
  jl_batch_nodes :: nat
  jl_batch_chars :: nat
  jl_nesting :: nat
  jl_pointer :: nat

definition valid_json_limits :: "json_limits \<Rightarrow> bool" where
  "valid_json_limits l \<longleftrightarrow> list_all (\<lambda>(v, m). 0 < v \<and> v \<le> m)
     [(jl_read_chunk l, 1024 * 1024), (jl_probe_bytes l, 1024 * 1024), (jl_probe_records l, 1024),
      (jl_record_chars l, 32 * 1024 * 1024), (jl_value_chars l, 1024 * 1024), (jl_number_chars l, 1024 * 1024),
      (jl_keys l, 10000000), (jl_columns l, 100000), (jl_nodes l, 10000000), (jl_array_items l, 10000000),
      (jl_batch_nodes l, 100000), (jl_batch_chars l, 32 * 1024 * 1024), (jl_nesting l, 256), (jl_pointer l, 4096)]"

section \<open>Characters\<close>

record position =
  at_index :: nat
  at_line :: nat
  at_column :: nat

datatype character = Character (code_point: nat) (char_start: position) (char_end: position)

text \<open>
  What stops reading: a chunk of zero bytes or of a wrong size or type, a decoding error, or a chunk whose
  text exceeds \<open>max_text_chars\<close>. Errors name the resource or reason and a line.
\<close>

datatype fault = Empty_Read | Bad_Read string | Undecodable | Text_Limit nat

datatype json_error =
    Json_Syntax (syntax_reason: string) (syntax_line: nat)
  | Json_Limit (limit_resource: string) (limit_value: nat)
  | Json_Malformed string nat "nat option"
  | Json_Encoding string
  | Json_Assertion

fun fault_error :: "fault \<Rightarrow> nat \<Rightarrow> json_error" where
  "fault_error Empty_Read line = Json_Malformed ''unexpected_eof'' line None"
| "fault_error (Bad_Read reason) line = Json_Malformed reason 1 None"
| "fault_error Undecodable line = Json_Encoding ''decode_failed''"
| "fault_error (Text_Limit n) line = Json_Limit ''text_chars'' n"

record json_state =
  lx_text :: pystr
  lx_fault :: "fault option"
  lx_pos :: position
  lx_prev_cr :: bool
  lx_record :: "nat option"
  bd_nodes :: nat
  bd_keys :: nat
  bd_physical :: nat
  id_nodes :: nat
  id_values :: nat
  rec_nodes :: nat

definition advance :: "nat \<Rightarrow> position \<times> bool \<Rightarrow> position \<times> bool" where
  "advance c = (\<lambda>(p, prev_cr).
     if c = 13 then (\<lparr>at_index = at_index p + 1, at_line = at_line p + 1, at_column = 0\<rparr>, True)
     else if c = 10
     then (\<lparr>at_index = at_index p + 1, at_line = (if prev_cr then at_line p else at_line p + 1), at_column = 0\<rparr>, False)
     else (\<lparr>at_index = at_index p + 1, at_line = at_line p, at_column = at_column p + 1\<rparr>, False))"

definition shift :: "nat \<Rightarrow> json_state \<Rightarrow> json_state" where
  "shift c s = (case advance c (lx_pos s, lx_prev_cr s) of (p, cr) \<Rightarrow>
     s\<lparr>lx_text := tl (lx_text s), lx_pos := p, lx_prev_cr := cr\<rparr>)"

definition peek_char :: "json_state \<Rightarrow> json_error + character option" where
  "peek_char s = (case lx_text s of
     c # _ \<Rightarrow> Inr (Some (Character c (lx_pos s) (lx_pos (shift c s))))
   | [] \<Rightarrow> (case lx_fault s of None \<Rightarrow> Inr None | Some f \<Rightarrow> Inl (fault_error f (at_line (lx_pos s)))))"

definition take_char :: "json_limits \<Rightarrow> json_state \<Rightarrow> json_error + character option \<times> json_state" where
  "take_char l s = bindE (peek_char s) (\<lambda>c. case c of
     None \<Rightarrow> Inr (None, s)
   | Some ch \<Rightarrow> (case lx_record s of
       None \<Rightarrow> Inr (c, shift (code_point ch) s)
     | Some start \<Rightarrow> if jl_record_chars l < at_index (char_end ch) - start
         then Inl (Json_Limit ''record_chars'' (jl_record_chars l)) else Inr (c, shift (code_point ch) s)))"

text \<open>A character that must be there, else an error is raised.\<close>

definition take_or :: "json_limits \<Rightarrow> json_error \<Rightarrow> json_state \<Rightarrow> json_error + character \<times> json_state" where
  "take_or l e s = bindE (take_char l s) (\<lambda>(c, s'). case c of None \<Rightarrow> Inl e | Some ch \<Rightarrow> Inr (ch, s'))"

section \<open>What a method reads\<close>

text \<open>
  \<open>reads s t s'\<close>: from \<open>s\<close> the text \<open>t\<close> has been taken, and nothing else has changed. Every
  method of the lexer that returns has read some text in this sense.
\<close>

primrec after :: "pystr \<Rightarrow> json_state \<Rightarrow> json_state" where
  "after [] s = s"
| "after (c # cs) s = after cs (shift c s)"

definition reads :: "json_state \<Rightarrow> pystr \<Rightarrow> json_state \<Rightarrow> bool" where
  "reads s t s' \<longleftrightarrow> (\<exists>rest. lx_text s = t @ rest) \<and> s' = after t s"

text \<open>Room for \<open>n\<close> more characters in the current record.\<close>

definition room :: "json_limits \<Rightarrow> json_state \<Rightarrow> nat \<Rightarrow> bool" where
  "room l s n \<longleftrightarrow> (case lx_record s of None \<Rightarrow> True | Some start \<Rightarrow> at_index (lx_pos s) + n - start \<le> jl_record_chars l)"

lemma shift_fields [simp]:
  "lx_text (shift c s) = tl (lx_text s)" "lx_fault (shift c s) = lx_fault s" "lx_record (shift c s) = lx_record s"
  "bd_nodes (shift c s) = bd_nodes s" "bd_keys (shift c s) = bd_keys s" "bd_physical (shift c s) = bd_physical s"
  "id_nodes (shift c s) = id_nodes s" "id_values (shift c s) = id_values s" "rec_nodes (shift c s) = rec_nodes s"
  "at_index (lx_pos (shift c s)) = Suc (at_index (lx_pos s))"
  by (simp_all add: shift_def advance_def split: prod.split)

lemma after_fields [simp]:
  "lx_text (after t s) = drop (length t) (lx_text s)" "lx_fault (after t s) = lx_fault s" "lx_record (after t s) = lx_record s"
  "bd_nodes (after t s) = bd_nodes s" "bd_keys (after t s) = bd_keys s" "bd_physical (after t s) = bd_physical s"
  "id_nodes (after t s) = id_nodes s" "id_values (after t s) = id_values s" "rec_nodes (after t s) = rec_nodes s"
  "at_index (lx_pos (after t s)) = at_index (lx_pos s) + length t"
  by (induction t arbitrary: s) (simp_all add: drop_Suc)

lemma after_append [simp]: "after (a @ b) s = after b (after a s)"
  by (induction a arbitrary: s) simp_all

lemma reads_refl [simp]: "reads s [] s"
  by (simp add: reads_def)

lemma reads_text: "reads s t s' \<Longrightarrow> lx_text s = t @ lx_text s'"
  by (auto simp: reads_def)

lemma reads_trans:
  assumes "reads s a s'" "reads s' b s''"
  shows "reads s (a @ b) s''"
proof -
  obtain rest where "lx_text s' = b @ rest" using assms(2) by (auto simp: reads_def)
  then have "lx_text s = (a @ b) @ rest" using reads_text [OF assms(1)] by simp
  then show ?thesis using assms unfolding reads_def by auto
qed

lemma reads_shorter: "reads s t s' \<Longrightarrow> length (lx_text s) = length t + length (lx_text s')"
  by (simp add: reads_text)

lemma reads_fields:
  assumes "reads s t s'"
  shows "lx_fault s' = lx_fault s" "lx_record s' = lx_record s" "bd_nodes s' = bd_nodes s" "bd_keys s' = bd_keys s"
    "bd_physical s' = bd_physical s" "id_nodes s' = id_nodes s" "id_values s' = id_values s" "rec_nodes s' = rec_nodes s"
    "at_index (lx_pos s') = at_index (lx_pos s) + length t"
proof -
  have "s' = after t s" using assms by (simp add: reads_def)
  then show "lx_fault s' = lx_fault s" "lx_record s' = lx_record s" "bd_nodes s' = bd_nodes s" "bd_keys s' = bd_keys s"
    "bd_physical s' = bd_physical s" "id_nodes s' = id_nodes s" "id_values s' = id_values s" "rec_nodes s' = rec_nodes s"
    "at_index (lx_pos s') = at_index (lx_pos s) + length t" by simp_all
qed

lemma room_after [simp]: "room l (after t s) n = room l s (length t + n)"
  by (simp add: room_def add.assoc split: option.split)

lemma room_shift [simp]: "room l (shift c s) n = room l s (Suc n)"
  by (simp add: room_def split: option.split)

lemma room_less: "room l s n \<Longrightarrow> m \<le> n \<Longrightarrow> room l s m"
  by (auto simp: room_def split: option.splits)

lemma peek_Inr:
  "peek_char s = Inr None \<longleftrightarrow> lx_text s = [] \<and> lx_fault s = None"
  "peek_char s = Inr (Some ch) \<longleftrightarrow>
     (\<exists>c rest. lx_text s = c # rest \<and> ch = Character c (lx_pos s) (lx_pos (shift c s)))"
  by (auto simp: peek_char_def split: list.splits option.splits)

lemma take_Inr:
  "take_char l s = Inr (None, s') \<longleftrightarrow> lx_text s = [] \<and> lx_fault s = None \<and> s' = s"
  "take_char l s = Inr (Some ch, s') \<longleftrightarrow> room l s 1 \<and> s' = shift (code_point ch) s \<and>
     (\<exists>c rest. lx_text s = c # rest \<and> ch = Character c (lx_pos s) (lx_pos (shift c s)))"
  by (auto simp: take_char_def room_def peek_Inr result_simps split: option.splits if_splits)

lemma take_or_Inr: "take_or l e s = Inr (ch, s') \<longleftrightarrow> take_char l s = Inr (Some ch, s')"
  by (auto simp: take_or_def result_simps split: option.splits)

lemma take_reads: "take_or l e s = Inr (ch, s') \<Longrightarrow> reads s [code_point ch] s' \<and> room l s 1 \<and>
    char_start ch = lx_pos s \<and> char_end ch = lx_pos s'"
  by (auto simp: take_or_Inr take_Inr reads_def)

lemma take_shorter: "take_or l e s = Inr (ch, s') \<Longrightarrow> length (lx_text s') < length (lx_text s)"
  by (auto simp: take_or_Inr take_Inr)

lemma peek_take_shorter:
  "peek_char s = Inr (Some ch) \<Longrightarrow> take_char l s = Inr (x, s') \<Longrightarrow> length (lx_text s') < length (lx_text s)"
  by (cases x) (auto simp: peek_Inr take_Inr)

lemma peek_char_Cons: "lx_text s = c # rest \<Longrightarrow> peek_char s = Inr (Some (Character c (lx_pos s) (lx_pos (shift c s))))"
  and take_char_Cons: "lx_text s = c # rest \<Longrightarrow> room l s 1 \<Longrightarrow>
    take_char l s = Inr (Some (Character c (lx_pos s) (lx_pos (shift c s))), shift c s)"
  and take_or_Cons: "lx_text s = c # rest \<Longrightarrow> room l s 1 \<Longrightarrow>
    take_or l e s = Inr (Character c (lx_pos s) (lx_pos (shift c s)), shift c s)"
  by (simp_all add: peek_Inr take_or_Inr take_Inr)

section \<open>Tokens\<close>

datatype token_kind =
    Object_Start | Object_End | Array_Start | Array_End | Colon | Comma
  | String_Token | Number_Token | True_Token | False_Token | Null_Token | End_Of_File

datatype token_value = Text_Value pystr | Bool_Value bool | No_Value

datatype token = Token (tk_kind: token_kind) (tk_value: token_value) (tk_start: position) (tk_end: position)

definition json_space :: "nat \<Rightarrow> bool" where
  "json_space c \<longleftrightarrow> c = 32 \<or> c = 9 \<or> c = 13 \<or> c = 10"

definition json_digit :: "nat \<Rightarrow> bool" where
  "json_digit c \<longleftrightarrow> 48 \<le> c \<and> c \<le> 57"

definition punctuation :: "(nat \<times> token_kind) list" where
  "punctuation = [(123, Object_Start), (125, Object_End), (91, Array_Start), (93, Array_End), (58, Colon), (44, Comma)]"

definition check_value_size :: "json_limits \<Rightarrow> nat \<Rightarrow> json_error + unit" where
  "check_value_size l n = (if jl_value_chars l < n then Inl (Json_Limit ''value_chars'' (jl_value_chars l)) else Inr ())"

function skip_space :: "json_limits \<Rightarrow> json_state \<Rightarrow> json_error + json_state" where
  "skip_space l s = bindE (peek_char s) (\<lambda>c. case c of
     None \<Rightarrow> Inr s
   | Some ch \<Rightarrow> if json_space (code_point ch) then bindE (take_char l s) (\<lambda>(_, s'). skip_space l s') else Inr s)"
  by pat_completeness auto
termination
  by (relation "measure (\<lambda>(l, s). length (lx_text s))") (auto dest: peek_take_shorter)

subsection \<open>Strings\<close>

definition simple_escapes :: "(nat \<times> nat) list" where
  "simple_escapes = [(34, 34), (92, 92), (47, 47), (98, 8), (102, 12), (110, 10), (114, 13), (116, 9)]"

definition hex_value :: "nat \<Rightarrow> nat option" where
  "hex_value c = (if json_digit c then Some (c - 48) else if 97 \<le> c \<and> c \<le> 102 then Some (c - 87)
     else if 65 \<le> c \<and> c \<le> 70 then Some (c - 55) else None)"

fun hex_digits :: "json_limits \<Rightarrow> nat \<Rightarrow> nat \<Rightarrow> nat \<Rightarrow> json_state \<Rightarrow> json_error + nat \<times> json_state" where
  "hex_digits l line 0 v s = Inr (v, s)"
| "hex_digits l line (Suc k) v s = bindE (take_or l (Json_Syntax ''unexpected_eof'' line) s) (\<lambda>(ch, s').
     case hex_value (code_point ch) of
       None \<Rightarrow> Inl (Json_Syntax ''invalid_json'' (at_line (char_start ch)))
     | Some d \<Rightarrow> hex_digits l line k (16 * v + d) s')"

definition unicode_escape :: "json_limits \<Rightarrow> nat \<Rightarrow> json_state \<Rightarrow> json_error + nat \<times> json_state" where
  "unicode_escape l line s = hex_digits l line 4 0 s"

definition pair_code :: "nat \<Rightarrow> nat \<Rightarrow> nat" where
  "pair_code hi low = 0x10000 + (hi - 0xD800) * 1024 + (low - 0xDC00)"

text \<open>The second half of a surrogate pair, after a high surrogate \<open>hi\<close> that started on \<open>line\<close>.\<close>

definition low_surrogate :: "json_limits \<Rightarrow> nat \<Rightarrow> nat \<Rightarrow> nat \<Rightarrow> json_state \<Rightarrow> json_error + nat \<times> nat \<times> json_state" where
  "low_surrogate l line hi n s =
     (let e = Json_Syntax ''invalid_unicode_scalar'' line in
      bindE (take_or l e s) (\<lambda>(slash, s). bindE (take_or l e s) (\<lambda>(marker, s).
        if code_point slash \<noteq> 92 \<or> code_point marker \<noteq> 117 then Inl e
        else bindE (unicode_escape l (at_line (char_start marker)) s) (\<lambda>(low, s).
          bindE (check_value_size l (n + 6)) (\<lambda>_.
            if \<not> (0xDC00 \<le> low \<and> low \<le> 0xDFFF)
            then Inl (Json_Syntax ''invalid_unicode_scalar'' (at_line (char_start marker)))
            else Inr (pair_code hi low, n + 6, s))))))"

text \<open>What follows a backslash; \<open>n\<close> counts the characters of the literal read so far.\<close>

definition escape_sequence :: "json_limits \<Rightarrow> nat \<Rightarrow> nat \<Rightarrow> json_state \<Rightarrow> json_error + nat \<times> nat \<times> json_state" where
  "escape_sequence l line n s = bindE (take_or l (Json_Syntax ''unexpected_eof'' line) s) (\<lambda>(ch, s).
     bindE (check_value_size l (n + 1)) (\<lambda>_.
     case map_of simple_escapes (code_point ch) of
       Some c \<Rightarrow> Inr (c, n + 1, s)
     | None \<Rightarrow>
       let here = at_line (char_start ch) in
       if code_point ch \<noteq> 117 then Inl (Json_Syntax ''invalid_json'' here)
       else bindE (unicode_escape l here s) (\<lambda>(c, s). bindE (check_value_size l (n + 5)) (\<lambda>_.
         if 0xD800 \<le> c \<and> c \<le> 0xDBFF then low_surrogate l here c (n + 5) s
         else if 0xDC00 \<le> c \<and> c \<le> 0xDFFF then Inl (Json_Syntax ''invalid_unicode_scalar'' here)
         else Inr (c, n + 5, s)))))"

lemma hex_digits_reads: "hex_digits l line k v s = Inr (r, s') \<Longrightarrow> \<exists>t. reads s t s' \<and> length t = k"
proof (induction k arbitrary: v s)
  case (Suc k)
  then obtain ch s1 v' where a: "take_or l (Json_Syntax ''unexpected_eof'' line) s = Inr (ch, s1)" "hex_digits l line k v' s1 = Inr (r, s')"
    by (auto simp: result_simps split: option.splits)
  from Suc.IH [OF a(2)] obtain t where "reads s1 t s'" "length t = k" by auto
  with a(1) show ?case using take_reads reads_trans [of s "[code_point ch]" s1 t s'] by fastforce
qed simp

lemma escape_sequence_reads:
  assumes "escape_sequence l line n s = Inr (c, m, s')"
  shows "\<exists>t. reads s t s'"
proof -
  have low: "\<exists>t. reads u t u'" if l: "low_surrogate l here c k u = Inr (r, k', u')" for here c k u r k' u'
  proof -
    obtain a b u1 u2 v h where u: "take_or l (Json_Syntax ''invalid_unicode_scalar'' here) u = Inr (a, u1)"
      "take_or l (Json_Syntax ''invalid_unicode_scalar'' here) u1 = Inr (b, u2)" "hex_digits l h 4 0 u2 = Inr (v, u')"
      using l by (auto simp: low_surrogate_def unicode_escape_def Let_def result_simps split: if_splits)
    obtain t where "reads u2 t u'" using hex_digits_reads [OF u(3)] by auto
    then show ?thesis using take_reads [OF u(1)] take_reads [OF u(2)] reads_trans by blast
  qed
  obtain ch s1 where ch: "take_or l (Json_Syntax ''unexpected_eof'' line) s = Inr (ch, s1)"
    and r: "(case map_of simple_escapes (code_point ch) of Some c \<Rightarrow> Inr (c, n + 1, s1) | None \<Rightarrow>
       let here = at_line (char_start ch) in
       if code_point ch \<noteq> 117 then Inl (Json_Syntax ''invalid_json'' here)
       else bindE (unicode_escape l here s1) (\<lambda>(c, s). bindE (check_value_size l (n + 5)) (\<lambda>_.
         if 0xD800 \<le> c \<and> c \<le> 0xDBFF then low_surrogate l here c (n + 5) s
         else if 0xDC00 \<le> c \<and> c \<le> 0xDFFF then Inl (Json_Syntax ''invalid_unicode_scalar'' here)
         else Inr (c, n + 5, s)))) = Inr (c, m, s')"
    using assms unfolding escape_sequence_def bindE_eq_Inr by (auto simp only: bindE_eq_Inr prod.case split: prod.splits)
  have "\<exists>t. reads s1 t s'"
  proof (cases "map_of simple_escapes (code_point ch)")
    case None
    then obtain h c1 s2 where h: "hex_digits l h 4 0 s1 = Inr (c1, s2)"
      and c: "s' = s2 \<or> (\<exists>r k. low_surrogate l h c1 (n + 5) s2 = Inr (r, k, s'))"
      using r by (auto simp: unicode_escape_def Let_def bindE_eq_Inr split: if_splits)
    obtain t where t: "reads s1 t s2" using hex_digits_reads [OF h] by auto
    then show ?thesis using c low reads_trans by blast
  next
    case (Some x)
    then have "s' = s1" using r by simp
    then show ?thesis using reads_refl by blast
  qed
  then show ?thesis using take_reads [OF ch] reads_trans by blast
qed

lemma escape_sequence_shorter:
  "escape_sequence l line n s = Inr (c, m, s') \<Longrightarrow> length (lx_text s') \<le> length (lx_text s)"
  using escape_sequence_reads reads_shorter by fastforce

function string_body :: "json_limits \<Rightarrow> position \<Rightarrow> pystr \<Rightarrow> nat \<Rightarrow> json_state \<Rightarrow> json_error + token \<times> json_state" where
  "string_body l start decoded n s = bindE (take_or l (Json_Syntax ''unexpected_eof'' (at_line start)) s) (\<lambda>(ch, s1).
     bindE (check_value_size l (n + 1)) (\<lambda>_.
     let c = code_point ch in
     if c = 34 then Inr (Token String_Token (Text_Value decoded) start (char_end ch), s1)
     else if c < 0x20 then Inl (Json_Syntax ''invalid_json'' (at_line (char_start ch)))
     else if c \<noteq> 92
     then bindE (check_value_size l (length decoded + 1)) (\<lambda>_. string_body l start (decoded @ [c]) (n + 1) s1)
     else bindE (escape_sequence l (at_line (char_start ch)) (n + 1) s1) (\<lambda>(c, n, s2).
       bindE (check_value_size l (length decoded + 1)) (\<lambda>_. string_body l start (decoded @ [c]) n s2))))"
  by pat_completeness auto
termination
proof (relation "measure (\<lambda>(l, start, decoded, n, s). length (lx_text s))", goal_cases)
  case 1
  show ?case by simp
next
  case (2 l start decoded n s x ch s1)
  then show ?case by (auto dest: take_shorter)
next
  case (3 l start decoded n s)
  then show ?case using take_shorter escape_sequence_shorter by (fastforce dest: le_less_trans)
qed

definition string_token :: "json_limits \<Rightarrow> json_state \<Rightarrow> json_error + token \<times> json_state" where
  "string_token l s = bindE (take_or l Json_Assertion s) (\<lambda>(ch, s'). string_body l (char_start ch) [] 1 s')"

subsection \<open>Numbers\<close>

text \<open>Characters consumed so far with the last one; a digit that may follow.\<close>

definition consume :: "json_limits \<Rightarrow> pystr \<Rightarrow> json_state \<Rightarrow> json_error + character \<times> pystr \<times> json_state" where
  "consume l chars s = bindE (take_or l Json_Assertion s) (\<lambda>(ch, s').
     let chars' = chars @ [code_point ch] in
     if jl_number_chars l < length chars' then Inl (Json_Limit ''number_chars'' (jl_number_chars l))
     else bindE (check_value_size l (length chars')) (\<lambda>_. Inr (ch, chars', s')))"

definition is_code :: "(nat \<Rightarrow> bool) \<Rightarrow> character option \<Rightarrow> bool" where
  "is_code p c = (case c of None \<Rightarrow> False | Some ch \<Rightarrow> p (code_point ch))"

lemma consume_shorter: "consume l chars s = Inr (ch, chars', s') \<Longrightarrow> length (lx_text s') < length (lx_text s)"
  by (auto simp: consume_def Let_def result_simps dest: take_shorter)

function consume_digits ::
  "json_limits \<Rightarrow> character \<Rightarrow> pystr \<Rightarrow> json_state \<Rightarrow> json_error + character \<times> pystr \<times> json_state" where
  "consume_digits l fin chars s = bindE (peek_char s) (\<lambda>c.
     if is_code json_digit c then bindE (consume l chars s) (\<lambda>(fin, chars, s). consume_digits l fin chars s)
     else Inr (fin, chars, s))"
  by pat_completeness auto
termination
  by (relation "measure (\<lambda>(l, fin, chars, s). length (lx_text s))") (auto dest: consume_shorter)

text \<open>The line of a missing digit: that of the character in its place, else of the last one.\<close>

definition missing_digit :: "character option \<Rightarrow> character \<Rightarrow> json_error" where
  "missing_digit c fin = Json_Syntax ''invalid_json'' (at_line (char_start (case c of None \<Rightarrow> fin | Some ch \<Rightarrow> ch)))"

definition integer_part ::
  "json_limits \<Rightarrow> character \<Rightarrow> pystr \<Rightarrow> json_state \<Rightarrow> json_error + character \<times> pystr \<times> json_state" where
  "integer_part l first chars s = bindE (peek_char s) (\<lambda>current. case current of
     None \<Rightarrow> Inl (Json_Syntax ''unexpected_eof'' (at_line (char_start first)))
   | Some ch \<Rightarrow>
       if code_point ch = 48
       then bindE (consume l chars s) (\<lambda>(fin, chars, s). bindE (peek_char s) (\<lambda>following.
         if is_code json_digit following then Inl (missing_digit following fin) else Inr (fin, chars, s)))
       else if 49 \<le> code_point ch \<and> code_point ch \<le> 57
       then bindE (consume l chars s) (\<lambda>(fin, chars, s). consume_digits l fin chars s)
       else Inl (Json_Syntax ''invalid_json'' (at_line (char_start ch))))"

definition some_digits ::
  "json_limits \<Rightarrow> character \<Rightarrow> pystr \<Rightarrow> json_state \<Rightarrow> json_error + character \<times> pystr \<times> json_state" where
  "some_digits l fin chars s = bindE (peek_char s) (\<lambda>digit.
     if \<not> is_code json_digit digit then Inl (missing_digit digit fin) else consume_digits l fin chars s)"

definition fraction_part ::
  "json_limits \<Rightarrow> character \<Rightarrow> pystr \<Rightarrow> json_state \<Rightarrow> json_error + character \<times> pystr \<times> json_state" where
  "fraction_part l fin chars s = bindE (peek_char s) (\<lambda>following.
     if is_code (\<lambda>c. c = 46) following
     then bindE (consume l chars s) (\<lambda>(fin, chars, s). some_digits l fin chars s)
     else Inr (fin, chars, s))"

definition exponent_part ::
  "json_limits \<Rightarrow> character \<Rightarrow> pystr \<Rightarrow> json_state \<Rightarrow> json_error + character \<times> pystr \<times> json_state" where
  "exponent_part l fin chars s = bindE (peek_char s) (\<lambda>following.
     if is_code (\<lambda>c. c = 101 \<or> c = 69) following
     then bindE (consume l chars s) (\<lambda>(fin, chars, s). bindE (peek_char s) (\<lambda>sign.
       if is_code (\<lambda>c. c = 43 \<or> c = 45) sign
       then bindE (consume l chars s) (\<lambda>(fin, chars, s). some_digits l fin chars s)
       else some_digits l fin chars s))
     else Inr (fin, chars, s))"

definition number_token :: "json_limits \<Rightarrow> json_state \<Rightarrow> json_error + token \<times> json_state" where
  "number_token l s = bindE (peek_char s) (\<lambda>first. case first of
     None \<Rightarrow> Inl Json_Assertion
   | Some first \<Rightarrow>
       bindE (if code_point first = 45 then bindE (consume l [] s) (\<lambda>(_, chars, s). Inr (chars, s)) else Inr ([], s)) (\<lambda>(chars, s).
       bindE (integer_part l first chars s) (\<lambda>(fin, chars, s).
       bindE (fraction_part l fin chars s) (\<lambda>(fin, chars, s).
       bindE (exponent_part l fin chars s) (\<lambda>(fin, chars, s).
         Inr (Token Number_Token (Text_Value chars) (char_start first) (char_end fin), s))))))"

subsection \<open>Literals and the next token\<close>

fun literal_chars ::
  "json_limits \<Rightarrow> nat \<Rightarrow> pystr \<Rightarrow> position option \<Rightarrow> position \<Rightarrow> json_state \<Rightarrow>
     json_error + position option \<times> position \<times> json_state" where
  "literal_chars l n [] start stop s = Inr (start, stop, s)"
| "literal_chars l n (x # xs) start stop s =
     bindE (take_or l (Json_Syntax ''unexpected_eof'' (at_line (case start of None \<Rightarrow> lx_pos s | Some p \<Rightarrow> p))) s) (\<lambda>(ch, s').
     if code_point ch \<noteq> x then Inl (Json_Syntax ''invalid_json'' (at_line (char_start ch)))
     else bindE (check_value_size l n) (\<lambda>_. literal_chars l (n + 1) xs
       (case start of None \<Rightarrow> Some (char_start ch) | Some p \<Rightarrow> Some p) (char_end ch) s'))"

definition literal_token ::
  "json_limits \<Rightarrow> string \<Rightarrow> token_kind \<Rightarrow> token_value \<Rightarrow> json_state \<Rightarrow> json_error + token \<times> json_state" where
  "literal_token l word kind val s = bindE (literal_chars l 1 (pstr word) None (lx_pos s) s) (\<lambda>(start, stop, s').
     case start of None \<Rightarrow> Inl Json_Assertion | Some p \<Rightarrow> Inr (Token kind val p stop, s'))"

text \<open>The token at a character that is not white space.\<close>

definition token_at :: "json_limits \<Rightarrow> character option \<Rightarrow> json_state \<Rightarrow> json_error + token \<times> json_state" where
  "token_at l character s = (case character of
     None \<Rightarrow> Inr (Token End_Of_File No_Value (lx_pos s) (lx_pos s), s)
   | Some ch \<Rightarrow> let c = code_point ch in
       (case map_of punctuation c of
          Some kind \<Rightarrow> bindE (take_or l Json_Assertion s) (\<lambda>(taken, s').
            Inr (Token kind (Text_Value [c]) (char_start taken) (char_end taken), s'))
        | None \<Rightarrow>
          if c = 34 then string_token l s
          else if c = 45 \<or> json_digit c then number_token l s
          else if c = 116 then literal_token l ''true'' True_Token (Bool_Value True) s
          else if c = 102 then literal_token l ''false'' False_Token (Bool_Value False) s
          else if c = 110 then literal_token l ''null'' Null_Token No_Value s
          else Inl (Json_Syntax ''invalid_json'' (at_line (char_start ch)))))"

definition next_token :: "json_limits \<Rightarrow> json_state \<Rightarrow> json_error + token \<times> json_state" where
  "next_token l s = bindE (skip_space l s) (\<lambda>s. bindE (peek_char s) (\<lambda>c. token_at l c s))"

subsection \<open>Records\<close>

definition begin_record :: "json_state \<Rightarrow> json_state" where
  "begin_record s = s\<lparr>lx_record := Some (at_index (lx_pos s))\<rparr>"

definition end_record :: "position \<Rightarrow> json_state \<Rightarrow> nat \<times> json_state" where
  "end_record stop s = ((case lx_record s of None \<Rightarrow> 0 | Some start \<Rightarrow> at_index stop - start), s\<lparr>lx_record := None\<rparr>)"

definition abandon_record :: "json_state \<Rightarrow> json_state" where
  "abandon_record s = s\<lparr>lx_record := None\<rparr>"

definition next_after_record :: "json_limits \<Rightarrow> json_state \<Rightarrow> json_error + token \<times> nat \<times> json_state" where
  "next_after_record l s = bindE (skip_space l s) (\<lambda>s. bindE (peek_char s) (\<lambda>c.
     case end_record (case c of None \<Rightarrow> lx_pos s | Some ch \<Rightarrow> char_start ch) s of
       (chars, s) \<Rightarrow> bindE (next_token l s) (\<lambda>(t, s). Inr (t, chars, s))))"

declare skip_space.simps [simp del] string_body.simps [simp del] consume_digits.simps [simp del]

end
