(* ===== verification/Json_Grammar.thy ===== *)
theory Json_Grammar
  imports Json_Lexer
begin

text \<open>
  The lexical grammar of JSON (RFC 8259) as a specification independent of the lexer, and the lexer's
  agreement with it: what a method returns was written by the grammar, and text of the grammar within
  the limits is recognised.
\<close>

section \<open>Reading within the record\<close>

definition takes :: "json_limits \<Rightarrow> json_state \<Rightarrow> pystr \<Rightarrow> json_state \<Rightarrow> bool" where
  "takes l s t s' \<longleftrightarrow> reads s t s' \<and> (t = [] \<or> room l s (length t))"

lemma takes_refl [simp]: "takes l s [] s"
  by (simp add: takes_def)

lemma takes_Nil [simp]: "takes l s [] s' \<longleftrightarrow> s' = s"
  by (auto simp: takes_def reads_def)

lemma takes_reads: "takes l s t s' \<Longrightarrow> reads s t s'"
  and takes_text: "takes l s t s' \<Longrightarrow> lx_text s = t @ lx_text s'"
  by (simp_all add: takes_def reads_text)

lemma takes_after: "takes l s t s' \<Longrightarrow> s' = after t s"
  by (simp add: takes_def reads_def)

lemma takes_append: "takes l s (a @ b) s' \<longleftrightarrow> takes l s a (after a s) \<and> takes l (after a s) b s'"
proof -
  have "reads s (a @ b) s' \<longleftrightarrow> reads s a (after a s) \<and> reads (after a s) b s'"
    by (auto simp: reads_def)
  moreover have "room l s (length a + length b) \<Longrightarrow> room l s (length a)" by (erule room_less) simp
  ultimately show ?thesis unfolding takes_def by (cases "b = []") auto
qed

lemma takes_trans: "takes l s a s' \<Longrightarrow> takes l s' b s'' \<Longrightarrow> takes l s (a @ b) s''"
  using takes_append takes_after by metis

lemma takes_Cons: "takes l s (c # t) s' \<longleftrightarrow> takes l s [c] (shift c s) \<and> takes l (shift c s) t s'"
  using takes_append [of l s "[c]" t s'] by simp

lemma take_or_iff:
  "take_or l e s = Inr (ch, s') \<longleftrightarrow> takes l s [code_point ch] s' \<and> ch = Character (code_point ch) (lx_pos s) (lx_pos s')"
  by (auto simp: take_or_Inr take_Inr takes_def reads_def)

lemma takes_one: "takes l s [c] s' \<longleftrightarrow> takes l s [c] (shift c s) \<and> s' = shift c s"
  by (auto simp: takes_def reads_def)

lemma bind_take_or:
  "bindE (take_or l e s) (\<lambda>(ch, s'). f ch s') = Inr x \<longleftrightarrow>
     (\<exists>c. takes l s [c] (shift c s) \<and> f (Character c (lx_pos s) (lx_pos (shift c s))) (shift c s) = Inr x)"
proof
  assume "bindE (take_or l e s) (\<lambda>(ch, s'). f ch s') = Inr x"
  then obtain ch s' where r: "take_or l e s = Inr (ch, s')" "f ch s' = Inr x" by (auto simp: bindE_eq_Inr)
  then have "takes l s [code_point ch] s'" "ch = Character (code_point ch) (lx_pos s) (lx_pos s')" by (simp_all add: take_or_iff)
  moreover from this have "s' = shift (code_point ch) s" by (metis takes_one)
  ultimately show "\<exists>c. takes l s [c] (shift c s) \<and> f (Character c (lx_pos s) (lx_pos (shift c s))) (shift c s) = Inr x"
    using r(2) by metis
next
  assume "\<exists>c. takes l s [c] (shift c s) \<and> f (Character c (lx_pos s) (lx_pos (shift c s))) (shift c s) = Inr x"
  then obtain c where c: "takes l s [c] (shift c s)" "f (Character c (lx_pos s) (lx_pos (shift c s))) (shift c s) = Inr x" by blast
  then have "take_or l e s = Inr (Character c (lx_pos s) (lx_pos (shift c s)), shift c s)" by (simp add: take_or_iff)
  then show "bindE (take_or l e s) (\<lambda>(ch, s'). f ch s') = Inr x" using c(2) by simp
qed

lemma takes_peek: "takes l s (c # t) s' \<Longrightarrow> peek_char s = Inr (Some (Character c (lx_pos s) (lx_pos (shift c s))))"
  by (auto simp: takes_def reads_def peek_char_Cons)

lemma takes_take_or: "takes l s (c # t) s' \<Longrightarrow> take_or l e s = Inr (Character c (lx_pos s) (lx_pos (shift c s)), shift c s)"
  using takes_Cons [of l s c t s'] take_or_iff [of l e s "Character c (lx_pos s) (lx_pos (shift c s))" "shift c s"] by simp

lemma check_value_size_Inr [simp]: "check_value_size l n = Inr u \<longleftrightarrow> n \<le> jl_value_chars l"
  by (auto simp: check_value_size_def)

lemma bind_check: "bindE (check_value_size l n) f = Inr x \<longleftrightarrow> n \<le> jl_value_chars l \<and> f () = Inr x"
  by (auto simp: bindE_eq_Inr)

lemma if_Inl: "(if b then Inl e else r) = Inr x \<longleftrightarrow> \<not> b \<and> r = Inr x"
  by simp

lemma takes_shorter: "takes l s t s' \<Longrightarrow> length (lx_text s) = length t + length (lx_text s')"
  by (simp add: takes_reads reads_shorter)

lemmas lexer_steps = bind_take_or bind_check character.sel Let_def if_Inl

section \<open>White space\<close>

lemma skip_space_takes:
  "skip_space l s = Inr s' \<Longrightarrow> \<exists>t. takes l s t s' \<and> list_all json_space t \<and> (\<exists>c. peek_char s' = Inr c \<and> \<not> is_code json_space c)"
proof (induction l s rule: skip_space.induct)
  case (1 l s)
  obtain c where c: "peek_char s = Inr c" using "1.prems" by (cases "peek_char s") (auto simp: skip_space.simps [of l s])
  show ?case
  proof (cases "is_code json_space c")
    case True
    then obtain ch where ch: "c = Some ch" "json_space (code_point ch)" by (auto simp: is_code_def split: option.splits)
    then obtain x s1 where s1: "take_char l s = Inr (x, s1)" "skip_space l s1 = Inr s'"
      using "1.prems" c by (auto simp: skip_space.simps [of l s] bindE_eq_Inr)
    have x: "x = Some ch" using s1(1) c ch(1) by (cases x) (auto simp: peek_Inr take_Inr)
    have "takes l s [code_point ch] s1" using s1(1) x take_or_iff [of l Json_Assertion s ch s1] by (simp add: take_or_Inr)
    moreover obtain t where "takes l s1 t s'" "list_all json_space t" "\<exists>c. peek_char s' = Inr c \<and> \<not> is_code json_space c"
      using "1.IH" [OF c ch s1(1) refl] s1(2) by auto
    ultimately show ?thesis using ch(2) by (intro exI [of _ "[code_point ch] @ t"] conjI takes_trans) auto
  next
    case False
    then have "s' = s" using "1.prems" c by (auto simp: skip_space.simps [of l s] is_code_def split: option.splits)
    then show ?thesis using c False by (intro exI [of _ "[]"]) auto
  qed
qed

lemma skip_space_complete:
  "list_all json_space t \<Longrightarrow> takes l s t s' \<Longrightarrow> peek_char s' = Inr c \<Longrightarrow> \<not> is_code json_space c \<Longrightarrow> skip_space l s = Inr s'"
proof (induction t arbitrary: s)
  case Nil
  then show ?case by (auto simp: skip_space.simps [of l s] is_code_def split: option.splits)
next
  case (Cons d t)
  have t: "takes l s [d] (shift d s)" "takes l (shift d s) t s'" using Cons.prems(2) takes_Cons by blast+
  have "take_char l s = Inr (Some (Character d (lx_pos s) (lx_pos (shift d s))), shift d s)"
    using takes_take_or [OF Cons.prems(2), of Json_Assertion] by (simp add: take_or_Inr)
  then show ?case using takes_peek [OF t(1)] Cons.IH [OF _ t(2)] Cons.prems by (simp add: skip_space.simps [of l s])
qed

section \<open>Strings\<close>

primrec hex_fold :: "nat \<Rightarrow> pystr \<Rightarrow> nat option" where
  "hex_fold v [] = Some v"
| "hex_fold v (c # cs) = (case hex_value c of None \<Rightarrow> None | Some d \<Rightarrow> hex_fold (16 * v + d) cs)"

text \<open>What may follow a backslash, and the characters between the quotes with the text they stand for.\<close>

inductive escape_text :: "nat \<Rightarrow> pystr \<Rightarrow> bool" where
  simple: "map_of simple_escapes e = Some c \<Longrightarrow> escape_text c [e]"
| unicode: "hex_fold 0 h = Some c \<Longrightarrow> length h = 4 \<Longrightarrow> c < 0xD800 \<or> 0xDFFF < c \<Longrightarrow> escape_text c (117 # h)"
| surrogates: "hex_fold 0 h = Some hi \<Longrightarrow> length h = 4 \<Longrightarrow> 0xD800 \<le> hi \<Longrightarrow> hi \<le> 0xDBFF \<Longrightarrow>
    hex_fold 0 g = Some lo \<Longrightarrow> length g = 4 \<Longrightarrow> 0xDC00 \<le> lo \<Longrightarrow> lo \<le> 0xDFFF \<Longrightarrow>
    escape_text (pair_code hi lo) (117 # h @ 92 # 117 # g)"

inductive string_chars :: "pystr \<Rightarrow> pystr \<Rightarrow> bool" where
  none: "string_chars [] []"
| plain: "0x20 \<le> c \<Longrightarrow> c \<noteq> 34 \<Longrightarrow> c \<noteq> 92 \<Longrightarrow> string_chars v t \<Longrightarrow> string_chars (c # v) (c # t)"
| escape: "escape_text c e \<Longrightarrow> string_chars v t \<Longrightarrow> string_chars (c # v) (92 # e @ t)"

inductive_cases string_charsE: "string_chars v t"

lemma string_chars_length: "string_chars v t \<Longrightarrow> length v \<le> length t"
  by (induction rule: string_chars.induct) auto

lemma hex_digits_iff:
  "hex_digits l line k v s = Inr (r, s') \<longleftrightarrow> (\<exists>t. length t = k \<and> hex_fold v t = Some r \<and> takes l s t s')"
proof (induction k arbitrary: v s)
  case (Suc k)
  have "hex_digits l line (Suc k) v s = Inr (r, s') \<longleftrightarrow> (\<exists>c d. takes l s [c] (shift c s) \<and> hex_value c = Some d \<and>
      hex_digits l line k (16 * v + d) (shift c s) = Inr (r, s'))"
    unfolding hex_digits.simps bind_take_or by (auto split: option.splits)
  also have "\<dots> \<longleftrightarrow> (\<exists>c d t. takes l s (c # t) s' \<and> hex_value c = Some d \<and> length t = k \<and> hex_fold (16 * v + d) t = Some r)"
    unfolding Suc.IH takes_Cons [of l s _ _ s'] by blast
  also have "\<dots> \<longleftrightarrow> (\<exists>t. length t = Suc k \<and> hex_fold v t = Some r \<and> takes l s t s')" (is "?L \<longleftrightarrow> ?R")
  proof
    assume ?L
    then obtain c d t where "takes l s (c # t) s'" "hex_value c = Some d" "length t = k" "hex_fold (16 * v + d) t = Some r" by blast
    then show ?R by (intro exI [of _ "c # t"]) simp
  next
    assume ?R
    then obtain c t where "takes l s (c # t) s'" "length t = k" "hex_fold v (c # t) = Some r" by (auto simp: length_Suc_conv)
    then show ?L by (auto split: option.splits)
  qed
  finally show ?case .
qed auto

lemma low_surrogate_iff:
  "low_surrogate l line hi n s = Inr (c, m, s') \<longleftrightarrow>
     (\<exists>g lo. takes l s (92 # 117 # g) s' \<and> length g = 4 \<and> hex_fold 0 g = Some lo \<and> 0xDC00 \<le> lo \<and> lo \<le> 0xDFFF \<and>
        c = pair_code hi lo \<and> m = n + 6 \<and> n + 6 \<le> jl_value_chars l)"
proof -
  have "low_surrogate l line hi n s = Inr (c, m, s') \<longleftrightarrow>
    (\<exists>lo. takes l s [92] (shift 92 s) \<and> takes l (shift 92 s) [117] (shift 117 (shift 92 s)) \<and>
       unicode_escape l (at_line (lx_pos (shift 92 s))) (shift 117 (shift 92 s)) = Inr (lo, s') \<and> n + 6 \<le> jl_value_chars l \<and>
         0xDC00 \<le> lo \<and> lo \<le> 0xDFFF \<and> c = pair_code hi lo \<and> m = n + 6)"
    unfolding low_surrogate_def lexer_steps by (auto simp: bindE_eq_Inr)
  also have "\<dots> \<longleftrightarrow> (\<exists>g lo. takes l s (92 # 117 # g) s' \<and> length g = 4 \<and> hex_fold 0 g = Some lo \<and> 0xDC00 \<le> lo \<and> lo \<le> 0xDFFF \<and>
        c = pair_code hi lo \<and> m = n + 6 \<and> n + 6 \<le> jl_value_chars l)"
    unfolding unicode_escape_def hex_digits_iff takes_Cons [of l s 92 "117 # _"] takes_Cons [of l "shift 92 s" 117 _ s'] by auto
  finally show ?thesis .
qed

lemma escape_sequence_iff:
  "escape_sequence l line n s = Inr (c, m, s') \<longleftrightarrow>
     (\<exists>t. escape_text c t \<and> takes l s t s' \<and> m = n + length t \<and> m \<le> jl_value_chars l)" (is "?L \<longleftrightarrow> ?R")
proof
  assume ?L
  then obtain a where a: "takes l s [a] (shift a s)" "n + 1 \<le> jl_value_chars l" and
    r: "(case map_of simple_escapes a of Some c \<Rightarrow> Inr (c, n + 1, shift a s) | None \<Rightarrow>
       if a \<noteq> 117 then Inl (Json_Syntax ''invalid_json'' (at_line (lx_pos s)))
       else bindE (unicode_escape l (at_line (lx_pos s)) (shift a s)) (\<lambda>(c, s'). bindE (check_value_size l (n + 5)) (\<lambda>_.
         if 0xD800 \<le> c \<and> c \<le> 0xDBFF then low_surrogate l (at_line (lx_pos s)) c (n + 5) s'
         else if 0xDC00 \<le> c \<and> c \<le> 0xDFFF then Inl (Json_Syntax ''invalid_unicode_scalar'' (at_line (lx_pos s)))
         else Inr (c, n + 5, s')))) = Inr (c, m, s')"
    unfolding escape_sequence_def lexer_steps by (elim exE conjE) (rule that)
  show ?R
  proof (cases "map_of simple_escapes a")
    case (Some x)
    then show ?thesis using a r escape_text.simple [of a c] by (intro exI [of _ "[a]"]) auto
  next
    case None
    then obtain u s1 where u: "a = 117" "unicode_escape l (at_line (lx_pos s)) (shift a s) = Inr (u, s1)" "n + 5 \<le> jl_value_chars l"
      "(if 0xD800 \<le> u \<and> u \<le> 0xDBFF then low_surrogate l (at_line (lx_pos s)) u (n + 5) s1
         else if 0xDC00 \<le> u \<and> u \<le> 0xDFFF then Inl (Json_Syntax ''invalid_unicode_scalar'' (at_line (lx_pos s)))
         else Inr (u, n + 5, s1)) = Inr (c, m, s')"
      using r by (auto simp: bindE_eq_Inr split: if_split_asm)
    obtain h where h: "length h = 4" "hex_fold 0 h = Some u" "takes l (shift a s) h s1"
      using u(2) unfolding unicode_escape_def hex_digits_iff by blast
    have ah: "takes l s (a # h) s1" using takes_Cons a(1) h(3) by blast
    show ?thesis
    proof (cases "0xD800 \<le> u \<and> u \<le> 0xDBFF")
      case True
      then have "low_surrogate l (at_line (lx_pos s)) u (n + 5) s1 = Inr (c, m, s')" using u(4) by simp
      then obtain g lo where g: "takes l s1 (92 # 117 # g) s'" "length g = 4" "hex_fold 0 g = Some lo" "0xDC00 \<le> lo" "lo \<le> 0xDFFF"
        "c = pair_code u lo" "m = n + 5 + 6" "n + 5 + 6 \<le> jl_value_chars l"
        unfolding low_surrogate_iff by blast
      have "escape_text c (117 # h @ 92 # 117 # g)"
        unfolding g(6) using True by (intro escape_text.surrogates h g) simp_all
      moreover have "takes l s (117 # h @ 92 # 117 # g) s'" using takes_trans [OF ah g(1)] u(1) by simp
      ultimately show ?thesis using g(2,7,8) h(1) by (intro exI [of _ "117 # h @ 92 # 117 # g"]) simp
    next
      case False
      then have "u < 0xD800 \<or> 0xDFFF < u" "c = u" "m = n + 5" "s' = s1" using u(4) by (auto split: if_split_asm)
      then show ?thesis using escape_text.unicode [OF h(2,1)] ah u(1,3) h(1) by (intro exI [of _ "117 # h"]) auto
    qed
  qed
next
  assume ?R
  then obtain t where t: "escape_text c t" "takes l s t s'" "m = n + length t" "m \<le> jl_value_chars l" by blast
  have one: "n + 1 \<le> jl_value_chars l" using t by (cases rule: escape_text.cases) auto
  from t(1) show ?L
  proof cases
    case (simple e)
    have "takes l s [e] (shift e s)" "s' = shift e s" using t(2) simple takes_one by blast+
    then show ?thesis unfolding escape_sequence_def lexer_steps using simple one t(3) by (intro exI [of _ e]) simp
  next
    case (unicode h)
    have k: "takes l s [117] (shift 117 s)" "takes l (shift 117 s) h s'" using t(2) unicode takes_Cons by blast+
    have "unicode_escape l (at_line (lx_pos s)) (shift 117 s) = Inr (c, s')"
      unfolding unicode_escape_def hex_digits_iff using unicode k(2) by blast
    moreover have "map_of simple_escapes 117 = None" by (simp add: simple_escapes_def)
    moreover have "n + 5 \<le> jl_value_chars l" using t(3,4) unicode by simp
    ultimately show ?thesis unfolding escape_sequence_def lexer_steps using k(1) one unicode t(3)
      by (intro exI [of _ "117::nat"]) (auto simp: bindE_eq_Inr)
  next
    case (surrogates h hi g lo)
    have "takes l s ((117 # h) @ 92 # 117 # g) s'" using t(2) surrogates by simp
    then obtain s1 where s1: "takes l s (117 # h) s1" "takes l s1 (92 # 117 # g) s'" unfolding takes_append by blast
    have k: "takes l s [117] (shift 117 s)" "takes l (shift 117 s) h s1" using s1(1) takes_Cons by blast+
    have "unicode_escape l (at_line (lx_pos s)) (shift 117 s) = Inr (hi, s1)"
      unfolding unicode_escape_def hex_digits_iff using surrogates k(2) by blast
    moreover have "low_surrogate l (at_line (lx_pos s)) hi (n + 5) s1 = Inr (c, m, s')"
      unfolding low_surrogate_iff using s1(2) surrogates t(3,4) by (intro exI [of _ g] exI [of _ lo]) simp
    moreover have "map_of simple_escapes 117 = None" by (simp add: simple_escapes_def)
    moreover have "n + 5 \<le> jl_value_chars l" using t(3,4) surrogates by simp
    ultimately show ?thesis unfolding escape_sequence_def lexer_steps using k(1) one surrogates(5,6)
      by (intro exI [of _ "117::nat"]) (auto simp: bindE_eq_Inr)
  qed
qed

lemma string_body_iff:
  assumes "length decoded \<le> n"
  shows "string_body l start decoded n s = Inr (t, s') \<longleftrightarrow> (\<exists>v x. string_chars v x \<and> takes l s (x @ [34]) s' \<and>
      n + length x + 1 \<le> jl_value_chars l \<and> t = Token String_Token (Text_Value (decoded @ v)) start (lx_pos s'))" (is "_ \<longleftrightarrow> ?R decoded n s")
proof
  assume "string_body l start decoded n s = Inr (t, s')"
  then show "?R decoded n s" using assms
  proof (induction "length (lx_text s)" arbitrary: decoded n s rule: less_induct)
    case less
    obtain c where c: "takes l s [c] (shift c s)" "n + 1 \<le> jl_value_chars l" and
      r: "(if c = 34 then Inr (Token String_Token (Text_Value decoded) start (lx_pos (shift c s)), shift c s)
       else if c < 0x20 then Inl (Json_Syntax ''invalid_json'' (at_line (lx_pos s)))
       else if c \<noteq> 92 then bindE (check_value_size l (length decoded + 1)) (\<lambda>_. string_body l start (decoded @ [c]) (n + 1) (shift c s))
       else bindE (escape_sequence l (at_line (lx_pos s)) (n + 1) (shift c s)) (\<lambda>(c, n, s2).
         bindE (check_value_size l (length decoded + 1)) (\<lambda>_. string_body l start (decoded @ [c]) n s2))) = Inr (t, s')"
      using less.prems(1) unfolding string_body.simps [of l start decoded n s] lexer_steps by (elim exE conjE) (rule that)
    have shorter: "length (lx_text (shift c s)) < length (lx_text s)" using takes_shorter [OF c(1)] by simp
    consider "c = 34" | "c \<noteq> 34" "0x20 \<le> c" "c \<noteq> 92" | "c = 92" using r by (auto split: if_split_asm)
    then show ?case
    proof cases
      case 1
      then show ?thesis using r c string_chars.none by (intro exI [of _ "[]"]) auto
    next
      case 2
      then have k: "length decoded + 1 \<le> jl_value_chars l" "string_body l start (decoded @ [c]) (n + 1) (shift c s) = Inr (t, s')"
        using r by (auto simp: bindE_eq_Inr)
      obtain v x where v: "string_chars v x" "takes l (shift c s) (x @ [34]) s'" "n + 1 + length x + 1 \<le> jl_value_chars l"
        "t = Token String_Token (Text_Value ((decoded @ [c]) @ v)) start (lx_pos s')"
        using less.hyps [OF shorter k(2)] less.prems(2) by auto
      have "takes l s ((c # x) @ [34]) s'" using takes_Cons [of l s c "x @ [34]"] c(1) v(2) by simp
      then show ?thesis using string_chars.plain [OF 2(2,1,3) v(1)] v(3,4) by (intro exI [of _ "c # v"] exI [of _ "c # x"]) simp
    next
      case 3
      then obtain d m s2 where e: "escape_sequence l (at_line (lx_pos s)) (n + 1) (shift c s) = Inr (d, m, s2)"
        and k: "length decoded + 1 \<le> jl_value_chars l" "string_body l start (decoded @ [d]) m s2 = Inr (t, s')"
        using r by (auto simp: bindE_eq_Inr)
      obtain y where y: "escape_text d y" "takes l (shift c s) y s2" "m = n + 1 + length y" using e unfolding escape_sequence_iff by blast
      obtain v x where v: "string_chars v x" "takes l s2 (x @ [34]) s'" "m + length x + 1 \<le> jl_value_chars l"
        "t = Token String_Token (Text_Value ((decoded @ [d]) @ v)) start (lx_pos s')"
        using less.hyps [OF _ k(2)] shorter takes_shorter [OF y(2)] less.prems(2) y(3) by auto
      have "takes l s ((92 # y @ x) @ [34]) s'"
        using takes_Cons [of l s c "y @ x @ [34]"] c(1) takes_trans [OF y(2) v(2)] 3 by simp
      then show ?thesis using string_chars.escape [OF y(1) v(1)] v(3,4) y(3)
        by (intro exI [of _ "d # v"] exI [of _ "92 # y @ x"]) simp
    qed
  qed
next
  assume "?R decoded n s"
  then obtain v x where "string_chars v x" "takes l s (x @ [34]) s'" "n + length x + 1 \<le> jl_value_chars l"
    "t = Token String_Token (Text_Value (decoded @ v)) start (lx_pos s')" by blast
  then show "string_body l start decoded n s = Inr (t, s')" using assms
  proof (induction arbitrary: decoded n s rule: string_chars.induct)
    case none
    have "takes l s [34] (shift 34 s)" "s' = shift 34 s" using none(1) takes_one by (metis append_Nil)+
    then show ?case unfolding string_body.simps [of l start decoded n s] lexer_steps using none
      by (intro exI [of _ "34::nat"]) (simp add: bindE_eq_Inr)
  next
    case (plain c v x)
    have k: "takes l s [c] (shift c s)" "takes l (shift c s) (x @ [34]) s'" using plain.prems(1) takes_Cons [of l s c "x @ [34]"] by auto
    have "string_body l start (decoded @ [c]) (n + 1) (shift c s) = Inr (t, s')"
      using plain.prems by (intro plain.IH k) simp_all
    then show ?case unfolding string_body.simps [of l start decoded n s] lexer_steps using k(1) plain
      by (intro exI [of _ c]) (simp add: bindE_eq_Inr)
  next
    case (escape d y v x)
    have k: "takes l s [92] (shift 92 s)" "takes l (shift 92 s) (y @ x @ [34]) s'"
      using escape.prems(1) takes_Cons [of l s 92 "y @ x @ [34]"] by auto
    then obtain s2 where s2: "takes l (shift 92 s) y s2" "takes l s2 (x @ [34]) s'" unfolding takes_append by blast
    have e: "escape_sequence l (at_line (lx_pos s)) (n + 1) (shift 92 s) = Inr (d, n + 1 + length y, s2)"
      unfolding escape_sequence_iff using escape.hyps(1) s2(1) escape.prems(2) by (intro exI [of _ y]) simp
    have "string_body l start (decoded @ [d]) (n + 1 + length y) s2 = Inr (t, s')"
      using escape.prems by (intro escape.IH s2) simp_all
    then show ?case unfolding string_body.simps [of l start decoded n s] lexer_steps using k(1) e escape.prems
      by (intro exI [of _ "92::nat"]) (simp add: bindE_eq_Inr)
  qed
qed

section \<open>Numbers\<close>

definition integer_text :: "pystr \<Rightarrow> bool" where
  "integer_text t \<longleftrightarrow> t = [48] \<or> (\<exists>d ds. t = d # ds \<and> 49 \<le> d \<and> d \<le> 57 \<and> list_all json_digit ds)"

definition fraction_text :: "pystr \<Rightarrow> bool" where
  "fraction_text t \<longleftrightarrow> t = [] \<or> (\<exists>ds. t = 46 # ds \<and> ds \<noteq> [] \<and> list_all json_digit ds)"

definition exponent_text :: "pystr \<Rightarrow> bool" where
  "exponent_text t \<longleftrightarrow> t = [] \<or> (\<exists>e sign ds. t = e # sign @ ds \<and> (e = 101 \<or> e = 69) \<and> (sign = [] \<or> sign = [43] \<or> sign = [45]) \<and>
     ds \<noteq> [] \<and> list_all json_digit ds)"

definition number_text :: "pystr \<Rightarrow> bool" where
  "number_text t \<longleftrightarrow> (\<exists>m i f e. t = m @ i @ f @ e \<and> (m = [] \<or> m = [45]) \<and> integer_text i \<and> fraction_text f \<and> exponent_text e)"

text \<open>What may come after a number: no digit, point or exponent, and no error.\<close>

definition number_ends :: "json_state \<Rightarrow> bool" where
  "number_ends s \<longleftrightarrow> (\<exists>c. peek_char s = Inr c \<and> \<not> is_code (\<lambda>c. json_digit c \<or> c = 46 \<or> c = 101 \<or> c = 69) c)"

definition number_room :: "json_limits \<Rightarrow> nat \<Rightarrow> bool" where
  "number_room l n \<longleftrightarrow> n \<le> jl_number_chars l \<and> n \<le> jl_value_chars l"

definition grows :: "json_limits \<Rightarrow> character \<Rightarrow> pystr \<Rightarrow> json_state \<Rightarrow> pystr \<Rightarrow> character \<Rightarrow> pystr \<Rightarrow> json_state \<Rightarrow> bool" where
  "grows l fin chars s t fin' chars' s' \<longleftrightarrow> takes l s t s' \<and> chars' = chars @ t \<and> (t = [] \<or> number_room l (length chars')) \<and>
     (if t = [] then fin' = fin else char_end fin' = lx_pos s')"

lemma grows_refl [simp]: "grows l fin chars s [] fin chars s"
  by (simp add: grows_def)

lemma grows_start: "grows l a chars s (c # t) b chars' s' \<Longrightarrow> grows l a' chars s (c # t) b chars' s'"
  by (auto simp: grows_def)

lemma number_room_less: "number_room l n \<Longrightarrow> m \<le> n \<Longrightarrow> number_room l m"
  by (simp add: number_room_def)

lemma grows_trans:
  assumes "grows l fin chars s a fin1 chars1 s1" "grows l fin1 chars1 s1 b fin2 chars2 s2"
  shows "grows l fin chars s (a @ b) fin2 chars2 s2"
  using assms takes_trans [of l s a s1 b s2] unfolding grows_def by (auto split: if_splits)

lemma bind_consume:
  "bindE (consume l chars s) (\<lambda>(ch, chars', s'). f ch chars' s') = Inr x \<longleftrightarrow>
     (\<exists>c. takes l s [c] (shift c s) \<and> number_room l (length chars + 1) \<and>
        f (Character c (lx_pos s) (lx_pos (shift c s))) (chars @ [c]) (shift c s) = Inr x)"
proof -
  have "consume l chars s = Inr (ch, chars', s') \<longleftrightarrow> (\<exists>c. takes l s [c] (shift c s) \<and> number_room l (length chars + 1) \<and>
      ch = Character c (lx_pos s) (lx_pos (shift c s)) \<and> chars' = chars @ [c] \<and> s' = shift c s)" for ch chars' s'
    unfolding consume_def lexer_steps number_room_def by auto
  then show ?thesis by (auto simp: bindE_eq_Inr)
qed

lemma consume_grows:
  "takes l s [c] (shift c s) \<Longrightarrow> number_room l (length chars + 1) \<Longrightarrow>
     grows l fin chars s [c] (Character c (lx_pos s) (lx_pos (shift c s))) (chars @ [c]) (shift c s)"
  by (simp add: grows_def)

lemma peek_takes: "peek_char s = Inr c \<Longrightarrow> is_code p c \<Longrightarrow> takes l s [d] (shift d s) \<Longrightarrow> p d"
  using takes_peek [of l s d "[]"] by (auto simp: is_code_def)

lemma consume_digits_step:
  assumes "peek_char s = Inr c"
  shows "consume_digits l fin chars s =
    (if is_code json_digit c then bindE (consume l chars s) (\<lambda>(fin, chars, s). consume_digits l fin chars s) else Inr (fin, chars, s))"
  by (subst consume_digits.simps) (simp only: assms bindE.simps)

lemma consume_digits_grows:
  "consume_digits l fin chars s = Inr (fin', chars', s') \<Longrightarrow> \<exists>ds. list_all json_digit ds \<and> grows l fin chars s ds fin' chars' s'"
proof (induction "length (lx_text s)" arbitrary: fin chars s rule: less_induct)
  case less
  obtain c where c: "peek_char s = Inr c" using less.prems by (cases "peek_char s") (auto simp: consume_digits.simps [of l fin chars s])
  show ?case
  proof (cases "is_code json_digit c")
    case True
    then have "bindE (consume l chars s) (\<lambda>(fin, chars, s). consume_digits l fin chars s) = Inr (fin', chars', s')"
      using less.prems unfolding consume_digits_step [OF c] by (simp only: if_True)
    then obtain d where d: "takes l s [d] (shift d s)" "number_room l (length chars + 1)" and
      r: "consume_digits l (Character d (lx_pos s) (lx_pos (shift d s))) (chars @ [d]) (shift d s) = Inr (fin', chars', s')"
      unfolding bind_consume by blast
    have "length (lx_text (shift d s)) < length (lx_text s)" using takes_shorter [OF d(1)] by simp
    from less.hyps [OF this r] obtain ds where ds: "list_all json_digit ds"
      "grows l (Character d (lx_pos s) (lx_pos (shift d s))) (chars @ [d]) (shift d s) ds fin' chars' s'" by blast
    have "json_digit d" using peek_takes [OF c True d(1)] .
    then show ?thesis using ds(1) grows_trans [OF consume_grows [OF d] ds(2)] by (intro exI [of _ "[d] @ ds"]) simp
  next
    case False
    then show ?thesis using less.prems unfolding consume_digits_step [OF c] by (intro exI [of _ "[]"]) simp
  qed
qed

lemma consume_digits_complete:
  assumes "list_all json_digit ds" "takes l s ds s'" "ds = [] \<or> number_room l (length chars + length ds)"
    and "peek_char s' = Inr c" "\<not> is_code json_digit c"
  shows "\<exists>fin'. consume_digits l fin chars s = Inr (fin', chars @ ds, s') \<and> grows l fin chars s ds fin' (chars @ ds) s'"
  using assms
proof (induction ds arbitrary: fin chars s)
  case Nil
  then show ?case by (simp add: consume_digits_step)
next
  case (Cons d ds)
  have t: "takes l s [d] (shift d s)" "takes l (shift d s) ds s'" using Cons.prems(2) takes_Cons by blast+
  have n: "number_room l (length chars + 1)" using Cons.prems(3) by (auto intro: number_room_less)
  obtain fin' where "consume_digits l (Character d (lx_pos s) (lx_pos (shift d s))) (chars @ [d]) (shift d s) =
      Inr (fin', (chars @ [d]) @ ds, s')"
    "grows l (Character d (lx_pos s) (lx_pos (shift d s))) (chars @ [d]) (shift d s) ds fin' ((chars @ [d]) @ ds) s'"
    using Cons.IH [OF _ t(2), of "chars @ [d]" "Character d (lx_pos s) (lx_pos (shift d s))"] Cons.prems by auto
  moreover have "consume_digits l fin chars s = bindE (consume l chars s) (\<lambda>(fin, chars, s). consume_digits l fin chars s)"
    using Cons.prems(1) unfolding consume_digits_step [OF takes_peek [OF t(1)]] by (simp add: is_code_def)
  ultimately have "consume_digits l fin chars s = Inr (fin', chars @ d # ds, s')"
    "grows l fin chars s (d # ds) fin' (chars @ d # ds) s'"
    using t(1) n grows_trans [OF consume_grows [OF t(1) n]] by (auto simp: bind_consume)
  then show ?case by blast
qed

lemma some_digits_iff:
  "some_digits l fin chars s = Inr x \<longleftrightarrow> (\<exists>c. peek_char s = Inr c \<and> is_code json_digit c \<and> consume_digits l fin chars s = Inr x)"
  unfolding some_digits_def bindE_eq_Inr by auto

lemma consume_digits_nonempty:
  assumes "consume_digits l fin chars s = Inr (fin', chars', s')" "peek_char s = Inr c" "is_code json_digit c"
  shows "\<exists>ds. ds \<noteq> [] \<and> list_all json_digit ds \<and> grows l fin chars s ds fin' chars' s'"
proof -
  have "bindE (consume l chars s) (\<lambda>(fin, chars, s). consume_digits l fin chars s) = Inr (fin', chars', s')"
    using assms(1,3) unfolding consume_digits_step [OF assms(2)] by (simp only: if_True)
  then obtain d where d: "takes l s [d] (shift d s)" "number_room l (length chars + 1)" and
    r: "consume_digits l (Character d (lx_pos s) (lx_pos (shift d s))) (chars @ [d]) (shift d s) = Inr (fin', chars', s')"
    unfolding bind_consume by blast
  obtain ds where "list_all json_digit ds" "grows l (Character d (lx_pos s) (lx_pos (shift d s))) (chars @ [d]) (shift d s) ds fin' chars' s'"
    using consume_digits_grows [OF r] by blast
  then show ?thesis using grows_trans [OF consume_grows [OF d]] peek_takes [OF assms(2,3) d(1)]
    by (intro exI [of _ "[d] @ ds"]) auto
qed

lemma some_digits_grows:
  "some_digits l fin chars s = Inr (fin', chars', s') \<Longrightarrow> \<exists>ds. ds \<noteq> [] \<and> list_all json_digit ds \<and> grows l fin chars s ds fin' chars' s'"
  using consume_digits_nonempty unfolding some_digits_iff by blast

lemma some_digits_complete:
  assumes "list_all json_digit ds" "ds \<noteq> []" "takes l s ds s'" "number_room l (length chars + length ds)"
    and "peek_char s' = Inr c" "\<not> is_code json_digit c"
  shows "\<exists>fin'. some_digits l fin chars s = Inr (fin', chars @ ds, s') \<and> grows l fin chars s ds fin' (chars @ ds) s'"
proof -
  have "peek_char s = Inr (Some (Character (hd ds) (lx_pos s) (lx_pos (shift (hd ds) s))))"
    using assms(2,3) takes_peek [of l s "hd ds" "tl ds"] by simp
  moreover have "json_digit (hd ds)" using assms(1,2) by (cases ds) simp_all
  ultimately show ?thesis using consume_digits_complete [OF assms(1,3) _ assms(5,6)] assms(4)
    by (simp add: some_digits_iff is_code_def)
qed

lemma integer_part_grows:
  assumes "integer_part l first chars s = Inr (fin, chars', s')"
  shows "\<exists>t. integer_text t \<and> grows l fin' chars s t fin chars' s'"
proof -
  obtain ch where p: "peek_char s = Inr (Some ch)"
    using assms unfolding integer_part_def by (auto simp: bindE_eq_Inr split: option.splits)
  define r where "r = bindE (consume l chars s) (\<lambda>(fin, chars, s). bindE (peek_char s) (\<lambda>following.
         if is_code json_digit following then Inl (missing_digit following fin) else Inr (fin, chars, s)))"
  define q where "q = bindE (consume l chars s) (\<lambda>(fin, chars, s). consume_digits l fin chars s)"
  have "(if code_point ch = 48 then r else if 49 \<le> code_point ch \<and> code_point ch \<le> 57 then q
       else Inl (Json_Syntax ''invalid_json'' (at_line (char_start ch)))) = Inr (fin, chars', s')"
    using assms unfolding integer_part_def p r_def q_def by simp
  then consider "code_point ch = 48" "r = Inr (fin, chars', s')" | "49 \<le> code_point ch" "code_point ch \<le> 57" "q = Inr (fin, chars', s')"
    by (auto split: if_split_asm)
  then show ?thesis
  proof cases
    case 1
    then obtain c where c: "takes l s [c] (shift c s)" "number_room l (length chars + 1)"
      "fin = Character c (lx_pos s) (lx_pos (shift c s))" "chars' = chars @ [c]" "s' = shift c s"
      unfolding r_def bind_consume by (auto simp: bindE_eq_Inr split: if_split_asm)
    have "c = 48" using peek_takes [OF p, of "\<lambda>x. x = 48" l c] 1(1) c(1) by (simp add: is_code_def)
    then show ?thesis using consume_grows [OF c(1,2)] c(3-5) by (intro exI [of _ "[c]"]) (simp add: integer_text_def grows_def)
  next
    case 2
    then obtain c where c: "takes l s [c] (shift c s)" "number_room l (length chars + 1)" and
      r: "consume_digits l (Character c (lx_pos s) (lx_pos (shift c s))) (chars @ [c]) (shift c s) = Inr (fin, chars', s')"
      unfolding q_def bind_consume by blast
    obtain ds where ds: "list_all json_digit ds"
      "grows l (Character c (lx_pos s) (lx_pos (shift c s))) (chars @ [c]) (shift c s) ds fin chars' s'"
      using consume_digits_grows [OF r] by blast
    have "49 \<le> c \<and> c \<le> 57" using peek_takes [OF p, of "\<lambda>x. 49 \<le> x \<and> x \<le> 57" l c] 2 c(1) by (simp add: is_code_def)
    moreover have "grows l fin' chars s ([c] @ ds) fin chars' s'"
      using grows_start [of l _ chars s c ds] grows_trans [OF consume_grows [OF c] ds(2)] by simp
    ultimately show ?thesis using ds(1) by (intro exI [of _ "[c] @ ds"]) (simp add: integer_text_def)
  qed
qed

lemma integer_part_complete:
  assumes "integer_text t" "takes l s t s'" "number_room l (length chars + length t)" "peek_char s' = Inr c" "\<not> is_code json_digit c"
  shows "\<exists>fin. integer_part l first chars s = Inr (fin, chars @ t, s') \<and> grows l fin' chars s t fin (chars @ t) s'"
proof -
  obtain d ds where t: "t = d # ds" "(d = 48 \<and> ds = []) \<or> (49 \<le> d \<and> d \<le> 57)" "list_all json_digit ds"
    using assms(1) by (auto simp: integer_text_def)
  have k: "takes l s [d] (shift d s)" "takes l (shift d s) ds s'" using assms(2) t(1) takes_Cons by blast+
  have n: "number_room l (length chars + 1)" using assms(3) t(1) by (auto intro: number_room_less)
  let ?d = "Character d (lx_pos s) (lx_pos (shift d s))"
  show ?thesis
  proof (cases "d = 48")
    case True
    then have ds: "ds = []" using t(2) by auto
    then have s': "s' = shift d s" using k(2) by simp
    have "integer_part l first chars s = Inr (?d, chars @ [d], shift d s)"
      unfolding integer_part_def takes_peek [OF k(1)] bindE.simps option.case character.sel using True k(1) n assms(4,5) s'
      by (simp only: refl if_True bind_consume) (intro exI [of _ d], simp)
    then show ?thesis using consume_grows [OF k(1) n] ds t(1) s' by (simp add: grows_def)
  next
    case False
    then have d: "49 \<le> d" "d \<le> 57" using t(2) by auto
    obtain fin where fin: "consume_digits l ?d (chars @ [d]) (shift d s) = Inr (fin, (chars @ [d]) @ ds, s')"
      "grows l ?d (chars @ [d]) (shift d s) ds fin ((chars @ [d]) @ ds) s'"
      using consume_digits_complete [OF t(3) k(2) _ assms(4,5), of "chars @ [d]" ?d] assms(3) t(1) by auto
    have "integer_part l first chars s = bindE (consume l chars s) (\<lambda>(fin, chars, s). consume_digits l fin chars s)"
      unfolding integer_part_def takes_peek [OF k(1)] bindE.simps option.case character.sel using False d by simp
    also have "\<dots> = Inr (fin, chars @ t, s')" unfolding bind_consume using k(1) n fin(1) t(1) by auto
    finally show ?thesis using grows_start [of l _ chars s d ds] grows_trans [OF consume_grows [OF k(1) n] fin(2)] t(1) by simp
  qed
qed

lemma fraction_part_grows:
  assumes "fraction_part l fin chars s = Inr (fin', chars', s')"
  shows "\<exists>t. fraction_text t \<and> grows l fin chars s t fin' chars' s'"
proof -
  obtain c where p: "peek_char s = Inr c" using assms unfolding fraction_part_def by (auto simp: bindE_eq_Inr)
  show ?thesis
  proof (cases "is_code (\<lambda>c. c = 46) c")
    case True
    then have "bindE (consume l chars s) (\<lambda>(fin, chars, s). some_digits l fin chars s) = Inr (fin', chars', s')"
      using assms unfolding fraction_part_def p by simp
    then obtain d where d: "takes l s [d] (shift d s)" "number_room l (length chars + 1)" and
      r: "some_digits l (Character d (lx_pos s) (lx_pos (shift d s))) (chars @ [d]) (shift d s) = Inr (fin', chars', s')"
      unfolding bind_consume by blast
    obtain ds where ds: "ds \<noteq> []" "list_all json_digit ds"
      "grows l (Character d (lx_pos s) (lx_pos (shift d s))) (chars @ [d]) (shift d s) ds fin' chars' s'"
      using some_digits_grows [OF r] by blast
    have "d = 46" using peek_takes [OF p True d(1)] .
    then show ?thesis using ds grows_start [of l _ chars s d ds] grows_trans [OF consume_grows [OF d] ds(3)] by (intro exI [of _ "[d] @ ds"]) (auto simp: fraction_text_def)
  next
    case False
    then show ?thesis using assms unfolding fraction_part_def p by (intro exI [of _ "[]"]) (simp add: fraction_text_def)
  qed
qed

lemma fraction_part_complete:
  assumes "fraction_text t" "takes l s t s'" "t = [] \<or> number_room l (length chars + length t)"
    and "peek_char s' = Inr c" "\<not> is_code (\<lambda>c. json_digit c \<or> c = 46) c"
  shows "\<exists>fin'. fraction_part l fin chars s = Inr (fin', chars @ t, s') \<and> grows l fin chars s t fin' (chars @ t) s'"
proof (cases "t = []")
  case True
  then show ?thesis using assms by (auto simp: fraction_part_def is_code_def split: option.splits)
next
  case False
  then obtain ds where t: "t = 46 # ds" "ds \<noteq> []" "list_all json_digit ds" using assms(1) by (auto simp: fraction_text_def)
  have k: "takes l s [46] (shift 46 s)" "takes l (shift 46 s) ds s'" using assms(2) t(1) takes_Cons by blast+
  have n: "number_room l (length chars + 1)" using assms(3) t(1) by (auto intro: number_room_less)
  let ?d = "Character 46 (lx_pos s) (lx_pos (shift 46 s))"
  have "\<not> is_code json_digit c" using assms(5) by (auto simp: is_code_def split: option.splits)
  then obtain fin' where fin: "some_digits l ?d (chars @ [46]) (shift 46 s) = Inr (fin', (chars @ [46]) @ ds, s')"
      "grows l ?d (chars @ [46]) (shift 46 s) ds fin' ((chars @ [46]) @ ds) s'"
    using some_digits_complete [OF t(3,2) k(2) _ assms(4), of "chars @ [46]" ?d] assms(3) t(1) by auto
  have "fraction_part l fin chars s = bindE (consume l chars s) (\<lambda>(fin, chars, s). some_digits l fin chars s)"
    unfolding fraction_part_def takes_peek [OF k(1)] by (simp add: is_code_def)
  also have "\<dots> = Inr (fin', chars @ t, s')" unfolding bind_consume using k(1) n fin(1) t(1) by auto
  finally show ?thesis using grows_start [of l _ chars s 46 ds] grows_trans [OF consume_grows [OF k(1) n] fin(2)] t(1) by simp
qed

lemma exponent_textI:
  "e = 101 \<or> e = 69 \<Longrightarrow> sign = [] \<or> sign = [43] \<or> sign = [45] \<Longrightarrow> ds \<noteq> [] \<Longrightarrow> list_all json_digit ds \<Longrightarrow> exponent_text (e # sign @ ds)"
  unfolding exponent_text_def by blast

lemma exponent_part_grows:
  assumes "exponent_part l fin chars s = Inr (fin', chars', s')"
  shows "\<exists>t. exponent_text t \<and> grows l fin chars s t fin' chars' s'"
proof -
  obtain c where p: "peek_char s = Inr c" using assms unfolding exponent_part_def by (auto simp: bindE_eq_Inr)
  show ?thesis
  proof (cases "is_code (\<lambda>c. c = 101 \<or> c = 69) c")
    case True
    define k where "k = (\<lambda>(fin, chars, s). bindE (peek_char s) (\<lambda>sign.
       if is_code (\<lambda>c. c = 43 \<or> c = 45) sign
       then bindE (consume l chars s) (\<lambda>(fin, chars, s). some_digits l fin chars s)
       else some_digits l fin chars s))"
    have "bindE (consume l chars s) (\<lambda>(fin, chars, s). k (fin, chars, s)) = Inr (fin', chars', s')"
      using assms True unfolding exponent_part_def p k_def by simp
    then obtain e where e: "takes l s [e] (shift e s)" "number_room l (length chars + 1)" and
      r: "k (Character e (lx_pos s) (lx_pos (shift e s)), chars @ [e], shift e s) = Inr (fin', chars', s')"
      unfolding bind_consume by blast
    have ee: "e = 101 \<or> e = 69" using peek_takes [OF p True e(1)] .
    let ?e = "Character e (lx_pos s) (lx_pos (shift e s))"
    obtain sign where sign: "peek_char (shift e s) = Inr sign" using r unfolding k_def by (auto simp: bindE_eq_Inr)
    show ?thesis
    proof (cases "is_code (\<lambda>c. c = 43 \<or> c = 45) sign")
      case True
      then have "bindE (consume l (chars @ [e]) (shift e s)) (\<lambda>(fin, chars, s). some_digits l fin chars s) = Inr (fin', chars', s')"
        using r unfolding k_def prod.case sign by simp
      then obtain g where g: "takes l (shift e s) [g] (shift g (shift e s))" "number_room l (length (chars @ [e]) + 1)" and
        r': "some_digits l (Character g (lx_pos (shift e s)) (lx_pos (shift g (shift e s)))) ((chars @ [e]) @ [g]) (shift g (shift e s)) =
          Inr (fin', chars', s')" unfolding bind_consume by blast
      obtain ds where ds: "ds \<noteq> []" "list_all json_digit ds"
        "grows l (Character g (lx_pos (shift e s)) (lx_pos (shift g (shift e s)))) ((chars @ [e]) @ [g]) (shift g (shift e s)) ds fin' chars' s'"
        using some_digits_grows [OF r'] by blast
      have "g = 43 \<or> g = 45" using peek_takes [OF sign True g(1)] .
      moreover have "grows l fin chars s (e # [g] @ ds) fin' chars' s'"
        using grows_trans [OF consume_grows [OF e] grows_trans [OF consume_grows [OF g] ds(3)]] grows_start [of l ?e chars s e] by simp
      ultimately show ?thesis using exponent_textI [OF ee _ ds(1,2), of "[g]"] by blast
    next
      case False
      then have r': "some_digits l ?e (chars @ [e]) (shift e s) = Inr (fin', chars', s')" using r unfolding k_def prod.case sign by simp
      obtain ds where ds: "ds \<noteq> []" "list_all json_digit ds" "grows l ?e (chars @ [e]) (shift e s) ds fin' chars' s'"
        using some_digits_grows [OF r'] by blast
      have "grows l fin chars s (e # ds) fin' chars' s'"
        using grows_trans [OF consume_grows [OF e] ds(3)] grows_start [of l ?e chars s e] by simp
      then show ?thesis using exponent_textI [OF ee _ ds(1,2), of "[]"] by auto
    qed
  next
    case False
    then show ?thesis using assms unfolding exponent_part_def p by (intro exI [of _ "[]"]) (simp add: exponent_text_def)
  qed
qed

lemma exponent_part_complete:
  assumes "exponent_text t" "takes l s t s'" "t = [] \<or> number_room l (length chars + length t)" "number_ends s'"
  shows "\<exists>fin'. exponent_part l fin chars s = Inr (fin', chars @ t, s') \<and> grows l fin chars s t fin' (chars @ t) s'"
proof (cases "t = []")
  case True
  then show ?thesis using assms by (auto simp: exponent_part_def number_ends_def is_code_def split: option.splits)
next
  case False
  then obtain e sign ds where t: "t = e # sign @ ds" "e = 101 \<or> e = 69" "sign = [] \<or> sign = [43] \<or> sign = [45]" "ds \<noteq> []" "list_all json_digit ds"
    using assms(1) by (auto simp: exponent_text_def)
  have k: "takes l s [e] (shift e s)" "takes l (shift e s) (sign @ ds) s'" using assms(2) t(1) takes_Cons by blast+
  have n: "number_room l (length chars + 1)" using assms(3) t(1) by (auto intro: number_room_less)
  obtain c where c: "peek_char s' = Inr c" "\<not> is_code json_digit c"
    using assms(4) by (auto simp: number_ends_def is_code_def split: option.splits)
  let ?e = "Character e (lx_pos s) (lx_pos (shift e s))"
  define m where "m = (\<lambda>(fin, chars, s). bindE (peek_char s) (\<lambda>sign.
       if is_code (\<lambda>c. c = 43 \<or> c = 45) sign
       then bindE (consume l chars s) (\<lambda>(fin, chars, s). some_digits l fin chars s)
       else some_digits l fin chars s))"
  have "\<exists>fin'. m (?e, chars @ [e], shift e s) = Inr (fin', chars @ t, s') \<and> grows l ?e (chars @ [e]) (shift e s) (sign @ ds) fin' (chars @ t) s'"
  proof (cases "sign = []")
    case True
    have hd: "takes l (shift e s) (hd ds # tl ds) s'" "json_digit (hd ds)" using k(2) True t(4,5) by (cases ds; simp)+
    then have "\<not> (hd ds = 43 \<or> hd ds = 45)" by (auto simp: json_digit_def)
    then have "m (?e, chars @ [e], shift e s) = some_digits l ?e (chars @ [e]) (shift e s)"
      using takes_peek [OF hd(1)] by (simp add: m_def is_code_def)
    then show ?thesis using some_digits_complete [OF t(5,4) _ _ c, of l "shift e s" "chars @ [e]" ?e] k(2) True assms(3) t(1) by auto
  next
    case False
    then obtain g where g: "sign = [g]" "g = 43 \<or> g = 45" using t(3) by blast
    have gk: "takes l (shift e s) [g] (shift g (shift e s))" "takes l (shift g (shift e s)) ds s'"
      using k(2) g(1) takes_Cons [of l "shift e s" g ds s'] by auto
    have gn: "number_room l (length (chars @ [e]) + 1)" using assms(3) t(1) g(1) by (auto intro: number_room_less)
    let ?g = "Character g (lx_pos (shift e s)) (lx_pos (shift g (shift e s)))"
    have "m (?e, chars @ [e], shift e s) = bindE (consume l (chars @ [e]) (shift e s)) (\<lambda>(fin, chars, s). some_digits l fin chars s)"
      using takes_peek [OF gk(1)] g(2) by (simp add: m_def is_code_def)
    moreover obtain fin' where fin: "some_digits l ?g ((chars @ [e]) @ [g]) (shift g (shift e s)) = Inr (fin', ((chars @ [e]) @ [g]) @ ds, s')"
      "grows l ?g ((chars @ [e]) @ [g]) (shift g (shift e s)) ds fin' (((chars @ [e]) @ [g]) @ ds) s'"
      using some_digits_complete [OF t(5,4) gk(2) _ c, of "(chars @ [e]) @ [g]" ?g] assms(3) t(1) g(1) by auto
    ultimately have "m (?e, chars @ [e], shift e s) = Inr (fin', chars @ t, s')"
      using gk(1) gn t(1) g(1) by (auto simp: bind_consume)
    then show ?thesis using grows_trans [OF consume_grows [OF gk(1) gn] fin(2)] t(1) g(1) by auto
  qed
  then obtain fin' where fin: "m (?e, chars @ [e], shift e s) = Inr (fin', chars @ t, s')"
    "grows l ?e (chars @ [e]) (shift e s) (sign @ ds) fin' (chars @ t) s'" by blast
  have "exponent_part l fin chars s = bindE (consume l chars s) (\<lambda>(fin, chars, s). m (fin, chars, s))"
    unfolding exponent_part_def takes_peek [OF k(1)] m_def using t(2) by (simp add: is_code_def)
  also have "\<dots> = Inr (fin', chars @ t, s')" unfolding bind_consume using k(1) n fin(1) by blast
  finally show ?thesis
    using grows_start [of l ?e chars s e "sign @ ds"] grows_trans [OF consume_grows [OF k(1) n] fin(2)] t(1) by auto
qed

lemma number_token_sound:
  assumes "number_token l s = Inr (t, s')"
  shows "\<exists>x. number_text x \<and> takes l s x s' \<and> number_room l (length x) \<and> t = Token Number_Token (Text_Value x) (lx_pos s) (lx_pos s')"
proof -
  obtain first chars0 s0 where first: "peek_char s = Inr (Some first)"
    and sign: "(if code_point first = 45 then bindE (consume l [] s) (\<lambda>(_, chars, s). Inr (chars, s)) else Inr ([], s)) = Inr (chars0, s0)"
    and rest: "bindE (integer_part l first chars0 s0) (\<lambda>(fin, chars, s).
       bindE (fraction_part l fin chars s) (\<lambda>(fin, chars, s).
       bindE (exponent_part l fin chars s) (\<lambda>(fin, chars, s).
         Inr (Token Number_Token (Text_Value chars) (char_start first) (char_end fin), s)))) = Inr (t, s')"
    using assms unfolding number_token_def by (auto simp: bindE_eq_Inr split: option.splits)
  have pos: "char_start first = lx_pos s" using first by (auto simp: peek_Inr)
  obtain m where m: "m = [] \<or> m = [45]" "takes l s m s0" "chars0 = m"
  proof (cases "code_point first = 45")
    case True
    then have "bindE (consume l [] s) (\<lambda>(ch, chars, s). Inr (chars, s)) = Inr (chars0, s0)" using sign by (simp only: refl if_True)
    then obtain c where c: "takes l s [c] (shift c s)" "chars0 = [c]" "s0 = shift c s"
      unfolding bind_consume by auto
    moreover have "c = 45" using peek_takes [OF first _ c(1), of "\<lambda>x. x = 45"] True by (simp add: is_code_def)
    ultimately show ?thesis using that [of "[45]"] by simp
  next
    case False
    then show ?thesis using sign that [of "[]"] by simp
  qed
  obtain f1 c1 s1 f2 c2 s2 f3 c3 where parts: "integer_part l first chars0 s0 = Inr (f1, c1, s1)" "fraction_part l f1 c1 s1 = Inr (f2, c2, s2)"
    "exponent_part l f2 c2 s2 = Inr (f3, c3, s')" "t = Token Number_Token (Text_Value c3) (char_start first) (char_end f3)"
    using rest by (auto simp: bindE_eq_Inr)
  obtain i f e where i: "integer_text i" "grows l first chars0 s0 i f1 c1 s1"
    and f: "fraction_text f" "grows l f1 c1 s1 f f2 c2 s2" and e: "exponent_text e" "grows l f2 c2 s2 e f3 c3 s'"
    using integer_part_grows [OF parts(1)] fraction_part_grows [OF parts(2)] exponent_part_grows [OF parts(3)] by blast
  have g: "grows l first chars0 s0 (i @ f @ e) f3 c3 s'" using grows_trans [OF i(2) grows_trans [OF f(2) e(2)]] by simp
  moreover have "i @ f @ e \<noteq> []" using i(1) by (auto simp: integer_text_def)
  ultimately have "takes l s0 (i @ f @ e) s'" "c3 = m @ i @ f @ e" "number_room l (length c3)" "char_end f3 = lx_pos s'"
    using m(3) by (auto simp: grows_def)
  then show ?thesis using takes_trans [OF m(2)] m(1) i(1) f(1) e(1) parts(4) pos unfolding number_text_def by metis
qed

lemma number_text_nonempty: "number_text x \<Longrightarrow> x \<noteq> [] \<and> (hd x = 45 \<or> json_digit (hd x))"
  unfolding number_text_def integer_text_def by (auto simp: json_digit_def)

lemma number_token_complete:
  assumes "number_text x" "takes l s x s'" "number_room l (length x)" "number_ends s'"
  shows "number_token l s = Inr (Token Number_Token (Text_Value x) (lx_pos s) (lx_pos s'), s')"
proof -
  obtain m i f e where x: "x = m @ i @ f @ e" "m = [] \<or> m = [45]" "integer_text i" "fraction_text f" "exponent_text e"
    using assms(1) unfolding number_text_def by blast
  obtain s0 s1 s2 where s: "takes l s m s0" "takes l s0 i s1" "takes l s1 f s2" "takes l s2 e s'"
    using assms(2) unfolding x(1) takes_append by blast
  let ?x = "Character (hd x) (lx_pos s) (lx_pos (shift (hd x) s))"
  have first: "peek_char s = Inr (Some ?x)"
    using number_text_nonempty [OF assms(1)] assms(2) takes_peek [of l s "hd x" "tl x" s'] by simp
  have sign: "(if code_point ?x = 45 then bindE (consume l [] s) (\<lambda>(_, chars, s). Inr (chars, s)) else Inr ([], s)) = Inr (m, s0)"
  proof (cases "m = []")
    case True
    then have "hd x \<noteq> 45" using x(1,3) by (auto simp: integer_text_def)
    then show ?thesis using True s(1) by simp
  next
    case False
    then have m: "m = [45]" "hd x = 45" using x(1,2) by auto
    have s0: "takes l s [45] (shift 45 s)" "s0 = shift 45 s" using s(1) takes_one [of l s 45 s0] unfolding m(1) by blast+
    have "number_room l 1" using assms(3) x(1) m(1) by (auto intro: number_room_less)
    then have "bindE (consume l [] s) (\<lambda>(ch, chars, s). Inr (chars, s)) = Inr (m, s0)"
      unfolding bind_consume using s0 m(1) by (intro exI [of _ 45]) simp
    then show ?thesis using m(2) by simp
  qed
  have ends: "\<exists>c. peek_char s2 = Inr c \<and> \<not> is_code (\<lambda>c. json_digit c \<or> c = 46) c"
  proof (cases "e = []")
    case True
    then show ?thesis using s(4) assms(4) by (auto simp: number_ends_def is_code_def split: option.splits)
  next
    case False
    then obtain d e' where "e = d # e'" "d = 101 \<or> d = 69" using x(5) by (auto simp: exponent_text_def)
    then show ?thesis using takes_peek [of l s2 d e' s'] s(4) by (auto simp: is_code_def json_digit_def)
  qed
  have ends1: "\<exists>c. peek_char s1 = Inr c \<and> \<not> is_code json_digit c"
  proof (cases "f = []")
    case True
    then show ?thesis using s(3) ends by (auto simp: is_code_def split: option.splits)
  next
    case False
    then obtain f' where "f = 46 # f'" using x(4) by (auto simp: fraction_text_def)
    then show ?thesis using takes_peek [of l s1 46 f' s2] s(3) by (auto simp: is_code_def json_digit_def)
  qed
  have n: "number_room l (length m + length i)" "f = [] \<or> number_room l (length (m @ i) + length f)"
    "e = [] \<or> number_room l (length (m @ i @ f) + length e)"
    using assms(3) x(1) by (auto intro: number_room_less)
  obtain c1 where c1: "peek_char s1 = Inr c1" "\<not> is_code json_digit c1" using ends1 by blast
  obtain c2 where c2: "peek_char s2 = Inr c2" "\<not> is_code (\<lambda>c. json_digit c \<or> c = 46) c2" using ends by blast
  obtain f1 where f1: "integer_part l ?x m s0 = Inr (f1, m @ i, s1)" "grows l ?x m s0 i f1 (m @ i) s1"
    using integer_part_complete [OF x(3) s(2) n(1) c1] by blast
  obtain f2 where f2: "fraction_part l f1 (m @ i) s1 = Inr (f2, (m @ i) @ f, s2)" "grows l f1 (m @ i) s1 f f2 ((m @ i) @ f) s2"
    using fraction_part_complete [OF x(4) s(3) n(2) c2] by blast
  obtain f3 where f3: "exponent_part l f2 ((m @ i) @ f) s2 = Inr (f3, ((m @ i) @ f) @ e, s')" "grows l f2 ((m @ i) @ f) s2 e f3 (((m @ i) @ f) @ e) s'"
    using exponent_part_complete [OF x(5) s(4) _ assms(4), of "(m @ i) @ f" f2] n(3) by auto
  have "grows l ?x m s0 (i @ f @ e) f3 (((m @ i) @ f) @ e) s'" using grows_trans [OF f1(2) grows_trans [OF f2(2) f3(2)]] by simp
  moreover have "i @ f @ e \<noteq> []" using x(3) by (auto simp: integer_text_def)
  ultimately have stop: "char_end f3 = lx_pos s'" by (simp only: grows_def if_False)
  show ?thesis unfolding number_token_def first bindE.simps option.case sign prod.case f1(1) f2(1) f3(1)
    using stop x(1) by simp
qed

section \<open>Tokens\<close>

inductive token_text :: "token_kind \<Rightarrow> token_value \<Rightarrow> pystr \<Rightarrow> bool" where
  mark: "map_of punctuation c = Some k \<Longrightarrow> token_text k (Text_Value [c]) [c]"
| string: "string_chars v x \<Longrightarrow> token_text String_Token (Text_Value v) (34 # x @ [34])"
| number: "number_text x \<Longrightarrow> token_text Number_Token (Text_Value x) x"
| true: "token_text True_Token (Bool_Value True) (pstr ''true'')"
| false: "token_text False_Token (Bool_Value False) (pstr ''false'')"
| null: "token_text Null_Token No_Value (pstr ''null'')"

lemma literal_chars_iff:
  "literal_chars l n xs start stop s = Inr (start', stop', s') \<longleftrightarrow>
     takes l s xs s' \<and> (xs = [] \<or> n + length xs \<le> jl_value_chars l + 1) \<and>
     start' = (if xs = [] \<or> start \<noteq> None then start else Some (lx_pos s)) \<and> stop' = (if xs = [] then stop else lx_pos s')"
proof (induction xs arbitrary: n start stop s)
  case (Cons x xs)
  have "literal_chars l n (x # xs) start stop s = Inr (start', stop', s') \<longleftrightarrow> takes l s [x] (shift x s) \<and> n \<le> jl_value_chars l \<and>
      literal_chars l (n + 1) xs (case start of None \<Rightarrow> Some (lx_pos s) | Some p \<Rightarrow> Some p) (lx_pos (shift x s)) (shift x s) = Inr (start', stop', s')"
    unfolding literal_chars.simps lexer_steps by auto
  also have "\<dots> \<longleftrightarrow> takes l s (x # xs) s' \<and> n + length (x # xs) \<le> jl_value_chars l + 1 \<and>
      start' = (if start \<noteq> None then start else Some (lx_pos s)) \<and> stop' = lx_pos s'"
    unfolding Cons.IH takes_Cons [of l s x xs s'] by (cases "xs = []") (auto split: option.splits)
  finally show ?case by simp
qed auto

lemma literal_token_iff:
  assumes "word \<noteq> []"
  shows "literal_token l word kind val s = Inr (t, s') \<longleftrightarrow>
    takes l s (pstr word) s' \<and> length word \<le> jl_value_chars l \<and> t = Token kind val (lx_pos s) (lx_pos s')"
proof -
  have "pstr word \<noteq> []" using assms by (simp add: pstr_def)
  then show ?thesis
    unfolding literal_token_def by (auto simp: bindE_eq_Inr literal_chars_iff split: option.splits)
qed

lemma string_token_iff:
  "string_token l s = Inr (t, s') \<longleftrightarrow> (\<exists>q v x. string_chars v x \<and> takes l s (q # x @ [34]) s' \<and> length x + 2 \<le> jl_value_chars l \<and>
     t = Token String_Token (Text_Value v) (lx_pos s) (lx_pos s'))"
proof -
  have "string_token l s = Inr (t, s') \<longleftrightarrow> (\<exists>q. takes l s [q] (shift q s) \<and> string_body l (lx_pos s) [] 1 (shift q s) = Inr (t, s'))"
    unfolding string_token_def lexer_steps ..
  also have "\<dots> \<longleftrightarrow> (\<exists>q. takes l s [q] (shift q s) \<and> (\<exists>v x. string_chars v x \<and> takes l (shift q s) (x @ [34]) s' \<and>
      length x + 2 \<le> jl_value_chars l \<and> t = Token String_Token (Text_Value v) (lx_pos s) (lx_pos s')))"
    by (subst string_body_iff) simp_all
  also have "\<dots> \<longleftrightarrow> (\<exists>q v x. string_chars v x \<and> takes l s (q # x @ [34]) s' \<and> length x + 2 \<le> jl_value_chars l \<and>
     t = Token String_Token (Text_Value v) (lx_pos s) (lx_pos s'))"
    unfolding takes_Cons [of l s _ "_ @ [34]" s'] by blast
  finally show ?thesis .
qed

text \<open>The size of a token fits.\<close>

definition token_room :: "json_limits \<Rightarrow> token_kind \<Rightarrow> pystr \<Rightarrow> bool" where
  "token_room l k x \<longleftrightarrow> (case k of
     Number_Token \<Rightarrow> number_room l (length x)
   | String_Token \<Rightarrow> length x \<le> jl_value_chars l
   | True_Token \<Rightarrow> length x \<le> jl_value_chars l
   | False_Token \<Rightarrow> length x \<le> jl_value_chars l
   | Null_Token \<Rightarrow> length x \<le> jl_value_chars l
   | _ \<Rightarrow> True)"

lemma punctuation_kinds:
  "map_of punctuation c = Some k \<Longrightarrow> k \<in> {Object_Start, Object_End, Array_Start, Array_End, Colon, Comma}"
  by (auto simp: punctuation_def split: if_splits)

lemma punctuation_codes:
  "map_of punctuation c = Some k \<Longrightarrow> c \<in> {123, 125, 91, 93, 58, 44}"
  by (auto simp: punctuation_def split: if_splits)

lemma token_at_sound:
  assumes "token_at l (Some ch) s = Inr (t, s')" "peek_char s = Inr (Some ch)"
  shows "\<exists>x. takes l s x s' \<and> token_text (tk_kind t) (tk_value t) x \<and> token_room l (tk_kind t) x \<and>
    tk_start t = lx_pos s \<and> tk_end t = lx_pos s'"
proof -
  let ?c = "code_point ch"
  have is_c: "d = ?c" if "takes l s (d # x) s1" for d x s1
    using takes_peek [OF that] assms(2) by auto
  show ?thesis
  proof (cases "map_of punctuation ?c")
    case (Some k)
    then have "bindE (take_or l Json_Assertion s) (\<lambda>(taken, s').
            Inr (Token k (Text_Value [?c]) (char_start taken) (char_end taken), s')) = Inr (t, s')"
      using assms(1) by (simp add: token_at_def)
    then obtain d where d: "takes l s [d] (shift d s)" "t = Token k (Text_Value [?c]) (lx_pos s) (lx_pos s')" "s' = shift d s"
      unfolding lexer_steps by auto
    then show ?thesis using is_c [OF d(1)] token_text.mark [OF Some] punctuation_kinds [OF Some]
      by (intro exI [of _ "[d]"]) (auto simp: token_room_def)
  next
    case None
    then have "(if ?c = 34 then string_token l s
          else if ?c = 45 \<or> json_digit ?c then number_token l s
          else if ?c = 116 then literal_token l ''true'' True_Token (Bool_Value True) s
          else if ?c = 102 then literal_token l ''false'' False_Token (Bool_Value False) s
          else if ?c = 110 then literal_token l ''null'' Null_Token No_Value s
          else Inl (Json_Syntax ''invalid_json'' (at_line (char_start ch)))) = Inr (t, s')"
      using assms(1) by (simp only: token_at_def option.case Let_def)
    then consider "?c = 34" "string_token l s = Inr (t, s')" | "number_token l s = Inr (t, s')"
      | "literal_token l ''true'' True_Token (Bool_Value True) s = Inr (t, s')"
      | "literal_token l ''false'' False_Token (Bool_Value False) s = Inr (t, s')"
      | "literal_token l ''null'' Null_Token No_Value s = Inr (t, s')"
      by (auto split: if_split_asm)
    then show ?thesis
    proof cases
      case 1
      then obtain q v x where q: "string_chars v x" "takes l s (q # x @ [34]) s'" "length x + 2 \<le> jl_value_chars l"
        "t = Token String_Token (Text_Value v) (lx_pos s) (lx_pos s')" unfolding string_token_iff by blast
      moreover have "q = 34" using is_c [OF q(2)] 1(1) by simp
      ultimately show ?thesis using token_text.string [OF q(1)] by (intro exI [of _ "q # x @ [34]"]) (simp add: token_room_def)
    next
      case 2
      then show ?thesis using number_token_sound [OF 2] token_text.number by (auto simp: token_room_def)
    next
      case 3
      then show ?thesis using token_text.true by (intro exI [of _ "pstr ''true''"]) (auto simp: literal_token_iff token_room_def)
    next
      case 4
      then show ?thesis using token_text.false by (intro exI [of _ "pstr ''false''"]) (auto simp: literal_token_iff token_room_def)
    next
      case 5
      then show ?thesis using token_text.null by (intro exI [of _ "pstr ''null''"]) (auto simp: literal_token_iff token_room_def)
    qed
  qed
qed

lemma token_text_hd:
  assumes "token_text k v x"
  shows "\<exists>c y. x = c # y \<and> \<not> json_space c"
  using assms
proof cases
  case (mark c)
  then show ?thesis using punctuation_codes by (fastforce simp: json_space_def)
next
  case number
  then show ?thesis using number_text_nonempty [of x] by (cases x) (auto simp: json_space_def json_digit_def)
qed (auto simp: pstr_def json_space_def)

lemma token_at_complete:
  assumes "token_text k v x" "takes l s x s'" "token_room l k x" "k = Number_Token \<longrightarrow> number_ends s'" "peek_char s = Inr c"
  shows "token_at l c s = Inr (Token k v (lx_pos s) (lx_pos s'), s')"
proof -
  obtain d y where d: "x = d # y" using token_text_hd [OF assms(1)] by blast
  then have c: "c = Some (Character d (lx_pos s) (lx_pos (shift d s)))" using takes_peek assms(2,5) by fastforce
  have digit: "map_of punctuation d = None" "d \<noteq> 34" if "d = 45 \<or> json_digit d"
    using that by (auto simp: json_digit_def punctuation_def)
  from assms(1) show ?thesis
  proof cases
    case (mark e)
    then have e: "e = d" "y = []" using d by simp_all
    then have "takes l s [d] (shift d s)" "s' = shift d s" using assms(2) d takes_one [of l s d s'] by blast+
    then have "take_or l Json_Assertion s = Inr (Character d (lx_pos s) (lx_pos s'), s')" by (simp add: take_or_iff)
    then show ?thesis using mark e by (simp add: token_at_def c)
  next
    case (string w z)
    then have "string_token l s = Inr (Token k v (lx_pos s) (lx_pos s'), s')"
      unfolding string_token_iff using assms(2,3) by (intro exI [of _ 34] exI [of _ w] exI [of _ z]) (simp add: token_room_def)
    then show ?thesis using string d by (simp add: token_at_def c punctuation_def)
  next
    case number
    then have "number_token l s = Inr (Token k v (lx_pos s) (lx_pos s'), s')"
      using number_token_complete [of x l s s'] assms(2-4) by (simp add: token_room_def)
    moreover have "d = 45 \<or> json_digit d" using number_text_nonempty [OF number(3)] d by simp
    ultimately show ?thesis using digit by (simp add: token_at_def c)
  next
    case true
    then have "d = 116" using d by (simp add: pstr_def)
    then show ?thesis using true assms(2,3) by (simp add: token_at_def c punctuation_def json_digit_def literal_token_iff token_room_def)
  next
    case false
    then have "d = 102" using d by (simp add: pstr_def)
    then show ?thesis using false assms(2,3) by (simp add: token_at_def c punctuation_def json_digit_def literal_token_iff token_room_def)
  next
    case null
    then have "d = 110" using d by (simp add: pstr_def)
    then show ?thesis using null assms(2,3) by (simp add: token_at_def c punctuation_def json_digit_def literal_token_iff token_room_def)
  qed
qed

text \<open>Nothing is left and nothing fails.\<close>

abbreviation exhausted :: "json_state \<Rightarrow> bool" where
  "exhausted s \<equiv> peek_char s = Inr None"

lemma next_token_sound:
  assumes "next_token l s = Inr (t, s')"
  shows "\<exists>w x s1. takes l s w s1 \<and> list_all json_space w \<and> takes l s1 x s' \<and> tk_start t = lx_pos s1 \<and> tk_end t = lx_pos s' \<and>
    (if tk_kind t = End_Of_File then x = [] \<and> exhausted s' else token_text (tk_kind t) (tk_value t) x \<and> token_room l (tk_kind t) x)"
proof -
  obtain s1 c where s1: "skip_space l s = Inr s1" "peek_char s1 = Inr c" "token_at l c s1 = Inr (t, s')"
    using assms by (auto simp: next_token_def bindE_eq_Inr)
  obtain w where w: "takes l s w s1" "list_all json_space w" using skip_space_takes [OF s1(1)] by blast
  show ?thesis
  proof (cases c)
    case None
    then have "t = Token End_Of_File No_Value (lx_pos s1) (lx_pos s1)" "s' = s1" using s1(3) by (auto simp: token_at_def)
    then show ?thesis using w s1(2) None by (intro exI [of _ w] exI [of _ "[]"] exI [of _ s1]) simp
  next
    case (Some ch)
    obtain x where x: "takes l s1 x s'" "token_text (tk_kind t) (tk_value t) x" "token_room l (tk_kind t) x"
      "tk_start t = lx_pos s1" "tk_end t = lx_pos s'" using token_at_sound s1(2,3) Some by blast
    have "tk_kind t \<noteq> End_Of_File" using x(2) by cases (auto dest: punctuation_kinds)
    then show ?thesis using w x by (intro exI [of _ w] exI [of _ x] exI [of _ s1]) simp
  qed
qed

lemma next_token_complete:
  assumes "list_all json_space w" "takes l s w s1" "token_text k v x" "takes l s1 x s'" "token_room l k x"
    and "k = Number_Token \<longrightarrow> number_ends s'"
  shows "next_token l s = Inr (Token k v (lx_pos s1) (lx_pos s'), s')"
proof -
  obtain d y where d: "x = d # y" "\<not> json_space d" using token_text_hd [OF assms(3)] by blast
  then have p: "peek_char s1 = Inr (Some (Character d (lx_pos s1) (lx_pos (shift d s1))))" using takes_peek assms(4) by blast
  have "skip_space l s = Inr s1" using skip_space_complete [OF assms(1,2) p] d(2) by (simp add: is_code_def)
  then show ?thesis using token_at_complete [OF assms(3-6) p] p by (simp add: next_token_def)
qed

lemma next_token_end:
  assumes "list_all json_space w" "takes l s w s'" "exhausted s'"
  shows "next_token l s = Inr (Token End_Of_File No_Value (lx_pos s') (lx_pos s'), s')"
  using skip_space_complete [OF assms(1-3)] assms(3) by (simp add: next_token_def token_at_def is_code_def)

lemma next_token_shorter:
  assumes "next_token l s = Inr (t, s')"
  shows "length (lx_text s') \<le> length (lx_text s)" "tk_kind t \<noteq> End_Of_File \<Longrightarrow> length (lx_text s') < length (lx_text s)"
proof -
  obtain w x s1 where s1: "takes l s w s1" "takes l s1 x s'"
    "if tk_kind t = End_Of_File then x = [] \<and> exhausted s' else token_text (tk_kind t) (tk_value t) x \<and> token_room l (tk_kind t) x"
    using next_token_sound [OF assms] by blast
  note len = takes_shorter [OF s1(1)] takes_shorter [OF s1(2)]
  show "length (lx_text s') \<le> length (lx_text s)" using len by simp
  assume "tk_kind t \<noteq> End_Of_File"
  then have "x \<noteq> []" using s1(3) token_text_hd by fastforce
  then show "length (lx_text s') < length (lx_text s)" using len by simp
qed

end
