(* ===== verification/Json_Tree.thy ===== *)
theory Json_Tree
  imports Json_Grammar
begin

text \<open>
  The tree parser of \<open>parsers/builtin/_json.py\<close>: the extraction budget, the nodes of
  \<open>contracts/source.py\<close> it builds, \<open>_TreeParser\<close> and \<open>_parse_complete_record\<close>. Nodes come as a flat
  list in preorder. The numbers in \<open>node-n\<close> and \<open>value-n\<close> stand for these identifiers, and the reference
  of the source, which is the same in every location, is left out.
\<close>

section \<open>Nodes\<close>

datatype node_kind = Scalar_Node | Object_Node | Array_Node

datatype raw_scalar = Raw_String pystr | Raw_Boolean bool | Raw_Null

record json_location =
  jp_pointer :: pystr
  jp_path :: "nat option list"
  jp_record :: "nat option"
  jp_line_start :: "nat option"
  jp_line_end :: "nat option"
  jp_column_start :: "nat option"
  jp_column_end :: "nat option"

record extracted_value =
  xv_id :: nat
  xv_raw :: raw_scalar
  xv_hint :: "string option"
  xv_location :: json_location

record tree_segment =
  ts_index :: nat
  ts_child_start :: nat
  ts_child_count :: nat
  ts_is_last :: bool

record tree_node =
  tn_id :: nat
  tn_parent :: "nat option"
  tn_name :: string
  tn_raw_name :: "pystr option"
  tn_order :: nat
  tn_kind :: node_kind
  tn_location :: json_location
  tn_value :: "extracted_value option"
  tn_segment :: "tree_segment option"

text \<open>The validators of the two contracts.\<close>

fun valid_escapes :: "pystr \<Rightarrow> bool" where
  "valid_escapes [] = True"
| "valid_escapes (c # p) = (if c \<noteq> 126 then valid_escapes p else case p of [] \<Rightarrow> False | d # q \<Rightarrow> (d = 48 \<or> d = 49) \<and> valid_escapes q)"

definition valid_json_location :: "json_location \<Rightarrow> bool" where
  "valid_json_location a \<longleftrightarrow>
     length (jp_pointer a) \<le> 4096 \<and> (jp_pointer a = [] \<or> hd (jp_pointer a) = 47) \<and> valid_escapes (jp_pointer a) \<and>
     length (jp_path a) \<le> 4096 \<and> length (jp_path a) = count_list (jp_pointer a) 47 \<and>
     (jp_line_start a = None) = (jp_line_end a = None) \<and>
     (case (jp_line_start a, jp_line_end a) of (Some x, Some y) \<Rightarrow> 0 < x \<and> x \<le> y | _ \<Rightarrow> True) \<and>
     (jp_column_start a = None) = (jp_column_end a = None) \<and>
     \<not> (jp_column_start a \<noteq> None \<and> jp_line_start a = None) \<and>
     (case (jp_column_start a, jp_column_end a) of
        (Some x, Some y) \<Rightarrow> jp_line_start a = jp_line_end a \<longrightarrow> x \<le> y | _ \<Rightarrow> True)"

definition valid_tree_node :: "tree_node \<Rightarrow> bool" where
  "valid_tree_node n \<longleftrightarrow>
     tn_parent n \<noteq> Some (tn_id n) \<and> valid_json_location (tn_location n) \<and>
     (case tn_raw_name n of None \<Rightarrow> True | Some name \<Rightarrow> length name \<le> 1048576) \<and>
     (tn_kind n = Scalar_Node \<longrightarrow> tn_value n \<noteq> None) \<and>
     (tn_kind n \<in> {Object_Node, Array_Node} \<longrightarrow> tn_value n = None) \<and>
     (case tn_value n of None \<Rightarrow> True | Some v \<Rightarrow> valid_json_location (xv_location v)) \<and>
     (case tn_segment n of None \<Rightarrow> True
      | Some g \<Rightarrow> tn_parent n = None \<and> tn_kind n \<in> {Object_Node, Array_Node} \<and> (ts_child_count g = 0 \<longrightarrow> ts_is_last g))"

section \<open>The budget\<close>

text \<open>
  What a parser is created with: the limits, the depth and object bounds of the budget, the index of the
  record and the node limit of one record.
\<close>

record json_env =
  je_limits :: json_limits
  je_depth :: nat
  je_objects :: nat
  je_record_index :: "nat option"
  je_record_nodes :: "nat option"

definition claim_node :: "json_env \<Rightarrow> bool \<Rightarrow> json_state \<Rightarrow> json_error + json_state" where
  "claim_node E scalar s =
     (let physical = (if scalar then 2 else 1) in
      if jl_nodes (je_limits E) \<le> bd_nodes s then Inl (Json_Limit ''nodes'' (jl_nodes (je_limits E)))
      else if int physical > int (je_objects E) - int (bd_physical s) then Inl (Json_Limit ''physical_objects'' (je_objects E))
      else Inr (s\<lparr>bd_nodes := bd_nodes s + 1, bd_physical := bd_physical s + physical\<rparr>))"

definition claim_key :: "json_env \<Rightarrow> json_state \<Rightarrow> json_error + json_state" where
  "claim_key E s = (if jl_keys (je_limits E) \<le> bd_keys s then Inl (Json_Limit ''keys'' (jl_keys (je_limits E)))
     else Inr (s\<lparr>bd_keys := bd_keys s + 1\<rparr>))"

definition claim_continuation_root :: "json_env \<Rightarrow> json_state \<Rightarrow> json_error + json_state" where
  "claim_continuation_root E s =
     (if je_objects E \<le> bd_physical s then Inl (Json_Limit ''physical_objects'' (je_objects E))
      else Inr (s\<lparr>bd_physical := bd_physical s + 1\<rparr>))"

definition node_id :: "json_state \<Rightarrow> nat \<times> json_state" where
  "node_id s = (id_nodes s, s\<lparr>id_nodes := id_nodes s + 1\<rparr>)"

definition value_id :: "json_state \<Rightarrow> nat \<times> json_state" where
  "value_id s = (id_values s, s\<lparr>id_values := id_values s + 1\<rparr>)"

section \<open>The parser\<close>

text \<open>\<open>str\<close> of a number, and the JSON Pointer of a child.\<close>

fun nat_text :: "nat \<Rightarrow> pystr" where
  "nat_text n = (if n < 10 then [48 + n] else nat_text (n div 10) @ [48 + n mod 10])"

declare nat_text.simps [simp del]

definition escape_segment :: "pystr \<Rightarrow> pystr" where
  "escape_segment s = concat (map (\<lambda>c. if c = 126 then [126, 48] else if c = 47 then [126, 49] else [c]) s)"

definition child_pointer :: "pystr \<Rightarrow> pystr \<Rightarrow> pystr" where
  "child_pointer parent segment = parent @ [47] @ escape_segment segment"

text \<open>Where a value stands: the arguments that \<open>parse_value\<close> hands on to the node.\<close>

record place =
  pl_parent :: "nat option"
  pl_name :: string
  pl_raw_name :: "pystr option"
  pl_order :: nat
  pl_pointer :: pystr
  pl_path :: "nat option list"

definition location_of :: "json_env \<Rightarrow> pystr \<Rightarrow> nat option list \<Rightarrow> position \<Rightarrow> position \<Rightarrow> json_location" where
  "location_of E pointer path start stop = \<lparr>jp_pointer = pointer, jp_path = path, jp_record = je_record_index E,
     jp_line_start = Some (at_line start), jp_line_end = Some (at_line stop),
     jp_column_start = Some (at_column start), jp_column_end = Some (at_column stop)\<rparr>"

definition scalar_value :: "token \<Rightarrow> (raw_scalar \<times> string option) option" where
  "scalar_value t = (case (tk_kind t, tk_value t) of
     (String_Token, Text_Value v) \<Rightarrow> Some (Raw_String v, None)
   | (Number_Token, Text_Value v) \<Rightarrow>
       Some (Raw_String v, Some (if list_ex (\<lambda>c. c = 46 \<or> c = 101 \<or> c = 69) v then ''json.number'' else ''json.integer''))
   | (True_Token, _) \<Rightarrow> Some (Raw_Boolean True, None)
   | (False_Token, _) \<Rightarrow> Some (Raw_Boolean False, None)
   | (Null_Token, _) \<Rightarrow> Some (Raw_Null, None)
   | _ \<Rightarrow> None)"

definition scalar_token :: "token \<Rightarrow> bool" where
  "scalar_token t \<longleftrightarrow> tk_kind t \<in> {String_Token, Number_Token, True_Token, False_Token, Null_Token}"

definition container_node :: "json_env \<Rightarrow> node_kind \<Rightarrow> nat \<Rightarrow> place \<Rightarrow> position \<Rightarrow> position \<Rightarrow> tree_node" where
  "container_node E kind nid pl start stop = \<lparr>tn_id = nid, tn_parent = pl_parent pl, tn_name = pl_name pl,
     tn_raw_name = pl_raw_name pl, tn_order = pl_order pl, tn_kind = kind,
     tn_location = location_of E (pl_pointer pl) (pl_path pl) start stop, tn_value = None, tn_segment = None\<rparr>"

definition scalar_node :: "json_env \<Rightarrow> nat \<Rightarrow> place \<Rightarrow> token \<Rightarrow> json_state \<Rightarrow> json_error + tree_node \<times> json_state" where
  "scalar_node E nid pl t s = (case scalar_value t of
     None \<Rightarrow> Inl Json_Assertion
   | Some (raw, hint) \<Rightarrow> let loc = location_of E (pl_pointer pl) (pl_path pl) (tk_start t) (tk_end t) in
       (case value_id s of (vid, s) \<Rightarrow>
         Inr (\<lparr>tn_id = nid, tn_parent = pl_parent pl, tn_name = pl_name pl, tn_raw_name = pl_raw_name pl,
               tn_order = pl_order pl, tn_kind = Scalar_Node, tn_location = loc,
               tn_value = Some \<lparr>xv_id = vid, xv_raw = raw, xv_hint = hint, xv_location = loc\<rparr>, tn_segment = None\<rparr>, s)))"

text \<open>The part of \<open>parse_value\<close> before the kind is looked at: the checks and the number of the node.\<close>

definition enter_value :: "json_env \<Rightarrow> token \<Rightarrow> place \<Rightarrow> nat \<Rightarrow> json_state \<Rightarrow> json_error + nat \<times> json_state" where
  "enter_value E t pl depth s =
     (let l = je_limits E in
      if je_depth E < depth then Inl (Json_Limit ''nesting_depth'' (je_depth E))
      else if jl_pointer l < length (pl_pointer pl) then Inl (Json_Limit ''json_pointer_chars'' (jl_pointer l))
      else if \<not> scalar_token t \<and> tk_kind t \<noteq> Object_Start \<and> tk_kind t \<noteq> Array_Start
      then Inl (Json_Syntax ''invalid_json'' (at_line (tk_start t)))
      else if (case je_record_nodes E of None \<Rightarrow> False | Some n \<Rightarrow> n \<le> rec_nodes s)
      then Inl (Json_Limit ''batch_nodes'' (the (je_record_nodes E)))
      else bindE (claim_node E (scalar_token t) s) (\<lambda>s. Inr (node_id (s\<lparr>rec_nodes := rec_nodes s + 1\<rparr>))))"

definition columns_limit :: "json_env \<Rightarrow> json_error" where
  "columns_limit E = Json_Limit ''columns'' (jl_columns (je_limits E))"

text \<open>
  The key of a member up to the token of its value: the state before \<open>parse_value\<close>, the key and the token.
\<close>

definition member_key :: "json_env \<Rightarrow> token \<Rightarrow> nat \<Rightarrow> json_state \<Rightarrow> json_error + pystr \<times> token \<times> json_state" where
  "member_key E t order s =
     (let l = je_limits E in
      case (tk_kind t, tk_value t) of
        (String_Token, Text_Value key) \<Rightarrow>
          if jl_columns l \<le> order then Inl (columns_limit E)
          else bindE (claim_key E s) (\<lambda>s. bindE (next_token l s) (\<lambda>(separator, s).
            if tk_kind separator \<noteq> Colon then Inl (Json_Syntax ''invalid_json'' (at_line (tk_start separator)))
            else bindE (next_token l s) (\<lambda>(child, s). Inr (key, child, s))))
      | _ \<Rightarrow> Inl (Json_Syntax ''invalid_json'' (at_line (tk_start t))))"

definition member_place :: "nat \<Rightarrow> place \<Rightarrow> pystr \<Rightarrow> nat \<Rightarrow> nat \<Rightarrow> place" where
  "member_place nid pl key order occurrence = \<lparr>pl_parent = Some nid, pl_name = ''member'', pl_raw_name = Some key,
     pl_order = order, pl_pointer = child_pointer (pl_pointer pl) key, pl_path = pl_path pl @ [Some occurrence]\<rparr>"

definition item_place :: "nat \<Rightarrow> place \<Rightarrow> nat \<Rightarrow> place" where
  "item_place nid pl order = \<lparr>pl_parent = Some nid, pl_name = ''item'', pl_raw_name = None, pl_order = order,
     pl_pointer = child_pointer (pl_pointer pl) (nat_text order), pl_path = pl_path pl @ [None]\<rparr>"

section \<open>Values, members and items\<close>

text \<open>
  \<open>parse_value\<close> with the loops of \<open>_parse_object\<close> and \<open>_parse_array\<close> over members and items. A loop
  returns the nodes of the children, the closing token and the state.
\<close>

definition member_limit :: "json_env \<Rightarrow> nat \<Rightarrow> json_error + unit" where
  "member_limit E order = (if jl_columns (je_limits E) \<le> order then Inl (columns_limit E) else Inr ())"

definition item_limit :: "json_env \<Rightarrow> nat \<Rightarrow> json_error + unit" where
  "item_limit E order = (let n = jl_array_items (je_limits E) in
     if n \<le> order then Inl (Json_Limit ''array_items'' n) else Inr ())"

definition expect_comma :: "token \<Rightarrow> json_error + unit" where
  "expect_comma t = (if tk_kind t \<noteq> Comma then Inl (Json_Syntax ''invalid_json'' (at_line (tk_start t))) else Inr ())"

function
  parse_value :: "json_env \<Rightarrow> token \<Rightarrow> place \<Rightarrow> nat \<Rightarrow> json_state \<Rightarrow> json_error + tree_node list \<times> position \<times> json_state" and
  parse_members :: "json_env \<Rightarrow> nat \<Rightarrow> place \<Rightarrow> nat \<Rightarrow> token \<Rightarrow> nat \<Rightarrow> (pystr \<Rightarrow> nat) \<Rightarrow> json_state \<Rightarrow>
    json_error + tree_node list \<times> token \<times> json_state" and
  parse_items :: "json_env \<Rightarrow> nat \<Rightarrow> place \<Rightarrow> nat \<Rightarrow> token \<Rightarrow> nat \<Rightarrow> json_state \<Rightarrow>
    json_error + tree_node list \<times> token \<times> json_state"
where
  "parse_value E t pl depth s = bindE (enter_value E t pl depth s) (\<lambda>(nid, s).
     if tk_kind t = Object_Start
     then bindE (next_token (je_limits E) s) (\<lambda>(t1, s).
       bindE (if tk_kind t1 = Object_End then Inr ([], t1, s) else parse_members E nid pl depth t1 0 (\<lambda>_. 0) s)
         (\<lambda>(children, closing, s).
           Inr (container_node E Object_Node nid pl (tk_start t) (tk_end closing) # children, tk_end closing, s)))
     else if tk_kind t = Array_Start
     then bindE (next_token (je_limits E) s) (\<lambda>(t1, s).
       bindE (if tk_kind t1 = Array_End then Inr ([], t1, s) else parse_items E nid pl depth t1 0 s)
         (\<lambda>(children, closing, s).
           Inr (container_node E Array_Node nid pl (tk_start t) (tk_end closing) # children, tk_end closing, s)))
     else bindE (scalar_node E nid pl t s) (\<lambda>(node, s). Inr ([node], tk_end t, s)))"
| "parse_members E nid pl depth t order occurrences s =
     bindE (member_key E t order s) (\<lambda>(key, child, s).
     bindE (parse_value E child (member_place nid pl key order (occurrences key)) (depth + 1) s) (\<lambda>(nodes, _, s).
     bindE (next_token (je_limits E) s) (\<lambda>(delimiter, s).
       if tk_kind delimiter = Object_End then Inr (nodes, delimiter, s)
       else bindE (expect_comma delimiter) (\<lambda>_. bindE (member_limit E (order + 1)) (\<lambda>_.
         bindE (next_token (je_limits E) s) (\<lambda>(t1, s).
         bindE (parse_members E nid pl depth t1 (order + 1) (occurrences(key := occurrences key + 1)) s)
           (\<lambda>(others, closing, s). Inr (nodes @ others, closing, s))))))))"
| "parse_items E nid pl depth t order s =
     bindE (item_limit E order) (\<lambda>_.
     bindE (parse_value E t (item_place nid pl order) (depth + 1) s) (\<lambda>(nodes, _, s).
     bindE (next_token (je_limits E) s) (\<lambda>(delimiter, s).
       if tk_kind delimiter = Array_End then Inr (nodes, delimiter, s)
       else bindE (expect_comma delimiter) (\<lambda>_.
         bindE (next_token (je_limits E) s) (\<lambda>(t1, s).
         bindE (parse_items E nid pl depth t1 (order + 1) s)
           (\<lambda>(others, closing, s). Inr (nodes @ others, closing, s)))))))"
  by pat_completeness auto

lemma enter_value_text: "enter_value E t pl depth s = Inr (nid, s') \<Longrightarrow> lx_text s' = lx_text s"
  by (auto simp: enter_value_def claim_node_def node_id_def Let_def bindE_eq_Inr split: if_split_asm)

lemma scalar_node_text: "scalar_node E nid pl t s = Inr (n, s') \<Longrightarrow> lx_text s' = lx_text s"
  by (auto simp: scalar_node_def value_id_def Let_def split: option.splits)

lemma member_key_shorter:
  assumes "member_key E t order s = Inr (key, child, s')"
  shows "length (lx_text s') < length (lx_text s)"
proof -
  obtain s0 c s1 where s: "claim_key E s = Inr s0" "next_token (je_limits E) s0 = Inr (c, s1)" "tk_kind c = Colon"
    "next_token (je_limits E) s1 = Inr (child, s')"
    using assms by (auto simp: member_key_def Let_def bindE_eq_Inr split: token_kind.splits token_value.splits if_split_asm)
  moreover have "lx_text s0 = lx_text s" using s(1) by (auto simp: claim_key_def split: if_split_asm)
  ultimately show ?thesis using next_token_shorter [OF s(2)] next_token_shorter [OF s(4)] by simp
qed

lemma parse_shrinks:
  "parse_value_parse_members_parse_items_dom (Inl (E, t, pl, depth, s)) \<Longrightarrow>
     \<forall>nodes stop s'. parse_value E t pl depth s = Inr (nodes, stop, s') \<longrightarrow> length (lx_text s') \<le> length (lx_text s)"
  "parse_value_parse_members_parse_items_dom (Inr (Inl (E, nid, pl, depth, t, order, occ, s))) \<Longrightarrow>
     \<forall>nodes t' s'. parse_members E nid pl depth t order occ s = Inr (nodes, t', s') \<longrightarrow> length (lx_text s') \<le> length (lx_text s)"
  "parse_value_parse_members_parse_items_dom (Inr (Inr (E, nid, pl, depth, t, order, s))) \<Longrightarrow>
     \<forall>nodes t' s'. parse_items E nid pl depth t order s = Inr (nodes, t', s') \<longrightarrow> length (lx_text s') \<le> length (lx_text s)"
proof (induction E t pl depth s and E nid pl depth t order occ s and E nid pl depth t order s
    rule: parse_value_parse_members_parse_items.pinduct)
  case (1 E t pl depth s)
  show ?case
  proof (intro allI impI)
    fix nodes stop s' assume r: "parse_value E t pl depth s = Inr (nodes, stop, s')"
    obtain nid s0 where s0: "enter_value E t pl depth s = Inr (nid, s0)"
      using r unfolding parse_value.psimps [OF 1(1)] by (auto simp: bindE_eq_Inr)
    consider "scalar_node E nid pl t s0 = Inr (hd nodes, s')"
      | t1 s1 where "tk_kind t = Object_Start" "next_token (je_limits E) s0 = Inr (t1, s1)"
          "s' = s1 \<or> (tk_kind t1 \<noteq> Object_End \<and> (\<exists>cs c. parse_members E nid pl depth t1 0 (\<lambda>_. 0) s1 = Inr (cs, c, s')))"
      | t1 s1 where "tk_kind t \<noteq> Object_Start" "tk_kind t = Array_Start" "next_token (je_limits E) s0 = Inr (t1, s1)"
          "s' = s1 \<or> (tk_kind t1 \<noteq> Array_End \<and> (\<exists>cs c. parse_items E nid pl depth t1 0 s1 = Inr (cs, c, s')))"
      using r s0 unfolding parse_value.psimps [OF 1(1)] by (auto simp: bindE_eq_Inr split: if_split_asm)
    then have "length (lx_text s') \<le> length (lx_text s0)"
    proof cases
      case 1
      then show ?thesis using scalar_node_text by fastforce
    next
      case 2
      then show ?thesis using next_token_shorter(1) [OF 2(2)] "1.IH"(1) [OF s0 refl 2(1,2) refl] by fastforce
    next
      case 3
      then show ?thesis using next_token_shorter(1) [OF 3(3)] "1.IH"(2) [OF s0 refl 3(1,2,3) refl] by fastforce
    qed
    then show "length (lx_text s') \<le> length (lx_text s)" using enter_value_text [OF s0] by simp
  qed
next
  case (2 E nid pl depth t order occ s)
  show ?case
  proof (intro allI impI)
    fix nodes t' s' assume r: "parse_members E nid pl depth t order occ s = Inr (nodes, t', s')"
    obtain key child s1 where m: "member_key E t order s = Inr (key, child, s1)"
      using r unfolding parse_members.psimps [OF 2(1)] by (auto simp: bindE_eq_Inr)
    obtain ns stop s2 where v: "parse_value E child (member_place nid pl key order (occ key)) (depth + 1) s1 = Inr (ns, stop, s2)"
      using r m unfolding parse_members.psimps [OF 2(1)] by (auto simp: bindE_eq_Inr)
    obtain d s3 where n: "next_token (je_limits E) s2 = Inr (d, s3)"
      using r m v unfolding parse_members.psimps [OF 2(1)] by (auto simp: bindE_eq_Inr)
    have "length (lx_text s') \<le> length (lx_text s3)"
    proof (cases "tk_kind d = Object_End")
      case True
      then show ?thesis using r m v n unfolding parse_members.psimps [OF 2(1)] by simp
    next
      case False
      then obtain u1 u2 t1 s4 others where k: "expect_comma d = Inr u1" "member_limit E (order + 1) = Inr u2"
        "next_token (je_limits E) s3 = Inr (t1, s4)"
        "parse_members E nid pl depth t1 (order + 1) (occ(key := occ key + 1)) s4 = Inr (others, t', s')"
        using r m v n unfolding parse_members.psimps [OF 2(1)] by (auto simp: bindE_eq_Inr)
      show ?thesis using "2.IH"(2) [OF m refl refl v refl refl n refl False k(1-3) refl] k(4) next_token_shorter(1) [OF k(3)] by fastforce
    qed
    then show "length (lx_text s') \<le> length (lx_text s)"
      using "2.IH"(1) [OF m refl refl] v next_token_shorter(1) [OF n] member_key_shorter [OF m] by fastforce
  qed
next
  case (3 E nid pl depth t order s)
  show ?case
  proof (intro allI impI)
    fix nodes t' s' assume r: "parse_items E nid pl depth t order s = Inr (nodes, t', s')"
    obtain u where i: "item_limit E order = Inr u"
      using r unfolding parse_items.psimps [OF 3(1)] by (auto simp: bindE_eq_Inr)
    obtain ns stop s2 where v: "parse_value E t (item_place nid pl order) (depth + 1) s = Inr (ns, stop, s2)"
      using r i unfolding parse_items.psimps [OF 3(1)] by (auto simp: bindE_eq_Inr)
    obtain d s3 where n: "next_token (je_limits E) s2 = Inr (d, s3)"
      using r i v unfolding parse_items.psimps [OF 3(1)] by (auto simp: bindE_eq_Inr)
    have "length (lx_text s') \<le> length (lx_text s3)"
    proof (cases "tk_kind d = Array_End")
      case True
      then show ?thesis using r i v n unfolding parse_items.psimps [OF 3(1)] by simp
    next
      case False
      then obtain u1 t1 s4 others where k: "expect_comma d = Inr u1" "next_token (je_limits E) s3 = Inr (t1, s4)"
        "parse_items E nid pl depth t1 (order + 1) s4 = Inr (others, t', s')"
        using r i v n unfolding parse_items.psimps [OF 3(1)] by (auto simp: bindE_eq_Inr)
      show ?thesis using "3.IH"(2) [OF i v refl refl n refl False k(1,2) refl] k(3) next_token_shorter(1) [OF k(2)] by fastforce
    qed
    then show "length (lx_text s') \<le> length (lx_text s)"
      using "3.IH"(1) [OF i] v next_token_shorter(1) [OF n] by fastforce
  qed
qed

text \<open>The text left, and one more for a token at hand.\<close>

definition parse_work :: "token \<Rightarrow> json_state \<Rightarrow> nat" where
  "parse_work t s = length (lx_text s) + (if tk_kind t = End_Of_File then 0 else 1)"

lemma next_token_work: "next_token l s = Inr (t, s') \<Longrightarrow> parse_work t s' \<le> length (lx_text s)"
  using next_token_shorter by (fastforce simp: parse_work_def)

definition parse_order :: "(json_env \<times> token \<times> place \<times> nat \<times> json_state) +
    (json_env \<times> nat \<times> place \<times> nat \<times> token \<times> nat \<times> (pystr \<Rightarrow> nat) \<times> json_state) +
    (json_env \<times> nat \<times> place \<times> nat \<times> token \<times> nat \<times> json_state) \<Rightarrow> nat \<times> nat" where
  "parse_order x = (case x of
     Inl (E, t, pl, depth, s) \<Rightarrow> (parse_work t s, 0)
   | Inr (Inl (E, nid, pl, depth, t, order, occ, s)) \<Rightarrow> (parse_work t s, 1)
   | Inr (Inr (E, nid, pl, depth, t, order, s)) \<Rightarrow> (parse_work t s, 1))"

lemma kind_work: "tk_kind t \<noteq> End_Of_File \<Longrightarrow> parse_work t s = Suc (length (lx_text s))"
  by (simp add: parse_work_def)

lemma expect_comma_Inr: "expect_comma d = Inr u \<Longrightarrow> tk_kind d = Comma"
  by (simp add: expect_comma_def split: if_split_asm)

lemma member_key_string: "member_key E t order s = Inr r \<Longrightarrow> tk_kind t = String_Token"
  by (auto simp: member_key_def Let_def split: token_kind.splits token_value.splits)

termination parse_value
proof (relation "inv_image (less_than <*lex*> less_than) parse_order", goal_cases)
  case 1
  show ?case by (intro wf_inv_image wf_lex_prod wf_less_than)
next
  case (2 E t pl depth s x nid s0 y t1 s1)
  have "length (lx_text s0) = length (lx_text s)" using enter_value_text 2 by metis
  then show ?case using next_token_work [of "je_limits E" s0 t1 s1] 2 kind_work [of t s] by (simp add: parse_order_def)
next
  case (3 E t pl depth s x nid s0 y t1 s1)
  have "length (lx_text s0) = length (lx_text s)" using enter_value_text 3 by metis
  then show ?case using next_token_work [of "je_limits E" s0 t1 s1] 3 kind_work [of t s] by (simp add: parse_order_def)
next
  case (4 E nid pl depth t order occ s x key y child s1)
  then have m: "member_key E t order s = Inr (key, child, s1)" by simp
  show ?case using member_key_shorter [OF m] member_key_string [OF m] by (simp add: parse_order_def parse_work_def)
next
  case (5 E nid pl depth t order occ s a key y child s1 v nodes z stop s2 n d s3 u1 u2 n2 t1 s4)
  then have m: "member_key E t order s = Inr (key, child, s1)" and n: "next_token (je_limits E) s2 = Inr (d, s3)"
    and n2: "next_token (je_limits E) s3 = Inr (t1, s4)" and c: "tk_kind d = Comma"
    by (auto dest: expect_comma_Inr)
  have "length (lx_text s2) \<le> length (lx_text s1)" using parse_shrinks(1) [OF 5(14)] 5(2-6) by auto
  then have "parse_work t1 s4 < length (lx_text s)"
    using member_key_shorter [OF m] next_token_shorter(2) [OF n] next_token_work [OF n2] c by simp
  then show ?case using member_key_string [OF m] by (simp add: parse_order_def parse_work_def)
next
  case (6 E nid pl depth t order s)
  then show ?case by (simp add: parse_order_def)
next
  case (7 E nid pl depth t order s u v nodes z stop s2 n d s3 u1 n2 t1 s4)
  then have n: "next_token (je_limits E) s2 = Inr (d, s3)" and n2: "next_token (je_limits E) s3 = Inr (t1, s4)"
    and c: "tk_kind d = Comma"
    by (auto dest: expect_comma_Inr)
  have "length (lx_text s2) \<le> length (lx_text s)" using parse_shrinks(1) [OF 7(11)] 7(2-4) by auto
  then have "parse_work t1 s4 < length (lx_text s)"
    using next_token_shorter(2) [OF n] next_token_work [OF n2] c by simp
  then show ?case by (simp add: parse_order_def parse_work_def)
qed

declare parse_value.simps [simp del] parse_members.simps [simp del] parse_items.simps [simp del]

end
