(* ===== verification/Json_Values.thy ===== *)
theory Json_Values
  imports Json_Tree
begin

text \<open>
  What the tree parser is for: JSON values, the texts that denote them (RFC 8259), the tree of nodes a
  value stands for, and the limits a value keeps. The parser is sound (what it accepts is a text of the
  grammar, its nodes are those of the value, its counters are exact) and complete within the limits.
\<close>

section \<open>Values and their texts\<close>

datatype json =
    JString pystr | JNumber pystr | JTrue | JFalse | JNull
  | JObject "(pystr \<times> json) list" | JArray "json list"

definition token_fits :: "json_limits \<Rightarrow> token_kind \<Rightarrow> token_value \<Rightarrow> pystr \<Rightarrow> bool" where
  "token_fits l k v x \<longleftrightarrow> token_text k v x \<and> token_room l k x"

inductive value_text :: "json_limits \<Rightarrow> json \<Rightarrow> pystr \<Rightarrow> bool"
  and members_text :: "json_limits \<Rightarrow> (pystr \<times> json) list \<Rightarrow> pystr \<Rightarrow> bool"
  and items_text :: "json_limits \<Rightarrow> json list \<Rightarrow> pystr \<Rightarrow> bool"
  for l :: json_limits
where
  string: "token_fits l String_Token (Text_Value v) x \<Longrightarrow> value_text l (JString v) x"
| number: "token_fits l Number_Token (Text_Value v) x \<Longrightarrow> value_text l (JNumber v) x"
| true: "token_fits l True_Token v x \<Longrightarrow> value_text l JTrue x"
| false: "token_fits l False_Token v x \<Longrightarrow> value_text l JFalse x"
| null: "token_fits l Null_Token v x \<Longrightarrow> value_text l JNull x"
| empty_object: "list_all json_space w \<Longrightarrow> value_text l (JObject []) (123 # w @ [125])"
| object: "list_all json_space w \<Longrightarrow> members_text l ms z \<Longrightarrow> value_text l (JObject ms) (123 # w @ z)"
| empty_array: "list_all json_space w \<Longrightarrow> value_text l (JArray []) (91 # w @ [93])"
| array: "list_all json_space w \<Longrightarrow> items_text l js z \<Longrightarrow> value_text l (JArray js) (91 # w @ z)"
| last_member: "token_fits l String_Token (Text_Value k) kx \<Longrightarrow> list_all json_space w1 \<Longrightarrow> list_all json_space w2 \<Longrightarrow>
    value_text l j x \<Longrightarrow> list_all json_space w3 \<Longrightarrow> members_text l [(k, j)] (kx @ w1 @ 58 # w2 @ x @ w3 @ [125])"
| member: "token_fits l String_Token (Text_Value k) kx \<Longrightarrow> list_all json_space w1 \<Longrightarrow> list_all json_space w2 \<Longrightarrow>
    value_text l j x \<Longrightarrow> list_all json_space w3 \<Longrightarrow> list_all json_space w4 \<Longrightarrow> members_text l ms z \<Longrightarrow>
    members_text l ((k, j) # ms) (kx @ w1 @ 58 # w2 @ x @ w3 @ 44 # w4 @ z)"
| last_item: "value_text l j x \<Longrightarrow> list_all json_space w \<Longrightarrow> items_text l [j] (x @ w @ [93])"
| item: "value_text l j x \<Longrightarrow> list_all json_space w \<Longrightarrow> list_all json_space w' \<Longrightarrow> items_text l js z \<Longrightarrow>
    items_text l (j # js) (x @ w @ 44 # w' @ z)"

section \<open>The tree of a value\<close>

text \<open>A location without lines and columns, and the nodes of a value with such locations.\<close>

definition outline_location :: "json_env \<Rightarrow> place \<Rightarrow> json_location" where
  "outline_location E pl = \<lparr>jp_pointer = pl_pointer pl, jp_path = pl_path pl, jp_record = je_record_index E,
     jp_line_start = None, jp_line_end = None, jp_column_start = None, jp_column_end = None\<rparr>"

definition outline_node :: "json_env \<Rightarrow> node_kind \<Rightarrow> nat \<Rightarrow> place \<Rightarrow> extracted_value option \<Rightarrow> tree_node" where
  "outline_node E kind nid pl v = \<lparr>tn_id = nid, tn_parent = pl_parent pl, tn_name = pl_name pl,
     tn_raw_name = pl_raw_name pl, tn_order = pl_order pl, tn_kind = kind,
     tn_location = outline_location E pl, tn_value = v, tn_segment = None\<rparr>"

definition outline_scalar :: "json_env \<Rightarrow> place \<Rightarrow> nat \<times> nat \<Rightarrow> raw_scalar \<Rightarrow> string option \<Rightarrow> tree_node list \<times> nat \<times> nat" where
  "outline_scalar E pl c raw hint = (case c of (n, v) \<Rightarrow>
     ([outline_node E Scalar_Node n pl (Some \<lparr>xv_id = v, xv_raw = raw, xv_hint = hint, xv_location = outline_location E pl\<rparr>)],
      (n + 1, v + 1)))"

definition number_hint :: "pystr \<Rightarrow> string" where
  "number_hint v = (if list_ex (\<lambda>c. c = 46 \<or> c = 101 \<or> c = 69) v then ''json.number'' else ''json.integer'')"

fun outline :: "json_env \<Rightarrow> place \<Rightarrow> nat \<times> nat \<Rightarrow> json \<Rightarrow> tree_node list \<times> nat \<times> nat"
  and outline_members :: "json_env \<Rightarrow> nat \<Rightarrow> place \<Rightarrow> nat \<Rightarrow> (pystr \<Rightarrow> nat) \<Rightarrow> nat \<times> nat \<Rightarrow> (pystr \<times> json) list \<Rightarrow> tree_node list \<times> nat \<times> nat"
  and outline_items :: "json_env \<Rightarrow> nat \<Rightarrow> place \<Rightarrow> nat \<Rightarrow> nat \<times> nat \<Rightarrow> json list \<Rightarrow> tree_node list \<times> nat \<times> nat"
where
  "outline E pl c (JString v) = outline_scalar E pl c (Raw_String v) None"
| "outline E pl c (JNumber v) = outline_scalar E pl c (Raw_String v) (Some (number_hint v))"
| "outline E pl c JTrue = outline_scalar E pl c (Raw_Boolean True) None"
| "outline E pl c JFalse = outline_scalar E pl c (Raw_Boolean False) None"
| "outline E pl c JNull = outline_scalar E pl c Raw_Null None"
| "outline E pl c (JObject ms) =
     (case outline_members E (fst c) pl 0 (\<lambda>_. 0) (fst c + 1, snd c) ms of
        (children, c') \<Rightarrow> (outline_node E Object_Node (fst c) pl None # children, c'))"
| "outline E pl c (JArray js) =
     (case outline_items E (fst c) pl 0 (fst c + 1, snd c) js of
        (children, c') \<Rightarrow> (outline_node E Array_Node (fst c) pl None # children, c'))"
| "outline_members E nid pl order occ c [] = ([], c)"
| "outline_members E nid pl order occ c ((k, j) # ms) =
     (case outline E (member_place nid pl k order (occ k)) c j of (nodes, c1) \<Rightarrow>
        case outline_members E nid pl (order + 1) (occ(k := occ k + 1)) c1 ms of (others, c2) \<Rightarrow> (nodes @ others, c2))"
| "outline_items E nid pl order c [] = ([], c)"
| "outline_items E nid pl order c (j # js) =
     (case outline E (item_place nid pl order) c j of (nodes, c1) \<Rightarrow>
        case outline_items E nid pl (order + 1) c1 js of (others, c2) \<Rightarrow> (nodes @ others, c2))"

definition plain_location :: "json_location \<Rightarrow> json_location" where
  "plain_location a = a\<lparr>jp_line_start := None, jp_line_end := None, jp_column_start := None, jp_column_end := None\<rparr>"

definition plain :: "tree_node \<Rightarrow> tree_node" where
  "plain n = n\<lparr>tn_location := plain_location (tn_location n),
     tn_value := map_option (\<lambda>v. v\<lparr>xv_location := plain_location (xv_location v)\<rparr>) (tn_value n)\<rparr>"

section \<open>Sizes and limits\<close>

fun json_nodes :: "json \<Rightarrow> nat" where
  "json_nodes (JObject ms) = 1 + sum_list (map (\<lambda>(k, j). json_nodes j) ms)"
| "json_nodes (JArray js) = 1 + sum_list (map json_nodes js)"
| "json_nodes _ = 1"

fun json_scalars :: "json \<Rightarrow> nat" where
  "json_scalars (JObject ms) = sum_list (map (\<lambda>(k, j). json_scalars j) ms)"
| "json_scalars (JArray js) = sum_list (map json_scalars js)"
| "json_scalars _ = 1"

fun json_keys :: "json \<Rightarrow> nat" where
  "json_keys (JObject ms) = length ms + sum_list (map (\<lambda>(k, j). json_keys j) ms)"
| "json_keys (JArray js) = sum_list (map json_keys js)"
| "json_keys _ = 0"

text \<open>Depth, pointers, members and items of a value stay within the limits.\<close>

fun within :: "json_env \<Rightarrow> pystr \<Rightarrow> nat \<Rightarrow> json \<Rightarrow> bool" and
  members_within :: "json_env \<Rightarrow> pystr \<Rightarrow> nat \<Rightarrow> (pystr \<times> json) list \<Rightarrow> bool" and
  items_within :: "json_env \<Rightarrow> pystr \<Rightarrow> nat \<Rightarrow> nat \<Rightarrow> json list \<Rightarrow> bool" where
  "within E p depth (JObject ms) \<longleftrightarrow> depth \<le> je_depth E \<and> length p \<le> jl_pointer (je_limits E) \<and>
     length ms \<le> jl_columns (je_limits E) \<and> members_within E p (depth + 1) ms"
| "within E p depth (JArray js) \<longleftrightarrow> depth \<le> je_depth E \<and> length p \<le> jl_pointer (je_limits E) \<and>
     length js \<le> jl_array_items (je_limits E) \<and> items_within E p (depth + 1) 0 js"
| "within E p depth _ \<longleftrightarrow> depth \<le> je_depth E \<and> length p \<le> jl_pointer (je_limits E)"
| "members_within E p depth [] \<longleftrightarrow> True"
| "members_within E p depth ((k, j) # ms) \<longleftrightarrow> within E (child_pointer p k) depth j \<and> members_within E p depth ms"
| "items_within E p depth order [] \<longleftrightarrow> True"
| "items_within E p depth order (j # js) \<longleftrightarrow> within E (child_pointer p (nat_text order)) depth j \<and> items_within E p depth (order + 1) js"

section \<open>Reading up to the counters\<close>

definition core :: "json_state \<Rightarrow> json_state" where
  "core s = s\<lparr>bd_nodes := 0, bd_keys := 0, bd_physical := 0, id_nodes := 0, id_values := 0, rec_nodes := 0\<rparr>"

definition moves :: "json_limits \<Rightarrow> json_state \<Rightarrow> pystr \<Rightarrow> json_state \<Rightarrow> bool" where
  "moves l s t s' \<longleftrightarrow> takes l (core s) t (core s')"

lemma core_fields [simp]:
  "lx_text (core s) = lx_text s" "lx_fault (core s) = lx_fault s" "lx_pos (core s) = lx_pos s" "lx_prev_cr (core s) = lx_prev_cr s"
  "lx_record (core s) = lx_record s" "core (core s) = core s"
  by (simp_all add: core_def)

lemma shift_core: "shift c (core s) = core (shift c s)"
  by (simp add: shift_def core_def split: prod.split)

lemma after_core: "after t (core s) = core (after t s)"
  by (induction t arbitrary: s) (simp_all add: shift_core)

lemma room_core: "room l (core s) n = room l s n"
  by (simp only: room_def core_fields)

lemma takes_moves: "takes l s t s' \<Longrightarrow> moves l s t s'"
  unfolding moves_def takes_def reads_def by (auto simp: after_core room_core)

lemma moves_trans: "moves l s a s' \<Longrightarrow> moves l s' b s'' \<Longrightarrow> moves l s (a @ b) s''"
  unfolding moves_def by (rule takes_trans)

lemma moves_text: "moves l s t s' \<Longrightarrow> lx_text s = t @ lx_text s'"
  unfolding moves_def using takes_text by fastforce

lemma moves_core: "core s' = core s'' \<Longrightarrow> moves l s t s' \<Longrightarrow> moves l s t s''"
  by (simp add: moves_def)

lemma core_moves: "core s = core s'' \<Longrightarrow> moves l s t s' \<Longrightarrow> moves l s'' t s'"
  by (simp add: moves_def)

lemma moves_Nil [simp]: "moves l s [] s' \<longleftrightarrow> core s' = core s"
  by (simp add: moves_def)

text \<open>The counters: nodes, keys, physical objects, node and value numbers, nodes of the record.\<close>

definition counters :: "json_state \<Rightarrow> nat \<times> nat \<times> nat \<times> nat \<times> nat \<times> nat" where
  "counters s = (bd_nodes s, bd_keys s, bd_physical s, id_nodes s, id_values s, rec_nodes s)"

lemma takes_books: "takes l s t s' \<Longrightarrow> counters s' = counters s"
  by (drule takes_after) (simp add: counters_def)

lemma core_books: "core s = core s' \<Longrightarrow> counters s = counters s' \<Longrightarrow> s = s'"
  by (cases s; cases s') (simp add: core_def counters_def)

lemma next_token_moves:
  assumes "next_token l s = Inr (t, s')"
  shows "\<exists>w x. moves l s (w @ x) s' \<and> list_all json_space w \<and> counters s' = counters s \<and>
    (if tk_kind t = End_Of_File then x = [] \<and> exhausted s' else token_text (tk_kind t) (tk_value t) x \<and> token_room l (tk_kind t) x)"
proof -
  obtain w x s1 where s1: "takes l s w s1" "list_all json_space w" "takes l s1 x s'"
    "if tk_kind t = End_Of_File then x = [] \<and> exhausted s' else token_text (tk_kind t) (tk_value t) x \<and> token_room l (tk_kind t) x"
    using next_token_sound [OF assms] by blast
  have "moves l s (w @ x) s'" using s1(1,3) takes_trans takes_moves by blast
  moreover have "counters s' = counters s" using takes_books [OF s1(1)] takes_books [OF s1(3)] by simp
  ultimately show ?thesis using s1(2,4) by blast
qed

section \<open>Successful calls\<close>

lemma bindPE:
  assumes "bindE m (\<lambda>(a, s). f a s) = Inr x"
  obtains a s where "m = Inr (a, s)" "f a s = Inr x"
  using assms by (cases m) (auto split: prod.splits)

lemma bindP3E:
  assumes "bindE m (\<lambda>(a, b, s). f a b s) = Inr x"
  obtains a b s where "m = Inr (a, b, s)" "f a b s = Inr x"
  using assms by (cases m) (auto split: prod.splits)

lemma enter_value_Inr:
  assumes "enter_value E t pl depth s = Inr (nid, s')"
  shows "nid = id_nodes s" "core s' = core s" "depth \<le> je_depth E" "length (pl_pointer pl) \<le> jl_pointer (je_limits E)"
    "scalar_token t \<or> tk_kind t = Object_Start \<or> tk_kind t = Array_Start"
    "bd_nodes s < jl_nodes (je_limits E)" "bd_physical s + (if scalar_token t then 2 else 1) \<le> je_objects E"
    "case je_record_nodes E of None \<Rightarrow> True | Some n \<Rightarrow> rec_nodes s < n"
    "counters s' = (bd_nodes s + 1, bd_keys s, bd_physical s + (if scalar_token t then 2 else 1), id_nodes s + 1, id_values s, rec_nodes s + 1)"
proof -
  let ?r = "case je_record_nodes E of None \<Rightarrow> False | Some n \<Rightarrow> n \<le> rec_nodes s"
  have c: "depth \<le> je_depth E" "length (pl_pointer pl) \<le> jl_pointer (je_limits E)"
    "scalar_token t \<or> tk_kind t = Object_Start \<or> tk_kind t = Array_Start" "\<not> ?r"
    and b: "bindE (claim_node E (scalar_token t) s) (\<lambda>s. Inr (node_id (s\<lparr>rec_nodes := rec_nodes s + 1\<rparr>))) = Inr (nid, s')"
    using assms by (simp_all add: enter_value_def Let_def split: if_split_asm)
  have n: "bd_nodes s < jl_nodes (je_limits E)" "bd_physical s + (if scalar_token t then 2 else 1) \<le> je_objects E"
    and s': "nid = id_nodes s" "s' = s\<lparr>bd_nodes := bd_nodes s + 1, bd_physical := bd_physical s + (if scalar_token t then 2 else 1),
       rec_nodes := rec_nodes s + 1, id_nodes := id_nodes s + 1\<rparr>"
    using b by (auto simp: claim_node_def node_id_def Let_def bindE_eq_Inr split: if_split_asm)
  show "nid = id_nodes s" "core s' = core s" "depth \<le> je_depth E" "length (pl_pointer pl) \<le> jl_pointer (je_limits E)"
    "scalar_token t \<or> tk_kind t = Object_Start \<or> tk_kind t = Array_Start"
    "bd_nodes s < jl_nodes (je_limits E)" "bd_physical s + (if scalar_token t then 2 else 1) \<le> je_objects E"
    "case je_record_nodes E of None \<Rightarrow> True | Some n \<Rightarrow> rec_nodes s < n"
    "counters s' = (bd_nodes s + 1, bd_keys s, bd_physical s + (if scalar_token t then 2 else 1), id_nodes s + 1, id_values s, rec_nodes s + 1)"
    using c n s' by (simp_all add: core_def counters_def split: option.splits)
qed

lemma scalar_node_Inr:
  assumes "scalar_node E nid pl t s = Inr (n, s')"
  obtains raw hint where "scalar_value t = Some (raw, hint)" "core s' = core s"
    "plain n = outline_node E Scalar_Node nid pl (Some \<lparr>xv_id = id_values s, xv_raw = raw, xv_hint = hint, xv_location = outline_location E pl\<rparr>)"
    "counters s' = (bd_nodes s, bd_keys s, bd_physical s, id_nodes s, id_values s + 1, rec_nodes s)"
    "tn_location n = location_of E (pl_pointer pl) (pl_path pl) (tk_start t) (tk_end t)" "xv_location (the (tn_value n)) = tn_location n"
proof -
  obtain raw hint where r: "scalar_value t = Some (raw, hint)" using assms by (auto simp: scalar_node_def split: option.splits)
  have n: "n = \<lparr>tn_id = nid, tn_parent = pl_parent pl, tn_name = pl_name pl, tn_raw_name = pl_raw_name pl,
               tn_order = pl_order pl, tn_kind = Scalar_Node, tn_location = location_of E (pl_pointer pl) (pl_path pl) (tk_start t) (tk_end t),
               tn_value = Some \<lparr>xv_id = id_values s, xv_raw = raw, xv_hint = hint,
                 xv_location = location_of E (pl_pointer pl) (pl_path pl) (tk_start t) (tk_end t)\<rparr>, tn_segment = None\<rparr>"
    and s': "s' = s\<lparr>id_values := id_values s + 1\<rparr>"
    using assms by (simp_all add: scalar_node_def r value_id_def Let_def)
  show ?thesis
    using that [OF r] by (simp add: n s' core_def counters_def plain_def plain_location_def outline_node_def outline_location_def location_of_def)
qed

lemma plain_container [simp]: "plain (container_node E kind nid pl start stop) = outline_node E kind nid pl None"
  by (simp add: plain_def plain_location_def container_node_def outline_node_def outline_location_def location_of_def)

lemma member_key_Inr:
  assumes "member_key E t order s = Inr (key, child, s')"
  obtains s0 colon s1 where "tk_kind t = String_Token" "tk_value t = Text_Value key" "order < jl_columns (je_limits E)"
    "bd_keys s < jl_keys (je_limits E)" "s0 = s\<lparr>bd_keys := bd_keys s + 1\<rparr>"
    "next_token (je_limits E) s0 = Inr (colon, s1)" "tk_kind colon = Colon" "next_token (je_limits E) s1 = Inr (child, s')"
  using assms
  by (auto simp: member_key_def claim_key_def Let_def bindE_eq_Inr split: token_kind.splits token_value.splits if_split_asm)

lemma parse_value_cases:
  assumes "parse_value E t pl depth s = Inr (nodes, stop, s')"
  obtains
    (scalar) nid s0 n where "enter_value E t pl depth s = Inr (nid, s0)" "scalar_token t" "scalar_node E nid pl t s0 = Inr (n, s')"
      "nodes = [n]" "stop = tk_end t"
  | (empty_object) nid s0 t1 where "enter_value E t pl depth s = Inr (nid, s0)" "tk_kind t = Object_Start"
      "next_token (je_limits E) s0 = Inr (t1, s')" "tk_kind t1 = Object_End"
      "nodes = [container_node E Object_Node nid pl (tk_start t) (tk_end t1)]" "stop = tk_end t1"
  | (object) nid s0 t1 s1 cs c where "enter_value E t pl depth s = Inr (nid, s0)" "tk_kind t = Object_Start"
      "next_token (je_limits E) s0 = Inr (t1, s1)" "tk_kind t1 \<noteq> Object_End" "parse_members E nid pl depth t1 0 (\<lambda>_. 0) s1 = Inr (cs, c, s')"
      "nodes = container_node E Object_Node nid pl (tk_start t) (tk_end c) # cs" "stop = tk_end c"
  | (empty_array) nid s0 t1 where "enter_value E t pl depth s = Inr (nid, s0)" "tk_kind t = Array_Start"
      "next_token (je_limits E) s0 = Inr (t1, s')" "tk_kind t1 = Array_End"
      "nodes = [container_node E Array_Node nid pl (tk_start t) (tk_end t1)]" "stop = tk_end t1"
  | (array) nid s0 t1 s1 cs c where "enter_value E t pl depth s = Inr (nid, s0)" "tk_kind t = Array_Start"
      "next_token (je_limits E) s0 = Inr (t1, s1)" "tk_kind t1 \<noteq> Array_End" "parse_items E nid pl depth t1 0 s1 = Inr (cs, c, s')"
      "nodes = container_node E Array_Node nid pl (tk_start t) (tk_end c) # cs" "stop = tk_end c"
proof -
  obtain nid s0 where e: "enter_value E t pl depth s = Inr (nid, s0)"
    using assms unfolding parse_value.simps [of E t pl depth s] by (auto simp: bindE_eq_Inr)
  note r = assms [unfolded parse_value.simps [of E t pl depth s] e bindE.simps prod.case]
  consider "tk_kind t = Object_Start" | "tk_kind t = Array_Start" | "scalar_token t" "tk_kind t \<noteq> Object_Start" "tk_kind t \<noteq> Array_Start"
    using enter_value_Inr(5) [OF e] by (auto simp: scalar_token_def)
  then show thesis
  proof cases
    case 1
    define f where "f = (\<lambda>(children, closing, s). Inr (container_node E Object_Node nid pl (tk_start t) (tk_end closing) # children, tk_end closing, s) ::
        json_error + tree_node list \<times> position \<times> json_state)"
    have "bindE (next_token (je_limits E) s0) (\<lambda>(t1, s). bindE (if tk_kind t1 = Object_End then Inr ([], t1, s) else parse_members E nid pl depth t1 0 (\<lambda>_. 0) s) f) = Inr (nodes, stop, s')"
      using r unfolding f_def by (simp only: 1 refl if_True)
    then obtain t1 s1 where t1: "next_token (je_limits E) s0 = Inr (t1, s1)"
      and r1: "bindE (if tk_kind t1 = Object_End then Inr ([], t1, s1) else parse_members E nid pl depth t1 0 (\<lambda>_. 0) s1) f = Inr (nodes, stop, s')"
      by (rule bindPE)
    show ?thesis
    proof (cases "tk_kind t1 = Object_End")
      case True
      then have "nodes = [container_node E Object_Node nid pl (tk_start t) (tk_end t1)]" "stop = tk_end t1" "s' = s1"
        using r1 by (auto simp: f_def)
      then show ?thesis using t1 True by (intro empty_object [OF e 1]) simp_all
    next
      case False
      then have "bindE (parse_members E nid pl depth t1 0 (\<lambda>_. 0) s1) f = Inr (nodes, stop, s')" using r1 by (simp only: if_False)
      then obtain cs c s2 where c: "parse_members E nid pl depth t1 0 (\<lambda>_. 0) s1 = Inr (cs, c, s2)" "f (cs, c, s2) = Inr (nodes, stop, s')"
        by (cases "parse_members E nid pl depth t1 0 (\<lambda>_. 0) s1") auto
      then show ?thesis using t1 False by (intro object [OF e 1]) (auto simp: f_def)
    qed
  next
    case 2
    define f where "f = (\<lambda>(children, closing, s). Inr (container_node E Array_Node nid pl (tk_start t) (tk_end closing) # children, tk_end closing, s) ::
        json_error + tree_node list \<times> position \<times> json_state)"
    have "bindE (next_token (je_limits E) s0) (\<lambda>(t1, s). bindE (if tk_kind t1 = Array_End then Inr ([], t1, s) else parse_items E nid pl depth t1 0 s) f) = Inr (nodes, stop, s')"
      using r unfolding f_def by (simp only: 2 refl if_True if_False token_kind.distinct)
    then obtain t1 s1 where t1: "next_token (je_limits E) s0 = Inr (t1, s1)"
      and r1: "bindE (if tk_kind t1 = Array_End then Inr ([], t1, s1) else parse_items E nid pl depth t1 0 s1) f = Inr (nodes, stop, s')"
      by (rule bindPE)
    show ?thesis
    proof (cases "tk_kind t1 = Array_End")
      case True
      then have "nodes = [container_node E Array_Node nid pl (tk_start t) (tk_end t1)]" "stop = tk_end t1" "s' = s1"
        using r1 by (auto simp: f_def)
      then show ?thesis using t1 True by (intro empty_array [OF e 2]) simp_all
    next
      case False
      then have "bindE (parse_items E nid pl depth t1 0 s1) f = Inr (nodes, stop, s')" using r1 by (simp only: if_False)
      then obtain cs c s2 where c: "parse_items E nid pl depth t1 0 s1 = Inr (cs, c, s2)" "f (cs, c, s2) = Inr (nodes, stop, s')"
        by (cases "parse_items E nid pl depth t1 0 s1") auto
      then show ?thesis using t1 False by (intro array [OF e 2]) (auto simp: f_def)
    qed
  next
    case 3
    then have "bindE (scalar_node E nid pl t s0) (\<lambda>(node, s). Inr ([node], tk_end t, s)) = Inr (nodes, stop, s')"
      using r by (simp only: if_False)
    then obtain n where "scalar_node E nid pl t s0 = Inr (n, s')" "nodes = [n]" "stop = tk_end t" unfolding bindE_eq_Inr by auto
    then show ?thesis using scalar [OF e 3(1)] by blast
  qed
qed

lemma parse_members_cases:
  assumes "parse_members E nid pl depth t order occ s = Inr (nodes, closing, s')"
  obtains key child s1 ns stop s2 d s3 where "member_key E t order s = Inr (key, child, s1)"
    "parse_value E child (member_place nid pl key order (occ key)) (depth + 1) s1 = Inr (ns, stop, s2)"
    "next_token (je_limits E) s2 = Inr (d, s3)"
    "(tk_kind d = Object_End \<and> nodes = ns \<and> closing = d \<and> s' = s3) \<or>
     (tk_kind d = Comma \<and> order + 1 < jl_columns (je_limits E) \<and> (\<exists>t1 s4 others. next_token (je_limits E) s3 = Inr (t1, s4) \<and>
       parse_members E nid pl depth t1 (order + 1) (occ(key := occ key + 1)) s4 = Inr (others, closing, s') \<and> nodes = ns @ others))"
proof -
  obtain key child s1 where m: "member_key E t order s = Inr (key, child, s1)"
    using assms unfolding parse_members.simps [of E nid pl depth t order occ s] by (auto simp: bindE_eq_Inr)
  note r = assms [unfolded parse_members.simps [of E nid pl depth t order occ s] m bindE.simps prod.case]
  obtain ns stop s2 where v: "parse_value E child (member_place nid pl key order (occ key)) (depth + 1) s1 = Inr (ns, stop, s2)"
    using r by (auto simp: bindE_eq_Inr)
  obtain d s3 where n: "next_token (je_limits E) s2 = Inr (d, s3)"
    using r [unfolded v bindE.simps prod.case] by (auto simp: bindE_eq_Inr)
  note r' = r [unfolded v n bindE.simps prod.case]
  show thesis
  proof (cases "tk_kind d = Object_End")
    case True
    then show ?thesis using that [OF m v n] r' by simp
  next
    case False
    then obtain u1 u2 t1 s4 others where k: "expect_comma d = Inr u1" "member_limit E (order + 1) = Inr u2"
      "next_token (je_limits E) s3 = Inr (t1, s4)"
      "parse_members E nid pl depth t1 (order + 1) (occ(key := occ key + 1)) s4 = Inr (others, closing, s')" "nodes = ns @ others"
      using r' by (auto simp: bindE_eq_Inr)
    have "order + 1 < jl_columns (je_limits E)" using k(2) by (simp add: member_limit_def split: if_split_asm)
    then show ?thesis using that [OF m v n] k(3-5) expect_comma_Inr [OF k(1)] by blast
  qed
qed

lemma parse_items_cases:
  assumes "parse_items E nid pl depth t order s = Inr (nodes, closing, s')"
  obtains ns stop s2 d s3 where "order < jl_array_items (je_limits E)"
    "parse_value E t (item_place nid pl order) (depth + 1) s = Inr (ns, stop, s2)"
    "next_token (je_limits E) s2 = Inr (d, s3)"
    "(tk_kind d = Array_End \<and> nodes = ns \<and> closing = d \<and> s' = s3) \<or>
     (tk_kind d = Comma \<and> (\<exists>t1 s4 others. next_token (je_limits E) s3 = Inr (t1, s4) \<and>
       parse_items E nid pl depth t1 (order + 1) s4 = Inr (others, closing, s') \<and> nodes = ns @ others))"
proof -
  obtain u where i: "item_limit E order = Inr u"
    using assms unfolding parse_items.simps [of E nid pl depth t order s] by (auto simp: bindE_eq_Inr)
  then have lim: "order < jl_array_items (je_limits E)" by (simp add: item_limit_def Let_def split: if_split_asm)
  note r = assms [unfolded parse_items.simps [of E nid pl depth t order s] i bindE.simps prod.case]
  obtain ns stop s2 where v: "parse_value E t (item_place nid pl order) (depth + 1) s = Inr (ns, stop, s2)"
    using r by (auto simp: bindE_eq_Inr)
  obtain d s3 where n: "next_token (je_limits E) s2 = Inr (d, s3)"
    using r [unfolded v bindE.simps prod.case] by (auto simp: bindE_eq_Inr)
  note r' = r [unfolded v n bindE.simps prod.case]
  show thesis
  proof (cases "tk_kind d = Array_End")
    case True
    then show ?thesis using that [OF lim v n] r' by simp
  next
    case False
    then obtain u1 t1 s4 others where k: "expect_comma d = Inr u1" "next_token (je_limits E) s3 = Inr (t1, s4)"
      "parse_items E nid pl depth t1 (order + 1) s4 = Inr (others, closing, s')" "nodes = ns @ others"
      using r' by (auto simp: bindE_eq_Inr)
    then show ?thesis using that [OF lim v n] expect_comma_Inr [OF k(1)] by blast
  qed
qed

section \<open>Soundness\<close>

definition counted :: "json_state \<Rightarrow> nat \<Rightarrow> nat \<Rightarrow> nat \<Rightarrow> json_state \<Rightarrow> bool" where
  "counted s n k v s' \<longleftrightarrow>
     counters s' = (bd_nodes s + n, bd_keys s + k, bd_physical s + n + v, id_nodes s + n, id_values s + v, rec_nodes s + n)"

definition in_budget :: "json_env \<Rightarrow> json_state \<Rightarrow> bool" where
  "in_budget E s \<longleftrightarrow> bd_nodes s \<le> jl_nodes (je_limits E) \<and> bd_keys s \<le> jl_keys (je_limits E) \<and> bd_physical s \<le> je_objects E \<and>
     (case je_record_nodes E of None \<Rightarrow> True | Some n \<Rightarrow> rec_nodes s \<le> n)"

lemma counted_trans: "counted s n k v s' \<Longrightarrow> counted s' n' k' v' s'' \<Longrightarrow> counted s (n + n') (k + k') (v + v') s''"
  by (simp add: counted_def counters_def)

lemma counted_0: "counted s 0 0 0 s' \<longleftrightarrow> counters s' = counters s"
  by (simp add: counted_def counters_def)

lemma counted_ids: "counted s n k v s' \<Longrightarrow> id_nodes s' = id_nodes s + n \<and> id_values s' = id_values s + v"
  by (simp add: counted_def counters_def)

lemma in_budget_books: "counters s' = counters s \<Longrightarrow> in_budget E s' \<longleftrightarrow> in_budget E s"
  by (auto simp: in_budget_def counters_def split: option.split)

lemma mark_text:
  "token_text Object_Start v x \<Longrightarrow> x = [123]" "token_text Object_End v x \<Longrightarrow> x = [125]"
  "token_text Array_Start v x \<Longrightarrow> x = [91]" "token_text Array_End v x \<Longrightarrow> x = [93]"
  "token_text Colon v x \<Longrightarrow> x = [58]" "token_text Comma v x \<Longrightarrow> x = [44]"
  by (auto elim!: token_text.cases simp: punctuation_def split: if_splits)

lemma next_token_mark:
  assumes "next_token l s = Inr (t, s')" "tk_kind t \<noteq> End_Of_File"
  obtains w x where "moves l s (w @ x) s'" "list_all json_space w" "token_fits l (tk_kind t) (tk_value t) x" "counters s' = counters s"
  using next_token_moves [OF assms(1)] assms(2) by (auto simp: token_fits_def)

lemma next_token_of_kind:
  assumes "next_token l s = Inr (t, s')" "tk_kind t = k" "k \<in> {Object_End, Array_End, Colon, Comma}"
  obtains w where "moves l s (w @ [if k = Object_End then 125 else if k = Array_End then 93 else if k = Colon then 58 else 44]) s'"
    "list_all json_space w" "counters s' = counters s"
proof -
  have "tk_kind t \<noteq> End_Of_File" using assms(2,3) by auto
  then obtain w x where x: "moves l s (w @ x) s'" "list_all json_space w" "token_fits l (tk_kind t) (tk_value t) x" "counters s' = counters s"
    using next_token_mark [OF assms(1)] by blast
  have "x = [if k = Object_End then 125 else if k = Array_End then 93 else if k = Colon then 58 else 44]"
    using x(3) assms(2,3) mark_text by (auto simp: token_fits_def)
  then show thesis using that x by simp
qed

lemma scalar_json:
  assumes "scalar_token t" "token_fits (je_limits E) (tk_kind t) (tk_value t) x" "scalar_value t = Some (raw, hint)"
  shows "\<exists>j. value_text (je_limits E) j x \<and> json_nodes j = 1 \<and> json_scalars j = 1 \<and> json_keys j = 0 \<and>
    (\<forall>pl c. outline E pl c j = outline_scalar E pl c raw hint) \<and>
    (\<forall>p depth. within E p depth j \<longleftrightarrow> depth \<le> je_depth E \<and> length p \<le> jl_pointer (je_limits E))"
proof -
  consider "tk_kind t = String_Token" | "tk_kind t = Number_Token" | "tk_kind t = True_Token" | "tk_kind t = False_Token" | "tk_kind t = Null_Token"
    using assms(1) by (auto simp: scalar_token_def)
  then show ?thesis
  proof cases
    case 1
    then obtain v where v: "tk_value t = Text_Value v" "raw = Raw_String v" "hint = None"
      using assms(3) by (auto simp: scalar_value_def split: token_value.splits)
    then show ?thesis using assms(2) 1 value_text_members_text_items_text.string [of _ v x] by (intro exI [of _ "JString v"]) simp
  next
    case 2
    then obtain v where v: "tk_value t = Text_Value v" "raw = Raw_String v" "hint = Some (number_hint v)"
      using assms(3) by (auto simp: scalar_value_def number_hint_def split: token_value.splits)
    then show ?thesis using assms(2) 2 value_text_members_text_items_text.number [of _ v x] by (intro exI [of _ "JNumber v"]) simp
  next
    case 3
    then have "raw = Raw_Boolean True" "hint = None" using assms(3) by (simp_all add: scalar_value_def)
    then show ?thesis using assms(2) 3 value_text_members_text_items_text.true [of _ _ x] by (intro exI [of _ JTrue]) auto
  next
    case 4
    then have "raw = Raw_Boolean False" "hint = None" using assms(3) by (simp_all add: scalar_value_def)
    then show ?thesis using assms(2) 4 value_text_members_text_items_text.false [of _ _ x] by (intro exI [of _ JFalse]) auto
  next
    case 5
    then have "raw = Raw_Null" "hint = None" using assms(3) by (simp_all add: scalar_value_def)
    then show ?thesis using assms(2) 5 value_text_members_text_items_text.null [of _ _ x] by (intro exI [of _ JNull]) auto
  qed
qed

text \<open>The counters after a value are those of its outline.\<close>

lemma outline_counts:
  "snd (outline E pl c j) = (fst c + json_nodes j, snd c + json_scalars j)"
  "snd (outline_members E nid pl order occ c ms) =
     (fst c + sum_list (map (\<lambda>(k, j). json_nodes j) ms), snd c + sum_list (map (\<lambda>(k, j). json_scalars j) ms))"
  "snd (outline_items E nid pl order c js) = (fst c + sum_list (map json_nodes js), snd c + sum_list (map json_scalars js))"
  by (induction E pl c j and E nid pl order occ c ms and E nid pl order c js rule: outline_outline_members_outline_items.induct)
    (auto simp: outline_scalar_def simp del: fun_upd_apply split: prod.splits)

definition sound_value where
  "sound_value E pl depth s x nodes s' \<longleftrightarrow> (\<exists>j y. moves (je_limits E) s y s' \<and> value_text (je_limits E) j (x @ y) \<and>
     counted s (json_nodes j) (json_keys j) (json_scalars j) s' \<and> map plain nodes = fst (outline E pl (id_nodes s, id_values s) j) \<and>
     within E (pl_pointer pl) depth j \<and> (in_budget E s \<longrightarrow> in_budget E s'))"

definition sound_members where
  "sound_members E nid pl depth order occ s x nodes s' \<longleftrightarrow> (\<exists>ms y. moves (je_limits E) s y s' \<and> members_text (je_limits E) ms (x @ y) \<and>
     counted s (sum_list (map (\<lambda>(k, j). json_nodes j) ms)) (length ms + sum_list (map (\<lambda>(k, j). json_keys j) ms))
       (sum_list (map (\<lambda>(k, j). json_scalars j) ms)) s' \<and>
     map plain nodes = fst (outline_members E nid pl order occ (id_nodes s, id_values s) ms) \<and>
     members_within E (pl_pointer pl) (depth + 1) ms \<and> order + length ms \<le> jl_columns (je_limits E) \<and> (in_budget E s \<longrightarrow> in_budget E s'))"

definition sound_items where
  "sound_items E nid pl depth order s x nodes s' \<longleftrightarrow> (\<exists>js y. moves (je_limits E) s y s' \<and> items_text (je_limits E) js (x @ y) \<and>
     counted s (sum_list (map json_nodes js)) (sum_list (map json_keys js)) (sum_list (map json_scalars js)) s' \<and>
     map plain nodes = fst (outline_items E nid pl order (id_nodes s, id_values s) js) \<and>
     items_within E (pl_pointer pl) (depth + 1) order js \<and> order + length js \<le> jl_array_items (je_limits E) \<and> (in_budget E s \<longrightarrow> in_budget E s'))"

lemma parse_kind:
  "parse_value E t pl depth s = Inr r \<Longrightarrow> tk_kind t \<noteq> End_Of_File"
  "parse_members E nid pl depth t order occ s = Inr q \<Longrightarrow> tk_kind t \<noteq> End_Of_File"
  "parse_items E nid pl depth t order s = Inr q \<Longrightarrow> tk_kind t \<noteq> End_Of_File"
proof -
  show v: "parse_value E t pl depth s = Inr r \<Longrightarrow> tk_kind t \<noteq> End_Of_File" for pl depth s r
  proof -
    assume "parse_value E t pl depth s = Inr r"
    then obtain nid s0 where "enter_value E t pl depth s = Inr (nid, s0)"
      unfolding parse_value.simps [of E t pl depth s] by (rule bindPE)
    from enter_value_Inr(5) [OF this] show ?thesis by (auto simp: scalar_token_def)
  qed
  show "parse_members E nid pl depth t order occ s = Inr q \<Longrightarrow> tk_kind t \<noteq> End_Of_File"
    using member_key_string unfolding parse_members.simps [of E nid pl depth t order occ s] by (auto elim!: bindP3E)
  show "parse_items E nid pl depth t order s = Inr q \<Longrightarrow> tk_kind t \<noteq> End_Of_File"
  proof -
    assume "parse_items E nid pl depth t order s = Inr q"
    then obtain r where "parse_value E t (item_place nid pl order) (depth + 1) s = Inr r"
      by (cases q) (auto elim: parse_items_cases)
    then show ?thesis by (rule v)
  qed
qed

lemma enter_budget:
  assumes "enter_value E t pl depth s = Inr (nid, s')" "in_budget E s"
  shows "in_budget E s'"
  using assms(2) enter_value_Inr(6-9) [OF assms(1)] unfolding in_budget_def counters_def by (auto split: option.splits)

lemma parse_sound:
  "\<forall>nodes stop s' x. parse_value E t pl depth s = Inr (nodes, stop, s') \<longrightarrow> token_fits (je_limits E) (tk_kind t) (tk_value t) x \<longrightarrow>
     sound_value E pl depth s x nodes s'"
  "\<forall>nodes c s' x. parse_members E nid pl depth t order occ s = Inr (nodes, c, s') \<longrightarrow> token_fits (je_limits E) (tk_kind t) (tk_value t) x \<longrightarrow>
     sound_members E nid pl depth order occ s x nodes s'"
  "\<forall>nodes c s' x. parse_items E nid pl depth t order s = Inr (nodes, c, s') \<longrightarrow> token_fits (je_limits E) (tk_kind t) (tk_value t) x \<longrightarrow>
     sound_items E nid pl depth order s x nodes s'"
proof (induction E t pl depth s and E nid pl depth t order occ s and E nid pl depth t order s
    rule: parse_value_parse_members_parse_items.induct)
  case (1 E t pl depth s)
  let ?l = "je_limits E"
  show ?case
  proof (intro allI impI)
    fix nodes stop s' x assume r: "parse_value E t pl depth s = Inr (nodes, stop, s')" and x: "token_fits ?l (tk_kind t) (tk_value t) x"
    from r show "sound_value E pl depth s x nodes s'"
    proof (cases rule: parse_value_cases)
      case (scalar nid s0 n)
      note e = enter_value_Inr [OF scalar(1)]
      obtain raw hint where n: "scalar_value t = Some (raw, hint)" "core s' = core s0"
        "plain n = outline_node E Scalar_Node nid pl (Some \<lparr>xv_id = id_values s0, xv_raw = raw, xv_hint = hint, xv_location = outline_location E pl\<rparr>)"
        "counters s' = (bd_nodes s0, bd_keys s0, bd_physical s0, id_nodes s0, id_values s0 + 1, rec_nodes s0)"
        using scalar_node_Inr [OF scalar(3)] by blast
      obtain j where j: "value_text ?l j x" "json_nodes j = 1" "json_scalars j = 1" "json_keys j = 0"
        "\<And>pl c. outline E pl c j = outline_scalar E pl c raw hint"
        "\<And>p depth. within E p depth j \<longleftrightarrow> depth \<le> je_depth E \<and> length p \<le> jl_pointer ?l"
        using scalar_json [OF scalar(2) x n(1)] by blast
      have "counted s 1 0 1 s'" using e(9) n(4) scalar(2) by (simp add: counted_def counters_def)
      moreover have "map plain nodes = fst (outline E pl (id_nodes s, id_values s) j)"
        using scalar(4) n(3) e(1,9) j(5) by (simp add: outline_scalar_def counters_def)
      moreover have "moves ?l s [] s'" using n(2) e(2) by simp
      moreover have "in_budget E s'" if "in_budget E s"
        using enter_budget [OF scalar(1) that] n(4) by (auto simp: in_budget_def counters_def split: option.splits)
      ultimately show ?thesis unfolding sound_value_def using j(1-4,6) e(3,4)
        by (intro exI [of _ j] exI [of _ "[]"]) simp
    next
      case (empty_object nid s0 t1)
      note e = enter_value_Inr [OF empty_object(1)]
      obtain w where w: "moves ?l s0 (w @ [125]) s'" "list_all json_space w" "counters s' = counters s0"
        using next_token_of_kind [OF empty_object(3,4)] by auto
      have x: "x = [123]" using x empty_object(2) mark_text(1) by (auto simp: token_fits_def)
      have c: "counted s 1 0 0 s'" using e(9) w(3) empty_object(2) by (simp add: counted_def counters_def scalar_token_def)
      have m: "moves ?l s (w @ [125]) s'" using core_moves [OF e(2) w(1)] .
      have b: "in_budget E s'" if "in_budget E s" using enter_budget [OF empty_object(1) that] in_budget_books [OF w(3)] by simp
      show ?thesis unfolding sound_value_def
        using c m b e(1,3,4) w(2) x empty_object(5) value_text_members_text_items_text.empty_object [OF w(2)]
        by (intro exI [of _ "JObject []"] exI [of _ "w @ [125]"]) simp
    next
      case (object nid s0 t1 s1 cs c)
      note e = enter_value_Inr [OF object(1)]
      obtain w x1 where w: "moves ?l s0 (w @ x1) s1" "list_all json_space w" "token_fits ?l (tk_kind t1) (tk_value t1) x1" "counters s1 = counters s0"
        using next_token_mark [OF object(3) parse_kind(2) [OF object(5)]] by blast
      have "sound_members E nid pl depth 0 (\<lambda>_. 0) s1 x1 cs s'"
        using "1.IH"(1) [OF object(1) refl object(2,3) refl object(4)] object(5) w(3) by blast
      then obtain ms y where y: "moves ?l s1 y s'" "members_text ?l ms (x1 @ y)"
        "counted s1 (sum_list (map (\<lambda>(k, j). json_nodes j) ms)) (length ms + sum_list (map (\<lambda>(k, j). json_keys j) ms))
           (sum_list (map (\<lambda>(k, j). json_scalars j) ms)) s'"
        "map plain cs = fst (outline_members E nid pl 0 (\<lambda>_. 0) (id_nodes s1, id_values s1) ms)"
        "members_within E (pl_pointer pl) (depth + 1) ms" "length ms \<le> jl_columns ?l" "in_budget E s1 \<longrightarrow> in_budget E s'"
        unfolding sound_members_def by auto
      have x: "x = [123]" using x object(2) mark_text(1) by (auto simp: token_fits_def)
      have c: "counted s 1 0 0 s1" using e(9) w(4) object(2) by (simp add: counted_def counters_def scalar_token_def)
      have m: "moves ?l s ((w @ x1) @ y) s'" using moves_trans [OF core_moves [OF e(2) w(1)] y(1)] .
      have b: "in_budget E s'" if "in_budget E s" using enter_budget [OF object(1) that] in_budget_books [OF w(4)] y(7) by simp
      have n: "map plain nodes = fst (outline E pl (id_nodes s, id_values s) (JObject ms))"
        using object(6) y(4) counted_ids [OF c] e(1) by (simp split: prod.split)
      show ?thesis unfolding sound_value_def
        using counted_trans [OF c y(3)] m b e(3,4) y(5,6) n x value_text_members_text_items_text.object [OF w(2) y(2)]
        by (intro exI [of _ "JObject ms"] exI [of _ "(w @ x1) @ y"]) simp
    next
      case (empty_array nid s0 t1)
      note e = enter_value_Inr [OF empty_array(1)]
      obtain w where w: "moves ?l s0 (w @ [93]) s'" "list_all json_space w" "counters s' = counters s0"
        using next_token_of_kind [OF empty_array(3,4)] by auto
      have x: "x = [91]" using x empty_array(2) mark_text(3) by (auto simp: token_fits_def)
      have c: "counted s 1 0 0 s'" using e(9) w(3) empty_array(2) by (simp add: counted_def counters_def scalar_token_def)
      have m: "moves ?l s (w @ [93]) s'" using core_moves [OF e(2) w(1)] .
      have b: "in_budget E s'" if "in_budget E s" using enter_budget [OF empty_array(1) that] in_budget_books [OF w(3)] by simp
      show ?thesis unfolding sound_value_def
        using c m b e(1,3,4) w(2) x empty_array(5) value_text_members_text_items_text.empty_array [OF w(2)]
        by (intro exI [of _ "JArray []"] exI [of _ "w @ [93]"]) simp
    next
      case (array nid s0 t1 s1 cs c)
      note e = enter_value_Inr [OF array(1)]
      obtain w x1 where w: "moves ?l s0 (w @ x1) s1" "list_all json_space w" "token_fits ?l (tk_kind t1) (tk_value t1) x1" "counters s1 = counters s0"
        using next_token_mark [OF array(3) parse_kind(3) [OF array(5)]] by blast
      have ko: "tk_kind t \<noteq> Object_Start" using array(2) by simp
      have "sound_items E nid pl depth 0 s1 x1 cs s'"
        using "1.IH"(2) [OF array(1) refl ko array(2,3) refl array(4)] array(5) w(3) by blast
      then obtain js y where y: "moves ?l s1 y s'" "items_text ?l js (x1 @ y)"
        "counted s1 (sum_list (map json_nodes js)) (sum_list (map json_keys js)) (sum_list (map json_scalars js)) s'"
        "map plain cs = fst (outline_items E nid pl 0 (id_nodes s1, id_values s1) js)"
        "items_within E (pl_pointer pl) (depth + 1) 0 js" "length js \<le> jl_array_items ?l" "in_budget E s1 \<longrightarrow> in_budget E s'"
        unfolding sound_items_def by auto
      have x: "x = [91]" using x array(2) mark_text(3) by (auto simp: token_fits_def)
      have c: "counted s 1 0 0 s1" using e(9) w(4) array(2) by (simp add: counted_def counters_def scalar_token_def)
      have m: "moves ?l s ((w @ x1) @ y) s'" using moves_trans [OF core_moves [OF e(2) w(1)] y(1)] .
      have b: "in_budget E s'" if "in_budget E s" using enter_budget [OF array(1) that] in_budget_books [OF w(4)] y(7) by simp
      have n: "map plain nodes = fst (outline E pl (id_nodes s, id_values s) (JArray js))"
        using array(6) y(4) counted_ids [OF c] e(1) by (simp split: prod.split)
      show ?thesis unfolding sound_value_def
        using counted_trans [OF c y(3)] m b e(3,4) y(5,6) n x value_text_members_text_items_text.array [OF w(2) y(2)]
        by (intro exI [of _ "JArray js"] exI [of _ "(w @ x1) @ y"]) simp
    qed
  qed
next
  case (2 E nid pl depth t order occ s)
  let ?l = "je_limits E"
  show ?case
  proof (intro allI impI)
    fix nodes c s' x assume r: "parse_members E nid pl depth t order occ s = Inr (nodes, c, s')" and x: "token_fits ?l (tk_kind t) (tk_value t) x"
    obtain key child s1 ns stop s2 d s3 where p: "member_key E t order s = Inr (key, child, s1)"
      "parse_value E child (member_place nid pl key order (occ key)) (depth + 1) s1 = Inr (ns, stop, s2)" "next_token ?l s2 = Inr (d, s3)"
      and k: "(tk_kind d = Object_End \<and> nodes = ns \<and> c = d \<and> s' = s3) \<or>
       (tk_kind d = Comma \<and> order + 1 < jl_columns ?l \<and> (\<exists>t1 s4 others. next_token ?l s3 = Inr (t1, s4) \<and>
         parse_members E nid pl depth t1 (order + 1) (occ(key := occ key + 1)) s4 = Inr (others, c, s') \<and> nodes = ns @ others))"
      using parse_members_cases [OF r] by metis
    obtain s0 colon sc where key: "tk_kind t = String_Token" "tk_value t = Text_Value key" "order < jl_columns ?l"
      "bd_keys s < jl_keys ?l" "s0 = s\<lparr>bd_keys := bd_keys s + 1\<rparr>" "next_token ?l s0 = Inr (colon, sc)" "tk_kind colon = Colon"
      "next_token ?l sc = Inr (child, s1)"
      using member_key_Inr [OF p(1)] by metis
    obtain w1 where w1: "moves ?l s0 (w1 @ [58]) sc" "list_all json_space w1" "counters sc = counters s0"
      using next_token_of_kind [OF key(6,7)] by auto
    obtain w2 x2 where w2: "moves ?l sc (w2 @ x2) s1" "list_all json_space w2" "token_fits ?l (tk_kind child) (tk_value child) x2" "counters s1 = counters sc"
      using next_token_mark [OF key(8) parse_kind(1) [OF p(2)]] by blast
    have "sound_value E (member_place nid pl key order (occ key)) (depth + 1) s1 x2 ns s2"
      using "2.IH"(1) [OF p(1) refl refl] p(2) w2(3) by blast
    then obtain j y where y: "moves ?l s1 y s2" "value_text ?l j (x2 @ y)" "counted s1 (json_nodes j) (json_keys j) (json_scalars j) s2"
      "map plain ns = fst (outline E (member_place nid pl key order (occ key)) (id_nodes s1, id_values s1) j)"
      "within E (child_pointer (pl_pointer pl) key) (depth + 1) j" "in_budget E s1 \<longrightarrow> in_budget E s2"
      unfolding sound_value_def by (auto simp: member_place_def)
    have c0: "counted s 0 1 0 s1" using w1(3) w2(4) key(5) by (simp add: counted_def counters_def)
    have core0: "core s0 = core s" using key(5) by (simp add: core_def)
    have m2: "moves ?l s ((w1 @ [58]) @ (w2 @ x2) @ y) s2"
      using moves_trans [OF core_moves [OF core0 w1(1)] moves_trans [OF w2(1) y(1)]] .
    have c2: "counted s (json_nodes j) (1 + json_keys j) (json_scalars j) s2" using counted_trans [OF c0 y(3)] by simp
    have b1: "in_budget E s1" if "in_budget E s"
      using that key(4,5) w1(3) w2(4) by (auto simp: in_budget_def counters_def split: option.splits)
    have ids: "(id_nodes s1, id_values s1) = (id_nodes s, id_values s)" using counted_ids [OF c0] by simp
    from k show "sound_members E nid pl depth order occ s x nodes s'"
    proof (elim disjE conjE exE)
      assume d: "tk_kind d = Object_End" "nodes = ns" "c = d" "s' = s3"
      obtain w3 where w3: "moves ?l s2 (w3 @ [125]) s3" "list_all json_space w3" "counters s3 = counters s2"
        using next_token_of_kind [OF p(3) d(1)] by auto
      have "moves ?l s (((w1 @ [58]) @ (w2 @ x2) @ y) @ w3 @ [125]) s'" using moves_trans [OF m2 w3(1)] d(4) by simp
      moreover have "members_text ?l [(key, j)] (x @ w1 @ 58 # w2 @ (x2 @ y) @ w3 @ [125])"
        using x key(1,2) by (intro value_text_members_text_items_text.last_member w1(2) w2(2) y(2) w3(2)) simp
      moreover have "counted s (json_nodes j) (1 + json_keys j) (json_scalars j) s'"
        using counted_trans [OF c2, of 0 0 0 s3] w3(3) d(4) by (simp add: counted_0)
      moreover have "in_budget E s'" if "in_budget E s" using y(6) b1 [OF that] in_budget_books [OF w3(3)] d(4) by simp
      ultimately show ?thesis unfolding sound_members_def
        using y(4,5) ids d(2) key(3)
        by (intro exI [of _ "[(key, j)]"] exI [of _ "((w1 @ [58]) @ (w2 @ x2) @ y) @ w3 @ [125]"]) (simp split: prod.split)
    next
      fix t1 s4 others
      assume d: "tk_kind d = Comma" and lim: "order + 1 < jl_columns ?l" and n: "next_token ?l s3 = Inr (t1, s4)"
        and q: "parse_members E nid pl depth t1 (order + 1) (occ(key := occ key + 1)) s4 = Inr (others, c, s')" "nodes = ns @ others"
      obtain w3 where w3: "moves ?l s2 (w3 @ [44]) s3" "list_all json_space w3" "counters s3 = counters s2"
        using next_token_of_kind [OF p(3) d] by auto
      obtain w4 x4 where w4: "moves ?l s3 (w4 @ x4) s4" "list_all json_space w4" "token_fits ?l (tk_kind t1) (tk_value t1) x4" "counters s4 = counters s3"
        using next_token_mark [OF n parse_kind(2) [OF q(1)]] by blast
      have e: "expect_comma d = Inr ()" "member_limit E (order + 1) = Inr ()" "tk_kind d \<noteq> Object_End"
        using d lim by (simp_all add: expect_comma_def member_limit_def)
      have "sound_members E nid pl depth (order + 1) (occ(key := occ key + 1)) s4 x4 others s'"
        using "2.IH"(2) [OF p(1) refl refl p(2) refl refl p(3) refl e(3,1,2) n refl] q(1) w4(3) by blast
      then obtain ms z where z: "moves ?l s4 z s'" "members_text ?l ms (x4 @ z)"
        "counted s4 (sum_list (map (\<lambda>(k, j). json_nodes j) ms)) (length ms + sum_list (map (\<lambda>(k, j). json_keys j) ms))
           (sum_list (map (\<lambda>(k, j). json_scalars j) ms)) s'"
        "map plain others = fst (outline_members E nid pl (order + 1) (occ(key := occ key + 1)) (id_nodes s4, id_values s4) ms)"
        "members_within E (pl_pointer pl) (depth + 1) ms" "order + 1 + length ms \<le> jl_columns ?l" "in_budget E s4 \<longrightarrow> in_budget E s'"
        unfolding sound_members_def by auto
      have b4: "counters s4 = counters s2" using w3(3) w4(4) by simp
      have c4: "counted s (json_nodes j) (1 + json_keys j) (json_scalars j) s4"
        using counted_trans [OF c2, of 0 0 0 s4] b4 by (simp add: counted_0)
      have "moves ?l s (((w1 @ [58]) @ (w2 @ x2) @ y) @ (w3 @ [44]) @ (w4 @ x4) @ z) s'"
        using moves_trans [OF m2 moves_trans [OF w3(1) moves_trans [OF w4(1) z(1)]]] by simp
      moreover have "members_text ?l ((key, j) # ms) (x @ w1 @ 58 # w2 @ (x2 @ y) @ w3 @ 44 # w4 @ (x4 @ z))"
        using x key(1,2) by (intro value_text_members_text_items_text.member w1(2) w2(2) y(2) w3(2) w4(2) z(2)) simp
      moreover have "in_budget E s'" if "in_budget E s" using y(6) b1 [OF that] in_budget_books [OF b4] z(7) by simp
      moreover have "map plain nodes = fst (outline_members E nid pl order occ (id_nodes s, id_values s) ((key, j) # ms))"
      proof -
        obtain ns' c1 where o1: "outline E (member_place nid pl key order (occ key)) (id_nodes s, id_values s) j = (ns', c1)" by (meson surj_pair)
        have "c1 = (id_nodes s4, id_values s4)"
          using outline_counts(1) [of E "member_place nid pl key order (occ key)" "(id_nodes s, id_values s)" j] o1 counted_ids [OF c4] by simp
        then show ?thesis using q(2) y(4) z(4) ids o1 by (simp split: prod.split)
      qed
      ultimately show ?thesis unfolding sound_members_def
        using counted_trans [OF c4 z(3)] y(5) z(5,6)
        by (intro exI [of _ "(key, j) # ms"] exI [of _ "((w1 @ [58]) @ (w2 @ x2) @ y) @ (w3 @ [44]) @ (w4 @ x4) @ z"]) (simp add: ac_simps)
    qed
  qed
next
  case (3 E nid pl depth t order s)
  let ?l = "je_limits E"
  show ?case
  proof (intro allI impI)
    fix nodes c s' x assume r: "parse_items E nid pl depth t order s = Inr (nodes, c, s')" and x: "token_fits ?l (tk_kind t) (tk_value t) x"
    obtain ns stop s2 d s3 where p: "order < jl_array_items ?l"
      "parse_value E t (item_place nid pl order) (depth + 1) s = Inr (ns, stop, s2)" "next_token ?l s2 = Inr (d, s3)"
      and k: "(tk_kind d = Array_End \<and> nodes = ns \<and> c = d \<and> s' = s3) \<or>
       (tk_kind d = Comma \<and> (\<exists>t1 s4 others. next_token ?l s3 = Inr (t1, s4) \<and>
         parse_items E nid pl depth t1 (order + 1) s4 = Inr (others, c, s') \<and> nodes = ns @ others))"
      using parse_items_cases [OF r] by metis
    have i: "item_limit E order = Inr ()" using p(1) by (simp add: item_limit_def)
    have "sound_value E (item_place nid pl order) (depth + 1) s x ns s2"
      using "3.IH"(1) [OF i] p(2) x by blast
    then obtain j y where y: "moves ?l s y s2" "value_text ?l j (x @ y)" "counted s (json_nodes j) (json_keys j) (json_scalars j) s2"
      "map plain ns = fst (outline E (item_place nid pl order) (id_nodes s, id_values s) j)"
      "within E (child_pointer (pl_pointer pl) (nat_text order)) (depth + 1) j" "in_budget E s \<longrightarrow> in_budget E s2"
      unfolding sound_value_def by (auto simp: item_place_def)
    from k show "sound_items E nid pl depth order s x nodes s'"
    proof (elim disjE conjE exE)
      assume d: "tk_kind d = Array_End" "nodes = ns" "c = d" "s' = s3"
      obtain w3 where w3: "moves ?l s2 (w3 @ [93]) s3" "list_all json_space w3" "counters s3 = counters s2"
        using next_token_of_kind [OF p(3) d(1)] by auto
      have "moves ?l s (y @ w3 @ [93]) s'" using moves_trans [OF y(1) w3(1)] d(4) by simp
      moreover have "items_text ?l [j] ((x @ y) @ w3 @ [93])"
        by (intro value_text_members_text_items_text.last_item y(2) w3(2))
      moreover have "counted s (json_nodes j) (json_keys j) (json_scalars j) s'"
        using counted_trans [OF y(3), of 0 0 0 s3] w3(3) d(4) by (simp add: counted_0)
      moreover have "in_budget E s'" if "in_budget E s" using y(6) that in_budget_books [OF w3(3)] d(4) by simp
      ultimately show ?thesis unfolding sound_items_def
        using y(4,5) d(2) p(1) by (intro exI [of _ "[j]"] exI [of _ "y @ w3 @ [93]"]) (simp split: prod.split)
    next
      fix t1 s4 others
      assume d: "tk_kind d = Comma" and n: "next_token ?l s3 = Inr (t1, s4)"
        and q: "parse_items E nid pl depth t1 (order + 1) s4 = Inr (others, c, s')" "nodes = ns @ others"
      obtain w3 where w3: "moves ?l s2 (w3 @ [44]) s3" "list_all json_space w3" "counters s3 = counters s2"
        using next_token_of_kind [OF p(3) d] by auto
      obtain w4 x4 where w4: "moves ?l s3 (w4 @ x4) s4" "list_all json_space w4" "token_fits ?l (tk_kind t1) (tk_value t1) x4" "counters s4 = counters s3"
        using next_token_mark [OF n parse_kind(3) [OF q(1)]] by blast
      have e: "expect_comma d = Inr ()" "tk_kind d \<noteq> Array_End" using d by (simp_all add: expect_comma_def)
      have "sound_items E nid pl depth (order + 1) s4 x4 others s'"
        using "3.IH"(2) [OF i p(2) refl refl p(3) refl e(2,1) n refl] q(1) w4(3) by blast
      then obtain js z where z: "moves ?l s4 z s'" "items_text ?l js (x4 @ z)"
        "counted s4 (sum_list (map json_nodes js)) (sum_list (map json_keys js)) (sum_list (map json_scalars js)) s'"
        "map plain others = fst (outline_items E nid pl (order + 1) (id_nodes s4, id_values s4) js)"
        "items_within E (pl_pointer pl) (depth + 1) (order + 1) js" "order + 1 + length js \<le> jl_array_items ?l" "in_budget E s4 \<longrightarrow> in_budget E s'"
        unfolding sound_items_def by auto
      have b4: "counters s4 = counters s2" using w3(3) w4(4) by simp
      have c4: "counted s (json_nodes j) (json_keys j) (json_scalars j) s4"
        using counted_trans [OF y(3), of 0 0 0 s4] b4 by (simp add: counted_0)
      have "moves ?l s (y @ (w3 @ [44]) @ (w4 @ x4) @ z) s'"
        using moves_trans [OF y(1) moves_trans [OF w3(1) moves_trans [OF w4(1) z(1)]]] by simp
      moreover have "items_text ?l (j # js) ((x @ y) @ w3 @ 44 # w4 @ (x4 @ z))"
        by (intro value_text_members_text_items_text.item y(2) w3(2) w4(2) z(2))
      moreover have "in_budget E s'" if "in_budget E s" using y(6) that in_budget_books [OF b4] z(7) by simp
      moreover have "map plain nodes = fst (outline_items E nid pl order (id_nodes s, id_values s) (j # js))"
      proof -
        obtain ns' c1 where o1: "outline E (item_place nid pl order) (id_nodes s, id_values s) j = (ns', c1)" by (meson surj_pair)
        have "c1 = (id_nodes s4, id_values s4)"
          using outline_counts(1) [of E "item_place nid pl order" "(id_nodes s, id_values s)" j] o1 counted_ids [OF c4] by simp
        then show ?thesis using q(2) y(4) z(4) o1 by (simp split: prod.split)
      qed
      ultimately show ?thesis unfolding sound_items_def
        using counted_trans [OF c4 z(3)] y(5) z(5,6)
        by (intro exI [of _ "j # js"] exI [of _ "y @ (w3 @ [44]) @ (w4 @ x4) @ z"]) (simp add: ac_simps)
    qed
  qed
qed

end
