(* ===== verification/Json_Complete.thy ===== *)
theory Json_Complete
  imports Json_Values
begin

text \<open>
  Completeness of the tree parser: every text of the grammar whose value keeps the limits is accepted,
  with the nodes of the value. With soundness this makes the recursive descent equivalent to the grammar.
\<close>

section \<open>Text ahead and room in the counters\<close>

definition ahead :: "json_limits \<Rightarrow> json_state \<Rightarrow> pystr \<Rightarrow> pystr \<Rightarrow> bool" where
  "ahead l s x rest \<longleftrightarrow> lx_text s = x @ rest \<and> room l s (length x)"

definition follows :: "json_state \<Rightarrow> pystr \<Rightarrow> bool" where
  "follows s r \<longleftrightarrow> (case r of [] \<Rightarrow> lx_fault s = None | c # _ \<Rightarrow> \<not> (json_digit c \<or> c = 46 \<or> c = 101 \<or> c = 69))"

definition capacity :: "json_env \<Rightarrow> json_state \<Rightarrow> nat \<Rightarrow> nat \<Rightarrow> nat \<Rightarrow> bool" where
  "capacity E s n k v \<longleftrightarrow> bd_nodes s + n \<le> jl_nodes (je_limits E) \<and> bd_keys s + k \<le> jl_keys (je_limits E) \<and>
     bd_physical s + n + v \<le> je_objects E \<and> (case je_record_nodes E of None \<Rightarrow> True | Some m \<Rightarrow> rec_nodes s + n \<le> m)"

lemma capacity_counted:
  "capacity E s (n + n') (k + k') (v + v') \<Longrightarrow> counted s n k v s' \<Longrightarrow> capacity E s' n' k' v'"
  by (auto simp: capacity_def counted_def counters_def split: option.splits)

lemma capacity_less: "capacity E s n k v \<Longrightarrow> n' \<le> n \<Longrightarrow> k' \<le> k \<Longrightarrow> v' \<le> v \<Longrightarrow> capacity E s n' k' v'"
  by (auto simp: capacity_def split: option.splits)

lemma moves_core_eq: "moves l s a s' \<Longrightarrow> core s' = after a (core s)"
  by (auto simp: moves_def takes_def reads_def)

lemma moves_fault: "moves l s a s' \<Longrightarrow> lx_fault s' = lx_fault s"
  using arg_cong [OF moves_core_eq, of _ _ _ _ lx_fault] by simp

lemma ahead_moves:
  assumes "ahead l s (a @ b) rest" "moves l s a s'"
  shows "ahead l s' b rest"
proof -
  have c: "core s' = after a (core s)" using moves_core_eq [OF assms(2)] .
  have "lx_pos s' = lx_pos (after a (core s))" "lx_record s' = lx_record s"
    using arg_cong [OF c, of lx_pos] arg_cong [OF c, of lx_record] by simp_all
  then have "room l s' n = room l (after a s) n" for n
    using arg_cong [OF c, of "\<lambda>s. at_index (lx_pos s)"] by (simp add: room_def split: option.split)
  moreover have "lx_text s' = b @ rest" using moves_text [OF assms(2)] assms(1) by (simp add: ahead_def)
  ultimately show ?thesis using assms(1) by (simp add: ahead_def)
qed

lemma ahead_prefix: "ahead l s (a @ b) rest \<Longrightarrow> ahead l s a (b @ rest)"
  unfolding ahead_def using room_less by auto

lemma ahead_cons: "ahead l s (a @ c # b) rest \<Longrightarrow> ahead l s (a @ [c] @ b) rest"
  by simp

lemma follows_fault: "lx_fault s = lx_fault s' \<Longrightarrow> follows s r = follows s' r"
  by (simp add: follows_def split: list.split)

lemma next_token_ahead:
  assumes "ahead l s ((w @ x) @ y) rest" "list_all json_space w" "token_fits l k v x" "k = Number_Token \<longrightarrow> follows s (y @ rest)"
  obtains t s1 where "next_token l s = Inr (t, s1)" "tk_kind t = k" "tk_value t = v" "moves l s (w @ x) s1" "counters s1 = counters s"
    "ahead l s1 y rest"
proof -
  let ?m = "after w s" and ?s = "after x (after w s)"
  have tx: "lx_text s = w @ x @ y @ rest" "room l s (length w + length x + length y)" using assms(1) by (simp_all add: ahead_def add.assoc)
  have w: "takes l s w ?m" using tx room_less [of l s _ "length w"] by (auto simp: takes_def reads_def)
  have x: "takes l ?m x ?s" using tx room_less [of l s _ "length w + length x"] by (auto simp: takes_def reads_def)
  have f: "token_text k v x" "token_room l k x" using assms(3) by (simp_all add: token_fits_def)
  have "number_ends ?s" if "k = Number_Token"
    using assms(4) that tx by (auto simp: number_ends_def follows_def peek_char_def is_code_def split: list.splits)
  then have t: "next_token l s = Inr (Token k v (lx_pos ?m) (lx_pos ?s), ?s)"
    using next_token_complete [OF assms(2) w f(1) x f(2)] by blast
  have m: "moves l s (w @ x) ?s" using takes_moves [OF takes_trans [OF w x]] by simp
  show thesis using that [OF t _ _ m _ ahead_moves [OF assms(1) m]] by (simp add: counters_def)
qed

lemma enter_value_complete:
  assumes "within E (pl_pointer pl) depth j" "capacity E s 1 0 v" "scalar_token t \<or> tk_kind t = Object_Start \<or> tk_kind t = Array_Start"
    and "scalar_token t \<longrightarrow> v = 1"
  obtains s0 where "enter_value E t pl depth s = Inr (id_nodes s, s0)" "core s0 = core s"
    "counters s0 = (bd_nodes s + 1, bd_keys s, bd_physical s + (if scalar_token t then 2 else 1), id_nodes s + 1, id_values s, rec_nodes s + 1)"
proof -
  have d: "depth \<le> je_depth E" "length (pl_pointer pl) \<le> jl_pointer (je_limits E)" using assms(1) by (cases j; simp)+
  have c: "bd_nodes s < jl_nodes (je_limits E)" "\<not> int (if scalar_token t then 2 else 1) > int (je_objects E) - int (bd_physical s)"
    "\<not> (case je_record_nodes E of None \<Rightarrow> False | Some n \<Rightarrow> n \<le> rec_nodes s)"
    using assms(2,4) by (auto simp: capacity_def split: option.splits)
  let ?s = "snd (node_id (s\<lparr>bd_nodes := bd_nodes s + 1, bd_physical := bd_physical s + (if scalar_token t then 2 else 1), rec_nodes := rec_nodes s + 1\<rparr>))"
  have "enter_value E t pl depth s = Inr (id_nodes s, ?s)"
    using d c assms(3) by (auto simp: enter_value_def claim_node_def node_id_def Let_def)
  then show thesis using that by (simp add: node_id_def core_def counters_def)
qed

section \<open>Completeness\<close>

definition complete_value :: "json_limits \<Rightarrow> json \<Rightarrow> pystr \<Rightarrow> bool" where
  "complete_value l j x \<longleftrightarrow> (\<forall>(E::json_env) pl depth s w rest. je_limits E = l \<longrightarrow> list_all json_space w \<longrightarrow> ahead (je_limits E) s (w @ x) rest \<longrightarrow> follows s rest \<longrightarrow>
     within E (pl_pointer pl) depth j \<longrightarrow> capacity E s (json_nodes j) (json_keys j) (json_scalars j) \<longrightarrow>
     (\<exists>t s1 nodes stop s'. next_token (je_limits E) s = Inr (t, s1) \<and> parse_value E t pl depth s1 = Inr (nodes, stop, s') \<and>
        moves (je_limits E) s (w @ x) s' \<and> counted s (json_nodes j) (json_keys j) (json_scalars j) s' \<and>
        map plain nodes = fst (outline E pl (id_nodes s, id_values s) j)))"

definition complete_members :: "json_limits \<Rightarrow> (pystr \<times> json) list \<Rightarrow> pystr \<Rightarrow> bool" where
  "complete_members l ms z \<longleftrightarrow> (\<forall>(E::json_env) nid pl depth order occ s w rest. je_limits E = l \<longrightarrow> list_all json_space w \<longrightarrow> ahead (je_limits E) s (w @ z) rest \<longrightarrow>
     members_within E (pl_pointer pl) (depth + 1) ms \<longrightarrow> order + length ms \<le> jl_columns (je_limits E) \<longrightarrow>
     capacity E s (sum_list (map (\<lambda>(k, j). json_nodes j) ms)) (length ms + sum_list (map (\<lambda>(k, j). json_keys j) ms))
       (sum_list (map (\<lambda>(k, j). json_scalars j) ms)) \<longrightarrow>
     (\<exists>t s1 nodes c s'. next_token (je_limits E) s = Inr (t, s1) \<and> tk_kind t \<noteq> Object_End \<and>
        parse_members E nid pl depth t order occ s1 = Inr (nodes, c, s') \<and> moves (je_limits E) s (w @ z) s' \<and>
        counted s (sum_list (map (\<lambda>(k, j). json_nodes j) ms)) (length ms + sum_list (map (\<lambda>(k, j). json_keys j) ms))
          (sum_list (map (\<lambda>(k, j). json_scalars j) ms)) s' \<and>
        map plain nodes = fst (outline_members E nid pl order occ (id_nodes s, id_values s) ms)))"

definition complete_items :: "json_limits \<Rightarrow> json list \<Rightarrow> pystr \<Rightarrow> bool" where
  "complete_items l js z \<longleftrightarrow> (\<forall>(E::json_env) nid pl depth order s w rest. je_limits E = l \<longrightarrow> list_all json_space w \<longrightarrow> ahead (je_limits E) s (w @ z) rest \<longrightarrow>
     items_within E (pl_pointer pl) (depth + 1) order js \<longrightarrow> order + length js \<le> jl_array_items (je_limits E) \<longrightarrow>
     capacity E s (sum_list (map json_nodes js)) (sum_list (map json_keys js)) (sum_list (map json_scalars js)) \<longrightarrow>
     (\<exists>t s1 nodes c s'. next_token (je_limits E) s = Inr (t, s1) \<and> tk_kind t \<noteq> Array_End \<and>
        parse_items E nid pl depth t order s1 = Inr (nodes, c, s') \<and> moves (je_limits E) s (w @ z) s' \<and>
        counted s (sum_list (map json_nodes js)) (sum_list (map json_keys js)) (sum_list (map json_scalars js)) s' \<and>
        map plain nodes = fst (outline_items E nid pl order (id_nodes s, id_values s) js)))"

lemma scalar_complete:
  assumes x: "token_fits l k v x" and k: "k \<in> {String_Token, Number_Token, True_Token, False_Token, Null_Token}"
    and sv: "\<And>p q. scalar_value (Token k v p q) = Some (raw, hint)"
    and j: "json_nodes j = 1" "json_scalars j = 1" "json_keys j = 0" "\<And>E pl c. outline E pl c j = outline_scalar E pl c raw hint"
  shows "complete_value l j x"
  unfolding complete_value_def
proof (intro allI impI)
  fix E :: json_env and pl :: place and depth s w rest
  let ?l = "je_limits E"
  assume l: "je_limits E = l" and w: "list_all json_space w" and a: "ahead ?l s (w @ x) rest" and f: "follows s rest"
    and in_E: "within E (pl_pointer pl) depth j" and cap: "capacity E s (json_nodes j) (json_keys j) (json_scalars j)"
  have a': "ahead ?l s ((w @ x) @ []) rest" using a by simp
  obtain t s1 where t: "next_token ?l s = Inr (t, s1)" "tk_kind t = k" "tk_value t = v" "moves ?l s (w @ x) s1" "counters s1 = counters s"
    using next_token_ahead [OF a' w x [folded l]] f by (metis append_Nil)
  have sc: "scalar_token t" using t(2) k by (simp add: scalar_token_def)
  have "capacity E s1 1 0 1" using capacity_counted [of E s 0 1 0 0 0 1 s1] cap j t(5) by (simp add: counted_0)
  then obtain s0 where e: "enter_value E t pl depth s1 = Inr (id_nodes s1, s0)" "core s0 = core s1"
    "counters s0 = (bd_nodes s1 + 1, bd_keys s1, bd_physical s1 + (if scalar_token t then 2 else 1), id_nodes s1 + 1, id_values s1, rec_nodes s1 + 1)"
    using enter_value_complete [OF in_E, of s1 1 t] sc by auto
  have sv': "scalar_value t = Some (raw, hint)" using sv [of "tk_start t" "tk_end t"] t(2,3) by (metis token.collapse)
  obtain n s' where n: "scalar_node E (id_nodes s1) pl t s0 = Inr (n, s')"
    using sv' by (simp add: scalar_node_def Let_def value_id_def)
  obtain raw' hint' where n': "scalar_value t = Some (raw', hint')" "core s' = core s0"
    "plain n = outline_node E Scalar_Node (id_nodes s1) pl (Some \<lparr>xv_id = id_values s0, xv_raw = raw', xv_hint = hint', xv_location = outline_location E pl\<rparr>)"
    "counters s' = (bd_nodes s0, bd_keys s0, bd_physical s0, id_nodes s0, id_values s0 + 1, rec_nodes s0)"
    using scalar_node_Inr [OF n] by metis
  have kinds: "tk_kind t \<noteq> Object_Start" "tk_kind t \<noteq> Array_Start" using sc by (auto simp: scalar_token_def)
  have "parse_value E t pl depth s1 = Inr ([n], tk_end t, s')"
    unfolding parse_value.simps [of E t pl depth s1] e(1) bindE.simps prod.case by (simp only: kinds if_False n bindE.simps prod.case)
  moreover have "moves ?l s (w @ x) s'" using moves_core [OF _ t(4)] n'(2) e(2) by simp
  moreover have "counted s 1 0 1 s'" using t(5) e(3) n'(4) sc by (simp add: counted_def counters_def)
  moreover have "map plain [n] = fst (outline E pl (id_nodes s, id_values s) j)"
    using n'(1,3) sv' e(3) t(5) j(4) by (simp add: outline_scalar_def counters_def)
  ultimately show "\<exists>t s1 nodes stop s'. next_token ?l s = Inr (t, s1) \<and> parse_value E t pl depth s1 = Inr (nodes, stop, s') \<and>
        moves ?l s (w @ x) s' \<and> counted s (json_nodes j) (json_keys j) (json_scalars j) s' \<and>
        map plain nodes = fst (outline E pl (id_nodes s, id_values s) j)"
    using t(1) j(1-3) by metis
qed


lemma ahead_core: "core s = core s' \<Longrightarrow> ahead l s x r = ahead l s' x r"
  unfolding ahead_def by (metis core_fields(1) room_core)

lemma follows_core: "core s = core s' \<Longrightarrow> follows s r = follows s' r"
  by (intro follows_fault) (metis core_fields(2))

lemma follows_mark: "list_all json_space w \<Longrightarrow> c \<in> {125, 93, 44} \<Longrightarrow> follows s (w @ c # r)"
  by (cases w) (auto simp: follows_def json_space_def json_digit_def)

lemma mark_fits: "map_of punctuation c = Some k \<Longrightarrow> token_fits l k (Text_Value [c]) [c]"
  using punctuation_kinds [of c k] token_text.mark [of c k] by (auto simp: token_fits_def token_room_def)

lemma punctuation_marks:
  "map_of punctuation 123 = Some Object_Start" "map_of punctuation 125 = Some Object_End"
  "map_of punctuation 91 = Some Array_Start" "map_of punctuation 93 = Some Array_End"
  "map_of punctuation 58 = Some Colon" "map_of punctuation 44 = Some Comma"
  by (simp_all add: punctuation_def)

lemma next_mark_ahead:
  assumes "ahead l s (w @ c # y) rest" "list_all json_space w" "map_of punctuation c = Some k"
  obtains t s1 where "next_token l s = Inr (t, s1)" "tk_kind t = k" "moves l s (w @ [c]) s1" "counters s1 = counters s" "ahead l s1 y rest"
proof -
  have "k \<noteq> Number_Token" using assms(3) by (auto simp: punctuation_def split: if_splits)
  moreover have "ahead l s ((w @ [c]) @ y) rest" using assms(1) by simp
  ultimately show thesis using next_token_ahead [OF _ assms(2) mark_fits [OF assms(3)]] that by metis
qed

text \<open>How the loops and the containers run.\<close>

lemma run_object:
  assumes "enter_value E t pl depth s = Inr (nid, s0)" "tk_kind t = Object_Start" "next_token (je_limits E) s0 = Inr (t1, s1)"
    and "(if tk_kind t1 = Object_End then Inr ([], t1, s1) else parse_members E nid pl depth t1 0 (\<lambda>_. 0) s1) = Inr (cs, c, s')"
  shows "parse_value E t pl depth s = Inr (container_node E Object_Node nid pl (tk_start t) (tk_end c) # cs, tk_end c, s')"
  unfolding parse_value.simps [of E t pl depth s] assms(1) bindE.simps prod.case by (simp only: assms(2-4) refl if_True bindE.simps prod.case)

lemma run_array:
  assumes "enter_value E t pl depth s = Inr (nid, s0)" "tk_kind t = Array_Start" "next_token (je_limits E) s0 = Inr (t1, s1)"
    and "(if tk_kind t1 = Array_End then Inr ([], t1, s1) else parse_items E nid pl depth t1 0 s1) = Inr (cs, c, s')"
  shows "parse_value E t pl depth s = Inr (container_node E Array_Node nid pl (tk_start t) (tk_end c) # cs, tk_end c, s')"
  unfolding parse_value.simps [of E t pl depth s] assms(1) bindE.simps prod.case
  by (simp only: assms(2-4) refl if_True if_False bindE.simps prod.case token_kind.distinct)

lemma run_member:
  assumes "tk_kind t = String_Token" "tk_value t = Text_Value key" "order < jl_columns (je_limits E)" "bd_keys s < jl_keys (je_limits E)"
    and "next_token (je_limits E) (s\<lparr>bd_keys := bd_keys s + 1\<rparr>) = Inr (colon, s1)" "tk_kind colon = Colon"
    and "next_token (je_limits E) s1 = Inr (child, s')"
  shows "member_key E t order s = Inr (key, child, s')"
  using assms by (simp add: member_key_def claim_key_def)

lemma run_last_member:
  assumes "member_key E t order s = Inr (key, child, s1)"
    and "parse_value E child (member_place nid pl key order (occ key)) (depth + 1) s1 = Inr (ns, stop, s2)"
    and "next_token (je_limits E) s2 = Inr (d, s3)" "tk_kind d = Object_End"
  shows "parse_members E nid pl depth t order occ s = Inr (ns, d, s3)"
  unfolding parse_members.simps [of E nid pl depth t order occ s] assms(1-3) bindE.simps prod.case by (simp only: assms(4) refl if_True)

lemma run_members:
  assumes "member_key E t order s = Inr (key, child, s1)"
    and "parse_value E child (member_place nid pl key order (occ key)) (depth + 1) s1 = Inr (ns, stop, s2)"
    and "next_token (je_limits E) s2 = Inr (d, s3)" "tk_kind d = Comma" "order + 1 < jl_columns (je_limits E)"
    and "next_token (je_limits E) s3 = Inr (t1, s4)"
    and "parse_members E nid pl depth t1 (order + 1) (occ(key := occ key + 1)) s4 = Inr (others, c, s')"
  shows "parse_members E nid pl depth t order occ s = Inr (ns @ others, c, s')"
proof -
  have "expect_comma d = Inr ()" "member_limit E (order + 1) = Inr ()" using assms(4,5) by (simp_all add: expect_comma_def member_limit_def)
  then show ?thesis
    unfolding parse_members.simps [of E nid pl depth t order occ s] assms(1-3) bindE.simps prod.case
    by (simp only: assms(4,6,7) if_False bindE.simps prod.case token_kind.distinct)
qed

lemma run_last_item:
  assumes "order < jl_array_items (je_limits E)" "parse_value E t (item_place nid pl order) (depth + 1) s = Inr (ns, stop, s2)"
    and "next_token (je_limits E) s2 = Inr (d, s3)" "tk_kind d = Array_End"
  shows "parse_items E nid pl depth t order s = Inr (ns, d, s3)"
proof -
  have "item_limit E order = Inr ()" using assms(1) by (simp add: item_limit_def)
  then show ?thesis unfolding parse_items.simps [of E nid pl depth t order s] by (simp only: assms(2-4) refl if_True bindE.simps prod.case)
qed

lemma run_items:
  assumes "order < jl_array_items (je_limits E)" "parse_value E t (item_place nid pl order) (depth + 1) s = Inr (ns, stop, s2)"
    and "next_token (je_limits E) s2 = Inr (d, s3)" "tk_kind d = Comma" "next_token (je_limits E) s3 = Inr (t1, s4)"
    and "parse_items E nid pl depth t1 (order + 1) s4 = Inr (others, c, s')"
  shows "parse_items E nid pl depth t order s = Inr (ns @ others, c, s')"
proof -
  have "item_limit E order = Inr ()" "expect_comma d = Inr ()" using assms(1,4) by (simp_all add: item_limit_def expect_comma_def)
  then show ?thesis unfolding parse_items.simps [of E nid pl depth t order s]
    by (simp only: assms(2-6) if_False bindE.simps prod.case token_kind.distinct)
qed


lemma object_complete:
  assumes w0: "list_all json_space w0" and ms: "complete_members l ms z"
  shows "complete_value l (JObject ms) (123 # w0 @ z)"
  unfolding complete_value_def
proof (intro allI impI)
  fix E :: json_env and pl :: place and depth s w rest
  assume l: "je_limits E = l" and w: "list_all json_space w" and a: "ahead (je_limits E) s (w @ 123 # w0 @ z) rest"
    and i: "within E (pl_pointer pl) depth (JObject ms)"
    and cap: "capacity E s (json_nodes (JObject ms)) (json_keys (JObject ms)) (json_scalars (JObject ms))"
  obtain t s1 where t: "next_token (je_limits E) s = Inr (t, s1)" "tk_kind t = Object_Start" "moves (je_limits E) s (w @ [123]) s1"
    "counters s1 = counters s" "ahead (je_limits E) s1 (w0 @ z) rest"
    using next_mark_ahead [OF a w punctuation_marks(1)] by blast
  have cap1: "capacity E s1 1 0 0" "capacity E s1 (json_nodes (JObject ms)) (json_keys (JObject ms)) (json_scalars (JObject ms))"
    using capacity_counted [of E s 0 _ 0 _ 0 _ s1] cap t(4) capacity_less by (fastforce simp: counted_0)+
  obtain s0 where e: "enter_value E t pl depth s1 = Inr (id_nodes s1, s0)" "core s0 = core s1"
    "counters s0 = (bd_nodes s1 + 1, bd_keys s1, bd_physical s1 + 1, id_nodes s1 + 1, id_values s1, rec_nodes s1 + 1)"
    using enter_value_complete [OF i cap1(1), of t] t(2) by (auto simp: scalar_token_def)
  have c0: "counted s 1 0 0 s0" using e(3) t(4) by (simp add: counted_def counters_def)
  obtain t1 s2 cs c s' where m: "next_token (je_limits E) s0 = Inr (t1, s2)" "tk_kind t1 \<noteq> Object_End"
    "parse_members E (id_nodes s1) pl depth t1 0 (\<lambda>_. 0) s2 = Inr (cs, c, s')" "moves (je_limits E) s0 (w0 @ z) s'"
    "counted s0 (sum_list (map (\<lambda>(k, j). json_nodes j) ms)) (length ms + sum_list (map (\<lambda>(k, j). json_keys j) ms))
          (sum_list (map (\<lambda>(k, j). json_scalars j) ms)) s'"
    "map plain cs = fst (outline_members E (id_nodes s1) pl 0 (\<lambda>_. 0) (id_nodes s0, id_values s0) ms)"
    using ms [unfolded complete_members_def, rule_format, OF l w0, of s0 rest pl depth 0 "id_nodes s1" "\<lambda>_. 0"]
      t(5) ahead_core [OF e(2)] i capacity_counted [OF _ c0] cap by auto
  have "parse_value E t pl depth s1 = Inr (container_node E Object_Node (id_nodes s1) pl (tk_start t) (tk_end c) # cs, tk_end c, s')"
    using m(2,3) by (intro run_object [OF e(1) t(2) m(1)]) simp
  moreover have "moves (je_limits E) s (w @ 123 # w0 @ z) s'"
    using moves_trans [OF t(3) core_moves [OF e(2) m(4)]] by simp
  moreover have "id_nodes s1 = id_nodes s" "id_nodes s0 = id_nodes s + 1" "id_values s0 = id_values s"
    using t(4) counted_ids [OF c0] by (simp_all add: counters_def)
  ultimately show "\<exists>t s1 nodes stop s'. next_token (je_limits E) s = Inr (t, s1) \<and> parse_value E t pl depth s1 = Inr (nodes, stop, s') \<and>
        moves (je_limits E) s (w @ 123 # w0 @ z) s' \<and>
        counted s (json_nodes (JObject ms)) (json_keys (JObject ms)) (json_scalars (JObject ms)) s' \<and>
        map plain nodes = fst (outline E pl (id_nodes s, id_values s) (JObject ms))"
    using t(1) m(6) counted_trans [OF c0 m(5)] by (intro exI conjI) (assumption | simp split: prod.split)+
qed

lemma array_complete:
  assumes w0: "list_all json_space w0" and js: "complete_items l js z"
  shows "complete_value l (JArray js) (91 # w0 @ z)"
  unfolding complete_value_def
proof (intro allI impI)
  fix E :: json_env and pl :: place and depth s w rest
  assume l: "je_limits E = l" and w: "list_all json_space w" and a: "ahead (je_limits E) s (w @ 91 # w0 @ z) rest"
    and i: "within E (pl_pointer pl) depth (JArray js)"
    and cap: "capacity E s (json_nodes (JArray js)) (json_keys (JArray js)) (json_scalars (JArray js))"
  obtain t s1 where t: "next_token (je_limits E) s = Inr (t, s1)" "tk_kind t = Array_Start" "moves (je_limits E) s (w @ [91]) s1"
    "counters s1 = counters s" "ahead (je_limits E) s1 (w0 @ z) rest"
    using next_mark_ahead [OF a w punctuation_marks(3)] by blast
  have cap1: "capacity E s1 1 0 0" "capacity E s1 (json_nodes (JArray js)) (json_keys (JArray js)) (json_scalars (JArray js))"
    using capacity_counted [of E s 0 _ 0 _ 0 _ s1] cap t(4) capacity_less by (fastforce simp: counted_0)+
  obtain s0 where e: "enter_value E t pl depth s1 = Inr (id_nodes s1, s0)" "core s0 = core s1"
    "counters s0 = (bd_nodes s1 + 1, bd_keys s1, bd_physical s1 + 1, id_nodes s1 + 1, id_values s1, rec_nodes s1 + 1)"
    using enter_value_complete [OF i cap1(1), of t] t(2) by (auto simp: scalar_token_def)
  have c0: "counted s 1 0 0 s0" using e(3) t(4) by (simp add: counted_def counters_def)
  obtain t1 s2 cs c s' where m: "next_token (je_limits E) s0 = Inr (t1, s2)" "tk_kind t1 \<noteq> Array_End"
    "parse_items E (id_nodes s1) pl depth t1 0 s2 = Inr (cs, c, s')" "moves (je_limits E) s0 (w0 @ z) s'"
    "counted s0 (sum_list (map json_nodes js)) (sum_list (map json_keys js))
          (sum_list (map json_scalars js)) s'"
    "map plain cs = fst (outline_items E (id_nodes s1) pl 0 (id_nodes s0, id_values s0) js)"
    using js [unfolded complete_items_def, rule_format, OF l w0, of s0 rest pl depth 0 "id_nodes s1"]
      t(5) ahead_core [OF e(2)] i capacity_counted [OF _ c0] cap by auto
  have "parse_value E t pl depth s1 = Inr (container_node E Array_Node (id_nodes s1) pl (tk_start t) (tk_end c) # cs, tk_end c, s')"
    using m(2,3) by (intro run_array [OF e(1) t(2) m(1)]) simp
  moreover have "moves (je_limits E) s (w @ 91 # w0 @ z) s'"
    using moves_trans [OF t(3) core_moves [OF e(2) m(4)]] by simp
  moreover have "id_nodes s1 = id_nodes s" "id_nodes s0 = id_nodes s + 1" "id_values s0 = id_values s"
    using t(4) counted_ids [OF c0] by (simp_all add: counters_def)
  ultimately show "\<exists>t s1 nodes stop s'. next_token (je_limits E) s = Inr (t, s1) \<and> parse_value E t pl depth s1 = Inr (nodes, stop, s') \<and>
        moves (je_limits E) s (w @ 91 # w0 @ z) s' \<and>
        counted s (json_nodes (JArray js)) (json_keys (JArray js)) (json_scalars (JArray js)) s' \<and>
        map plain nodes = fst (outline E pl (id_nodes s, id_values s) (JArray js))"
    using t(1) m(6) counted_trans [OF c0 m(5)] by (intro exI conjI) (assumption | simp split: prod.split)+
qed


lemma empty_object_complete:
  assumes w0: "list_all json_space w0"
  shows "complete_value l (JObject []) (123 # w0 @ [125])"
  unfolding complete_value_def
proof (intro allI impI)
  fix E :: json_env and pl :: place and depth s w rest
  assume l: "je_limits E = l" and w: "list_all json_space w" and a: "ahead (je_limits E) s (w @ 123 # w0 @ [125]) rest"
    and i: "within E (pl_pointer pl) depth (JObject [])"
    and cap: "capacity E s (json_nodes (JObject [])) (json_keys (JObject [])) (json_scalars (JObject []))"
  obtain t s1 where t: "next_token (je_limits E) s = Inr (t, s1)" "tk_kind t = Object_Start" "moves (je_limits E) s (w @ [123]) s1"
    "counters s1 = counters s" "ahead (je_limits E) s1 (w0 @ [125]) rest"
    using next_mark_ahead [OF a w punctuation_marks(1)] by blast
  have cap1: "capacity E s1 1 0 0" using capacity_counted [of E s 0 1 0 0 0 0 s1] cap t(4) by (simp add: counted_0)
  obtain s0 where e: "enter_value E t pl depth s1 = Inr (id_nodes s1, s0)" "core s0 = core s1"
    "counters s0 = (bd_nodes s1 + 1, bd_keys s1, bd_physical s1 + 1, id_nodes s1 + 1, id_values s1, rec_nodes s1 + 1)"
    using enter_value_complete [OF i cap1, of t] t(2) by (auto simp: scalar_token_def)
  have b: "ahead (je_limits E) s0 (w0 @ 125 # []) rest" using t(5) ahead_core [OF e(2)] by simp
  obtain t1 s' where m: "next_token (je_limits E) s0 = Inr (t1, s')" "tk_kind t1 = Object_End" "moves (je_limits E) s0 (w0 @ [125]) s'"
    "counters s' = counters s0"
    using next_mark_ahead [OF b w0 punctuation_marks(2)] by blast
  have "parse_value E t pl depth s1 = Inr ([container_node E Object_Node (id_nodes s1) pl (tk_start t) (tk_end t1)], tk_end t1, s')"
    using m(2) by (intro run_object [OF e(1) t(2) m(1)]) simp
  moreover have "moves (je_limits E) s (w @ 123 # w0 @ [125]) s'"
    using moves_trans [OF t(3) core_moves [OF e(2) m(3)]] by simp
  moreover have "counted s 1 0 0 s'" "id_nodes s1 = id_nodes s" using e(3) t(4) m(4) by (simp_all add: counted_def counters_def)
  ultimately show "\<exists>t s1 nodes stop s'. next_token (je_limits E) s = Inr (t, s1) \<and> parse_value E t pl depth s1 = Inr (nodes, stop, s') \<and>
        moves (je_limits E) s (w @ 123 # w0 @ [125]) s' \<and>
        counted s (json_nodes (JObject [])) (json_keys (JObject [])) (json_scalars (JObject [])) s' \<and>
        map plain nodes = fst (outline E pl (id_nodes s, id_values s) (JObject []))"
    using t(1) by (intro exI conjI) (assumption | simp)+
qed

lemma empty_array_complete:
  assumes w0: "list_all json_space w0"
  shows "complete_value l (JArray []) (91 # w0 @ [93])"
  unfolding complete_value_def
proof (intro allI impI)
  fix E :: json_env and pl :: place and depth s w rest
  assume l: "je_limits E = l" and w: "list_all json_space w" and a: "ahead (je_limits E) s (w @ 91 # w0 @ [93]) rest"
    and i: "within E (pl_pointer pl) depth (JArray [])"
    and cap: "capacity E s (json_nodes (JArray [])) (json_keys (JArray [])) (json_scalars (JArray []))"
  obtain t s1 where t: "next_token (je_limits E) s = Inr (t, s1)" "tk_kind t = Array_Start" "moves (je_limits E) s (w @ [91]) s1"
    "counters s1 = counters s" "ahead (je_limits E) s1 (w0 @ [93]) rest"
    using next_mark_ahead [OF a w punctuation_marks(3)] by blast
  have cap1: "capacity E s1 1 0 0" using capacity_counted [of E s 0 1 0 0 0 0 s1] cap t(4) by (simp add: counted_0)
  obtain s0 where e: "enter_value E t pl depth s1 = Inr (id_nodes s1, s0)" "core s0 = core s1"
    "counters s0 = (bd_nodes s1 + 1, bd_keys s1, bd_physical s1 + 1, id_nodes s1 + 1, id_values s1, rec_nodes s1 + 1)"
    using enter_value_complete [OF i cap1, of t] t(2) by (auto simp: scalar_token_def)
  have b: "ahead (je_limits E) s0 (w0 @ 93 # []) rest" using t(5) ahead_core [OF e(2)] by simp
  obtain t1 s' where m: "next_token (je_limits E) s0 = Inr (t1, s')" "tk_kind t1 = Array_End" "moves (je_limits E) s0 (w0 @ [93]) s'"
    "counters s' = counters s0"
    using next_mark_ahead [OF b w0 punctuation_marks(4)] by blast
  have "parse_value E t pl depth s1 = Inr ([container_node E Array_Node (id_nodes s1) pl (tk_start t) (tk_end t1)], tk_end t1, s')"
    using m(2) by (intro run_array [OF e(1) t(2) m(1)]) simp
  moreover have "moves (je_limits E) s (w @ 91 # w0 @ [93]) s'"
    using moves_trans [OF t(3) core_moves [OF e(2) m(3)]] by simp
  moreover have "counted s 1 0 0 s'" "id_nodes s1 = id_nodes s" using e(3) t(4) m(4) by (simp_all add: counted_def counters_def)
  ultimately show "\<exists>t s1 nodes stop s'. next_token (je_limits E) s = Inr (t, s1) \<and> parse_value E t pl depth s1 = Inr (nodes, stop, s') \<and>
        moves (je_limits E) s (w @ 91 # w0 @ [93]) s' \<and>
        counted s (json_nodes (JArray [])) (json_keys (JArray [])) (json_scalars (JArray [])) s' \<and>
        map plain nodes = fst (outline E pl (id_nodes s, id_values s) (JArray []))"
    using t(1) by (intro exI conjI) (assumption | simp)+
qed


text \<open>A value, with the token in front of it, in the middle of a text.\<close>

lemma value_ahead:
  assumes "complete_value (je_limits E) j x" "list_all json_space w" "ahead (je_limits E) s (w @ x @ y) rest" "follows s (y @ rest)"
    and "within E (pl_pointer pl) depth j" "capacity E s (json_nodes j) (json_keys j) (json_scalars j)"
  obtains t s1 nodes stop s' where "next_token (je_limits E) s = Inr (t, s1)" "parse_value E t pl depth s1 = Inr (nodes, stop, s')"
    "moves (je_limits E) s (w @ x) s'" "counted s (json_nodes j) (json_keys j) (json_scalars j) s'"
    "map plain nodes = fst (outline E pl (id_nodes s, id_values s) j)" "ahead (je_limits E) s' y rest"
proof -
  have "ahead (je_limits E) s ((w @ x) @ y) rest" using assms(3) by simp
  note a = ahead_prefix [OF this] ahead_moves [OF this]
  show thesis
    using assms(1) [unfolded complete_value_def, rule_format, OF refl assms(2) a(1) assms(4-6)] that a(2) by blast
qed

lemma member_ahead:
  assumes kx: "token_fits (je_limits E) String_Token (Text_Value k) kx" and ws: "list_all json_space w" "list_all json_space w1" "list_all json_space w2"
    and v: "complete_value (je_limits E) j x" and a: "ahead (je_limits E) s (w @ kx @ w1 @ 58 # w2 @ x @ y) rest" and f: "follows s (y @ rest)"
    and i: "within E (child_pointer (pl_pointer pl) k) (depth + 1) j" and o: "order < jl_columns (je_limits E)"
    and cap: "capacity E s (json_nodes j) (1 + json_keys j) (json_scalars j)"
  obtains t s1 child s2 nodes stop s' where "next_token (je_limits E) s = Inr (t, s1)" "tk_kind t = String_Token"
    "member_key E t order s1 = Inr (k, child, s2)" "parse_value E child (member_place nid pl k order n) (depth + 1) s2 = Inr (nodes, stop, s')"
    "moves (je_limits E) s (w @ kx @ w1 @ 58 # w2 @ x) s'" "counted s (json_nodes j) (1 + json_keys j) (json_scalars j) s'"
    "map plain nodes = fst (outline E (member_place nid pl k order n) (id_nodes s, id_values s) j)" "ahead (je_limits E) s' y rest"
proof -
  let ?l = "je_limits E"
  have "ahead ?l s ((w @ kx) @ w1 @ 58 # w2 @ x @ y) rest" using a by simp
  then obtain t s1 where t: "next_token ?l s = Inr (t, s1)" "tk_kind t = String_Token" "tk_value t = Text_Value k" "moves ?l s (w @ kx) s1"
    "counters s1 = counters s" "ahead ?l s1 (w1 @ 58 # w2 @ x @ y) rest"
    using next_token_ahead [OF _ ws(1) kx] by blast
  let ?s1 = "s1\<lparr>bd_keys := bd_keys s1 + 1\<rparr>"
  have core1: "core ?s1 = core s1" by (simp add: core_def)
  then have "ahead ?l ?s1 (w1 @ 58 # w2 @ x @ y) rest" using t(6) ahead_core [OF core1] by blast
  then obtain colon s2 where c: "next_token ?l ?s1 = Inr (colon, s2)" "tk_kind colon = Colon" "moves ?l ?s1 (w1 @ [58]) s2"
    "counters s2 = counters ?s1" "ahead ?l s2 (w2 @ x @ y) rest"
    using next_mark_ahead [OF _ ws(2) punctuation_marks(5)] by blast
  have c2: "counted s 0 1 0 s2" using c(4) t(5) by (simp add: counted_def counters_def)
  have m: "moves ?l s ((w @ kx) @ w1 @ [58]) s2" using moves_trans [OF t(4) core_moves [OF core1 c(3)]] .
  have f2: "follows s2 (y @ rest)" using f follows_fault moves_fault [OF m] by blast
  have cap2: "capacity E s2 (json_nodes j) (json_keys j) (json_scalars j)"
    using capacity_counted [OF _ c2, of E "json_nodes j" "json_keys j" "json_scalars j"] cap by simp
  have i2: "within E (pl_pointer (member_place nid pl k order n)) (depth + 1) j" using i by (simp add: member_place_def)
  obtain child s3 nodes stop s' where p: "next_token ?l s2 = Inr (child, s3)"
    "parse_value E child (member_place nid pl k order n) (depth + 1) s3 = Inr (nodes, stop, s')" "moves ?l s2 (w2 @ x) s'"
    "counted s2 (json_nodes j) (json_keys j) (json_scalars j) s'"
    "map plain nodes = fst (outline E (member_place nid pl k order n) (id_nodes s2, id_values s2) j)" "ahead ?l s' y rest"
    using value_ahead [OF v ws(3) c(5) f2 i2 cap2] by metis
  have "bd_keys s1 < jl_keys ?l" using cap t(5) by (simp add: capacity_def counters_def)
  then have "member_key E t order s1 = Inr (k, child, s3)" by (rule run_member [OF t(2,3) o _ c(1,2) p(1)])
  moreover have "moves ?l s (w @ kx @ w1 @ 58 # w2 @ x) s'" using moves_trans [OF m p(3)] by simp
  moreover have "counted s (json_nodes j) (1 + json_keys j) (json_scalars j) s'" using counted_trans [OF c2 p(4)] by simp
  ultimately show thesis using that [OF t(1,2) _ p(2) _ _ _ p(6)] p(5) counted_ids [OF c2] by simp
qed

lemma last_member_complete:
  assumes kx: "token_fits l String_Token (Text_Value k) kx" and ws: "list_all json_space w1" "list_all json_space w2" "list_all json_space w3"
    and v: "complete_value l j x"
  shows "complete_members l [(k, j)] (kx @ w1 @ 58 # w2 @ x @ w3 @ [125])"
  unfolding complete_members_def
proof (intro allI impI)
  fix E :: json_env and nid and pl :: place and depth order occ s w rest
  assume l: "je_limits E = l" and w: "list_all json_space w"
    and a: "ahead (je_limits E) s (w @ kx @ w1 @ 58 # w2 @ x @ w3 @ [125]) rest"
    and i: "members_within E (pl_pointer pl) (depth + 1) [(k, j)]" and o: "order + length [(k, j)] \<le> jl_columns (je_limits E)"
    and cap: "capacity E s (sum_list (map (\<lambda>(k, j). json_nodes j) [(k, j)])) (length [(k, j)] + sum_list (map (\<lambda>(k, j). json_keys j) [(k, j)]))
       (sum_list (map (\<lambda>(k, j). json_scalars j) [(k, j)]))"
  have f: "follows s ((w3 @ [125]) @ rest)" using follows_mark [OF ws(3)] by simp
  have "within E (child_pointer (pl_pointer pl) k) (depth + 1) j" "order < jl_columns (je_limits E)"
    "capacity E s (json_nodes j) (1 + json_keys j) (json_scalars j)"
    using i o cap by simp_all
  then obtain t s1 child s2 nodes stop s3 where p: "next_token (je_limits E) s = Inr (t, s1)" "tk_kind t = String_Token"
    "member_key E t order s1 = Inr (k, child, s2)" "parse_value E child (member_place nid pl k order (occ k)) (depth + 1) s2 = Inr (nodes, stop, s3)"
    "moves (je_limits E) s (w @ kx @ w1 @ 58 # w2 @ x) s3" "counted s (json_nodes j) (1 + json_keys j) (json_scalars j) s3"
    "map plain nodes = fst (outline E (member_place nid pl k order (occ k)) (id_nodes s, id_values s) j)" "ahead (je_limits E) s3 (w3 @ 125 # []) rest"
    using member_ahead [OF kx [folded l] w ws(1,2) v [folded l] a f] by blast
  obtain d s' where d: "next_token (je_limits E) s3 = Inr (d, s')" "tk_kind d = Object_End" "moves (je_limits E) s3 (w3 @ [125]) s'"
    "counters s' = counters s3"
    using next_mark_ahead [OF p(8) ws(3) punctuation_marks(2)] by blast
  have "parse_members E nid pl depth t order occ s1 = Inr (nodes, d, s')"
    by (rule run_last_member [where occ = occ and key = k, OF p(3,4) d(1,2)])
  moreover have "moves (je_limits E) s (w @ kx @ w1 @ 58 # w2 @ x @ w3 @ [125]) s'" using moves_trans [OF p(5) d(3)] by simp
  moreover have "counted s (json_nodes j) (1 + json_keys j) (json_scalars j) s'"
    using counted_trans [OF p(6), of 0 0 0 s'] d(4) by (simp add: counted_0)
  moreover have "map plain nodes = fst (outline_members E nid pl order occ (id_nodes s, id_values s) [(k, j)])"
    using p(7) by (simp split: prod.split)
  ultimately show "\<exists>t s1 nodes c s'. next_token (je_limits E) s = Inr (t, s1) \<and> tk_kind t \<noteq> Object_End \<and>
        parse_members E nid pl depth t order occ s1 = Inr (nodes, c, s') \<and> moves (je_limits E) s (w @ kx @ w1 @ 58 # w2 @ x @ w3 @ [125]) s' \<and>
        counted s (sum_list (map (\<lambda>(k, j). json_nodes j) [(k, j)])) (length [(k, j)] + sum_list (map (\<lambda>(k, j). json_keys j) [(k, j)]))
          (sum_list (map (\<lambda>(k, j). json_scalars j) [(k, j)])) s' \<and>
        map plain nodes = fst (outline_members E nid pl order occ (id_nodes s, id_values s) [(k, j)])"
    using p(1,2) by (intro exI conjI) (assumption | simp)+
qed


lemma member_complete:
  assumes kx: "token_fits l String_Token (Text_Value k) kx" and ws: "list_all json_space w1" "list_all json_space w2" "list_all json_space w3"
    and w4: "list_all json_space w4" and v: "complete_value l j x" and ms: "complete_members l ms z" and ne: "ms \<noteq> []"
  shows "complete_members l ((k, j) # ms) (kx @ w1 @ 58 # w2 @ x @ w3 @ 44 # w4 @ z)"
  unfolding complete_members_def
proof (intro allI impI)
  fix E :: json_env and nid and pl :: place and depth order occ s w rest
  let ?n = "sum_list (map (\<lambda>(k, j). json_nodes j) ms)" and ?k = "length ms + sum_list (map (\<lambda>(k, j). json_keys j) ms)"
    and ?v = "sum_list (map (\<lambda>(k, j). json_scalars j) ms)"
  assume l: "je_limits E = l" and w: "list_all json_space w"
    and a: "ahead (je_limits E) s (w @ kx @ w1 @ 58 # w2 @ x @ w3 @ 44 # w4 @ z) rest"
    and i: "members_within E (pl_pointer pl) (depth + 1) ((k, j) # ms)" and o: "order + length ((k, j) # ms) \<le> jl_columns (je_limits E)"
    and cap: "capacity E s (sum_list (map (\<lambda>(k, j). json_nodes j) ((k, j) # ms)))
       (length ((k, j) # ms) + sum_list (map (\<lambda>(k, j). json_keys j) ((k, j) # ms))) (sum_list (map (\<lambda>(k, j). json_scalars j) ((k, j) # ms)))"
  have f: "follows s ((w3 @ 44 # w4 @ z) @ rest)" using follows_mark [OF ws(3)] by simp
  have cap': "capacity E s (json_nodes j + ?n) (1 + json_keys j + ?k) (json_scalars j + ?v)" using cap by (simp add: ac_simps)
  have "within E (child_pointer (pl_pointer pl) k) (depth + 1) j" "order < jl_columns (je_limits E)"
    "capacity E s (json_nodes j) (1 + json_keys j) (json_scalars j)"
    using i o capacity_less [OF cap'] by simp_all
  then obtain t s1 child s2 nodes stop s3 where p: "next_token (je_limits E) s = Inr (t, s1)" "tk_kind t = String_Token"
    "member_key E t order s1 = Inr (k, child, s2)" "parse_value E child (member_place nid pl k order (occ k)) (depth + 1) s2 = Inr (nodes, stop, s3)"
    "moves (je_limits E) s (w @ kx @ w1 @ 58 # w2 @ x) s3" "counted s (json_nodes j) (1 + json_keys j) (json_scalars j) s3"
    "map plain nodes = fst (outline E (member_place nid pl k order (occ k)) (id_nodes s, id_values s) j)" "ahead (je_limits E) s3 (w3 @ 44 # w4 @ z) rest"
    using member_ahead [OF kx [folded l] w ws(1,2) v [folded l] a f] by blast
  obtain d s4 where d: "next_token (je_limits E) s3 = Inr (d, s4)" "tk_kind d = Comma" "moves (je_limits E) s3 (w3 @ [44]) s4"
    "counters s4 = counters s3" "ahead (je_limits E) s4 (w4 @ z) rest"
    using next_mark_ahead [OF p(8) ws(3) punctuation_marks(6)] by blast
  have c4: "counted s (json_nodes j) (1 + json_keys j) (json_scalars j) s4"
    using counted_trans [OF p(6), of 0 0 0 s4] d(4) by (simp add: counted_0)
  have more_ms: "order + 1 < jl_columns (je_limits E)" "order + 1 + length ms \<le> jl_columns (je_limits E)" using o ne by (cases ms; simp)+
  obtain t1 s5 others c s' where q: "next_token (je_limits E) s4 = Inr (t1, s5)"
    "parse_members E nid pl depth t1 (order + 1) (occ(k := occ k + 1)) s5 = Inr (others, c, s')" "moves (je_limits E) s4 (w4 @ z) s'"
    "counted s4 ?n ?k ?v s'"
    "map plain others = fst (outline_members E nid pl (order + 1) (occ(k := occ k + 1)) (id_nodes s4, id_values s4) ms)"
    using ms [unfolded complete_members_def, rule_format, OF l w4 d(5), of pl depth "order + 1" nid "occ(k := occ k + 1)"]
      i more_ms(2) capacity_counted [OF cap' c4] by auto
  have "parse_members E nid pl depth t order occ s1 = Inr (nodes @ others, c, s')"
    by (rule run_members [where occ = occ and key = k, OF p(3,4) d(1,2) more_ms(1) q(1,2)])
  moreover have "moves (je_limits E) s (w @ kx @ w1 @ 58 # w2 @ x @ w3 @ 44 # w4 @ z) s'"
    using moves_trans [OF p(5) moves_trans [OF d(3) q(3)]] by simp
  moreover have "map plain (nodes @ others) = fst (outline_members E nid pl order occ (id_nodes s, id_values s) ((k, j) # ms))"
  proof -
    obtain ns c1 where o1: "outline E (member_place nid pl k order (occ k)) (id_nodes s, id_values s) j = (ns, c1)" by (meson surj_pair)
    have "c1 = (id_nodes s4, id_values s4)"
      using outline_counts(1) [of E "member_place nid pl k order (occ k)" "(id_nodes s, id_values s)" j] o1 counted_ids [OF c4] by simp
    then show ?thesis using p(7) q(5) o1 by (simp split: prod.split)
  qed
  moreover have "counted s (sum_list (map (\<lambda>(k, j). json_nodes j) ((k, j) # ms)))
       (length ((k, j) # ms) + sum_list (map (\<lambda>(k, j). json_keys j) ((k, j) # ms))) (sum_list (map (\<lambda>(k, j). json_scalars j) ((k, j) # ms))) s'"
    using counted_trans [OF c4 q(4)] by (simp add: ac_simps)
  ultimately show "\<exists>t s1 nodes c s'. next_token (je_limits E) s = Inr (t, s1) \<and> tk_kind t \<noteq> Object_End \<and>
        parse_members E nid pl depth t order occ s1 = Inr (nodes, c, s') \<and>
        moves (je_limits E) s (w @ kx @ w1 @ 58 # w2 @ x @ w3 @ 44 # w4 @ z) s' \<and>
        counted s (sum_list (map (\<lambda>(k, j). json_nodes j) ((k, j) # ms))) (length ((k, j) # ms) + sum_list (map (\<lambda>(k, j). json_keys j) ((k, j) # ms)))
          (sum_list (map (\<lambda>(k, j). json_scalars j) ((k, j) # ms))) s' \<and>
        map plain nodes = fst (outline_members E nid pl order occ (id_nodes s, id_values s) ((k, j) # ms))"
    using p(1,2) by (intro exI conjI) (assumption | simp)+
qed

lemma value_kind: "parse_value E t pl depth s = Inr r \<Longrightarrow> scalar_token t \<or> tk_kind t = Object_Start \<or> tk_kind t = Array_Start"
  unfolding parse_value.simps [of E t pl depth s] using enter_value_Inr(5) by (blast elim: bindPE)

lemma last_item_complete:
  assumes v: "complete_value l j x" and w3: "list_all json_space w3"
  shows "complete_items l [j] (x @ w3 @ [93])"
  unfolding complete_items_def
proof (intro allI impI)
  fix E :: json_env and nid and pl :: place and depth order s w rest
  assume l: "je_limits E = l" and w: "list_all json_space w" and a: "ahead (je_limits E) s (w @ x @ w3 @ [93]) rest"
    and i: "items_within E (pl_pointer pl) (depth + 1) order [j]" and o: "order + length [j] \<le> jl_array_items (je_limits E)"
    and cap: "capacity E s (sum_list (map json_nodes [j])) (sum_list (map json_keys [j])) (sum_list (map json_scalars [j]))"
  have f: "follows s ((w3 @ [93]) @ rest)" using follows_mark [OF w3] by simp
  have o': "order < jl_array_items (je_limits E)" using o by simp
  have "within E (pl_pointer (item_place nid pl order)) (depth + 1) j" "capacity E s (json_nodes j) (json_keys j) (json_scalars j)"
    using i cap by (simp_all add: item_place_def)
  then obtain t s1 nodes stop s3 where p: "next_token (je_limits E) s = Inr (t, s1)"
    "parse_value E t (item_place nid pl order) (depth + 1) s1 = Inr (nodes, stop, s3)"
    "moves (je_limits E) s (w @ x) s3" "counted s (json_nodes j) (json_keys j) (json_scalars j) s3"
    "map plain nodes = fst (outline E (item_place nid pl order) (id_nodes s, id_values s) j)" "ahead (je_limits E) s3 (w3 @ 93 # []) rest"
    using value_ahead [OF v [folded l] w a f] by blast
  obtain d s' where d: "next_token (je_limits E) s3 = Inr (d, s')" "tk_kind d = Array_End" "moves (je_limits E) s3 (w3 @ [93]) s'"
    "counters s' = counters s3"
    using next_mark_ahead [OF p(6) w3 punctuation_marks(4)] by blast
  have "parse_items E nid pl depth t order s1 = Inr (nodes, d, s')" by (rule run_last_item [OF o' p(2) d(1,2)])
  moreover have "moves (je_limits E) s (w @ x @ w3 @ [93]) s'" using moves_trans [OF p(3) d(3)] by simp
  moreover have "counted s (json_nodes j) (json_keys j) (json_scalars j) s'"
    using counted_trans [OF p(4), of 0 0 0 s'] d(4) by (simp add: counted_0)
  moreover have "map plain nodes = fst (outline_items E nid pl order (id_nodes s, id_values s) [j])"
    using p(5) by (simp split: prod.split)
  moreover have "tk_kind t \<noteq> Array_End" using value_kind [OF p(2)] by (auto simp: scalar_token_def)
  ultimately show "\<exists>t s1 nodes c s'. next_token (je_limits E) s = Inr (t, s1) \<and> tk_kind t \<noteq> Array_End \<and>
        parse_items E nid pl depth t order s1 = Inr (nodes, c, s') \<and> moves (je_limits E) s (w @ x @ w3 @ [93]) s' \<and>
        counted s (sum_list (map json_nodes [j])) (sum_list (map json_keys [j])) (sum_list (map json_scalars [j])) s' \<and>
        map plain nodes = fst (outline_items E nid pl order (id_nodes s, id_values s) [j])"
    using p(1) by (intro exI conjI) (assumption | simp)+
qed

lemma item_complete:
  assumes v: "complete_value l j x" and w3: "list_all json_space w3" and w4: "list_all json_space w4" and js: "complete_items l js z"
  shows "complete_items l (j # js) (x @ w3 @ 44 # w4 @ z)"
  unfolding complete_items_def
proof (intro allI impI)
  fix E :: json_env and nid and pl :: place and depth order s w rest
  let ?n = "sum_list (map json_nodes js)" and ?k = "sum_list (map json_keys js)" and ?v = "sum_list (map json_scalars js)"
  assume l: "je_limits E = l" and w: "list_all json_space w" and a: "ahead (je_limits E) s (w @ x @ w3 @ 44 # w4 @ z) rest"
    and i: "items_within E (pl_pointer pl) (depth + 1) order (j # js)" and o: "order + length (j # js) \<le> jl_array_items (je_limits E)"
    and cap: "capacity E s (sum_list (map json_nodes (j # js))) (sum_list (map json_keys (j # js))) (sum_list (map json_scalars (j # js)))"
  have f: "follows s ((w3 @ 44 # w4 @ z) @ rest)" using follows_mark [OF w3] by simp
  have o': "order < jl_array_items (je_limits E)" "order + 1 + length js \<le> jl_array_items (je_limits E)" using o by simp_all
  have cap': "capacity E s (json_nodes j + ?n) (json_keys j + ?k) (json_scalars j + ?v)" using cap by simp
  have "within E (pl_pointer (item_place nid pl order)) (depth + 1) j" "capacity E s (json_nodes j) (json_keys j) (json_scalars j)"
    using i capacity_less [OF cap'] by (simp_all add: item_place_def)
  then obtain t s1 nodes stop s3 where p: "next_token (je_limits E) s = Inr (t, s1)"
    "parse_value E t (item_place nid pl order) (depth + 1) s1 = Inr (nodes, stop, s3)"
    "moves (je_limits E) s (w @ x) s3" "counted s (json_nodes j) (json_keys j) (json_scalars j) s3"
    "map plain nodes = fst (outline E (item_place nid pl order) (id_nodes s, id_values s) j)" "ahead (je_limits E) s3 (w3 @ 44 # w4 @ z) rest"
    using value_ahead [OF v [folded l] w a f] by blast
  obtain d s4 where d: "next_token (je_limits E) s3 = Inr (d, s4)" "tk_kind d = Comma" "moves (je_limits E) s3 (w3 @ [44]) s4"
    "counters s4 = counters s3" "ahead (je_limits E) s4 (w4 @ z) rest"
    using next_mark_ahead [OF p(6) w3 punctuation_marks(6)] by blast
  have c4: "counted s (json_nodes j) (json_keys j) (json_scalars j) s4"
    using counted_trans [OF p(4), of 0 0 0 s4] d(4) by (simp add: counted_0)
  obtain t1 s5 others c s' where q: "next_token (je_limits E) s4 = Inr (t1, s5)"
    "parse_items E nid pl depth t1 (order + 1) s5 = Inr (others, c, s')" "moves (je_limits E) s4 (w4 @ z) s'" "counted s4 ?n ?k ?v s'"
    "map plain others = fst (outline_items E nid pl (order + 1) (id_nodes s4, id_values s4) js)"
    using js [unfolded complete_items_def, rule_format, OF l w4 d(5), of pl depth "order + 1" nid] i o'(2) capacity_counted [OF cap' c4] by auto
  have "parse_items E nid pl depth t order s1 = Inr (nodes @ others, c, s')"
    by (rule run_items [OF o'(1) p(2) d(1,2) q(1,2)])
  moreover have "moves (je_limits E) s (w @ x @ w3 @ 44 # w4 @ z) s'" using moves_trans [OF p(3) moves_trans [OF d(3) q(3)]] by simp
  moreover have "map plain (nodes @ others) = fst (outline_items E nid pl order (id_nodes s, id_values s) (j # js))"
  proof -
    obtain ns c1 where o1: "outline E (item_place nid pl order) (id_nodes s, id_values s) j = (ns, c1)" by (meson surj_pair)
    have "c1 = (id_nodes s4, id_values s4)"
      using outline_counts(1) [of E "item_place nid pl order" "(id_nodes s, id_values s)" j] o1 counted_ids [OF c4] by simp
    then show ?thesis using p(5) q(5) o1 by (simp split: prod.split)
  qed
  moreover have "tk_kind t \<noteq> Array_End" using value_kind [OF p(2)] by (auto simp: scalar_token_def)
  ultimately show "\<exists>t s1 nodes c s'. next_token (je_limits E) s = Inr (t, s1) \<and> tk_kind t \<noteq> Array_End \<and>
        parse_items E nid pl depth t order s1 = Inr (nodes, c, s') \<and> moves (je_limits E) s (w @ x @ w3 @ 44 # w4 @ z) s' \<and>
        counted s (sum_list (map json_nodes (j # js))) (sum_list (map json_keys (j # js))) (sum_list (map json_scalars (j # js))) s' \<and>
        map plain nodes = fst (outline_items E nid pl order (id_nodes s, id_values s) (j # js))"
    using p(1) counted_trans [OF c4 q(4)] by (intro exI conjI) (assumption | simp)+
qed

lemma texts_not_empty: "members_text l ms z \<Longrightarrow> ms \<noteq> []" "items_text l js z \<Longrightarrow> js \<noteq> []"
  by (auto elim: members_text.cases items_text.cases)

lemma complete_texts:
  "value_text l j x \<Longrightarrow> complete_value l j x"
  "members_text l ms z \<Longrightarrow> complete_members l ms z"
  "items_text l js z' \<Longrightarrow> complete_items l js z'"
proof (induction rule: value_text_members_text_items_text.inducts)
  case (string v x)
  then show ?case by (intro scalar_complete [OF string]) (auto simp: scalar_value_def)
next
  case (number v x)
  then show ?case by (intro scalar_complete [OF number]) (auto simp: scalar_value_def number_hint_def)
next
  case (true v x)
  then show ?case by (intro scalar_complete [OF true]) (auto simp: scalar_value_def)
next
  case (false v x)
  then show ?case by (intro scalar_complete [OF false]) (auto simp: scalar_value_def)
next
  case (null v x)
  then show ?case by (intro scalar_complete [OF null]) (auto simp: scalar_value_def)
next
  case (empty_object w)
  then show ?case by (rule empty_object_complete)
next
  case (object w ms z)
  then show ?case by (intro object_complete)
next
  case (empty_array w)
  then show ?case by (rule empty_array_complete)
next
  case (array w js z)
  then show ?case by (intro array_complete)
next
  case (last_member k kx w1 w2 j x w3)
  then show ?case by (intro last_member_complete)
next
  case (member k kx w1 w2 j x w3 w4 ms z)
  then show ?case by (intro member_complete) (assumption | rule texts_not_empty(1))+
next
  case (last_item j x w)
  then show ?case by (intro last_item_complete)
next
  case (item j x w w' js z)
  then show ?case by (intro item_complete)
qed

end
