(* ===== verification/Json_Records.thy ===== *)
theory Json_Records
  imports Json_Complete
begin

text \<open>
  One record and what is decided from a sample: \<open>_parse_complete_record\<close>, \<open>_sample_physical_lines\<close>,
  \<open>_first_non_whitespace\<close>, \<open>_valid_json_lines_in_sample\<close>, \<open>_has_json_probe_prefix\<close> and the verdicts of
  \<open>probe_json_document\<close> and \<open>probe_json_lines\<close> of \<open>parsers/builtin/_json.py\<close>. Reading and decoding of the sample
  and the advisory signals of a probe are not part of it.
\<close>

section \<open>A complete record\<close>

record parsed_tree =
  pt_nodes :: "tree_node list"
  pt_end :: position
  pt_count :: nat
  pt_chars :: nat

text \<open>A character source on the text of a record, sharing the counters of the run.\<close>

definition string_characters :: "pystr \<Rightarrow> nat \<Rightarrow> json_state \<Rightarrow> json_state" where
  "string_characters txt line s = s\<lparr>lx_text := txt, lx_fault := None, lx_pos := \<lparr>at_index = 0, at_line = line, at_column = 0\<rparr>,
     lx_prev_cr := False, lx_record := None\<rparr>"

definition new_parser :: "json_state \<Rightarrow> json_state" where
  "new_parser s = s\<lparr>rec_nodes := 0\<rparr>"

definition root_place :: place where
  "root_place = \<lparr>pl_parent = None, pl_name = ''root'', pl_raw_name = None, pl_order = 0, pl_pointer = [], pl_path = []\<rparr>"

text \<open>
  The root value after its first token, up to the end of the input. A new parser has counted no nodes;
  the lexer does not touch that counter, so it is reset before the first token is read.
\<close>

definition parse_root :: "json_env \<Rightarrow> token \<Rightarrow> json_state \<Rightarrow> json_error + parsed_tree \<times> json_state" where
  "parse_root E first s =
     bindE (parse_value E first root_place 1 s) (\<lambda>(nodes, stop, s).
     bindE (next_token (je_limits E) s) (\<lambda>(trailing, s).
       if tk_kind trailing \<noteq> End_Of_File then Inl (Json_Syntax ''trailing_content'' (at_line (tk_start trailing)))
       else case end_record (lx_pos s) s of (chars, s) \<Rightarrow>
         Inr (\<lparr>pt_nodes = nodes, pt_end = stop, pt_count = length nodes, pt_chars = chars\<rparr>, s)))"

definition parse_complete_record :: "json_env \<Rightarrow> pystr \<Rightarrow> nat \<Rightarrow> json_state \<Rightarrow> json_error + parsed_tree \<times> json_state" where
  "parse_complete_record E txt line s =
     bindE (next_token (je_limits E) (begin_record (string_characters txt line (new_parser s)))) (\<lambda>(first, s). parse_root E first s)"

section \<open>Samples\<close>

definition first_non_whitespace :: "pystr \<Rightarrow> nat option" where
  "first_non_whitespace txt = List.find (\<lambda>c. \<not> json_space c) txt"

text \<open>The lines of a sample: line number and text; the text after the last line break counts in a complete sample.\<close>

function sample_lines :: "bool \<Rightarrow> nat \<Rightarrow> pystr \<Rightarrow> pystr \<Rightarrow> (nat \<times> pystr) list" where
  "sample_lines whole n line [] = (if line \<noteq> [] \<and> whole then [(n, line)] else [])"
| "sample_lines whole n line (c # cs) =
     (if c \<noteq> 13 \<and> c \<noteq> 10 then sample_lines whole n (line @ [c]) cs
      else (n, line) # sample_lines whole (n + 1) [] (if c = 13 \<and> cs \<noteq> [] \<and> hd cs = 10 then tl cs else cs))"
  by pat_completeness auto
termination by (relation "measure (\<lambda>(_, _, _, cs). length cs)") auto

definition sample_physical_lines :: "bool \<Rightarrow> pystr \<Rightarrow> (nat \<times> pystr) list" where
  "sample_physical_lines whole txt = sample_lines whole 1 [] txt"

definition fresh_counters :: json_state where
  "fresh_counters = \<lparr>lx_text = [], lx_fault = None, lx_pos = \<lparr>at_index = 0, at_line = 1, at_column = 0\<rparr>, lx_prev_cr = False,
     lx_record = None, bd_nodes = 0, bd_keys = 0, bd_physical = 0, id_nodes = 0, id_values = 0, rec_nodes = 0\<rparr>"

definition probe_env :: "json_limits \<Rightarrow> nat option \<Rightarrow> json_env" where
  "probe_env l index = \<lparr>je_limits = l, je_depth = jl_nesting l, je_objects = max 2 (jl_nodes l * 2), je_record_index = index,
     je_record_nodes = None\<rparr>"

definition probe_record :: "json_limits \<Rightarrow> nat option \<Rightarrow> pystr \<Rightarrow> nat \<Rightarrow> json_error + unit" where
  "probe_record l index txt line = bindE (parse_complete_record (probe_env l index) txt line fresh_counters) (\<lambda>_. Inr ())"

definition json_token_starts :: pystr where
  "json_token_starts = pstr ''{[-0123456789tfn'' @ [34]"

fun valid_lines :: "json_limits \<Rightarrow> bool \<Rightarrow> nat \<Rightarrow> (nat \<times> pystr) list \<Rightarrow> json_error + nat" where
  "valid_lines l raise valid [] = Inr valid"
| "valid_lines l raise valid ((n, line) # lines) =
     (case first_non_whitespace line of
        None \<Rightarrow> valid_lines l raise valid lines
      | Some c \<Rightarrow>
          if jl_probe_records l \<le> valid then Inr valid
          else (case probe_record l (Some valid) line n of
            Inr _ \<Rightarrow> valid_lines l raise (valid + 1) lines
          | Inl (Json_Syntax reason _) \<Rightarrow>
              if raise \<and> 2 \<le> valid \<and> c \<in> set json_token_starts then Inl (Json_Malformed reason n (Some (valid + 1)))
              else Inr valid
          | Inl e \<Rightarrow> Inl e))"

definition valid_json_lines_in_sample :: "json_limits \<Rightarrow> pystr \<Rightarrow> bool \<Rightarrow> bool \<Rightarrow> json_error + nat" where
  "valid_json_lines_in_sample l txt whole raise = valid_lines l raise 0 (sample_physical_lines whole txt)"

definition has_json_probe_prefix :: "json_limits \<Rightarrow> pystr \<Rightarrow> json_error + bool" where
  "has_json_probe_prefix l prefix =
     (if first_non_whitespace prefix = None then Inr False
      else case probe_record l None prefix 1 of
        Inr _ \<Rightarrow> Inr True
      | Inl (Json_Syntax reason _) \<Rightarrow>
          if reason = ''unexpected_eof'' then Inr True
          else bindE (valid_json_lines_in_sample l prefix False False) (\<lambda>n. Inr (2 \<le> n))
      | Inl e \<Rightarrow> Inl e)"

text \<open>Whether a probe supports a source of \<open>size\<close> bytes with the decoded sample \<open>txt\<close>, complete or not.\<close>

definition probe_document_supported :: "json_limits \<Rightarrow> nat \<Rightarrow> pystr \<Rightarrow> bool \<Rightarrow> json_error + bool" where
  "probe_document_supported l size_bytes txt whole =
     (if 0 < size_bytes \<and> first_non_whitespace txt \<noteq> None
      then bindE (valid_json_lines_in_sample l txt whole False) (\<lambda>json_lines.
        if json_lines < 2 then (case probe_record l None txt 1 of
            Inr _ \<Rightarrow> Inr whole
          | Inl (Json_Syntax reason _) \<Rightarrow>
              Inr (\<not> whole \<and> reason = ''unexpected_eof'' \<and> first_non_whitespace txt \<in> {Some 123, Some 91})
          | Inl e \<Rightarrow> Inl e)
        else Inr False)
      else Inr False)"

definition probe_lines_supported :: "json_limits \<Rightarrow> pystr \<Rightarrow> bool \<Rightarrow> json_error + bool" where
  "probe_lines_supported l txt whole = bindE (valid_json_lines_in_sample l txt whole True) (\<lambda>n. Inr (2 \<le> n))"

section \<open>The parser and the grammar\<close>

text \<open>\<open>txt\<close> is the value \<open>j\<close> with white space around it.\<close>

definition json_text :: "json_limits \<Rightarrow> json \<Rightarrow> pystr \<Rightarrow> bool" where
  "json_text l j txt \<longleftrightarrow> (\<exists>w x w'. txt = w @ x @ w' \<and> list_all json_space w \<and> list_all json_space w' \<and> value_text l j x)"

definition fits_record :: "json_env \<Rightarrow> json_state \<Rightarrow> json \<Rightarrow> pystr \<Rightarrow> bool" where
  "fits_record E s j txt \<longleftrightarrow> json_text (je_limits E) j txt \<and> length txt \<le> jl_record_chars (je_limits E) \<and> within E [] 1 j \<and>
     capacity E (new_parser s) (json_nodes j) (json_keys j) (json_scalars j)"

abbreviation record_start :: "pystr \<Rightarrow> nat \<Rightarrow> json_state \<Rightarrow> json_state" where
  "record_start txt line s \<equiv> begin_record (string_characters txt line s)"

lemma record_start_fields [simp]:
  "lx_text (record_start txt line s) = txt" "lx_fault (record_start txt line s) = None" "lx_record (record_start txt line s) = Some 0"
  "at_index (lx_pos (record_start txt line s)) = 0" "counters (record_start txt line s) = counters s"
  by (simp_all add: begin_record_def string_characters_def counters_def)

lemma new_parser_simps [simp]:
  "core (new_parser s) = core s" "id_nodes (new_parser s) = id_nodes s" "id_values (new_parser s) = id_values s" "rec_nodes (new_parser s) = 0"
  "bd_nodes (new_parser s) = bd_nodes s" "bd_keys (new_parser s) = bd_keys s" "bd_physical (new_parser s) = bd_physical s"
  by (simp_all add: new_parser_def core_def)

lemma capacity_books: "counters s = counters s' \<Longrightarrow> capacity E s n k v = capacity E s' n k v"
  by (auto simp: capacity_def counters_def split: option.split)

lemma length_outline: "length (fst (outline E pl c j)) = json_nodes j"
  "length (fst (outline_members E nid pl order occ c ms)) = sum_list (map (\<lambda>(k, j). json_nodes j) ms)"
  "length (fst (outline_items E nid pl order c js)) = sum_list (map json_nodes js)"
  by (induction E pl c j and E nid pl order occ c ms and E nid pl order c js rule: outline_outline_members_outline_items.induct)
    (auto simp: outline_scalar_def simp del: fun_upd_apply split: prod.splits)


lemma moves_from_start:
  assumes "moves l (record_start txt line s) t s'" "lx_text s' = []"
  shows "t = txt" "length txt \<le> jl_record_chars l" "end_record (lx_pos s') s' = (length txt, s'\<lparr>lx_record := None\<rparr>)"
proof -
  let ?s = "record_start txt line s"
  show t: "t = txt" using moves_text [OF assms(1)] assms(2) by simp
  have c: "core s' = after txt (core ?s)" using moves_core_eq [OF assms(1)] t by simp
  have "txt = [] \<or> room l (core ?s) (length txt)" using assms(1) t by (simp add: moves_def takes_def)
  then show "length txt \<le> jl_record_chars l" by (auto simp: room_def)
  have "lx_record s' = Some 0" "at_index (lx_pos s') = length txt"
    using arg_cong [OF c, of lx_record] arg_cong [OF c, of "\<lambda>s. at_index (lx_pos s)"] by simp_all
  then show "end_record (lx_pos s') s' = (length txt, s'\<lparr>lx_record := None\<rparr>)" by (simp add: end_record_def)
qed

lemma end_record_books: "end_record p s = (n, s') \<Longrightarrow> counters s' = counters s"
  by (auto simp: end_record_def counters_def)

lemma root_sound:
  assumes "next_token (je_limits E) s = Inr (first, s1)" "parse_root E first s1 = Inr (T, s')"
  obtains j s3 where "json_text (je_limits E) j (lx_text s)" "within E [] 1 j"
    "map plain (pt_nodes T) = fst (outline E root_place (id_nodes s, id_values s) j)"
    "pt_count T = json_nodes j" "counted s (json_nodes j) (json_keys j) (json_scalars j) s'" "in_budget E s \<longrightarrow> in_budget E s'"
    "moves (je_limits E) s (lx_text s) s3" "lx_text s3 = []" "end_record (lx_pos s3) s3 = (pt_chars T, s')"
proof -
  let ?l = "je_limits E"
  obtain nodes stop s2 where v: "parse_value E first root_place 1 s1 = Inr (nodes, stop, s2)"
    and r: "bindE (next_token ?l s2) (\<lambda>(trailing, s).
       if tk_kind trailing \<noteq> End_Of_File then Inl (Json_Syntax ''trailing_content'' (at_line (tk_start trailing)))
       else case end_record (lx_pos s) s of (chars, s) \<Rightarrow>
         Inr (\<lparr>pt_nodes = nodes, pt_end = stop, pt_count = length nodes, pt_chars = chars\<rparr>, s)) = Inr (T, s')"
    using assms(2) unfolding parse_root_def by (rule bindP3E)
  obtain e s3 where e: "next_token ?l s2 = Inr (e, s3)" "tk_kind e = End_Of_File"
    and T: "(case end_record (lx_pos s3) s3 of (chars, s) \<Rightarrow>
         Inr (\<lparr>pt_nodes = nodes, pt_end = stop, pt_count = length nodes, pt_chars = chars\<rparr>, s)) = (Inr (T, s') :: json_error + parsed_tree \<times> json_state)"
    using r by (elim bindPE) (simp split: if_split_asm)
  obtain w x where w: "moves ?l s (w @ x) s1" "list_all json_space w" "token_fits ?l (tk_kind first) (tk_value first) x" "counters s1 = counters s"
    using next_token_mark [OF assms(1) parse_kind(1) [OF v]] by blast
  have "sound_value E root_place 1 s1 x nodes s2" using parse_sound(1) v w(3) by blast
  then obtain j y where y: "moves ?l s1 y s2" "value_text ?l j (x @ y)"
    "counted s1 (json_nodes j) (json_keys j) (json_scalars j) s2"
    "map plain nodes = fst (outline E root_place (id_nodes s1, id_values s1) j)" "within E [] 1 j"
    "in_budget E s1 \<longrightarrow> in_budget E s2"
    unfolding sound_value_def by (auto simp: root_place_def)
  obtain w' where w': "moves ?l s2 w' s3" "list_all json_space w'" "counters s3 = counters s2" "exhausted s3"
    using next_token_moves [OF e(1)] e(2) by auto
  note m = moves_trans [OF w(1) moves_trans [OF y(1) w'(1)]]
  have end3: "lx_text s3 = []" using w'(4) by (simp add: peek_Inr)
  have tx: "lx_text s = w @ (x @ y) @ w'" using moves_text [OF m] end3 by simp
  then have "json_text ?l j (lx_text s)" unfolding json_text_def using w(2) w'(2) y(2) by blast
  moreover have c: "end_record (lx_pos s3) s3 = (pt_chars T, s')" "pt_nodes T = nodes" "pt_count T = length nodes"
    using T by (auto split: prod.splits)
  moreover have b3: "counters s' = counters s2" using end_record_books [OF c(1)] w'(3) by simp
  moreover have "counted s (json_nodes j) (json_keys j) (json_scalars j) s'"
    using y(3) w(4) b3 by (simp add: counted_def counters_def)
  moreover have "length nodes = json_nodes j" using arg_cong [OF y(4), of length] by (simp add: length_outline)
  moreover have "in_budget E s \<longrightarrow> in_budget E s'" using y(6) in_budget_books [OF b3] in_budget_books [OF w(4)] by blast
  moreover have "moves ?l s (lx_text s) s3" using m tx by simp
  ultimately show thesis using that y(4,5) w(4) end3 by (simp add: counters_def)
qed

lemma record_sound:
  assumes "parse_complete_record E txt line s = Inr (T, s')"
  obtains j where "json_text (je_limits E) j txt" "length txt \<le> jl_record_chars (je_limits E)" "within E [] 1 j"
    "map plain (pt_nodes T) = fst (outline E root_place (id_nodes s, id_values s) j)"
    "pt_count T = json_nodes j" "pt_chars T = length txt" "counted (new_parser s) (json_nodes j) (json_keys j) (json_scalars j) s'"
    "in_budget E (new_parser s) \<longrightarrow> in_budget E s'"
proof -
  let ?s = "record_start txt line (new_parser s)"
  obtain first s1 where f: "next_token (je_limits E) ?s = Inr (first, s1)" "parse_root E first s1 = Inr (T, s')"
    using assms unfolding parse_complete_record_def by (rule bindPE)
  obtain j s3 where j: "json_text (je_limits E) j txt" "within E [] 1 j"
    "map plain (pt_nodes T) = fst (outline E root_place (id_nodes ?s, id_values ?s) j)"
    "pt_count T = json_nodes j" "counted ?s (json_nodes j) (json_keys j) (json_scalars j) s'" "in_budget E ?s \<longrightarrow> in_budget E s'"
    "moves (je_limits E) ?s txt s3" "lx_text s3 = []" "end_record (lx_pos s3) s3 = (pt_chars T, s')"
    using root_sound [OF f] by (metis record_start_fields(1))
  have b: "counters ?s = counters (new_parser s)" by simp
  show thesis
    using that [OF j(1) moves_from_start(2) [OF j(7,8)] j(2)] j(3-6,9) moves_from_start(3) [OF j(7,8)] in_budget_books [OF b] b
    by (simp add: counted_def counters_def del: record_start_fields)
qed

lemma record_complete:
  assumes "fits_record E s j txt"
  obtains T s' where "parse_complete_record E txt line s = Inr (T, s')"
    "map plain (pt_nodes T) = fst (outline E root_place (id_nodes s, id_values s) j)"
proof -
  let ?l = "je_limits E" and ?s = "record_start txt line (new_parser s)"
  obtain w x w' where tx: "txt = w @ x @ w'" "list_all json_space w" "list_all json_space w'" "value_text ?l j x"
    and len: "length txt \<le> jl_record_chars ?l" and i: "within E (pl_pointer root_place) 1 j"
    and cap: "capacity E (new_parser s) (json_nodes j) (json_keys j) (json_scalars j)"
    using assms unfolding fits_record_def json_text_def by (auto simp: root_place_def)
  have "room ?l ?s (length txt)" using len by (simp add: room_def)
  then have a: "ahead ?l ?s (w @ x @ w') []" using tx(1) by (simp add: ahead_def)
  have f: "follows ?s (w' @ [])" using tx(3) by (cases w') (auto simp: follows_def json_space_def json_digit_def)
  have b: "counters ?s = counters (new_parser s)" by simp
  have "capacity E ?s (json_nodes j) (json_keys j) (json_scalars j)"
    using cap capacity_books [OF b] by blast
  then obtain t s1 nodes stop s2 where p: "next_token ?l ?s = Inr (t, s1)" "parse_value E t root_place 1 s1 = Inr (nodes, stop, s2)"
    "moves ?l ?s (w @ x) s2" "map plain nodes = fst (outline E root_place (id_nodes ?s, id_values ?s) j)" "ahead ?l s2 w' []"
    using value_ahead [OF complete_texts(1) [OF tx(4)] tx(2) a f i] by metis
  have "lx_fault s2 = None" using moves_fault [OF p(3)] by simp
  then have w': "takes ?l s2 w' (after w' s2)" "exhausted (after w' s2)"
    using p(5) by (auto simp: ahead_def takes_def reads_def peek_Inr)
  have e: "next_token ?l s2 = Inr (Token End_Of_File No_Value (lx_pos (after w' s2)) (lx_pos (after w' s2)), after w' s2)"
    by (rule next_token_end [OF tx(3) w'])
  obtain c s3 where c: "end_record (lx_pos (after w' s2)) (after w' s2) = (c, s3)" by (meson surj_pair)
  have "parse_root E t s1 = Inr (\<lparr>pt_nodes = nodes, pt_end = stop, pt_count = length nodes, pt_chars = c\<rparr>, s3)"
    unfolding parse_root_def by (simp only: p(2) e c bindE.simps prod.case token.sel refl not_True_eq_False if_False)
  then have "parse_complete_record E txt line s = Inr (\<lparr>pt_nodes = nodes, pt_end = stop, pt_count = length nodes, pt_chars = c\<rparr>, s3)"
    unfolding parse_complete_record_def by (simp only: p(1) bindE.simps prod.case)
  then show thesis using that p(4) b by (simp add: counters_def del: record_start_fields)
qed


section \<open>Properties\<close>

lemma counted_capacity:
  assumes "counted s n k v s'" "in_budget E s'"
  shows "capacity E s n k v"
  using assms by (auto simp: counted_def in_budget_def capacity_def counters_def split: option.splits)

lemma record_accepts:
  assumes "in_budget E (new_parser s)"
  shows "(\<exists>T s'. parse_complete_record E txt line s = Inr (T, s')) \<longleftrightarrow> (\<exists>j. fits_record E s j txt)"
proof
  assume "\<exists>T s'. parse_complete_record E txt line s = Inr (T, s')"
  then obtain T s' where r: "parse_complete_record E txt line s = Inr (T, s')" by blast
  show "\<exists>j. fits_record E s j txt"
    using record_sound [OF r] counted_capacity assms unfolding fits_record_def by metis
next
  assume "\<exists>j. fits_record E s j txt"
  then show "\<exists>T s'. parse_complete_record E txt line s = Inr (T, s')" using record_complete by metis
qed


text \<open>C2: The nodes of an accepted record are the preorder of its value, with parents, orders, pointers and numbers, and
  the counters of the run grow by exactly what the record holds.\<close>
theorem json_record_nodes:
  assumes "parse_complete_record E txt line s = Inr (T, s')"
  shows "\<exists>j. json_text (je_limits E) j txt \<and> map plain (pt_nodes T) = fst (outline E root_place (id_nodes s, id_values s) j) \<and>
    pt_count T = json_nodes j \<and> pt_chars T = length txt \<and> bd_nodes s' = bd_nodes s + json_nodes j \<and> bd_keys s' = bd_keys s + json_keys j \<and>
    bd_physical s' = bd_physical s + json_nodes j + json_scalars j \<and> id_nodes s' = id_nodes s + json_nodes j \<and>
    id_values s' = id_values s + json_scalars j"
  using record_sound [OF assms] by (auto simp: counted_def counters_def)

definition example_limits :: json_limits where
  "example_limits = \<lparr>jl_read_chunk = 8, jl_probe_bytes = 64, jl_probe_records = 4, jl_record_chars = 32, jl_value_chars = 8,
     jl_number_chars = 4, jl_keys = 4, jl_columns = 2, jl_nodes = 8, jl_array_items = 2, jl_batch_nodes = 6, jl_batch_chars = 64,
     jl_nesting = 3, jl_pointer = 8\<rparr>"

definition example_env :: json_env where
  "example_env = \<lparr>je_limits = example_limits, je_depth = 3, je_objects = 16, je_record_index = Some 0, je_record_nodes = Some 6\<rparr>"


theorem json_record_nodes_witness:
  "\<exists>T s' j. parse_complete_record example_env (pstr ''[1, true]'') 1 fresh_counters = Inr (T, s') \<and>
     json_text example_limits j (pstr ''[1, true]'') \<and> pt_count T = json_nodes j \<and> bd_nodes s' = json_nodes j"
proof -
  have "\<not> isl (parse_complete_record example_env (pstr ''[1, true]'') 1 fresh_counters)" by code_simp
  then obtain T s' where r: "parse_complete_record example_env (pstr ''[1, true]'') 1 fresh_counters = Inr (T, s')"
    by (cases "parse_complete_record example_env (pstr ''[1, true]'') 1 fresh_counters") auto
  have "je_limits example_env = example_limits" "bd_nodes fresh_counters = 0" by (simp_all add: example_env_def fresh_counters_def)
  then show ?thesis using r json_record_nodes [OF r] by auto
qed

lemma raise_same_count: "valid_lines l True v lines = Inr n \<Longrightarrow> valid_lines l False v lines = Inr n"
proof (induction lines arbitrary: v)
  case (Cons x lines)
  obtain k line where x: "x = (k, line)" by (meson surj_pair)
  show ?case
  proof (cases "first_non_whitespace line")
    case None
    then show ?thesis using Cons x by simp
  next
    case (Some c)
    then show ?thesis using Cons x
      by (cases "probe_record l (Some v) line k") (auto split: json_error.splits if_splits)
  qed
qed simp

text \<open>The two JSON probes never claim the same sample: what is supported as JSON Lines is not supported as one document.\<close>
theorem json_probes_exclusive:
  "\<not> (probe_lines_supported l txt whole = Inr True \<and> probe_document_supported l n txt whole = Inr True)"
proof
  assume p: "probe_lines_supported l txt whole = Inr True \<and> probe_document_supported l n txt whole = Inr True"
  then obtain k where k: "valid_json_lines_in_sample l txt whole True = Inr k" "2 \<le> k" by (auto simp: probe_lines_supported_def bindE_eq_Inr)
  then have "valid_json_lines_in_sample l txt whole False = Inr k" using raise_same_count by (simp add: valid_json_lines_in_sample_def)
  then show False using p k(2) by (simp add: probe_document_supported_def split: if_split_asm)
qed

end
