(* ===== verification/Json_Paths.thy ===== *)
theory Json_Paths
  imports Json_Records
begin

text \<open>
  Nodes can be told apart: the numbers of a record's nodes are consecutive, and the JSON Pointer of a node
  with its occurrence path, which tells repeated keys apart, belongs to that node only.
\<close>

section \<open>Pointers determine their segments\<close>

lemma escape_Cons: "escape_segment (c # s) = (if c = 126 then [126, 48] else if c = 47 then [126, 49] else [c]) @ escape_segment s"
  by (simp add: escape_segment_def)

lemma escape_Nil [simp]: "escape_segment [] = []"
  by (simp add: escape_segment_def)

lemma escape_no_slash: "\<forall>c \<in> set (escape_segment s). c \<noteq> 47"
  by (induction s) (auto simp: escape_Cons)

lemma escape_inject: "escape_segment s = escape_segment t \<Longrightarrow> s = t"
proof (induction s arbitrary: t)
  case Nil
  then show ?case by (cases t) (auto simp: escape_Cons split: if_splits)
next
  case (Cons c s)
  show ?case
  proof (cases t)
    case Nil
    then show ?thesis using Cons.prems by (simp add: escape_Cons split: if_splits)
  next
    case (Cons d u)
    have "c = d \<and> escape_segment s = escape_segment u"
      using Cons.prems unfolding Cons by (auto simp: escape_Cons split: if_splits)
    then show ?thesis using Cons.IH Cons by simp
  qed
qed

definition digits_value :: "pystr \<Rightarrow> nat" where
  "digits_value s = foldl (\<lambda>a c. 10 * a + (c - 48)) 0 s"

lemma digits_nat_text: "digits_value (nat_text n) = n"
proof (induction n rule: nat_text.induct)
  case (1 n)
  show ?case
  proof (cases "n < 10")
    case True
    then show ?thesis by (simp add: nat_text.simps [of n] digits_value_def)
  next
    case False
    then have "digits_value (nat_text (n div 10)) = n div 10" using 1 by simp
    then show ?thesis using False by (simp add: nat_text.simps [of n] digits_value_def)
  qed
qed

lemma nat_text_inject: "nat_text m = nat_text n \<Longrightarrow> m = n"
  by (metis digits_nat_text)

text \<open>A trail: the segments from the root with their occurrences.\<close>

definition trail_pointer :: "(pystr \<times> nat option) list \<Rightarrow> pystr" where
  "trail_pointer t = concat (map (\<lambda>(s, occ). 47 # escape_segment s) t)"

lemma trail_pointer_Cons [simp]: "trail_pointer ((s, occ) # t) = 47 # escape_segment s @ trail_pointer t" "trail_pointer [] = []"
  by (simp_all add: trail_pointer_def)

lemma segment_end: "takeWhile (\<lambda>c. c \<noteq> 47) (escape_segment s @ trail_pointer t) = escape_segment s"
  using escape_no_slash [of s] by (cases t) (auto simp: takeWhile_append split: prod.splits)

lemma trail_inject: "trail_pointer t = trail_pointer u \<Longrightarrow> map snd t = map snd u \<Longrightarrow> t = u"
proof (induction t arbitrary: u)
  case (Cons a t)
  then obtain b v where u: "u = b # v" by (cases u) auto
  obtain s occ s' occ' where ab: "a = (s, occ)" "b = (s', occ')" by (meson surj_pair)
  have e: "escape_segment s @ trail_pointer t = escape_segment s' @ trail_pointer v" using Cons.prems(1) u ab by simp
  then have "escape_segment s = escape_segment s'" using segment_end by metis
  then show ?case using e escape_inject Cons.IH [of v] Cons.prems(2) u ab by simp
qed simp

section \<open>The trails of a value\<close>

fun trails :: "json \<Rightarrow> (pystr \<times> nat option) list list"
  and member_trails :: "(pystr \<Rightarrow> nat) \<Rightarrow> (pystr \<times> json) list \<Rightarrow> (pystr \<times> nat option) list list"
  and item_trails :: "nat \<Rightarrow> json list \<Rightarrow> (pystr \<times> nat option) list list" where
  "trails (JObject ms) = [] # member_trails (\<lambda>_. 0) ms"
| "trails (JArray js) = [] # item_trails 0 js"
| "trails _ = [[]]"
| "member_trails occ [] = []"
| "member_trails occ ((k, j) # ms) = map ((#) (k, Some (occ k))) (trails j) @ member_trails (occ(k := occ k + 1)) ms"
| "item_trails n [] = []"
| "item_trails n (j # js) = map ((#) (nat_text n, None)) (trails j) @ item_trails (n + 1) js"

lemma member_trails_hd: "t \<in> set (member_trails occ ms) \<Longrightarrow> \<exists>k i u. t = (k, Some i) # u \<and> occ k \<le> i"
proof (induction ms arbitrary: occ)
  case (Cons x ms)
  obtain k j where x: "x = (k, j)" by (meson surj_pair)
  show ?case
  proof (cases "t \<in> set (member_trails (occ(k := occ k + 1)) ms)")
    case True
    then obtain k' i u where "t = (k', Some i) # u" "(occ(k := occ k + 1)) k' \<le> i" using Cons.IH by blast
    then show ?thesis by (auto split: if_splits)
  next
    case False
    then show ?thesis using Cons.prems x by auto
  qed
qed simp

lemma item_trails_hd: "t \<in> set (item_trails n js) \<Longrightarrow> \<exists>m u. t = (nat_text m, None) # u \<and> n \<le> m"
proof (induction js arbitrary: n)
  case (Cons j js)
  show ?case
  proof (cases "t \<in> set (item_trails (n + 1) js)")
    case True
    then show ?thesis using Cons.IH by fastforce
  next
    case False
    then show ?thesis using Cons.prems by auto
  qed
qed simp

lemma distinct_trails: "distinct (trails j)" "distinct (member_trails occ ms)" "distinct (item_trails n js)"
proof (induction j and occ ms and n js rule: trails_member_trails_item_trails.induct)
  case (1 ms)
  then show ?case using member_trails_hd [of "[]" "\<lambda>_. 0" ms] by auto
next
  case (2 js)
  then show ?case using item_trails_hd [of "[]" 0 js] by auto
next
  case (5 occ k j ms)
  have "set (map ((#) (k, Some (occ k))) (trails j)) \<inter> set (member_trails (occ(k := occ k + 1)) ms) = {}"
    using member_trails_hd [of _ "occ(k := occ k + 1)" ms] by fastforce
  then show ?case using 5 by (simp add: distinct_map del: fun_upd_apply)
next
  case (7 n j js)
  have "set (map ((#) (nat_text n, None)) (trails j)) \<inter> set (item_trails (n + 1) js) = {}"
    using item_trails_hd [of _ "n + 1" js] nat_text_inject by fastforce
  then show ?case using 7 by (simp add: distinct_map)
qed simp_all

definition node_path :: "tree_node \<Rightarrow> pystr \<times> nat option list" where
  "node_path n = (jp_pointer (tn_location n), jp_path (tn_location n))"

lemma located_outline [simp]: "node_path (outline_node E kind nid pl v) = (pl_pointer pl, pl_path pl)"
  by (simp add: node_path_def outline_node_def outline_location_def)

lemma located_plain [simp]: "node_path (plain n) = node_path n" "tn_id (plain n) = tn_id n" "tn_parent (plain n) = tn_parent n"
  by (simp_all add: node_path_def plain_def plain_location_def)

lemma outline_located:
  "map node_path (fst (outline E pl c j)) = map (\<lambda>t. (pl_pointer pl @ trail_pointer t, pl_path pl @ map snd t)) (trails j)"
  "map node_path (fst (outline_members E nid pl order occ c ms)) =
     map (\<lambda>t. (pl_pointer pl @ trail_pointer t, pl_path pl @ map snd t)) (member_trails occ ms)"
  "map node_path (fst (outline_items E nid pl order c js)) =
     map (\<lambda>t. (pl_pointer pl @ trail_pointer t, pl_path pl @ map snd t)) (item_trails order js)"
  by (induction E pl c j and E nid pl order occ c ms and E nid pl order c js rule: outline_outline_members_outline_items.induct)
    (auto simp: outline_scalar_def member_place_def item_place_def child_pointer_def simp del: fun_upd_apply split: prod.splits)

lemma upt_first: "[a..<Suc (a + n)] = a # [Suc a..<Suc (a + n)]"
  by (simp add: upt_conv_Cons)

lemma upt_one: "[a..<Suc a] = [a]"
  by simp

lemma outline_numbers:
  "map tn_id (fst (outline E pl c j)) = [fst c..<fst c + json_nodes j]"
  "map tn_id (fst (outline_members E nid pl order occ c ms)) = [fst c..<fst c + sum_list (map (\<lambda>(k, j). json_nodes j) ms)]"
  "map tn_id (fst (outline_items E nid pl order c js)) = [fst c..<fst c + sum_list (map json_nodes js)]"
proof (induction E pl c j and E nid pl order occ c ms and E nid pl order c js rule: outline_outline_members_outline_items.induct)
  case (9 E nid pl order occ c k j ms)
  obtain ns c1 where o1: "outline E (member_place nid pl k order (occ k)) c j = (ns, c1)" by (meson surj_pair)
  then have "fst c1 = fst c + json_nodes j" using outline_counts(1) [of E "member_place nid pl k order (occ k)" c j] by simp
  moreover obtain os c2 where "outline_members E nid pl (order + 1) (occ(k := occ k + 1)) c1 ms = (os, c2)" by (meson surj_pair)
  ultimately show ?case using 9(1) 9(2) [OF o1 [symmetric]] o1
      upt_add_eq_append [of "fst c" "fst c + json_nodes j" "sum_list (map (\<lambda>(k, j). json_nodes j) ms)"] by (simp add: add.assoc del: fun_upd_apply)
next
  case (11 E nid pl order c j js)
  obtain ns c1 where o1: "outline E (item_place nid pl order) c j = (ns, c1)" by (meson surj_pair)
  then have "fst c1 = fst c + json_nodes j" using outline_counts(1) [of E "item_place nid pl order" c j] by simp
  moreover obtain os c2 where "outline_items E nid pl (order + 1) c1 js = (os, c2)" by (meson surj_pair)
  ultimately show ?case using 11(1) 11(2) [OF o1 [symmetric]] o1
      upt_add_eq_append [of "fst c" "fst c + json_nodes j" "sum_list (map json_nodes js)"] by (simp add: add.assoc)
qed (auto simp: outline_scalar_def outline_node_def upt_first upt_one simp del: upt_Suc split: prod.splits)

text \<open>C35: The nodes of an accepted record can be told apart: their numbers are consecutive, from the first free one, and no two
  of them have the same JSON Pointer and occurrence path, not even under repeated keys or keys with escaped characters.\<close>
theorem json_nodes_located:
  assumes "parse_complete_record E txt line s = Inr (T, s')"
  shows "map tn_id (pt_nodes T) = [id_nodes s..<id_nodes s'] \<and>
    distinct (map (\<lambda>n. (jp_pointer (tn_location n), jp_path (tn_location n))) (pt_nodes T))"
proof -
  obtain j where j: "map plain (pt_nodes T) = fst (outline E root_place (id_nodes s, id_values s) j)" "id_nodes s' = id_nodes s + json_nodes j"
    using record_sound [OF assms] by (auto simp: counted_def counters_def)
  have "map tn_id (map plain (pt_nodes T)) = [id_nodes s..<id_nodes s']" unfolding j by (simp add: outline_numbers)
  then have ids: "map tn_id (pt_nodes T) = [id_nodes s..<id_nodes s']" by (simp add: comp_def)
  have "map node_path (pt_nodes T) = map node_path (map plain (pt_nodes T))" by simp
  also have "\<dots> = map (\<lambda>t. (trail_pointer t, map snd t)) (trails j)" unfolding j outline_located by (simp add: root_place_def)
  finally have "distinct (map node_path (pt_nodes T))"
    using distinct_trails(1) [of j] trail_inject by (auto simp: distinct_map inj_on_def)
  moreover have "map node_path (pt_nodes T) = map (\<lambda>n. (jp_pointer (tn_location n), jp_path (tn_location n))) (pt_nodes T)"
    by (simp add: node_path_def)
  ultimately show ?thesis using ids by simp
qed


theorem json_nodes_located_witness:
  "\<exists>T s'. parse_complete_record example_env (pstr ''[1, true]'') 1 fresh_counters = Inr (T, s') \<and>
     map tn_id (pt_nodes T) = [0..<id_nodes s'] \<and> distinct (map (\<lambda>n. (jp_pointer (tn_location n), jp_path (tn_location n))) (pt_nodes T))"
proof -
  have "\<not> isl (parse_complete_record example_env (pstr ''[1, true]'') 1 fresh_counters)" by code_simp
  then obtain T s' where r: "parse_complete_record example_env (pstr ''[1, true]'') 1 fresh_counters = Inr (T, s')"
    by (cases "parse_complete_record example_env (pstr ''[1, true]'') 1 fresh_counters") auto
  have "id_nodes fresh_counters = 0" by (simp add: fresh_counters_def)
  then show ?thesis using r json_nodes_located [OF r] by auto
qed

end
