(* ===== verification/Json_Valid.thy ===== *)
theory Json_Valid
  imports Json_Paths
begin

text \<open>
  The nodes of the parser satisfy the contracts they are built with (\<open>JsonPointerLocation\<close>, \<open>ExtractedTreeNode\<close> of
  \<open>contracts/source.py\<close>): pointers are well formed and have one occurrence per segment, lines and columns of a
  location are in order, keys fit the bound of a raw name, containers and scalars carry what they must.
\<close>

section \<open>Pointers\<close>

lemma valid_escapes_append: "valid_escapes p \<Longrightarrow> valid_escapes (p @ q) = valid_escapes q"
proof (induction p rule: valid_escapes.induct)
  case (2 c p)
  then show ?case by (cases p) (auto split: if_split_asm)
qed simp

lemma valid_escape_segment: "valid_escapes (escape_segment s)"
  by (induction s) (auto simp: escape_Cons)

lemma count_escape [simp]: "count_list (escape_segment s) 47 = 0"
  using escape_no_slash by (auto simp: count_list_0_iff)

definition well_placed :: "json_limits \<Rightarrow> place \<Rightarrow> nat \<Rightarrow> bool" where
  "well_placed l pl n \<longleftrightarrow> (pl_pointer pl = [] \<or> hd (pl_pointer pl) = 47) \<and> valid_escapes (pl_pointer pl) \<and>
     length (pl_path pl) = count_list (pl_pointer pl) 47 \<and> (case pl_parent pl of None \<Rightarrow> True | Some p \<Rightarrow> p < n) \<and>
     (case pl_raw_name pl of None \<Rightarrow> True | Some k \<Rightarrow> length k \<le> jl_value_chars l)"

lemma well_placed_later: "well_placed l pl n \<Longrightarrow> n \<le> m \<Longrightarrow> well_placed l pl m"
  by (auto simp: well_placed_def split: option.splits)

lemma well_placed_root: "well_placed l root_place n"
  by (simp add: well_placed_def root_place_def)

lemma child_pointer_ok:
  assumes "p = [] \<or> hd p = 47" "valid_escapes p"
  shows "hd (child_pointer p k) = 47" "valid_escapes (child_pointer p k)" "count_list (child_pointer p k) 47 = Suc (count_list p 47)"
  using assms valid_escapes_append [OF assms(2), of "47 # escape_segment k"]
  by (auto simp: child_pointer_def valid_escape_segment hd_append)

lemma well_placed_member:
  "well_placed l pl n \<Longrightarrow> nid < m \<Longrightarrow> length key \<le> jl_value_chars l \<Longrightarrow> well_placed l (member_place nid pl key order occ) m"
  using child_pointer_ok [of "pl_pointer pl" key] by (simp add: well_placed_def member_place_def)

lemma well_placed_item: "well_placed l pl n \<Longrightarrow> nid < m \<Longrightarrow> well_placed l (item_place nid pl order) m"
  using child_pointer_ok [of "pl_pointer pl" "nat_text order"] by (simp add: well_placed_def item_place_def)

section \<open>Positions\<close>

definition precedes :: "position \<Rightarrow> position \<Rightarrow> bool" where
  "precedes p q \<longleftrightarrow> at_line p < at_line q \<or> (at_line p = at_line q \<and> at_column p \<le> at_column q)"

text \<open>After a carriage return the column is zero, so that a line feed does not move it back.\<close>

definition steady :: "json_state \<Rightarrow> bool" where
  "steady s \<longleftrightarrow> 0 < at_line (lx_pos s) \<and> (lx_prev_cr s \<longrightarrow> at_column (lx_pos s) = 0)"

lemma precedes_refl [simp]: "precedes p p"
  by (simp add: precedes_def)

lemma precedes_trans: "precedes p q \<Longrightarrow> precedes q r \<Longrightarrow> precedes p r"
  by (auto simp: precedes_def)

lemma precedes_line: "precedes p q \<Longrightarrow> 0 < at_line p \<Longrightarrow> 0 < at_line q"
  by (auto simp: precedes_def)

lemma shift_steady: "steady s \<Longrightarrow> steady (shift c s) \<and> precedes (lx_pos s) (lx_pos (shift c s))"
  by (auto simp: steady_def precedes_def shift_def advance_def)

lemma after_steady: "steady s \<Longrightarrow> steady (after t s) \<and> precedes (lx_pos s) (lx_pos (after t s))"
proof (induction t arbitrary: s)
  case (Cons c t)
  have "steady (after t (shift c s)) \<and> precedes (lx_pos (shift c s)) (lx_pos (after t (shift c s)))"
    using Cons.IH shift_steady [OF Cons.prems] by blast
  then show ?case using precedes_trans shift_steady [OF Cons.prems] by fastforce
qed simp

lemma steady_core [simp]: "steady (core s) = steady s"
  by (simp add: steady_def)

lemma core_steady: "core s = core s' \<Longrightarrow> steady s = steady s' \<and> lx_pos s = lx_pos s'"
  by (metis steady_core core_fields(3))

section \<open>Tokens\<close>

text \<open>A token that has been read in front of the state.\<close>

definition read_token :: "json_limits \<Rightarrow> token \<Rightarrow> json_state \<Rightarrow> bool" where
  "read_token l t s \<longleftrightarrow> steady s \<and> 0 < at_line (tk_start t) \<and> precedes (tk_start t) (tk_end t) \<and> precedes (tk_end t) (lx_pos s) \<and>
     (\<forall>v. tk_kind t = String_Token \<longrightarrow> tk_value t = Text_Value v \<longrightarrow> length v \<le> jl_value_chars l)"

lemma token_text_short:
  assumes "token_text k v x" "token_room l k x" "k = String_Token" "v = Text_Value y"
  shows "length y \<le> jl_value_chars l"
  using assms by (cases rule: token_text.cases) (auto simp: token_room_def dest: punctuation_kinds string_chars_length)

lemma next_token_read:
  assumes "next_token l s = Inr (t, s')" "steady s"
  shows "read_token l t s'" "precedes (lx_pos s) (tk_start t)" "tk_end t = lx_pos s'" "id_nodes s' = id_nodes s"
proof -
  obtain w x s1 where s1: "takes l s w s1" "takes l s1 x s'" "tk_start t = lx_pos s1" "tk_end t = lx_pos s'"
    "if tk_kind t = End_Of_File then x = [] \<and> exhausted s' else token_text (tk_kind t) (tk_value t) x \<and> token_room l (tk_kind t) x"
    using next_token_sound [OF assms(1)] by blast
  have a: "steady s1" "precedes (lx_pos s) (lx_pos s1)" using after_steady [OF assms(2)] takes_after [OF s1(1)] by auto
  have b: "steady s'" "precedes (lx_pos s1) (lx_pos s')" using after_steady [OF a(1)] takes_after [OF s1(2)] by auto
  have "length v \<le> jl_value_chars l" if "tk_kind t = String_Token" "tk_value t = Text_Value v" for v
    using token_text_short [of "tk_kind t" "tk_value t" x l v] s1(5) that by simp
  then show "read_token l t s'" using a b s1(3,4) by (simp add: read_token_def steady_def)
  show "precedes (lx_pos s) (tk_start t)" "tk_end t = lx_pos s'" using a s1 by simp_all
  show "id_nodes s' = id_nodes s" using takes_books [OF s1(1)] takes_books [OF s1(2)] by (simp add: counters_def)
qed

section \<open>Nodes\<close>

text \<open>Limits under which the texts of the parser fit the contracts.\<close>

definition contract_limits :: "json_limits \<Rightarrow> bool" where
  "contract_limits l \<longleftrightarrow> jl_pointer l \<le> 4096 \<and> jl_value_chars l \<le> 1048576"

lemma valid_limits_contract: "valid_json_limits l \<Longrightarrow> contract_limits l"
  by (simp add: valid_json_limits_def contract_limits_def)

lemma location_valid:
  assumes "well_placed l pl n" "length (pl_pointer pl) \<le> 4096" "0 < at_line p" "precedes p q"
  shows "valid_json_location (location_of E (pl_pointer pl) (pl_path pl) p q)"
  using assms count_le_length [of "pl_pointer pl" 47]
  by (auto simp: well_placed_def valid_json_location_def location_of_def precedes_def)

lemma raw_name_short:
  assumes "well_placed l pl n" "contract_limits l"
  shows "case pl_raw_name pl of None \<Rightarrow> True | Some name \<Rightarrow> length name \<le> 1048576"
  using assms by (auto simp: well_placed_def contract_limits_def split: option.splits)

lemma container_valid:
  assumes "well_placed l pl nid" "contract_limits l" "length (pl_pointer pl) \<le> jl_pointer l" "0 < at_line p" "precedes p q"
    "kind = Object_Node \<or> kind = Array_Node"
  shows "valid_tree_node (container_node E kind nid pl p q)"
  using assms location_valid [OF assms(1) _ assms(4,5), of E] raw_name_short [OF assms(1,2)]
  by (auto simp: valid_tree_node_def container_node_def well_placed_def contract_limits_def split: option.splits)

lemma scalar_valid:
  assumes "scalar_node E nid pl t s = Inr (n, s')" "well_placed l pl nid" "contract_limits l" "length (pl_pointer pl) \<le> jl_pointer l"
    "0 < at_line (tk_start t)" "precedes (tk_start t) (tk_end t)"
  shows "valid_tree_node n"
proof -
  have v: "valid_json_location (location_of E (pl_pointer pl) (pl_path pl) (tk_start t) (tk_end t))"
    using location_valid [OF assms(2) _ assms(5,6)] assms(3,4) by (simp add: contract_limits_def)
  have p: "pl_parent pl \<noteq> Some nid" using assms(2) by (auto simp: well_placed_def)
  show ?thesis using assms(1) v p raw_name_short [OF assms(2,3)]
    by (auto simp: scalar_node_def valid_tree_node_def value_id_def Let_def split: option.splits)
qed

text \<open>What a successful call of the parser leaves: valid nodes, and positions that only move on.\<close>

definition tidy_value :: "token \<Rightarrow> json_state \<Rightarrow> tree_node list \<Rightarrow> position \<Rightarrow> json_state \<Rightarrow> bool" where
  "tidy_value t s nodes stop s' \<longleftrightarrow> list_all valid_tree_node nodes \<and> steady s' \<and> precedes (tk_end t) stop \<and>
     precedes stop (lx_pos s') \<and> precedes (lx_pos s) (lx_pos s') \<and> id_nodes s \<le> id_nodes s'"

definition tidy_children :: "json_state \<Rightarrow> tree_node list \<Rightarrow> token \<Rightarrow> json_state \<Rightarrow> bool" where
  "tidy_children s nodes c s' \<longleftrightarrow> list_all valid_tree_node nodes \<and> steady s' \<and> precedes (lx_pos s) (lx_pos s') \<and>
     tk_end c = lx_pos s' \<and> id_nodes s \<le> id_nodes s'"

lemma tidy_childrenI:
  assumes "tidy_value t s ns stop s2" "next_token l s2 = Inr (c, s')"
  shows "tidy_children s ns c s'"
proof -
  note n = next_token_read [OF assms(2)]
  have "steady s2" using assms(1) by (simp add: tidy_value_def)
  note n = n [OF this]
  have "precedes (lx_pos s2) (lx_pos s')" using n precedes_trans unfolding read_token_def by metis
  then show ?thesis using assms(1) n precedes_trans unfolding tidy_value_def tidy_children_def read_token_def by metis
qed

lemma tidy_children_append:
  assumes "tidy_children s ns c s3" "next_token l s3 = Inr (t, s4)" "tidy_children s4 os d s'"
  shows "tidy_children s (ns @ os) d s'"
proof -
  have "steady s3" using assms(1) by (simp add: tidy_children_def)
  note n = next_token_read [OF assms(2) this]
  have "precedes (lx_pos s3) (lx_pos s4)" using n precedes_trans unfolding read_token_def by metis
  then have "precedes (lx_pos s) (lx_pos s')" using assms(1,3) precedes_trans unfolding tidy_children_def by metis
  then show ?thesis using assms(1,3) n(4) by (simp add: tidy_children_def)
qed

lemma tidy_container:
  assumes "enter_value E t pl depth s = Inr (nid, s0)" "next_token (je_limits E) s0 = Inr (t1, s1)" "tidy_children s1 cs c s'"
    "read_token (je_limits E) t s" "well_placed (je_limits E) pl (id_nodes s)" "contract_limits (je_limits E)"
    "kind = Object_Node \<or> kind = Array_Node"
  shows "tidy_value t s (container_node E kind nid pl (tk_start t) (tk_end c) # cs) (tk_end c) s'"
proof -
  note e = enter_value_Inr [OF assms(1)]
  have s0: "steady s0" "lx_pos s0 = lx_pos s" "id_nodes s0 = id_nodes s + 1"
    using core_steady [OF e(2)] assms(4) e(9) by (auto simp: read_token_def counters_def)
  note n = next_token_read [OF assms(2) s0(1)]
  have "precedes (lx_pos s0) (lx_pos s1)" using n precedes_trans unfolding read_token_def by metis
  then have p: "precedes (lx_pos s) (lx_pos s')" using s0(2) assms(3) precedes_trans unfolding tidy_children_def by metis
  then have q: "precedes (tk_end t) (tk_end c)" "precedes (tk_start t) (tk_end c)"
    using assms(3,4) precedes_trans unfolding tidy_children_def read_token_def by metis+
  have "valid_tree_node (container_node E kind nid pl (tk_start t) (tk_end c))"
    using container_valid [OF _ assms(6) e(4) _ q(2) assms(7)] assms(4,5) e(1) by (simp add: read_token_def)
  then show ?thesis using p q(1) assms(3) n(4) s0(3) by (simp add: tidy_value_def tidy_children_def)
qed

lemma tidy_empty: "next_token l s = Inr (c, s') \<Longrightarrow> steady s \<Longrightarrow> tidy_children s' [] c s'"
  using next_token_read by (auto simp: tidy_children_def read_token_def)

lemma parse_tidy:
  "\<forall>nodes stop s'. parse_value E t pl depth s = Inr (nodes, stop, s') \<longrightarrow> contract_limits (je_limits E) \<longrightarrow>
     read_token (je_limits E) t s \<longrightarrow> well_placed (je_limits E) pl (id_nodes s) \<longrightarrow> tidy_value t s nodes stop s'"
  "\<forall>nodes c s'. parse_members E nid pl depth t order occ s = Inr (nodes, c, s') \<longrightarrow> contract_limits (je_limits E) \<longrightarrow>
     read_token (je_limits E) t s \<longrightarrow> well_placed (je_limits E) pl (id_nodes s) \<longrightarrow> nid < id_nodes s \<longrightarrow> tidy_children s nodes c s'"
  "\<forall>nodes c s'. parse_items E nid pl depth t order s = Inr (nodes, c, s') \<longrightarrow> contract_limits (je_limits E) \<longrightarrow>
     read_token (je_limits E) t s \<longrightarrow> well_placed (je_limits E) pl (id_nodes s) \<longrightarrow> nid < id_nodes s \<longrightarrow> tidy_children s nodes c s'"
proof (induction E t pl depth s and E nid pl depth t order occ s and E nid pl depth t order s
    rule: parse_value_parse_members_parse_items.induct)
  case (1 E t pl depth s)
  show ?case
  proof (intro allI impI)
    fix nodes stop s'
    assume r: "parse_value E t pl depth s = Inr (nodes, stop, s')" and l: "contract_limits (je_limits E)"
      and t: "read_token (je_limits E) t s" and w: "well_placed (je_limits E) pl (id_nodes s)"
    have inside: "steady s0 \<and> id_nodes s0 = id_nodes s + 1 \<and> nid = id_nodes s" if e: "enter_value E t pl depth s = Inr (nid, s0)" for nid s0
    proof -
      have "steady s" using t by (simp add: read_token_def)
      then have "steady s0" using core_steady [OF enter_value_Inr(2) [OF e]] by simp
      then show ?thesis using enter_value_Inr(1,9) [OF e] by (simp add: counters_def)
    qed
    from r show "tidy_value t s nodes stop s'"
    proof (cases rule: parse_value_cases)
      case (scalar nid s0 n)
      note e = enter_value_Inr [OF scalar(1)]
      have n: "valid_tree_node n"
        using scalar_valid [OF scalar(3) _ l e(4)] w t e(1) by (simp add: read_token_def)
      obtain raw hint where s0: "core s' = core s0"
        "counters s' = (bd_nodes s0, bd_keys s0, bd_physical s0, id_nodes s0, id_values s0 + 1, rec_nodes s0)"
        using scalar_node_Inr [OF scalar(3)] by metis
      have s': "core s' = core s" "id_nodes s \<le> id_nodes s'" using s0 e(2,9) by (simp_all add: counters_def)
      show ?thesis using n s' core_steady [OF s'(1)] t scalar(4,5) by (auto simp: tidy_value_def read_token_def)
    next
      case (empty_object nid s0 t1)
      show ?thesis unfolding empty_object(5,6)
        using tidy_container [OF empty_object(1,3) tidy_empty [OF empty_object(3)] t w l] inside [OF empty_object(1)] by simp
    next
      case (object nid s0 t1 s1 cs c)
      have s0: "steady s0" "nid < id_nodes s1" "id_nodes s \<le> id_nodes s1" "read_token (je_limits E) t1 s1"
        using inside [OF object(1)] next_token_read [OF object(3)] by auto
      have "tidy_children s1 cs c s'"
        using "1.IH"(1) [OF object(1) refl object(2,3) refl object(4)] object(5) l s0 well_placed_later [OF w s0(3)] by blast
      then show ?thesis unfolding object(6,7) using tidy_container [OF object(1,3) _ t w l] by simp
    next
      case (empty_array nid s0 t1)
      show ?thesis unfolding empty_array(5,6)
        using tidy_container [OF empty_array(1,3) tidy_empty [OF empty_array(3)] t w l] inside [OF empty_array(1)] by simp
    next
      case (array nid s0 t1 s1 cs c)
      have ko: "tk_kind t \<noteq> Object_Start" using array(2) by simp
      have s0: "steady s0" "nid < id_nodes s1" "id_nodes s \<le> id_nodes s1" "read_token (je_limits E) t1 s1"
        using inside [OF array(1)] next_token_read [OF array(3)] by auto
      have "tidy_children s1 cs c s'"
        using "1.IH"(2) [OF array(1) refl ko array(2,3) refl array(4)] array(5) l s0 well_placed_later [OF w s0(3)] by blast
      then show ?thesis unfolding array(6,7) using tidy_container [OF array(1,3) _ t w l] by simp
    qed
  qed
next
  case (2 E nid pl depth t order occ s)
  show ?case
  proof (intro allI impI)
    fix nodes c s'
    assume r: "parse_members E nid pl depth t order occ s = Inr (nodes, c, s')" and l: "contract_limits (je_limits E)"
      and t: "read_token (je_limits E) t s" and w: "well_placed (je_limits E) pl (id_nodes s)" and i: "nid < id_nodes s"
    obtain key child s1 ns stop s2 d s3 where m: "member_key E t order s = Inr (key, child, s1)"
      and v: "parse_value E child (member_place nid pl key order (occ key)) (depth + 1) s1 = Inr (ns, stop, s2)"
      and n: "next_token (je_limits E) s2 = Inr (d, s3)"
      and k: "(tk_kind d = Object_End \<and> nodes = ns \<and> c = d \<and> s' = s3) \<or>
       (tk_kind d = Comma \<and> order + 1 < jl_columns (je_limits E) \<and> (\<exists>t1 s4 others. next_token (je_limits E) s3 = Inr (t1, s4) \<and>
         parse_members E nid pl depth t1 (order + 1) (occ(key := occ key + 1)) s4 = Inr (others, c, s') \<and> nodes = ns @ others))"
      using r by (rule parse_members_cases)
    obtain s0 colon sc where mk: "tk_kind t = String_Token" "tk_value t = Text_Value key" "s0 = s\<lparr>bd_keys := bd_keys s + 1\<rparr>"
      "next_token (je_limits E) s0 = Inr (colon, sc)" "next_token (je_limits E) sc = Inr (child, s1)"
      using m by (rule member_key_Inr)
    have s0: "steady s0" "lx_pos s0 = lx_pos s" "id_nodes s0 = id_nodes s" using t mk(3) by (simp_all add: read_token_def steady_def)
    note a = next_token_read [OF mk(4) s0(1)]
    have sc: "steady sc" using a(1) by (simp add: read_token_def)
    note b = next_token_read [OF mk(5) sc]
    have key: "length key \<le> jl_value_chars (je_limits E)" using t mk(1,2) by (simp add: read_token_def)
    have ids: "id_nodes s1 = id_nodes s" using a(4) b(4) s0(3) by simp
    have before: "precedes (lx_pos s) (lx_pos s1)"
      using a b s0(2) precedes_trans unfolding read_token_def by metis
    have "tidy_value child s1 ns stop s2"
      using "2.IH"(1) [OF m refl refl] v l b(1) well_placed_member [OF w _ key, of nid "id_nodes s1"] i ids by simp
    then have "tidy_children s1 ns d s3" using n by (rule tidy_childrenI)
    then have c1: "tidy_children s ns d s3" using before precedes_trans ids unfolding tidy_children_def by metis
    show "tidy_children s nodes c s'"
    proof (cases "tk_kind d = Object_End")
      case True
      then show ?thesis using k c1 by auto
    next
      case False
      then obtain t1 s4 others where o: "tk_kind d = Comma" "order + 1 < jl_columns (je_limits E)" "next_token (je_limits E) s3 = Inr (t1, s4)"
        "parse_members E nid pl depth t1 (order + 1) (occ(key := occ key + 1)) s4 = Inr (others, c, s')" "nodes = ns @ others"
        using k by blast
      have u: "expect_comma d = Inr ()" "member_limit E (order + 1) = Inr ()" using o(1,2) by (simp_all add: expect_comma_def member_limit_def)
      have s3: "steady s3" "id_nodes s \<le> id_nodes s3" using c1 by (auto simp: tidy_children_def)
      note n4 = next_token_read [OF o(3) s3(1)]
      have "tidy_children s4 others c s'"
        using "2.IH"(2) [OF m refl refl v refl refl n refl False u(1) u(2) o(3) refl] o(4) l n4(1) s3(2) n4(4) i
          well_placed_later [OF w, of "id_nodes s4"] by (simp del: fun_upd_apply)
      then show ?thesis unfolding o(5) by (rule tidy_children_append [OF c1 o(3)])
    qed
  qed
next
  case (3 E nid pl depth t order s)
  show ?case
  proof (intro allI impI)
    fix nodes c s'
    assume r: "parse_items E nid pl depth t order s = Inr (nodes, c, s')" and l: "contract_limits (je_limits E)"
      and t: "read_token (je_limits E) t s" and w: "well_placed (je_limits E) pl (id_nodes s)" and i: "nid < id_nodes s"
    obtain ns stop s2 d s3 where lim: "order < jl_array_items (je_limits E)"
      and v: "parse_value E t (item_place nid pl order) (depth + 1) s = Inr (ns, stop, s2)"
      and n: "next_token (je_limits E) s2 = Inr (d, s3)"
      and k: "(tk_kind d = Array_End \<and> nodes = ns \<and> c = d \<and> s' = s3) \<or>
       (tk_kind d = Comma \<and> (\<exists>t1 s4 others. next_token (je_limits E) s3 = Inr (t1, s4) \<and>
         parse_items E nid pl depth t1 (order + 1) s4 = Inr (others, c, s') \<and> nodes = ns @ others))"
      using r by (rule parse_items_cases)
    have li: "item_limit E order = Inr ()" using lim by (simp add: item_limit_def)
    have "tidy_value t s ns stop s2" using "3.IH"(1) [OF li] v l t well_placed_item [OF w i] by simp
    then have c1: "tidy_children s ns d s3" using n by (rule tidy_childrenI)
    show "tidy_children s nodes c s'"
    proof (cases "tk_kind d = Array_End")
      case True
      then show ?thesis using k c1 by auto
    next
      case False
      then obtain t1 s4 others where o: "tk_kind d = Comma" "next_token (je_limits E) s3 = Inr (t1, s4)"
        "parse_items E nid pl depth t1 (order + 1) s4 = Inr (others, c, s')" "nodes = ns @ others"
        using k by blast
      have u: "expect_comma d = Inr ()" using o(1) by (simp add: expect_comma_def)
      have s3: "steady s3" "id_nodes s \<le> id_nodes s3" using c1 by (auto simp: tidy_children_def)
      note n4 = next_token_read [OF o(2) s3(1)]
      have "tidy_children s4 others c s'"
        using "3.IH"(2) [OF li v refl refl n refl False u o(2) refl] o(3) l n4(1) s3(2) n4(4) i
          well_placed_later [OF w, of "id_nodes s4"] by simp
      then show ?thesis unfolding o(4) by (rule tidy_children_append [OF c1 o(2)])
    qed
  qed
qed

lemma root_tidy:
  assumes "next_token (je_limits E) s = Inr (first, s1)" "parse_root E first s1 = Inr (T, s')" "steady s" "contract_limits (je_limits E)"
  shows "list_all valid_tree_node (pt_nodes T)"
proof -
  obtain nodes stop s2 where v: "parse_value E first root_place 1 s1 = Inr (nodes, stop, s2)"
    and r: "bindE (next_token (je_limits E) s2) (\<lambda>(trailing, s).
       if tk_kind trailing \<noteq> End_Of_File then Inl (Json_Syntax ''trailing_content'' (at_line (tk_start trailing)))
       else case end_record (lx_pos s) s of (chars, s) \<Rightarrow>
         Inr (\<lparr>pt_nodes = nodes, pt_end = stop, pt_count = length nodes, pt_chars = chars\<rparr>, s)) = Inr (T, s')"
    using assms(2) unfolding parse_root_def by (rule bindP3E)
  have "pt_nodes T = nodes" using r by (elim bindPE) (auto split: if_split_asm prod.splits)
  moreover have "tidy_value first s1 nodes stop s2"
    using parse_tidy(1) v assms(4) next_token_read(1) [OF assms(1,3)] well_placed_root by blast
  ultimately show ?thesis by (simp add: tidy_value_def)
qed

lemma record_tidy:
  assumes "parse_complete_record E txt line s = Inr (T, s')" "contract_limits (je_limits E)" "0 < line"
  shows "list_all valid_tree_node (pt_nodes T)"
proof -
  obtain first s1 where f: "next_token (je_limits E) (record_start txt line (new_parser s)) = Inr (first, s1)" "parse_root E first s1 = Inr (T, s')"
    using assms(1) unfolding parse_complete_record_def by (rule bindPE)
  have "steady (record_start txt line (new_parser s))" using assms(3) by (simp add: steady_def begin_record_def string_characters_def)
  then show ?thesis using root_tidy [OF f _ assms(2)] by blast
qed

text \<open>C36: The contracts never refuse a node of the parser: under valid limits every node of an accepted record has a well-formed
  JSON Pointer with one occurrence per segment, lines and columns in order, a raw name within its bound and the value its kind
  requires, so that construction of nodes and locations raises nothing.\<close>
theorem json_nodes_valid:
  assumes "parse_complete_record E txt line s = Inr (T, s')" "valid_json_limits (je_limits E)" "0 < line"
  shows "list_all valid_tree_node (pt_nodes T)"
  using record_tidy [OF assms(1) valid_limits_contract [OF assms(2)] assms(3)] .

theorem json_nodes_valid_witness:
  "\<exists>T s'. parse_complete_record example_env (pstr ''[1, true]'') 1 fresh_counters = Inr (T, s') \<and> list_all valid_tree_node (pt_nodes T)"
proof -
  have "valid_json_limits (je_limits example_env)" by (simp add: example_env_def example_limits_def valid_json_limits_def)
  moreover have "\<not> isl (parse_complete_record example_env (pstr ''[1, true]'') 1 fresh_counters)" by code_simp
  ultimately obtain T s' where r: "parse_complete_record example_env (pstr ''[1, true]'') 1 fresh_counters = Inr (T, s')"
    "valid_json_limits (je_limits example_env)"
    by (cases "parse_complete_record example_env (pstr ''[1, true]'') 1 fresh_counters") auto
  then show ?thesis using json_nodes_valid [OF r] by simp
qed

end
