(* ===== verification/Json_Batches.thy ===== *)
theory Json_Batches
  imports Json_Records
begin

text \<open>
  Batches of JSON trees and the lines of a JSON Lines source: \<open>_bounded_indexed_refs\<close>, \<open>_build_batch\<close>,
  \<open>_ensure_batch_slot\<close> and \<open>_source_lines\<close> of \<open>parsers/builtin/_json.py\<close>. The fingerprints of batches and manifests
  are functions of the run. A generator is the list of what it yields with the error that ended it, if any.
\<close>

section \<open>Batches\<close>

datatype tree_ref = Node_Ref nat nat | Tree_Value_Ref nat nat   \<comment> \<open>batch index, number\<close>

record json_summary =
  js_index :: nat
  js_physical :: nat
  js_records :: nat
  js_fingerprint :: pystr

record json_manifest =
  jm_batches :: "json_summary list"
  jm_refs :: "tree_ref list"
  jm_records :: nat
  jm_fingerprint :: pystr

record json_batch =
  jb_index :: nat
  jb_trees :: "tree_node list"
  jb_records :: nat
  jb_refs :: "tree_ref list"
  jb_is_last :: bool
  jb_fingerprint :: pystr
  jb_manifest :: "json_manifest option"

record json_context =
  jc_max_bytes :: nat
  jc_utf8 :: bool
  jc_max_records :: nat
  jc_max_physical :: nat
  jc_nesting :: nat
  jc_batch_size :: nat
  jc_max_batches :: nat

record json_run =
  jr_hash :: "json_batch \<Rightarrow> pystr"
  jr_manifest_hash :: "json_manifest \<Rightarrow> pystr"
  jr_limits :: json_limits
  jr_context :: json_context

definition max_tree_refs :: nat where "max_tree_refs = 10000"

fun collect_refs :: "nat \<Rightarrow> tree_ref list \<Rightarrow> tree_ref list \<Rightarrow> tree_ref list" where
  "collect_refs limit refs [] = refs"
| "collect_refs limit refs (x # xs) = (if limit \<le> length refs then refs else collect_refs limit (refs @ [x]) xs)"

definition tree_refs :: "nat \<Rightarrow> tree_node list \<Rightarrow> nat \<Rightarrow> tree_ref list" where
  "tree_refs batch_index trees limit =
     collect_refs limit (collect_refs limit [] (map (\<lambda>n. Node_Ref batch_index (tn_id n)) trees))
       (List.map_filter (\<lambda>n. map_option (\<lambda>v. Tree_Value_Ref batch_index (xv_id v)) (tn_value n)) trees)"

definition physical_ref_count :: "tree_node list \<Rightarrow> nat" where
  "physical_ref_count trees = length trees + length (filter (\<lambda>n. tn_value n \<noteq> None) trees)"

definition json_summary_of :: "json_batch \<Rightarrow> json_summary" where
  "json_summary_of b = \<lparr>js_index = jb_index b, js_physical = physical_ref_count (jb_trees b), js_records = jb_records b, js_fingerprint = jb_fingerprint b\<rparr>"

definition build_json_batch ::
  "json_run \<Rightarrow> nat \<Rightarrow> tree_node list \<Rightarrow> nat \<Rightarrow> json_summary list \<Rightarrow> tree_ref list \<Rightarrow> bool \<Rightarrow> json_batch" where
  "build_json_batch R batch_index trees records prior_summaries prior_refs is_last =
     (let refs = tree_refs batch_index trees (max_tree_refs - length prior_refs);
          draft = \<lparr>jb_index = batch_index, jb_trees = trees, jb_records = records, jb_refs = refs,
                   jb_is_last = False, jb_fingerprint = [], jb_manifest = None\<rparr>;
          fingerprint = jr_hash R (draft\<lparr>jb_is_last := is_last\<rparr>);
          summary = json_summary_of (draft\<lparr>jb_fingerprint := fingerprint\<rparr>);
          summaries = prior_summaries @ [summary];
          seed = \<lparr>jm_batches = summaries, jm_refs = prior_refs @ refs,
                  jm_records = sum_list (map js_records summaries), jm_fingerprint = []\<rparr> in
      draft\<lparr>jb_fingerprint := fingerprint, jb_is_last := is_last,
        jb_manifest := (if is_last then Some (seed\<lparr>jm_fingerprint := jr_manifest_hash R seed\<rparr>) else None)\<rparr>)"

definition ensure_batch_slot :: "json_run \<Rightarrow> nat \<Rightarrow> bool \<Rightarrow> json_error + unit" where
  "ensure_batch_slot R batch_index is_last =
     (let m = jc_max_batches (jr_context R) in
      if m \<le> batch_index \<or> (\<not> is_last \<and> m \<le> batch_index + 1) then Inl (Json_Limit ''batch_count'' m) else Inr ())"

text \<open>The variables of a stream between batches, and the batch of the pending nodes.\<close>

record stream_state =
  ss_counters :: json_state
  ss_summaries :: "json_summary list"
  ss_refs :: "tree_ref list"
  ss_pending :: "tree_node list"
  ss_records :: nat
  ss_chars :: nat
  ss_total :: nat
  ss_index :: nat

definition new_stream :: "json_state \<Rightarrow> stream_state" where
  "new_stream s = \<lparr>ss_counters = s, ss_summaries = [], ss_refs = [], ss_pending = [], ss_records = 0, ss_chars = 0, ss_total = 0,
     ss_index = 0\<rparr>"

definition stream_batch :: "json_run \<Rightarrow> stream_state \<Rightarrow> tree_node list \<Rightarrow> bool \<Rightarrow> json_batch" where
  "stream_batch R p trees is_last = build_json_batch R (ss_index p) trees (ss_records p) (ss_summaries p) (ss_refs p) is_last"

definition next_stream :: "stream_state \<Rightarrow> json_batch \<Rightarrow> stream_state" where
  "next_stream p b = p\<lparr>ss_summaries := ss_summaries p @ [json_summary_of b], ss_refs := ss_refs p @ jb_refs b, ss_pending := [],
     ss_records := 0, ss_chars := 0, ss_index := ss_index p + 1\<rparr>"

definition run_env :: "json_run \<Rightarrow> nat option \<Rightarrow> json_env" where
  "run_env R index = \<lparr>je_limits = jr_limits R, je_depth = min (jl_nesting (jr_limits R)) (jc_nesting (jr_context R)),
     je_objects = jc_max_physical (jr_context R), je_record_index = index, je_record_nodes = Some (jl_batch_nodes (jr_limits R))\<rparr>"

text \<open>The limits of one record, with \<open>extra\<close> nodes that go with it.\<close>

definition check_tree :: "json_run \<Rightarrow> nat \<Rightarrow> nat \<Rightarrow> json_error + unit" where
  "check_tree R nodes chars = (let l = jr_limits R in
     if jl_batch_nodes l < nodes then Inl (Json_Limit ''batch_nodes'' (jl_batch_nodes l))
     else if jl_batch_chars l < chars then Inl (Json_Limit ''batch_chars'' (jl_batch_chars l)) else Inr ())"

definition add_tree :: "stream_state \<Rightarrow> tree_node list \<Rightarrow> nat \<Rightarrow> stream_state" where
  "add_tree p nodes chars = p\<lparr>ss_pending := ss_pending p @ nodes, ss_records := ss_records p + 1, ss_chars := ss_chars p + chars,
     ss_total := ss_total p + 1\<rparr>"

text \<open>How a character source is opened: its text, the end of reading, and the limits checked first.\<close>

record json_source =
  jx_size :: nat
  jx_text :: pystr
  jx_fault :: "fault option"

definition source_characters :: "json_run \<Rightarrow> json_source \<Rightarrow> json_error + json_state" where
  "source_characters R x = (let c = jr_context R in
     if jc_max_bytes c < jx_size x then Inl (Json_Limit ''source_bytes'' (jc_max_bytes c))
     else if \<not> jc_utf8 c then Inl (Json_Encoding ''unsupported_codec'')
     else Inr (fresh_counters\<lparr>lx_text := jx_text x, lx_fault := jx_fault x\<rparr>))"

section \<open>Lines of a source\<close>

record source_line =
  sl_number :: nat
  sl_text :: pystr
  sl_last :: bool

record line_scan =
  sc_pending :: "(nat \<times> pystr) option"
  sc_number :: nat
  sc_line :: pystr
  sc_content :: bool

definition release_pending :: "line_scan \<Rightarrow> bool \<Rightarrow> source_line list" where
  "release_pending r is_last = (case sc_pending r of None \<Rightarrow> [] | Some (n, txt) \<Rightarrow> [\<lparr>sl_number = n, sl_text = txt, sl_last = is_last\<rparr>])"

text \<open>Past a carriage return a line feed belongs to the same line break.\<close>

definition skip_line_feed :: "nat \<Rightarrow> json_state \<Rightarrow> json_error + json_state" where
  "skip_line_feed c s = (if c = 13 then bindE (peek_char s) (\<lambda>following. case following of
       None \<Rightarrow> Inr s | Some ch \<Rightarrow> Inr (if code_point ch = 10 then shift 10 s else s)) else Inr s)"

definition prepend :: "source_line list \<Rightarrow> source_line list \<times> json_error option \<Rightarrow> source_line list \<times> json_error option" where
  "prepend xs r = (xs @ fst r, snd r)"

lemma skip_line_feed_shorter: "skip_line_feed c s = Inr s' \<Longrightarrow> length (lx_text s') \<le> length (lx_text s)"
  by (auto simp: skip_line_feed_def bindE_eq_Inr split: if_split_asm option.splits)

definition end_lines :: "line_scan \<Rightarrow> source_line list" where
  "end_lines r = (if sc_content r then release_pending r False @ [\<lparr>sl_number = sc_number r, sl_text = sc_line r, sl_last = True\<rparr>]
     else release_pending r True)"

definition end_line :: "line_scan \<Rightarrow> line_scan" where
  "end_line r = (let r' = r\<lparr>sc_line := [], sc_content := False, sc_number := sc_number r + 1\<rparr> in
     if sc_content r then r'\<lparr>sc_pending := Some (sc_number r, sc_line r)\<rparr> else r')"

definition ended_lines :: "line_scan \<Rightarrow> source_line list" where
  "ended_lines r = (if sc_content r then release_pending r False else [])"

function source_lines :: "json_limits \<Rightarrow> line_scan \<Rightarrow> json_state \<Rightarrow> source_line list \<times> json_error option" where
  "source_lines l r s = (case peek_char s of
     Inl e \<Rightarrow> ([], Some e)
   | Inr None \<Rightarrow> (end_lines r, None)
   | Inr (Some ch) \<Rightarrow>
       if code_point ch \<noteq> 13 \<and> code_point ch \<noteq> 10
       then (if jl_record_chars l < length (sc_line r) + 1 then ([], Some (Json_Limit ''record_chars'' (jl_record_chars l)))
             else if json_space (code_point ch) \<or> sc_content r
             then source_lines l (r\<lparr>sc_line := sc_line r @ [code_point ch]\<rparr>) (shift (code_point ch) s)
             else prepend (release_pending r False)
               (source_lines l (r\<lparr>sc_line := sc_line r @ [code_point ch], sc_content := True, sc_pending := None\<rparr>) (shift (code_point ch) s)))
       else (case skip_line_feed (code_point ch) (shift (code_point ch) s) of
               Inl e \<Rightarrow> ([], Some e)
             | Inr s' \<Rightarrow> prepend (ended_lines r) (source_lines l (end_line r) s')))"
  by pat_completeness auto
termination
proof (relation "measure (\<lambda>(_, _, s). length (lx_text s))", goal_cases)
  case (4 l r s y ch s')
  then have "length (lx_text s) = Suc (length (lx_text (shift (code_point ch) s)))" by (auto simp: peek_Inr)
  then show ?case using skip_line_feed_shorter [OF 4(4)] by simp
qed (auto simp: peek_Inr)

declare source_lines.simps [simp del]

definition new_scan :: line_scan where
  "new_scan = \<lparr>sc_pending = None, sc_number = 1, sc_line = [], sc_content = False\<rparr>"


text \<open>What the scan yields: the lines with a value, the last one marked.\<close>

fun mark_lines :: "(nat \<times> pystr) list \<Rightarrow> source_line list" where
  "mark_lines [] = []"
| "mark_lines [(n, txt)] = [\<lparr>sl_number = n, sl_text = txt, sl_last = True\<rparr>]"
| "mark_lines ((n, txt) # x # xs) = \<lparr>sl_number = n, sl_text = txt, sl_last = False\<rparr> # mark_lines (x # xs)"

definition filled :: "nat \<times> pystr \<Rightarrow> bool" where
  "filled x \<longleftrightarrow> first_non_whitespace (snd x) \<noteq> None"

lemma filled_iff: "filled (n, txt) \<longleftrightarrow> list_ex (\<lambda>c. \<not> json_space c) txt"
  by (auto simp: filled_def first_non_whitespace_def find_None_iff list_ex_iff)

definition pending_lines :: "line_scan \<Rightarrow> (nat \<times> pystr) list" where
  "pending_lines r = (case sc_pending r of None \<Rightarrow> [] | Some x \<Rightarrow> [x])"

lemma mark_pending: "xs \<noteq> [] \<Longrightarrow> mark_lines (pending_lines r @ xs) = release_pending r False @ mark_lines xs"
  by (cases xs) (auto simp: pending_lines_def release_pending_def split: option.split)

lemma release_mark: "release_pending r True = mark_lines (pending_lines r)"
  by (auto simp: pending_lines_def release_pending_def split: option.split)

lemma sample_lines_head: "line \<noteq> [] \<Longrightarrow> \<exists>txt rest. sample_lines True n line cs = (n, line @ txt) # rest"
proof (induction cs arbitrary: line)
  case (Cons c cs)
  show ?case
  proof (cases "c \<noteq> 13 \<and> c \<noteq> 10")
    case True
    then show ?thesis using Cons.IH [of "line @ [c]"] by auto
  next
    case False
    then show ?thesis by auto
  qed
qed simp

definition short_lines :: "json_limits \<Rightarrow> (nat \<times> pystr) list \<Rightarrow> bool" where
  "short_lines l xs \<longleftrightarrow> list_all (\<lambda>(n, txt). length txt \<le> jl_record_chars l) xs"

definition scan_ok :: "line_scan \<Rightarrow> bool" where
  "scan_ok r \<longleftrightarrow> sc_content r = list_ex (\<lambda>c. \<not> json_space c) (sc_line r) \<and> (sc_content r \<longrightarrow> sc_pending r = None)"

lemma skip_line_feed_text:
  assumes "lx_fault s = None"
  shows "\<exists>s'. skip_line_feed c s = Inr s' \<and> lx_fault s' = None \<and>
    lx_text s' = (if c = 13 \<and> lx_text s \<noteq> [] \<and> hd (lx_text s) = 10 then tl (lx_text s) else lx_text s)"
proof (cases "lx_text s")
  case Nil
  then have "peek_char s = Inr None" using assms by (simp add: peek_Inr)
  then show ?thesis using Nil assms by (simp add: skip_line_feed_def)
next
  case (Cons d ds)
  then have "peek_char s = Inr (Some (Character d (lx_pos s) (lx_pos (shift d s))))" by (simp add: peek_Inr)
  then show ?thesis using Cons assms by (simp add: skip_line_feed_def)
qed

lemma source_lines_exact:
  "scan_ok r \<Longrightarrow> lx_fault s = None \<Longrightarrow> short_lines l (sample_lines True (sc_number r) (sc_line r) (lx_text s)) \<Longrightarrow>
   source_lines l r s = (mark_lines (pending_lines r @ filter filled (sample_lines True (sc_number r) (sc_line r) (lx_text s))), None)"
proof (induction l r s rule: source_lines.induct)
  case (1 l r s)
  show ?case
  proof (cases "lx_text s")
    case Nil
    then have p: "peek_char s = Inr None" using 1(5) by (simp add: peek_Inr)
    have "end_lines r = mark_lines (pending_lines r @ filter filled (sample_lines True (sc_number r) (sc_line r) []))"
      using 1(4) by (cases "sc_line r = []") (auto simp: end_lines_def scan_ok_def filled_iff pending_lines_def release_pending_def split: option.splits)
    then show ?thesis unfolding source_lines.simps [of l r s] p by (simp add: Nil)
  next
    case (Cons c cs)
    then have p: "peek_char s = Inr (Some (Character c (lx_pos s) (lx_pos (shift c s))))" by (simp add: peek_Inr)
    have t: "lx_text (shift c s) = cs" "lx_fault (shift c s) = None" using Cons 1(5) by simp_all
    show ?thesis
    proof (cases "c \<noteq> 13 \<and> c \<noteq> 10")
      case True
      let ?line = "sc_line r @ [c]"
      have sm: "sample_lines True (sc_number r) (sc_line r) (lx_text s) = sample_lines True (sc_number r) ?line cs" using Cons True by simp
      obtain u rest where u: "sample_lines True (sc_number r) ?line cs = (sc_number r, ?line @ u) # rest" using sample_lines_head by blast
      have room: "\<not> jl_record_chars l < length (sc_line r) + 1" using 1(6) unfolding sm u by (simp add: short_lines_def)
      show ?thesis
      proof (cases "json_space c \<or> sc_content r")
        case c: True
        have "scan_ok (r\<lparr>sc_line := ?line\<rparr>)" using 1(4) c by (auto simp: scan_ok_def)
        then have "source_lines l (r\<lparr>sc_line := ?line\<rparr>) (shift c s) =
            (mark_lines (pending_lines (r\<lparr>sc_line := ?line\<rparr>) @ filter filled (sample_lines True (sc_number r) ?line cs)), None)"
          using 1(1) [OF p refl] True room c t 1(6) [unfolded sm] by simp
        then show ?thesis unfolding source_lines.simps [of l r s] p sm
          using True room c by (simp add: pending_lines_def)
      next
        case c: False
        let ?r = "r\<lparr>sc_line := ?line, sc_content := True, sc_pending := None\<rparr>"
        have "scan_ok ?r" using c by (auto simp: scan_ok_def)
        then have "source_lines l ?r (shift c s) = (mark_lines (filter filled (sample_lines True (sc_number r) ?line cs)), None)"
          using 1(2) [OF p refl] True room c t 1(6) [unfolded sm] by (simp add: pending_lines_def)
        moreover have "filter filled (sample_lines True (sc_number r) ?line cs) \<noteq> []" unfolding u using c by (simp add: filled_iff)
        ultimately show ?thesis unfolding source_lines.simps [of l r s] p sm
          using True room c by (simp add: prepend_def mark_pending)
      qed
    next
      case False
      define cs' where "cs' = (if c = 13 \<and> cs \<noteq> [] \<and> hd cs = 10 then tl cs else cs)"
      have sm: "sample_lines True (sc_number r) (sc_line r) (lx_text s) = (sc_number r, sc_line r) # sample_lines True (sc_number r + 1) [] cs'"
        using Cons False by (auto simp: cs'_def)
      obtain s' where s': "skip_line_feed c (shift c s) = Inr s'" "lx_text s' = cs'" "lx_fault s' = None"
        using skip_line_feed_text [of "shift c s" c] t unfolding cs'_def by auto
      have e: "scan_ok (end_line r)" "sc_number (end_line r) = sc_number r + 1" "sc_line (end_line r) = []"
        by (simp_all add: scan_ok_def end_line_def Let_def)
      have "source_lines l (end_line r) s' = (mark_lines (pending_lines (end_line r) @ filter filled (sample_lines True (sc_number r + 1) [] cs')), None)"
        using 1(3) [OF p refl, unfolded character.sel, OF False s'(1)] e s'(2,3) 1(6) [unfolded sm] by (simp add: short_lines_def)
      moreover have "filled (sc_number r, sc_line r) = sc_content r" using 1(4) by (simp add: scan_ok_def filled_iff)
      moreover have "ended_lines r = []" using 1(4) by (simp add: ended_lines_def scan_ok_def release_pending_def)
      moreover have "pending_lines (end_line r) = (if sc_content r then [(sc_number r, sc_line r)] else pending_lines r)"
        "sc_content r \<longrightarrow> pending_lines r = []"
        using 1(4) by (simp_all add: pending_lines_def end_line_def scan_ok_def Let_def)
      moreover have "source_lines l r s = prepend (ended_lines r) (source_lines l (end_line r) s')"
        unfolding source_lines.simps [of l r s] p
        by (simp only: sum.case option.case character.sel False if_False s'(1))
      ultimately show ?thesis unfolding sm by (simp add: prepend_def)
    qed
  qed
qed

end
