(* ===== verification/Json_Streams.thy ===== *)
theory Json_Streams
  imports Json_Batches
begin

text \<open>
  The stream of a JSON Lines source (\<open>stream_json_lines\<close> of \<open>parsers/builtin/_json.py\<close>): each line with a value
  is a record, records are grouped into batches within the limits, and the last batch carries the manifest.
\<close>

section \<open>The loop over lines\<close>

datatype json_outcome = Json_Raised json_error | Json_Finished | Json_Going stream_state

definition lines_overflow :: "json_run \<Rightarrow> stream_state \<Rightarrow> parsed_tree \<Rightarrow> bool" where
  "lines_overflow R p T \<longleftrightarrow> ss_pending p \<noteq> [] \<and>
     (jc_batch_size (jr_context R) \<le> ss_records p \<or> jl_batch_nodes (jr_limits R) < length (ss_pending p) + pt_count T \<or>
      jl_batch_chars (jr_limits R) < ss_chars p + pt_chars T)"

definition lines_full :: "json_run \<Rightarrow> stream_state \<Rightarrow> bool" where
  "lines_full R p \<longleftrightarrow> jc_batch_size (jr_context R) \<le> ss_records p \<or> jl_batch_nodes (jr_limits R) \<le> length (ss_pending p) \<or>
     jl_batch_chars (jr_limits R) \<le> ss_chars p"

text \<open>A batch that is not the last, when there is a slot for it.\<close>

definition yield_batch :: "json_run \<Rightarrow> stream_state \<Rightarrow> json_error + json_batch \<times> stream_state" where
  "yield_batch R p = bindE (ensure_batch_slot R (ss_index p) False) (\<lambda>_.
     let b = stream_batch R p (ss_pending p) False in Inr (b, next_stream p b))"

definition line_room :: "json_run \<Rightarrow> stream_state \<Rightarrow> parsed_tree \<Rightarrow> json_error + json_batch list \<times> stream_state" where
  "line_room R p T = (if lines_overflow R p T then bindE (yield_batch R p) (\<lambda>(b, p). Inr ([b], p)) else Inr ([], p))"

definition parse_line :: "json_run \<Rightarrow> nat \<Rightarrow> source_line \<Rightarrow> json_state \<Rightarrow> json_error + parsed_tree \<times> json_state" where
  "parse_line R index line s =
     (case parse_complete_record (run_env R (Some index)) (sl_text line) (sl_number line) s of
        Inl (Json_Syntax reason _) \<Rightarrow> Inl (Json_Malformed reason (sl_number line) (Some (index + 1)))
      | r \<Rightarrow> r)"

definition close_line :: "json_run \<Rightarrow> stream_state \<Rightarrow> bool \<Rightarrow> json_batch list \<times> json_outcome" where
  "close_line R p is_last =
     (if \<not> lines_full R p \<and> \<not> is_last then ([], Json_Going p)
      else if is_last then (case ensure_batch_slot R (ss_index p) True of
          Inl e \<Rightarrow> ([], Json_Raised e) | Inr _ \<Rightarrow> ([stream_batch R p (ss_pending p) True], Json_Finished))
      else (case yield_batch R p of Inl e \<Rightarrow> ([], Json_Raised e) | Inr (b, p) \<Rightarrow> ([b], Json_Going p)))"

definition step_line :: "json_run \<Rightarrow> stream_state \<Rightarrow> source_line \<Rightarrow> json_batch list \<times> json_outcome" where
  "step_line R p line =
     (let m = jc_max_records (jr_context R) in
      if first_non_whitespace (sl_text line) = None then ([], Json_Going p)
      else if m \<le> ss_total p then ([], Json_Raised (Json_Limit ''records'' m))
      else case parse_line R (ss_total p) line (ss_counters p) of
        Inl e \<Rightarrow> ([], Json_Raised e)
      | Inr (T, s) \<Rightarrow>
          (case check_tree R (pt_count T) (pt_chars T) of
             Inl e \<Rightarrow> ([], Json_Raised e)
           | Inr _ \<Rightarrow> (case line_room R (p\<lparr>ss_counters := s\<rparr>) T of
               Inl e \<Rightarrow> ([], Json_Raised e)
             | Inr (out, p) \<Rightarrow> (case close_line R (add_tree p (pt_nodes T) (pt_chars T)) (sl_last line) of
                 (others, result) \<Rightarrow> (out @ others, result)))))"

fun run_lines :: "json_run \<Rightarrow> stream_state \<Rightarrow> source_line list \<Rightarrow> json_batch list \<times> json_outcome" where
  "run_lines R p [] = ([], Json_Going p)"
| "run_lines R p (line # lines) = (case step_line R p line of
     (out, Json_Going p') \<Rightarrow> (case run_lines R p' lines of (others, result) \<Rightarrow> (out @ others, result))
   | (out, stop) \<Rightarrow> (out, stop))"

text \<open>After the loop: \<open>saw_record\<close> holds when a record was counted.\<close>

definition after_lines :: "json_run \<Rightarrow> stream_state \<Rightarrow> json_batch list \<times> json_error option" where
  "after_lines R p =
     (if ss_total p = 0 then ([], Some (Json_Malformed ''invalid_json'' 1 (Some 1)))
      else case ensure_batch_slot R (ss_index p) True of
        Inl e \<Rightarrow> ([], Some e) | Inr _ \<Rightarrow> ([stream_batch R p (ss_pending p) True], None))"

definition stream_lines :: "json_run \<Rightarrow> json_state \<Rightarrow> source_line list \<times> json_error option \<Rightarrow> json_batch list \<times> json_error option" where
  "stream_lines R s source = (case run_lines R (new_stream s) (fst source) of
     (out, Json_Raised e) \<Rightarrow> (out, Some e)
   | (out, Json_Finished) \<Rightarrow> (out, None)
   | (out, Json_Going p) \<Rightarrow> (case snd source of
       Some e \<Rightarrow> (out, Some e)
     | None \<Rightarrow> (case after_lines R p of (others, e) \<Rightarrow> (out @ others, e))))"

definition stream_json_lines :: "json_run \<Rightarrow> json_source \<Rightarrow> json_batch list \<times> json_error option" where
  "stream_json_lines R x = (case source_characters R x of
     Inl e \<Rightarrow> ([], Some e)
   | Inr s \<Rightarrow> stream_lines R fresh_counters (source_lines (jr_limits R) new_scan s))"

section \<open>Batches of a stream\<close>

lemma length_collect_refs: "length (collect_refs limit refs xs) \<le> max limit (length refs)"
proof (induction xs arbitrary: refs)
  case (Cons x xs)
  then show ?case using Cons [of "refs @ [x]"] by auto
qed simp

lemma length_tree_refs: "length (tree_refs i trees limit) \<le> limit"
  unfolding tree_refs_def by (rule order_trans [OF length_collect_refs]) (use length_collect_refs [of limit "[]"] in simp)

definition not_last :: "json_batch \<Rightarrow> bool" where
  "not_last b \<longleftrightarrow> \<not> jb_is_last b \<and> jb_manifest b = None"

text \<open>The books of a stream: what has been yielded, and what is pending, of the records read.\<close>

definition stream_books :: "json_run \<Rightarrow> stream_state \<Rightarrow> json_batch list \<Rightarrow> bool" where
  "stream_books R p out \<longleftrightarrow> ss_index p = length out \<and> map jb_index out = [0..<length out] \<and> list_all not_last out \<and>
     ss_summaries p = map json_summary_of out \<and> ss_refs p = concat (map jb_refs out) \<and> length (ss_refs p) \<le> max_tree_refs \<and>
     sum_list (map jb_records out) + ss_records p = ss_total p \<and> (out \<noteq> [] \<longrightarrow> length out < jc_max_batches (jr_context R))"

definition run_delivered :: "json_run \<Rightarrow> json_batch list \<Rightarrow> nat \<Rightarrow> bool" where
  "run_delivered R out n \<longleftrightarrow> out \<noteq> [] \<and> length out \<le> jc_max_batches (jr_context R) \<and> map jb_index out = [0..<length out] \<and>
     list_all not_last (butlast out) \<and> jb_is_last (last out) \<and>
     (\<exists>m. jb_manifest (last out) = Some m \<and> jm_batches m = map json_summary_of out \<and> jm_refs m = concat (map jb_refs out) \<and>
        length (jm_refs m) \<le> max_tree_refs \<and> jm_records m = n) \<and> sum_list (map jb_records out) = n"

lemma stream_batch_fields [simp]:
  "jb_index (stream_batch R p t e) = ss_index p" "jb_trees (stream_batch R p t e) = t" "jb_records (stream_batch R p t e) = ss_records p"
  "jb_is_last (stream_batch R p t e) = e" "jb_manifest (stream_batch R p t e) = None \<longleftrightarrow> \<not> e"
  by (simp_all add: stream_batch_def build_json_batch_def Let_def)

lemma stream_batch_refs: "length (jb_refs (stream_batch R p t e)) \<le> max_tree_refs - length (ss_refs p)"
  by (simp add: stream_batch_def build_json_batch_def Let_def length_tree_refs)

lemma next_stream_books:
  assumes "stream_books R p out" "ensure_batch_slot R (ss_index p) False = Inr u"
  shows "stream_books R (next_stream p (stream_batch R p t False)) (out @ [stream_batch R p t False])"
  using assms stream_batch_refs [of R p t False]
  by (auto simp: stream_books_def next_stream_def ensure_batch_slot_def not_last_def Let_def split: if_split_asm)

lemma last_stream_books:
  assumes "stream_books R p out" "ensure_batch_slot R (ss_index p) True = Inr u"
  shows "run_delivered R (out @ [stream_batch R p t True]) (ss_total p)"
proof -
  let ?b = "stream_batch R p t True"
  have m: "\<exists>m. jb_manifest ?b = Some m \<and> jm_batches m = ss_summaries p @ [json_summary_of ?b] \<and> jm_refs m = ss_refs p @ jb_refs ?b \<and>
    jm_records m = sum_list (map js_records (ss_summaries p)) + ss_records p"
    by (simp add: stream_batch_def build_json_batch_def json_summary_of_def Let_def)
  have "sum_list (map js_records (map json_summary_of out)) = sum_list (map jb_records out)"
    by (simp add: json_summary_of_def comp_def)
  then show ?thesis using assms m stream_batch_refs [of R p t True]
    by (auto simp: stream_books_def run_delivered_def ensure_batch_slot_def Let_def split: if_split_asm)
qed

lemma stream_books_update:
  "stream_books R (p\<lparr>ss_counters := s\<rparr>) out = stream_books R p out"
  "stream_books R p out \<Longrightarrow> stream_books R (add_tree p nodes chars) out"
  by (auto simp: stream_books_def add_tree_def)

lemma new_stream_books: "stream_books R (new_stream s) []"
  by (simp add: stream_books_def new_stream_def)


section \<open>What the lines deliver\<close>

text \<open>The records of the lines, parsed one after the other with the same counters.\<close>

fun parse_lines :: "json_run \<Rightarrow> nat \<Rightarrow> source_line list \<Rightarrow> json_state \<Rightarrow> json_error + parsed_tree list \<times> json_state" where
  "parse_lines R k [] s = Inr ([], s)"
| "parse_lines R k (line # lines) s = bindE (parse_line R k line s) (\<lambda>(T, s).
     bindE (parse_lines R (k + 1) lines s) (\<lambda>(Ts, s). Inr (T # Ts, s)))"

definition modest :: "json_run \<Rightarrow> json_batch \<Rightarrow> bool" where
  "modest R b \<longleftrightarrow> jb_records b \<le> jc_batch_size (jr_context R) \<and> length (jb_trees b) \<le> jl_batch_nodes (jr_limits R)"

definition pending_ok :: "json_run \<Rightarrow> stream_state \<Rightarrow> bool" where
  "pending_ok R p \<longleftrightarrow> (ss_pending p = [] \<longrightarrow> ss_records p = 0) \<and> ss_records p \<le> jc_batch_size (jr_context R) \<and>
     length (ss_pending p) \<le> jl_batch_nodes (jr_limits R)"

lemma json_nodes_pos: "0 < json_nodes j"
  by (cases j) simp_all

lemma parse_line_sound:
  assumes "parse_line R k line s = Inr (T, s')"
  obtains j where "json_text (jr_limits R) j (sl_text line)"
    "map plain (pt_nodes T) = fst (outline (run_env R (Some k)) root_place (id_nodes s, id_values s) j)" "pt_count T = length (pt_nodes T)"
    "pt_nodes T \<noteq> []" "id_nodes s' = id_nodes s + json_nodes j" "id_values s' = id_values s + json_scalars j"
proof -
  have r: "parse_complete_record (run_env R (Some k)) (sl_text line) (sl_number line) s = Inr (T, s')"
    using assms by (auto simp: parse_line_def split: sum.splits json_error.splits)
  obtain j where j: "json_text (je_limits (run_env R (Some k))) j (sl_text line)"
    "map plain (pt_nodes T) = fst (outline (run_env R (Some k)) root_place (id_nodes s, id_values s) j)" "pt_count T = json_nodes j"
    "counted (new_parser s) (json_nodes j) (json_keys j) (json_scalars j) s'"
    using record_sound [OF r] by metis
  have n: "length (pt_nodes T) = json_nodes j" using arg_cong [OF j(2), of length] by (simp add: length_outline)
  have ne: "pt_nodes T \<noteq> []" using n json_nodes_pos [of j] by auto
  have "je_limits (run_env R (Some k)) = jr_limits R" by (simp add: run_env_def)
  then show thesis using that [of j] j n ne by (simp add: counted_def counters_def)
qed

lemma yield_batch_step:
  assumes "yield_batch R p = Inr (b, p')" "stream_books R p out" "pending_ok R p"
  shows "stream_books R p' (out @ [b])" "jb_trees b = ss_pending p" "modest R b" "ss_pending p' = []" "ss_records p' = 0" "ss_chars p' = 0"
    "ss_total p' = ss_total p" "ss_counters p' = ss_counters p"
proof -
  have e: "ensure_batch_slot R (ss_index p) False = Inr ()" "b = stream_batch R p (ss_pending p) False" "p' = next_stream p b"
    using assms(1) by (auto simp: yield_batch_def bindE_eq_Inr Let_def)
  show "stream_books R p' (out @ [b])" using next_stream_books [OF assms(2) e(1)] e(2,3) by simp
  show "modest R b" using assms(3) e(2) by (simp add: modest_def pending_ok_def)
  show "jb_trees b = ss_pending p" "ss_pending p' = []" "ss_records p' = 0" "ss_chars p' = 0" "ss_total p' = ss_total p" "ss_counters p' = ss_counters p"
    using e(2,3) by (simp_all add: next_stream_def)
qed

lemma line_room_step:
  assumes "line_room R p T = Inr (more_out, p')" "stream_books R p out" "pending_ok R p" "0 < jc_batch_size (jr_context R)"
    and "pt_count T = length (pt_nodes T)" "pt_nodes T \<noteq> []" "check_tree R (pt_count T) (pt_chars T) = Inr u"
  shows "stream_books R p' (out @ more_out)" "concat (map jb_trees more_out) @ ss_pending p' = ss_pending p" "list_all (modest R) more_out"
    "pending_ok R (add_tree p' (pt_nodes T) (pt_chars T))" "ss_total p' = ss_total p" "ss_counters p' = ss_counters p"
proof -
  have c: "pt_count T \<le> jl_batch_nodes (jr_limits R)" using assms(7) by (auto simp: check_tree_def Let_def split: if_split_asm)
  have "stream_books R p' (out @ more_out) \<and> concat (map jb_trees more_out) @ ss_pending p' = ss_pending p \<and> list_all (modest R) more_out \<and>
    pending_ok R (add_tree p' (pt_nodes T) (pt_chars T)) \<and> ss_total p' = ss_total p \<and> ss_counters p' = ss_counters p"
  proof (cases "lines_overflow R p T")
    case True
    then obtain b where b: "yield_batch R p = Inr (b, p')" "more_out = [b]" using assms(1) by (auto simp: line_room_def bindE_eq_Inr)
    show ?thesis using yield_batch_step [OF b(1) assms(2,3)] b(2) c assms(4-6) by (simp add: pending_ok_def add_tree_def)
  next
    case False
    then have "more_out = []" "p' = p" using assms(1) by (auto simp: line_room_def)
    then show ?thesis using False c assms(2-6) by (auto simp: pending_ok_def add_tree_def lines_overflow_def)
  qed
  then show "stream_books R p' (out @ more_out)" "concat (map jb_trees more_out) @ ss_pending p' = ss_pending p" "list_all (modest R) more_out"
    "pending_ok R (add_tree p' (pt_nodes T) (pt_chars T))" "ss_total p' = ss_total p" "ss_counters p' = ss_counters p" by blast+
qed

lemma close_line_step:
  assumes "close_line R p is_last = (more_out, result)" "stream_books R p out" "pending_ok R p"
  shows "case result of
      Json_Raised e \<Rightarrow> True
    | Json_Going p' \<Rightarrow> stream_books R p' (out @ more_out) \<and> pending_ok R p' \<and> list_all (modest R) more_out \<and>
        concat (map jb_trees more_out) @ ss_pending p' = ss_pending p \<and> ss_total p' = ss_total p \<and> ss_counters p' = ss_counters p
    | Json_Finished \<Rightarrow> is_last \<and> run_delivered R (out @ more_out) (ss_total p) \<and> list_all (modest R) more_out \<and>
        concat (map jb_trees more_out) = ss_pending p"
proof -
  consider e where "result = Json_Raised e"
    | "more_out = []" "result = Json_Going p"
    | "is_last" "ensure_batch_slot R (ss_index p) True = Inr ()" "more_out = [stream_batch R p (ss_pending p) True]" "result = Json_Finished"
    | b p' where "yield_batch R p = Inr (b, p')" "more_out = [b]" "result = Json_Going p'"
    using assms(1) by (auto simp: close_line_def split: if_split_asm sum.splits)
  then show ?thesis
  proof cases
    case 3
    then show ?thesis using last_stream_books [OF assms(2) 3(2)] assms(3) by (simp add: modest_def pending_ok_def)
  next
    case (4 b p')
    then show ?thesis using yield_batch_step [OF 4(1) assms(2,3)] by (simp add: pending_ok_def)
  qed (use assms in simp_all)
qed

lemma step_line_cases:
  assumes "step_line R p line = (more_out, result)" "first_non_whitespace (sl_text line) \<noteq> None"
  obtains e where "result = Json_Raised e"
  | T s out p1 others u where "parse_line R (ss_total p) line (ss_counters p) = Inr (T, s)" "check_tree R (pt_count T) (pt_chars T) = Inr u"
      "line_room R (p\<lparr>ss_counters := s\<rparr>) T = Inr (out, p1)" "close_line R (add_tree p1 (pt_nodes T) (pt_chars T)) (sl_last line) = (others, result)"
      "more_out = out @ others"
proof (cases "parse_line R (ss_total p) line (ss_counters p)")
  case (Inl e)
  then show ?thesis using assms that(1) by (auto simp: step_line_def Let_def split: if_split_asm)
next
  case (Inr x)
  then obtain T s where T: "parse_line R (ss_total p) line (ss_counters p) = Inr (T, s)" by (cases x) auto
  show ?thesis
  proof (cases "check_tree R (pt_count T) (pt_chars T)")
    case (Inl e)
    then show ?thesis using assms T that(1) by (auto simp: step_line_def Let_def split: if_split_asm)
  next
    case u: (Inr u)
    show ?thesis
    proof (cases "line_room R (p\<lparr>ss_counters := s\<rparr>) T")
      case (Inl e)
      then show ?thesis using assms T u that(1) by (auto simp: step_line_def Let_def split: if_split_asm)
    next
      case (Inr y)
      then obtain out p1 where o: "line_room R (p\<lparr>ss_counters := s\<rparr>) T = Inr (out, p1)" by (cases y) auto
      obtain others r where c: "close_line R (add_tree p1 (pt_nodes T) (pt_chars T)) (sl_last line) = (others, r)" by fastforce
      consider "result = Json_Raised (Json_Limit ''records'' (jc_max_records (jr_context R)))" | "result = r" "more_out = out @ others"
        using assms T u o c by (auto simp: step_line_def Let_def split: if_split_asm)
      then show ?thesis using that(1) that(2) [OF T u o] c by cases blast+
    qed
  qed
qed

lemma step_line_books:
  assumes "step_line R p line = (more_out, result)" "first_non_whitespace (sl_text line) \<noteq> None"
    and "stream_books R p out" "pending_ok R p" "0 < jc_batch_size (jr_context R)"
  shows "case result of
      Json_Raised e \<Rightarrow> True
    | Json_Going p' \<Rightarrow> stream_books R p' (out @ more_out) \<and> pending_ok R p' \<and> list_all (modest R) more_out \<and>
        ss_total p' = ss_total p + 1 \<and> (\<exists>T. parse_line R (ss_total p) line (ss_counters p) = Inr (T, ss_counters p') \<and>
          concat (map jb_trees more_out) @ ss_pending p' = ss_pending p @ pt_nodes T)
    | Json_Finished \<Rightarrow> sl_last line \<and> run_delivered R (out @ more_out) (ss_total p + 1) \<and> list_all (modest R) more_out \<and>
        (\<exists>T s. parse_line R (ss_total p) line (ss_counters p) = Inr (T, s) \<and> concat (map jb_trees more_out) = ss_pending p @ pt_nodes T)"
  using assms(1,2)
proof (cases rule: step_line_cases)
  case (2 T s o1 p1 others u)
  have T: "pt_count T = length (pt_nodes T)" "pt_nodes T \<noteq> []" using parse_line_sound [OF 2(1)] by metis+
  have p: "stream_books R (p\<lparr>ss_counters := s\<rparr>) out" "pending_ok R (p\<lparr>ss_counters := s\<rparr>)"
    using assms(3,4) by (simp_all add: stream_books_update pending_ok_def)
  note r = line_room_step [OF 2(3) p assms(5) T 2(2)]
  have a: "ss_pending (add_tree p1 (pt_nodes T) (pt_chars T)) = ss_pending p1 @ pt_nodes T"
    "ss_total (add_tree p1 (pt_nodes T) (pt_chars T)) = ss_total p + 1" "ss_counters (add_tree p1 (pt_nodes T) (pt_chars T)) = s"
    using r(5,6) by (simp_all add: add_tree_def)
  have m: "concat (map jb_trees o1) @ ss_pending p1 = ss_pending p" using r(2) by simp
  show ?thesis using close_line_step [OF 2(4) stream_books_update(2) [OF r(1)] r(4)] r(3) 2(1,5) a m
    by (cases result) (auto simp flip: m)
qed simp


lemma run_lines_books:
  assumes "0 < jc_batch_size (jr_context R)"
  shows "run_lines R p lines = (more_out, result) \<Longrightarrow> list_all (\<lambda>line. first_non_whitespace (sl_text line) \<noteq> None) lines \<Longrightarrow>
    stream_books R p out \<Longrightarrow> pending_ok R p \<Longrightarrow>
    (case result of
      Json_Raised e \<Rightarrow> True
    | Json_Going p' \<Rightarrow> stream_books R p' (out @ more_out) \<and> pending_ok R p' \<and> list_all (modest R) more_out \<and>
        ss_total p' = ss_total p + length lines \<and> (\<exists>Ts. parse_lines R (ss_total p) lines (ss_counters p) = Inr (Ts, ss_counters p') \<and>
          concat (map jb_trees more_out) @ ss_pending p' = ss_pending p @ concat (map pt_nodes Ts))
    | Json_Finished \<Rightarrow> (\<exists>a b Ts s. lines = a @ b \<and> a \<noteq> [] \<and> sl_last (last a) \<and> run_delivered R (out @ more_out) (ss_total p + length a) \<and>
        list_all (modest R) more_out \<and> parse_lines R (ss_total p) a (ss_counters p) = Inr (Ts, s) \<and>
        concat (map jb_trees more_out) = ss_pending p @ concat (map pt_nodes Ts)))"
proof (induction lines arbitrary: p out more_out)
  case Nil
  then show ?case by auto
next
  case (Cons line lines)
  obtain o1 r1 where s: "step_line R p line = (o1, r1)" by fastforce
  have f: "first_non_whitespace (sl_text line) \<noteq> None" using Cons.prems(2) by simp
  note b = step_line_books [OF s f Cons.prems(3,4) assms]
  show ?case
  proof (cases r1)
    case (Json_Raised e)
    then show ?thesis using Cons.prems(1) s by auto
  next
    case Json_Finished
    then have r: "result = Json_Finished" "more_out = o1" using Cons.prems(1) s by auto
    obtain T s' where T: "sl_last line" "run_delivered R (out @ o1) (ss_total p + 1)" "list_all (modest R) o1"
      "parse_line R (ss_total p) line (ss_counters p) = Inr (T, s')" "concat (map jb_trees o1) = ss_pending p @ pt_nodes T"
      using b Json_Finished by auto
    show ?thesis unfolding r json_outcome.case
      using T by (intro exI [of _ "[line]"] exI [of _ lines] exI [of _ "[T]"] exI [of _ s']) simp
  next
    case (Json_Going p')
    obtain o2 where r: "run_lines R p' lines = (o2, result)" "more_out = o1 @ o2"
      using Cons.prems(1) s Json_Going by (auto split: prod.splits)
    obtain T where T: "stream_books R p' (out @ o1)" "pending_ok R p'" "list_all (modest R) o1" "ss_total p' = ss_total p + 1"
      "parse_line R (ss_total p) line (ss_counters p) = Inr (T, ss_counters p')"
      "concat (map jb_trees o1) @ ss_pending p' = ss_pending p @ pt_nodes T"
      using b Json_Going by auto
    note ih = Cons.IH [OF r(1) _ T(1,2)]
    show ?thesis
    proof (cases result)
      case Json_Finished
      then obtain a c Ts s'' where i: "lines = a @ c" "a \<noteq> []" "sl_last (last a)" "run_delivered R ((out @ o1) @ o2) (ss_total p' + length a)"
        "list_all (modest R) o2" "parse_lines R (ss_total p') a (ss_counters p') = Inr (Ts, s'')"
        "concat (map jb_trees o2) = ss_pending p' @ concat (map pt_nodes Ts)"
        using ih Cons.prems(2) by auto
      have "concat (map jb_trees more_out) = ss_pending p @ concat (map pt_nodes (T # Ts))"
        using i(7) T(6) r(2) by (metis append.assoc concat.simps(2) concat_append list.simps(9) map_append)
      moreover have "parse_lines R (ss_total p) (line # a) (ss_counters p) = Inr (T # Ts, s'')" using T(4,5) i(6) by simp
      ultimately show ?thesis unfolding Json_Finished json_outcome.case
        using i(1-5) T(3,4) r(2) by (intro exI [of _ "line # a"] exI [of _ c] exI [of _ "T # Ts"] exI [of _ s'']) simp
    next
      case g: (Json_Going p'')
      then obtain Ts where i: "stream_books R p'' ((out @ o1) @ o2)" "pending_ok R p''" "list_all (modest R) o2"
        "ss_total p'' = ss_total p' + length lines" "parse_lines R (ss_total p') lines (ss_counters p') = Inr (Ts, ss_counters p'')"
        "concat (map jb_trees o2) @ ss_pending p'' = ss_pending p' @ concat (map pt_nodes Ts)"
        using ih Cons.prems(2) by auto
      have "concat (map jb_trees more_out) @ ss_pending p'' = ss_pending p @ concat (map pt_nodes (T # Ts))"
        using i(6) T(6) r(2) by (metis append.assoc concat.simps(2) concat_append list.simps(9) map_append)
      moreover have "parse_lines R (ss_total p) (line # lines) (ss_counters p) = Inr (T # Ts, ss_counters p'')" using T(4,5) i(5) by simp
      ultimately show ?thesis unfolding g json_outcome.case
        using i(1-4) T(3,4) r(2) by (intro conjI exI [of _ "T # Ts"]) simp_all
    qed simp
  qed
qed

text \<open>The values of the lines, and the nodes they stand for.\<close>

fun lines_outline :: "json_run \<Rightarrow> nat \<Rightarrow> nat \<times> nat \<Rightarrow> json list \<Rightarrow> tree_node list" where
  "lines_outline R k c [] = []"
| "lines_outline R k c (j # js) = fst (outline (run_env R (Some k)) root_place c j) @
     lines_outline R (k + 1) (fst c + json_nodes j, snd c + json_scalars j) js"

lemma parse_lines_values:
  "parse_lines R k lines s = Inr (Ts, s') \<Longrightarrow> \<exists>js. list_all2 (\<lambda>line j. json_text (jr_limits R) j (sl_text line)) lines js \<and>
     map plain (concat (map pt_nodes Ts)) = lines_outline R k (id_nodes s, id_values s) js"
proof (induction lines arbitrary: k s Ts)
  case (Cons line lines)
  obtain T s1 where T: "parse_line R k line s = Inr (T, s1)"
    and r: "bindE (parse_lines R (k + 1) lines s1) (\<lambda>(Ts, s). Inr (T # Ts, s)) = Inr (Ts, s')"
    using Cons.prems unfolding parse_lines.simps by (rule bindPE)
  obtain Us where U: "parse_lines R (k + 1) lines s1 = Inr (Us, s')" "Ts = T # Us" using r by (auto simp: bindE_eq_Inr)
  obtain j where j: "json_text (jr_limits R) j (sl_text line)"
    "map plain (pt_nodes T) = fst (outline (run_env R (Some k)) root_place (id_nodes s, id_values s) j)"
    "id_nodes s1 = id_nodes s + json_nodes j" "id_values s1 = id_values s + json_scalars j"
    using parse_line_sound [OF T] by metis
  obtain js where js: "list_all2 (\<lambda>line j. json_text (jr_limits R) j (sl_text line)) lines js"
    "map plain (concat (map pt_nodes Us)) = lines_outline R (k + 1) (id_nodes s1, id_values s1) js"
    using Cons.IH [OF U(1)] by blast
  show ?case using j js U(2) by (intro exI [of _ "j # js"]) simp
qed simp

lemma mark_lines_append: "mark_lines xs = a @ b \<Longrightarrow> a \<noteq> [] \<Longrightarrow> sl_last (last a) \<Longrightarrow> b = []"
proof (induction xs arbitrary: a rule: mark_lines.induct)
  case (2 n line)
  then show ?case by (cases a) auto
next
  case (3 n line x xs)
  then show ?case by (cases a) (auto split: if_splits)
qed simp

lemma mark_lines_map: "map (\<lambda>line. (sl_number line, sl_text line)) (mark_lines xs) = xs"
  by (induction xs rule: mark_lines.induct) auto

lemma mark_lines_last: "xs \<noteq> [] \<Longrightarrow> mark_lines xs \<noteq> [] \<and> sl_last (last (mark_lines xs))"
  by (induction xs rule: mark_lines.induct) auto


lemma release_lasts: "\<forall>line \<in> set (release_pending r False). \<not> sl_last line"
  by (auto simp: release_pending_def split: option.split)

lemma source_lines_error: "snd (source_lines l r s) \<noteq> None \<Longrightarrow> \<forall>line \<in> set (fst (source_lines l r s)). \<not> sl_last line"
proof (induction l r s rule: source_lines.induct)
  case (1 l r s)
  note step = source_lines.simps [of l r s]
  show ?case
  proof (cases "peek_char s")
    case (Inl e)
    then show ?thesis unfolding step by simp
  next
    case (Inr q)
    show ?thesis
    proof (cases q)
      case None
      then show ?thesis using 1(4) Inr unfolding step by simp
    next
      case (Some ch)
      note p = Inr [unfolded Some]
      show ?thesis
      proof (cases "code_point ch \<noteq> 13 \<and> code_point ch \<noteq> 10")
        case True
        then show ?thesis using 1(1,2) [OF p refl] 1(4) release_lasts [of r] unfolding step p
          by (auto simp: prepend_def split: if_split_asm)
      next
        case False
        note nl = step [unfolded p sum.case option.case if_not_P [OF False]]
        show ?thesis
        proof (cases "skip_line_feed (code_point ch) (shift (code_point ch) s)")
          case (Inl e)
          then show ?thesis unfolding nl by simp
        next
          case (Inr s')
          have "\<forall>line \<in> set (ended_lines r). \<not> sl_last line" using release_lasts [of r] by (simp add: ended_lines_def)
          then show ?thesis using 1(3) [OF p refl False Inr] 1(4) unfolding nl Inr by (auto simp: prepend_def)
        qed
      qed
    qed
  qed
qed

lemma source_lines_whole:
  "snd (source_lines l r s) = None \<Longrightarrow> length (sc_line r) \<le> jl_record_chars l \<Longrightarrow>
    lx_fault s = None \<and> short_lines l (sample_lines True (sc_number r) (sc_line r) (lx_text s))"
proof (induction l r s rule: source_lines.induct)
  case (1 l r s)
  note step = source_lines.simps [of l r s]
  have "snd (source_lines l r s) \<noteq> None" if "peek_char s = Inl e" for e using that unfolding step by simp
  then obtain q where q: "peek_char s = Inr q" using 1(4) by (cases "peek_char s") auto
  show ?case
  proof (cases q)
    case None
    then show ?thesis using q 1(5) by (auto simp: peek_Inr short_lines_def)
  next
    case (Some ch)
    note p = q [unfolded Some]
    obtain c cs where c: "lx_text s = c # cs" "ch = Character c (lx_pos s) (lx_pos (shift c s))" using p by (auto simp: peek_Inr)
    show ?thesis
    proof (cases "code_point ch \<noteq> 13 \<and> code_point ch \<noteq> 10")
      case True
      have sm: "sample_lines True (sc_number r) (sc_line r) (lx_text s) = sample_lines True (sc_number r) (sc_line r @ [c]) cs"
        using True c by simp
      have short: "\<not> jl_record_chars l < length (sc_line r) + 1"
        using 1(4) True unfolding step p by (simp split: if_split_asm)
      then show ?thesis using 1(1,2) [OF p refl True] 1(4) True c unfolding step p sm
        by (cases "json_space c \<or> sc_content r") (simp_all add: prepend_def)
    next
      case False
      note nl = step [unfolded p sum.case option.case if_not_P [OF False]]
      have "skip_line_feed (code_point ch) (shift (code_point ch) s) \<noteq> Inl e" for e using 1(4) unfolding nl by auto
      then obtain s' where s': "skip_line_feed (code_point ch) (shift (code_point ch) s) = Inr s'"
        by (cases "skip_line_feed (code_point ch) (shift (code_point ch) s)") auto
      have "sc_line (end_line r) = []" "sc_number (end_line r) = sc_number r + 1" by (simp_all add: end_line_def Let_def)
      then have i: "lx_fault s' = None" "short_lines l (sample_lines True (sc_number r + 1) [] (lx_text s'))"
        using 1(3) [OF p refl False s'] 1(4) unfolding nl s' by (simp_all add: prepend_def)
      have f: "lx_fault s = None"
        using s' i(1) by (auto simp: skip_line_feed_def bindE_eq_Inr split: if_split_asm option.splits)
      obtain s'' where "skip_line_feed c (shift c s) = Inr s''"
        "lx_text s'' = (if c = 13 \<and> cs \<noteq> [] \<and> hd cs = 10 then tl cs else cs)"
        using skip_line_feed_text [of "shift c s" c] f c(1) by auto
      then have "lx_text s' = (if c = 13 \<and> cs \<noteq> [] \<and> hd cs = 10 then tl cs else cs)" using s' c(2) by simp
      then show ?thesis using False f i(2) c 1(5) by (auto simp: short_lines_def)
    qed
  qed
qed

definition value_lines :: "pystr \<Rightarrow> (nat \<times> pystr) list" where
  "value_lines txt = filter filled (sample_physical_lines True txt)"

lemma source_lines_of_text:
  assumes "snd (source_lines l new_scan s) = None"
  shows "fst (source_lines l new_scan s) = mark_lines (value_lines (lx_text s))"
proof -
  have "lx_fault s = None" "short_lines l (sample_physical_lines True (lx_text s))"
    using source_lines_whole [OF assms] by (simp_all add: new_scan_def sample_physical_lines_def)
  then show ?thesis
    using source_lines_exact [of new_scan s l] by (simp add: new_scan_def scan_ok_def sample_physical_lines_def pending_lines_def value_lines_def)
qed

lemma mark_lines_filled: "list_all (\<lambda>line. first_non_whitespace (sl_text line) \<noteq> None) (mark_lines (filter filled xs))"
proof -
  have "list_all filled (map (\<lambda>line. (sl_number line, sl_text line)) (mark_lines (filter filled xs)))"
    unfolding mark_lines_map by (simp add: list_all_iff)
  then show ?thesis by (simp add: list_all_iff filled_def)
qed

lemma unmarked_lines:
  "\<forall>line \<in> set lines. \<not> sl_last line \<Longrightarrow> run_lines R p lines \<noteq> (o1, Json_Finished)"
proof (induction lines arbitrary: p o1)
  case (Cons line lines)
  have "snd (step_line R p line) \<noteq> Json_Finished" using Cons.prems
    by (auto simp: step_line_def close_line_def Let_def split: sum.splits if_splits prod.splits)
  then show ?case using Cons by (auto split: prod.splits json_outcome.splits)
qed simp

lemma finished_source:
  assumes "stream_lines R s (source_lines l r s') = (bs, None)"
  shows "snd (source_lines l r s') = None"
proof (rule ccontr)
  assume e: "snd (source_lines l r s') \<noteq> None"
  have "run_lines R p (fst (source_lines l r s')) \<noteq> (o1, Json_Finished)" for p o1
    by (rule unmarked_lines [OF source_lines_error [OF e]])
  then show False using assms e by (auto simp: stream_lines_def split: json_outcome.splits prod.splits)
qed

text \<open>Both ways to end, at the marked line or after the loop, deliver the same.\<close>

lemma lines_delivered:
  assumes "stream_lines R fresh_counters (mark_lines (filter filled xs), None) = (bs, None)" "0 < jc_batch_size (jr_context R)"
  obtains Ts s' where "parse_lines R 0 (mark_lines (filter filled xs)) fresh_counters = Inr (Ts, s')"
    "concat (map jb_trees bs) = concat (map pt_nodes Ts)" "run_delivered R bs (length (mark_lines (filter filled xs)))" "list_all (modest R) bs"
proof -
  let ?p = "new_stream fresh_counters" and ?lines = "mark_lines (filter filled xs)"
  obtain out r where r: "run_lines R ?p ?lines = (out, r)" by fastforce
  have b: "stream_books R ?p []" "pending_ok R ?p" by (rule new_stream_books, simp add: pending_ok_def new_stream_def)
  have p0: "ss_total ?p = 0" "ss_counters ?p = fresh_counters" "ss_pending ?p = []" by (simp_all add: new_stream_def)
  note run = run_lines_books [OF assms(2) r mark_lines_filled b]
  show thesis
  proof (cases r)
    case (Json_Raised e)
    then show thesis using assms(1) r by (simp add: stream_lines_def)
  next
    case Json_Finished
    then have "bs = out" using assms(1) r by (simp add: stream_lines_def)
    moreover obtain a c Ts s' where a: "?lines = a @ c" "a \<noteq> []" "sl_last (last a)" "run_delivered R out (length a)" "list_all (modest R) out"
      "parse_lines R 0 a fresh_counters = Inr (Ts, s')" "concat (map jb_trees out) = concat (map pt_nodes Ts)"
      using run Json_Finished p0 by auto
    moreover have "c = []" using mark_lines_append [OF a(1-3)] .
    ultimately show thesis using that by simp
  next
    case (Json_Going p')
    then obtain Ts where g: "stream_books R p' out" "pending_ok R p'" "list_all (modest R) out" "ss_total p' = length ?lines"
      "parse_lines R 0 ?lines fresh_counters = Inr (Ts, ss_counters p')" "concat (map jb_trees out) @ ss_pending p' = concat (map pt_nodes Ts)"
      using run p0 by auto
    have "(case after_lines R p' of (others, e) \<Rightarrow> (out @ others, e)) = (bs, None)"
      using assms(1) r Json_Going by (simp add: stream_lines_def)
    then have e: "ensure_batch_slot R (ss_index p') True = Inr ()" "bs = out @ [stream_batch R p' (ss_pending p') True]"
      by (auto simp: after_lines_def split: if_split_asm sum.splits)
    show thesis using that [OF g(5)] e(2) g(2-4,6) last_stream_books [OF g(1) e(1)] by (simp add: modest_def pending_ok_def)
  qed
qed

lemma lines_whole:
  assumes "stream_json_lines R x = (bs, None)" "0 < jc_batch_size (jr_context R)"
  shows "\<exists>js. list_all2 (\<lambda>(n, line) j. json_text (jr_limits R) j line) (value_lines (jx_text x)) js \<and>
    map plain (concat (map jb_trees bs)) = lines_outline R 0 (0, 0) js \<and>
    run_delivered R bs (length (value_lines (jx_text x))) \<and> list_all (modest R) bs"
proof -
  obtain s0 where s0: "source_characters R x = Inr s0" "lx_text s0 = jx_text x"
    using assms(1) by (auto simp: stream_json_lines_def source_characters_def Let_def split: sum.splits if_split_asm)
  define src where "src = source_lines (jr_limits R) new_scan s0"
  let ?lines = "mark_lines (value_lines (jx_text x))"
  have st: "stream_lines R fresh_counters src = (bs, None)" using assms(1) s0(1) by (simp add: stream_json_lines_def src_def)
  have none: "snd src = None" unfolding src_def by (rule finished_source [OF st [unfolded src_def]])
  then have "src = (?lines, None)" using source_lines_of_text s0(2) unfolding src_def by (metis prod.collapse)
  then obtain Ts s' where t: "parse_lines R 0 ?lines fresh_counters = Inr (Ts, s')" "concat (map jb_trees bs) = concat (map pt_nodes Ts)"
    "run_delivered R bs (length ?lines)" "list_all (modest R) bs"
    using lines_delivered [OF _ assms(2)] st unfolding value_lines_def by metis
  obtain js where js: "list_all2 (\<lambda>line j. json_text (jr_limits R) j (sl_text line)) ?lines js"
    "map plain (concat (map pt_nodes Ts)) = lines_outline R 0 (0, 0) js"
    using parse_lines_values [OF t(1)] by (auto simp: fresh_counters_def)
  have "list_all2 (\<lambda>(n, line) j. json_text (jr_limits R) j line) (map (\<lambda>line. (sl_number line, sl_text line)) ?lines) js"
    using js(1) by (simp add: list.rel_map)
  then have "list_all2 (\<lambda>(n, line) j. json_text (jr_limits R) j line) (value_lines (jx_text x)) js" unfolding mark_lines_map .
  moreover have "length ?lines = length (value_lines (jx_text x))"
    using arg_cong [OF mark_lines_map [of "value_lines (jx_text x)"], of length] by simp
  ultimately show ?thesis using js(2) t(2-4) by metis
qed

text \<open>C8: A JSON Lines source is delivered whole or with an error. When the stream ends without one, its batches hold, in
  order, the nodes of the value of every line that is not blank (the lines as a probe splits them), the last batch
  alone is marked and its manifest sums up all of them, and no batch exceeds its records, nodes or references.\<close>
theorem json_lines_deliver:
  assumes "stream_json_lines R x = (bs, None)" "0 < jc_batch_size (jr_context R)"
  shows "\<exists>js. list_all2 (\<lambda>(n, line) j. json_text (jr_limits R) j line) (value_lines (jx_text x)) js \<and>
    map plain (concat (map jb_trees bs)) = lines_outline R 0 (0, 0) js \<and>
    run_delivered R bs (length (value_lines (jx_text x))) \<and> list_all (modest R) bs"
  using lines_whole [OF assms] .


definition example_context :: json_context where
  "example_context = \<lparr>jc_max_bytes = 64, jc_utf8 = True, jc_max_records = 4, jc_max_physical = 32, jc_nesting = 3, jc_batch_size = 1,
     jc_max_batches = 3\<rparr>"

definition example_run :: json_run where
  "example_run = \<lparr>jr_hash = (\<lambda>b. [jb_index b]), jr_manifest_hash = (\<lambda>m. [jm_records m]), jr_limits = example_limits,
     jr_context = example_context\<rparr>"

definition example_lines :: json_source where
  "example_lines = \<lparr>jx_size = 9, jx_text = [49, 10, 10, 116, 114, 117, 101, 13, 10], jx_fault = None\<rparr>"

theorem json_lines_deliver_witness:
  "\<exists>bs. stream_json_lines example_run example_lines = (bs, None) \<and> length bs = 2 \<and> run_delivered example_run bs 2"
proof -
  have "snd (stream_json_lines example_run example_lines) = None \<and> length (fst (stream_json_lines example_run example_lines)) = 2"
    by code_simp
  then obtain bs where r: "stream_json_lines example_run example_lines = (bs, None)" "length bs = 2"
    by (cases "stream_json_lines example_run example_lines") auto
  have "length (value_lines (jx_text example_lines)) = 2" "0 < jc_batch_size (jr_context example_run)" by code_simp+
  then show ?thesis using r json_lines_deliver [OF r(1)] by auto
qed

end
