(* ===== verification/Json_Document.thy ===== *)
theory Json_Document
  imports Json_Streams
begin

text \<open>
  The stream of a JSON document (\<open>stream_json_document\<close> and \<open>_array_root\<close> of \<open>parsers/builtin/_json.py\<close>): a root that is
  not an array is one record and one batch; the items of a root array are records, and every batch carries a
  segment of the array with the children it holds.
\<close>

section \<open>Segments\<close>

definition array_root :: "nat \<Rightarrow> nat \<Rightarrow> nat \<Rightarrow> nat \<Rightarrow> bool \<Rightarrow> tree_node" where
  "array_root root segment_index child_start child_count is_last = \<lparr>tn_id = root, tn_parent = None, tn_name = ''root'',
     tn_raw_name = None, tn_order = 0, tn_kind = Array_Node,
     tn_location = \<lparr>jp_pointer = [], jp_path = [], jp_record = None, jp_line_start = None, jp_line_end = None,
       jp_column_start = None, jp_column_end = None\<rparr>,
     tn_value = None, tn_segment = Some \<lparr>ts_index = segment_index, ts_child_start = child_start, ts_child_count = child_count,
       ts_is_last = is_last\<rparr>\<rparr>"

text \<open>The variables of the loop: those of a stream (with the lexer in the counters), the first child of the segment and the token at hand.\<close>

record doc_state =
  dc_stream :: stream_state
  dc_start :: nat
  dc_token :: token

definition with_lexer :: "doc_state \<Rightarrow> json_state \<Rightarrow> doc_state" where
  "with_lexer d s = d\<lparr>dc_stream := (dc_stream d)\<lparr>ss_counters := s\<rparr>\<rparr>"

definition lexer_of :: "doc_state \<Rightarrow> json_state" where
  "lexer_of d = ss_counters (dc_stream d)"

definition yield_segment :: "json_run \<Rightarrow> nat \<Rightarrow> bool \<Rightarrow> doc_state \<Rightarrow> json_error + json_batch \<times> doc_state" where
  "yield_segment R root is_last d = (let p = dc_stream d in
     bindE (if 0 < ss_index p then claim_continuation_root (run_env R None) (ss_counters p) else Inr (ss_counters p)) (\<lambda>s.
     bindE (ensure_batch_slot R (ss_index p) is_last) (\<lambda>_.
       let b = stream_batch R p (array_root root (ss_index p) (dc_start d) (ss_records p) is_last # ss_pending p) is_last in
       Inr (b, d\<lparr>dc_stream := (next_stream p b)\<lparr>ss_counters := s\<rparr>, dc_start := ss_total p\<rparr>))))"

definition segment_overflow :: "json_run \<Rightarrow> stream_state \<Rightarrow> nat \<Rightarrow> nat \<Rightarrow> bool" where
  "segment_overflow R p nodes chars \<longleftrightarrow> ss_pending p \<noteq> [] \<and>
     (jl_batch_nodes (jr_limits R) < length (ss_pending p) + nodes + 1 \<or> jl_batch_chars (jr_limits R) < ss_chars p + chars)"

definition segment_room :: "json_run \<Rightarrow> nat \<Rightarrow> nat \<Rightarrow> nat \<Rightarrow> doc_state \<Rightarrow> json_error + json_batch list \<times> doc_state" where
  "segment_room R root nodes chars d = (if segment_overflow R (dc_stream d) nodes chars
     then bindE (yield_segment R root False d) (\<lambda>(b, d). Inr ([b], d)) else Inr ([], d))"

section \<open>The items of a root array\<close>

definition array_item :: "nat \<Rightarrow> nat \<Rightarrow> place" where
  "array_item root order = \<lparr>pl_parent = Some root, pl_name = ''item'', pl_raw_name = None, pl_order = order,
     pl_pointer = 47 # nat_text order, pl_path = [None]\<rparr>"

definition read_item :: "json_run \<Rightarrow> nat \<Rightarrow> nat \<Rightarrow> token \<Rightarrow> json_state \<Rightarrow> json_error + tree_node list \<times> nat \<times> token \<times> json_state" where
  "read_item R root order t s =
     bindE (parse_value (run_env R None) t (array_item root order) 2 (new_parser s)) (\<lambda>(nodes, _, s).
     bindE (next_after_record (jr_limits R) s) (\<lambda>(delimiter, chars, s).
       if tk_kind delimiter \<noteq> Comma \<and> tk_kind delimiter \<noteq> Array_End
       then Inl (Json_Syntax ''invalid_json'' (at_line (tk_start delimiter)))
       else bindE (check_tree R (length nodes + 1) chars) (\<lambda>_. Inr (nodes, chars, delimiter, s))))"

text \<open>Nothing but white space may follow.\<close>

definition end_of_input :: "json_limits \<Rightarrow> json_state \<Rightarrow> json_error + json_state" where
  "end_of_input l s = bindE (next_token l s) (\<lambda>(trailing, s).
     if tk_kind trailing \<noteq> End_Of_File then Inl (Json_Syntax ''trailing_content'' (at_line (tk_start trailing))) else Inr s)"

definition next_item :: "json_run \<Rightarrow> doc_state \<Rightarrow> json_error + doc_state" where
  "next_item R d = bindE (next_token (jr_limits R) (begin_record (lexer_of d))) (\<lambda>(t, s). Inr ((with_lexer d s)\<lparr>dc_token := t\<rparr>))"

datatype doc_outcome = Doc_Raised json_error | Doc_Finished | Doc_Going doc_state

definition go_on :: "json_error + doc_state \<Rightarrow> doc_outcome" where
  "go_on r = (case r of Inl e \<Rightarrow> Doc_Raised e | Inr d \<Rightarrow> Doc_Going d)"

definition close_item :: "json_run \<Rightarrow> nat \<Rightarrow> bool \<Rightarrow> doc_state \<Rightarrow> json_batch list \<times> doc_outcome" where
  "close_item R root is_last d =
     (case (if is_last then end_of_input (jr_limits R) (lexer_of d) else Inr (lexer_of d)) of
        Inl e \<Rightarrow> ([], Doc_Raised e)
      | Inr s \<Rightarrow>
          if \<not> jc_batch_size (jr_context R) \<le> ss_records (dc_stream d) \<and> \<not> is_last then ([], go_on (next_item R d))
          else (case yield_segment R root is_last (with_lexer d s) of
                  Inl e \<Rightarrow> ([], Doc_Raised e)
                | Inr (b, d) \<Rightarrow> ([b], if is_last then Doc_Finished else go_on (next_item R d))))"

definition step_item :: "json_run \<Rightarrow> nat \<Rightarrow> doc_state \<Rightarrow> json_batch list \<times> doc_outcome" where
  "step_item R root d =
     (let k = ss_total (dc_stream d); m = jc_max_records (jr_context R); n = jl_array_items (jr_limits R) in
      if m \<le> k then ([], Doc_Raised (Json_Limit ''records'' m))
      else if n \<le> k then ([], Doc_Raised (Json_Limit ''array_items'' n))
      else case read_item R root k (dc_token d) (lexer_of d) of
        Inl e \<Rightarrow> ([], Doc_Raised e)
      | Inr (nodes, chars, delimiter, s) \<Rightarrow>
          (case segment_room R root (length nodes) chars (with_lexer d s) of
             Inl e \<Rightarrow> ([], Doc_Raised e)
           | Inr (out, d) \<Rightarrow>
               (case close_item R root (tk_kind delimiter = Array_End) (d\<lparr>dc_stream := add_tree (dc_stream d) nodes chars\<rparr>) of
                  (others, result) \<Rightarrow> (out @ others, result))))"

text \<open>An item and its delimiter take text, so the loop ends.\<close>

lemma parse_keeps_text:
  "\<forall>nodes stop s'. parse_value E t pl depth s = Inr (nodes, stop, s') \<longrightarrow> length (lx_text s') \<le> length (lx_text s)"
  "\<forall>nodes c s'. parse_members E nid pl depth t order occ s = Inr (nodes, c, s') \<longrightarrow> length (lx_text s') \<le> length (lx_text s)"
  "\<forall>nodes c s'. parse_items E nid pl depth t order s = Inr (nodes, c, s') \<longrightarrow> length (lx_text s') \<le> length (lx_text s)"
proof (induction E t pl depth s and E nid pl depth t order occ s and E nid pl depth t order s
    rule: parse_value_parse_members_parse_items.induct)
  case (1 E t pl depth s)
  show ?case
  proof (intro allI impI)
    fix nodes stop s' assume r: "parse_value E t pl depth s = Inr (nodes, stop, s')"
    from r show "length (lx_text s') \<le> length (lx_text s)"
    proof (cases rule: parse_value_cases)
      case (scalar nid s0 n)
      then show ?thesis using enter_value_text [OF scalar(1)] scalar_node_text [OF scalar(3)] by simp
    next
      case (empty_object nid s0 t1)
      then show ?thesis using enter_value_text [OF empty_object(1)] next_token_shorter(1) [OF empty_object(3)] by simp
    next
      case (object nid s0 t1 s1 cs c)
      have "length (lx_text s') \<le> length (lx_text s1)" using "1.IH"(1) [OF object(1) refl object(2,3) refl object(4)] object(5) by blast
      then show ?thesis using enter_value_text [OF object(1)] next_token_shorter(1) [OF object(3)] by simp
    next
      case (empty_array nid s0 t1)
      then show ?thesis using enter_value_text [OF empty_array(1)] next_token_shorter(1) [OF empty_array(3)] by simp
    next
      case (array nid s0 t1 s1 cs c)
      have ko: "tk_kind t \<noteq> Object_Start" using array(2) by simp
      have "length (lx_text s') \<le> length (lx_text s1)" using "1.IH"(2) [OF array(1) refl ko array(2,3) refl array(4)] array(5) by blast
      then show ?thesis using enter_value_text [OF array(1)] next_token_shorter(1) [OF array(3)] by simp
    qed
  qed
next
  case (2 E nid pl depth t order occ s)
  show ?case
  proof (intro allI impI)
    fix nodes c s' assume r: "parse_members E nid pl depth t order occ s = Inr (nodes, c, s')"
    obtain key child s1 ns stop s2 d s3 where p: "member_key E t order s = Inr (key, child, s1)"
      "parse_value E child (member_place nid pl key order (occ key)) (depth + 1) s1 = Inr (ns, stop, s2)" "next_token (je_limits E) s2 = Inr (d, s3)"
      and k: "(tk_kind d = Object_End \<and> nodes = ns \<and> c = d \<and> s' = s3) \<or>
       (tk_kind d = Comma \<and> order + 1 < jl_columns (je_limits E) \<and> (\<exists>t1 s4 others. next_token (je_limits E) s3 = Inr (t1, s4) \<and>
         parse_members E nid pl depth t1 (order + 1) (occ(key := occ key + 1)) s4 = Inr (others, c, s') \<and> nodes = ns @ others))"
      using parse_members_cases [OF r] by metis
    have s3: "length (lx_text s3) \<le> length (lx_text s)"
      using "2.IH"(1) [OF p(1) refl refl] p(2) next_token_shorter(1) [OF p(3)] member_key_shorter [OF p(1)] by fastforce
    from k show "length (lx_text s') \<le> length (lx_text s)"
    proof (elim disjE conjE exE)
      fix t1 s4 others
      assume d: "tk_kind d = Comma" and lim: "order + 1 < jl_columns (je_limits E)" and n: "next_token (je_limits E) s3 = Inr (t1, s4)"
        and q: "parse_members E nid pl depth t1 (order + 1) (occ(key := occ key + 1)) s4 = Inr (others, c, s')"
      have e: "expect_comma d = Inr ()" "member_limit E (order + 1) = Inr ()" "tk_kind d \<noteq> Object_End"
        using d lim by (simp_all add: expect_comma_def member_limit_def)
      have "length (lx_text s') \<le> length (lx_text s4)"
        using "2.IH"(2) [OF p(1) refl refl p(2) refl refl p(3) refl e(3,1,2) n refl] q by blast
      then show ?thesis using next_token_shorter(1) [OF n] s3 by simp
    qed (use s3 in simp)
  qed
next
  case (3 E nid pl depth t order s)
  show ?case
  proof (intro allI impI)
    fix nodes c s' assume r: "parse_items E nid pl depth t order s = Inr (nodes, c, s')"
    obtain ns stop s2 d s3 where p: "order < jl_array_items (je_limits E)"
      "parse_value E t (item_place nid pl order) (depth + 1) s = Inr (ns, stop, s2)" "next_token (je_limits E) s2 = Inr (d, s3)"
      and k: "(tk_kind d = Array_End \<and> nodes = ns \<and> c = d \<and> s' = s3) \<or>
       (tk_kind d = Comma \<and> (\<exists>t1 s4 others. next_token (je_limits E) s3 = Inr (t1, s4) \<and>
         parse_items E nid pl depth t1 (order + 1) s4 = Inr (others, c, s') \<and> nodes = ns @ others))"
      using parse_items_cases [OF r] by metis
    have i: "item_limit E order = Inr ()" using p(1) by (simp add: item_limit_def)
    have s3: "length (lx_text s3) \<le> length (lx_text s)"
      using "3.IH"(1) [OF i] p(2) next_token_shorter(1) [OF p(3)] by fastforce
    from k show "length (lx_text s') \<le> length (lx_text s)"
    proof (elim disjE conjE exE)
      fix t1 s4 others
      assume d: "tk_kind d = Comma" and n: "next_token (je_limits E) s3 = Inr (t1, s4)"
        and q: "parse_items E nid pl depth t1 (order + 1) s4 = Inr (others, c, s')"
      have e: "expect_comma d = Inr ()" "tk_kind d \<noteq> Array_End" using d by (simp_all add: expect_comma_def)
      have "length (lx_text s') \<le> length (lx_text s4)"
        using "3.IH"(2) [OF i p(2) refl refl p(3) refl e(2,1) n refl] q by blast
      then show ?thesis using next_token_shorter(1) [OF n] s3 by simp
    qed (use s3 in simp)
  qed
qed


lemma end_record_fields: "end_record p s = (n, s') \<Longrightarrow> lx_text s' = lx_text s \<and> counters s' = counters s"
  by (auto simp: end_record_def counters_def)

lemma next_after_record_sound:
  assumes "next_after_record l s = Inr (t, chars, s')"
  obtains w x where "lx_text s = w @ x @ lx_text s'" "list_all json_space w" "counters s' = counters s"
    "tk_kind t \<noteq> End_Of_File \<Longrightarrow> token_fits l (tk_kind t) (tk_value t) x"
proof -
  obtain s1 where s1: "skip_space l s = Inr s1"
    and r1: "bindE (peek_char s1) (\<lambda>c. case end_record (case c of None \<Rightarrow> lx_pos s1 | Some ch \<Rightarrow> char_start ch) s1 of
       (chars, s) \<Rightarrow> bindE (next_token l s) (\<lambda>(t, s). Inr (t, chars, s))) = Inr (t, chars, s')"
    using assms unfolding next_after_record_def bindE_eq_Inr by blast
  obtain c where "peek_char s1 = Inr c"
    and r2: "(case end_record (case c of None \<Rightarrow> lx_pos s1 | Some ch \<Rightarrow> char_start ch) s1 of
       (chars, s) \<Rightarrow> bindE (next_token l s) (\<lambda>(t, s). Inr (t, chars, s))) = Inr (t, chars, s')"
    using r1 unfolding bindE_eq_Inr by blast
  obtain n s2 where e: "end_record (case c of None \<Rightarrow> lx_pos s1 | Some ch \<Rightarrow> char_start ch) s1 = (n, s2)" by (meson surj_pair)
  have n: "next_token l s2 = Inr (t, s')" using r2 unfolding e prod.case by (elim bindPE) simp
  obtain w where w: "takes l s w s1" "list_all json_space w" using skip_space_takes [OF s1] by blast
  obtain w' x where x: "moves l s2 (w' @ x) s'" "list_all json_space w'" "counters s' = counters s2"
    and k: "if tk_kind t = End_Of_File then x = [] \<and> exhausted s' else token_text (tk_kind t) (tk_value t) x \<and> token_room l (tk_kind t) x"
    using next_token_moves [OF n] by blast
  have "lx_text s = (w @ w') @ x @ lx_text s'"
    using takes_text [OF w(1)] moves_text [OF x(1)] end_record_fields [OF e] by simp
  moreover have "counters s' = counters s" using takes_books [OF w(1)] end_record_fields [OF e] x(3) by simp
  ultimately show thesis using that [of "w @ w'" x] w(2) x(2) k by (simp add: token_fits_def)
qed

lemma read_item_parts:
  assumes "read_item R root k t s = Inr (nodes, chars, delimiter, s')"
  obtains stop s1 where "parse_value (run_env R None) t (array_item root k) 2 (new_parser s) = Inr (nodes, stop, s1)"
    "next_after_record (jr_limits R) s1 = Inr (delimiter, chars, s')" "tk_kind delimiter = Comma \<or> tk_kind delimiter = Array_End"
    "check_tree R (length nodes + 1) chars = Inr ()"
proof -
  obtain ns stop s1 where p: "parse_value (run_env R None) t (array_item root k) 2 (new_parser s) = Inr (ns, stop, s1)"
    and r: "bindE (next_after_record (jr_limits R) s1) (\<lambda>(delimiter, chars, s).
       if tk_kind delimiter \<noteq> Comma \<and> tk_kind delimiter \<noteq> Array_End
       then Inl (Json_Syntax ''invalid_json'' (at_line (tk_start delimiter)))
       else bindE (check_tree R (length ns + 1) chars) (\<lambda>_. Inr (ns, chars, delimiter, s))) = Inr (nodes, chars, delimiter, s')"
    using assms unfolding read_item_def by (rule bindP3E)
  obtain d c s2 where n: "next_after_record (jr_limits R) s1 = Inr (d, c, s2)"
    and q: "(if tk_kind d \<noteq> Comma \<and> tk_kind d \<noteq> Array_End then Inl (Json_Syntax ''invalid_json'' (at_line (tk_start d)))
       else bindE (check_tree R (length ns + 1) c) (\<lambda>_. Inr (ns, c, d, s2))) = Inr (nodes, chars, delimiter, s')"
    using r by (rule bindP3E)
  show thesis using that p n q by (auto simp: bindE_eq_Inr split: if_split_asm)
qed

lemma read_item_shorter:
  assumes "read_item R root k t s = Inr (nodes, chars, delimiter, s')"
  shows "length (lx_text s') < length (lx_text s)"
  using assms
proof (cases rule: read_item_parts)
  case (1 stop s1)
  obtain w x where x: "lx_text s1 = w @ x @ lx_text s'" "tk_kind delimiter \<noteq> End_Of_File \<Longrightarrow> token_fits (jr_limits R) (tk_kind delimiter) (tk_value delimiter) x"
    using next_after_record_sound [OF 1(2)] by metis
  then have "x = [44] \<or> x = [93]" using 1(3) mark_text by (auto simp: token_fits_def)
  then have "length (lx_text s') < length (lx_text s1)" using x(1) by auto
  then show ?thesis using parse_keeps_text(1) 1(1) by (fastforce simp: new_parser_def)
qed

lemma yield_segment_cases:
  assumes "yield_segment R root is_last d = Inr (b, d')"
  obtains s where "ensure_batch_slot R (ss_index (dc_stream d)) is_last = Inr ()" "core s = core (lexer_of d)" "id_nodes s = id_nodes (lexer_of d)"
    "id_values s = id_values (lexer_of d)" "lx_text s = lx_text (lexer_of d)"
    "b = stream_batch R (dc_stream d) (array_root root (ss_index (dc_stream d)) (dc_start d) (ss_records (dc_stream d)) is_last # ss_pending (dc_stream d)) is_last"
    "d' = d\<lparr>dc_stream := (next_stream (dc_stream d) b)\<lparr>ss_counters := s\<rparr>, dc_start := ss_total (dc_stream d)\<rparr>"
proof -
  obtain s u where s: "(if 0 < ss_index (dc_stream d) then claim_continuation_root (run_env R None) (ss_counters (dc_stream d))
      else Inr (ss_counters (dc_stream d))) = Inr s" "ensure_batch_slot R (ss_index (dc_stream d)) is_last = Inr u"
    and b: "b = stream_batch R (dc_stream d) (array_root root (ss_index (dc_stream d)) (dc_start d) (ss_records (dc_stream d)) is_last # ss_pending (dc_stream d)) is_last"
    "d' = d\<lparr>dc_stream := (next_stream (dc_stream d) b)\<lparr>ss_counters := s\<rparr>, dc_start := ss_total (dc_stream d)\<rparr>"
    using assms unfolding yield_segment_def Let_def bindE_eq_Inr by auto
  have "core s = core (lexer_of d)" "id_nodes s = id_nodes (lexer_of d)" "id_values s = id_values (lexer_of d)" "lx_text s = lx_text (lexer_of d)"
    using s(1) by (auto simp: claim_continuation_root_def lexer_of_def core_def split: if_split_asm)
  then show thesis using that s(2) b by simp
qed

lemma with_lexer_fields [simp]:
  "lexer_of (with_lexer d s) = s" "dc_start (with_lexer d s) = dc_start d" "dc_token (with_lexer d s) = dc_token d"
  "ss_pending (dc_stream (with_lexer d s)) = ss_pending (dc_stream d)" "ss_total (dc_stream (with_lexer d s)) = ss_total (dc_stream d)"
  "ss_records (dc_stream (with_lexer d s)) = ss_records (dc_stream d)" "ss_index (dc_stream (with_lexer d s)) = ss_index (dc_stream d)"
  "ss_chars (dc_stream (with_lexer d s)) = ss_chars (dc_stream d)"
  by (simp_all add: with_lexer_def lexer_of_def)

lemma next_item_cases:
  assumes "next_item R d = Inr d'"
  obtains t s where "next_token (jr_limits R) (begin_record (lexer_of d)) = Inr (t, s)" "d' = (with_lexer d s)\<lparr>dc_token := t\<rparr>"
  using assms unfolding next_item_def by (elim bindPE) simp

lemma go_on_Going: "go_on r = Doc_Going d \<longleftrightarrow> r = Inr d"
  by (cases r) (simp_all add: go_on_def)


lemma segment_room_cases:
  assumes "segment_room R root nodes chars d = Inr (out, d')"
  obtains "out = []" "d' = d" "\<not> segment_overflow R (dc_stream d) nodes chars"
  | b where "yield_segment R root False d = Inr (b, d')" "out = [b]"
  using assms by (auto simp: segment_room_def bindE_eq_Inr split: if_split_asm)

lemma close_item_cases:
  assumes "close_item R root is_last d = (more_out, result)"
  obtains e where "result = Doc_Raised e"
  | d' where "\<not> is_last" "ss_records (dc_stream d) < jc_batch_size (jr_context R)" "more_out = []" "next_item R d = Inr d'" "result = Doc_Going d'"
  | b d1 d' where "\<not> is_last" "yield_segment R root False d = Inr (b, d1)" "more_out = [b]" "next_item R d1 = Inr d'" "result = Doc_Going d'"
  | s b d1 where "is_last" "end_of_input (jr_limits R) (lexer_of d) = Inr s" "yield_segment R root True (with_lexer d s) = Inr (b, d1)"
      "more_out = [b]" "result = Doc_Finished"
proof (cases is_last)
  case True
  consider e where "result = Doc_Raised e"
    | s b d1 where "end_of_input (jr_limits R) (lexer_of d) = Inr s" "yield_segment R root True (with_lexer d s) = Inr (b, d1)"
      "more_out = [b]" "result = Doc_Finished"
    using assms True by (auto simp: close_item_def split: sum.splits)
  then show ?thesis using that(1) that(4) True by cases blast+
next
  case False
  have w: "with_lexer d (lexer_of d) = d" by (simp add: with_lexer_def lexer_of_def)
  show ?thesis
  proof (cases "jc_batch_size (jr_context R) \<le> ss_records (dc_stream d)")
    case True
    consider e where "result = Doc_Raised e" | b d1 where "yield_segment R root False d = Inr (b, d1)" "more_out = [b]" "result = go_on (next_item R d1)"
      using assms False True w by (auto simp: close_item_def split: sum.splits)
    then show ?thesis
    proof cases
      case (2 b d1)
      then show ?thesis using that(1) that(3) [OF False 2(1,2)] by (cases "next_item R d1") (auto simp: go_on_def)
    qed (rule that(1))
  next
    case f: False
    then have "more_out = []" "result = go_on (next_item R d)" using assms False by (auto simp: close_item_def)
    then show ?thesis using that(1) that(2) [OF False] f by (cases "next_item R d") (auto simp: go_on_def)
  qed
qed

lemma step_item_cases:
  assumes "step_item R root d = (more_out, result)"
  obtains e where "result = Doc_Raised e"
  | nodes chars delimiter s out d1 others where
      "read_item R root (ss_total (dc_stream d)) (dc_token d) (lexer_of d) = Inr (nodes, chars, delimiter, s)"
      "ss_total (dc_stream d) < jl_array_items (jr_limits R)"
      "segment_room R root (length nodes) chars (with_lexer d s) = Inr (out, d1)"
      "close_item R root (tk_kind delimiter = Array_End) (d1\<lparr>dc_stream := add_tree (dc_stream d1) nodes chars\<rparr>) = (others, result)"
      "more_out = out @ others"
proof -
  let ?k = "ss_total (dc_stream d)"
  show thesis
  proof (cases "jc_max_records (jr_context R) \<le> ?k \<or> jl_array_items (jr_limits R) \<le> ?k")
    case True
    then show ?thesis using assms that(1) by (auto simp: step_item_def Let_def split: if_split_asm)
  next
    case False
    show ?thesis
    proof (cases "read_item R root ?k (dc_token d) (lexer_of d)")
      case (Inl e)
      then show ?thesis using assms False that(1) by (auto simp: step_item_def Let_def)
    next
      case (Inr x)
      then obtain nodes chars delimiter s where i: "read_item R root ?k (dc_token d) (lexer_of d) = Inr (nodes, chars, delimiter, s)"
        by (cases x) auto
      show ?thesis
      proof (cases "segment_room R root (length nodes) chars (with_lexer d s)")
        case (Inl e)
        then show ?thesis using assms False i that(1) by (auto simp: step_item_def Let_def)
      next
        case (Inr y)
        then obtain out d1 where o: "segment_room R root (length nodes) chars (with_lexer d s) = Inr (out, d1)" by (cases y) auto
        obtain others r where c: "close_item R root (tk_kind delimiter = Array_End) (d1\<lparr>dc_stream := add_tree (dc_stream d1) nodes chars\<rparr>) = (others, r)"
          by fastforce
        have "result = r" "more_out = out @ others" using assms False i o c by (auto simp: step_item_def Let_def)
        then show ?thesis using that(2) [OF i _ o] False c by simp
      qed
    qed
  qed
qed

lemma yield_segment_lexer:
  assumes "yield_segment R root is_last d = Inr (b, d')"
  shows "lx_text (lexer_of d') = lx_text (lexer_of d)" "id_nodes (lexer_of d') = id_nodes (lexer_of d)" "id_values (lexer_of d') = id_values (lexer_of d)"
  using assms by (cases rule: yield_segment_cases; simp add: lexer_of_def)+

lemma lexer_of_add [simp]: "lexer_of (d\<lparr>dc_stream := add_tree (dc_stream d) nodes chars\<rparr>) = lexer_of d"
  by (simp add: lexer_of_def add_tree_def)

lemma segment_room_lexer:
  assumes "segment_room R root nodes chars d = Inr (out, d')"
  shows "lx_text (lexer_of d') = lx_text (lexer_of d)" "id_nodes (lexer_of d') = id_nodes (lexer_of d)" "id_values (lexer_of d') = id_values (lexer_of d)"
proof -
  have "lx_text (lexer_of d') = lx_text (lexer_of d) \<and> id_nodes (lexer_of d') = id_nodes (lexer_of d) \<and> id_values (lexer_of d') = id_values (lexer_of d)"
    using assms
  proof (cases rule: segment_room_cases)
    case (2 b)
    then show ?thesis using yield_segment_lexer [OF 2(1)] by simp
  qed simp
  then show "lx_text (lexer_of d') = lx_text (lexer_of d)" "id_nodes (lexer_of d') = id_nodes (lexer_of d)" "id_values (lexer_of d') = id_values (lexer_of d)"
    by simp_all
qed

lemma next_item_text:
  assumes "next_item R d = Inr d'"
  obtains w x where "lx_text (lexer_of d) = w @ x @ lx_text (lexer_of d')" "list_all json_space w"
    "tk_kind (dc_token d') \<noteq> End_Of_File \<Longrightarrow> token_fits (jr_limits R) (tk_kind (dc_token d')) (tk_value (dc_token d')) x"
    "id_nodes (lexer_of d') = id_nodes (lexer_of d)" "id_values (lexer_of d') = id_values (lexer_of d)"
    "dc_stream d' = (dc_stream d)\<lparr>ss_counters := lexer_of d'\<rparr>" "dc_start d' = dc_start d"
proof -
  obtain t s where n: "next_token (jr_limits R) (begin_record (lexer_of d)) = Inr (t, s)" "d' = (with_lexer d s)\<lparr>dc_token := t\<rparr>"
    using next_item_cases [OF assms] by blast
  obtain w x where x: "moves (jr_limits R) (begin_record (lexer_of d)) (w @ x) s" "list_all json_space w" "counters s = counters (begin_record (lexer_of d))"
    and k: "if tk_kind t = End_Of_File then x = [] \<and> exhausted s else token_text (tk_kind t) (tk_value t) x \<and> token_room (jr_limits R) (tk_kind t) x"
    using next_token_moves [OF n(1)] by blast
  have "lexer_of d' = s" "dc_token d' = t" "dc_stream d' = (dc_stream d)\<lparr>ss_counters := s\<rparr>" "dc_start d' = dc_start d"
    using n(2) by (simp_all add: with_lexer_def lexer_of_def)
  moreover have "lx_text (lexer_of d) = w @ x @ lx_text s" using moves_text [OF x(1)] by (simp add: begin_record_def)
  moreover have "id_nodes s = id_nodes (lexer_of d)" "id_values s = id_values (lexer_of d)" using x(3) by (simp_all add: counters_def begin_record_def)
  ultimately show thesis using that x(2) k by (simp add: token_fits_def)
qed

lemma next_item_shorter: "next_item R d = Inr d' \<Longrightarrow> length (lx_text (lexer_of d')) \<le> length (lx_text (lexer_of d))"
  by (erule next_item_text) simp

lemma step_item_shorter:
  assumes "step_item R root d = (more_out, Doc_Going d')"
  shows "length (lx_text (lexer_of d')) < length (lx_text (lexer_of d))"
  using assms
proof (cases rule: step_item_cases)
  case (2 nodes chars delimiter s out d1 others)
  let ?d2 = "d1\<lparr>dc_stream := add_tree (dc_stream d1) nodes chars\<rparr>"
  have "lx_text (lexer_of ?d2) = lx_text s" using segment_room_lexer(1) [OF 2(3)] by simp
  moreover have "length (lx_text (lexer_of d')) \<le> length (lx_text (lexer_of ?d2))"
    using 2(4)
  proof (cases rule: close_item_cases)
    case (2 d3)
    then show ?thesis using next_item_shorter by blast
  next
    case (3 b d3 d4)
    then show ?thesis using next_item_shorter [OF 3(4)] yield_segment_lexer(1) [OF 3(2)] by simp
  qed simp_all
  ultimately show ?thesis using read_item_shorter [OF 2(1)] by simp
qed simp

function doc_items :: "json_run \<Rightarrow> nat \<Rightarrow> doc_state \<Rightarrow> json_batch list \<times> json_error option" where
  "doc_items R root d = (case step_item R root d of (out, result) \<Rightarrow>
     (case result of
        Doc_Going d' \<Rightarrow> (case doc_items R root d' of (others, e) \<Rightarrow> (out @ others, e))
      | Doc_Raised e \<Rightarrow> (out, Some e)
      | Doc_Finished \<Rightarrow> (out, None)))"
  by pat_completeness auto
termination by (relation "measure (\<lambda>(_, _, d). length (lx_text (lexer_of d)))") (auto dest: step_item_shorter [OF sym])

declare doc_items.simps [simp del]

section \<open>The document\<close>

definition array_document :: "json_run \<Rightarrow> json_state \<Rightarrow> json_error + json_batch list \<times> json_error option" where
  "array_document R s0 = (let E = run_env R None; s1 = abandon_record s0 in
     if je_depth E < 1 then Inl (Json_Limit ''nesting_depth'' (je_depth E))
     else bindE (claim_node E False s1) (\<lambda>s2. case node_id s2 of (root, s3) \<Rightarrow>
       bindE (next_token (jr_limits R) (begin_record s3)) (\<lambda>(t, s).
         if tk_kind t = Array_End
         then bindE (end_of_input (jr_limits R) (abandon_record s)) (\<lambda>_.
           Inr ([build_json_batch R 0 [array_root root 0 0 0 True] 0 [] [] True], None))
         else Inr (doc_items R root \<lparr>dc_stream = new_stream s, dc_start = 0, dc_token = t\<rparr>))))"

definition value_document :: "json_run \<Rightarrow> token \<Rightarrow> json_state \<Rightarrow> json_error + json_batch list" where
  "value_document R first s = (let m = jc_max_records (jr_context R) in
     if m < 1 then Inl (Json_Limit ''records'' m)
     else bindE (parse_root (run_env R None) first s) (\<lambda>(T, _). bindE (check_tree R (pt_count T) (pt_chars T)) (\<lambda>_.
       Inr [build_json_batch R 0 (pt_nodes T) 1 [] [] True])))"

definition document :: "json_run \<Rightarrow> json_state \<Rightarrow> json_error + json_batch list \<times> json_error option" where
  "document R s = bindE (next_token (jr_limits R) (begin_record s)) (\<lambda>(first, s).
     if tk_kind first = Array_Start then array_document R s else bindE (value_document R first s) (\<lambda>bs. Inr (bs, None)))"

text \<open>Syntax errors of the whole stream become the public error, with the line but no record.\<close>

definition public_error :: "json_error \<Rightarrow> json_error" where
  "public_error e = (case e of Json_Syntax reason line \<Rightarrow> Json_Malformed reason line None | _ \<Rightarrow> e)"

definition stream_json_document :: "json_run \<Rightarrow> json_source \<Rightarrow> json_batch list \<times> json_error option" where
  "stream_json_document R x = (case bindE (source_characters R x) (document R) of
     Inl e \<Rightarrow> ([], Some (public_error e))
   | Inr (bs, e) \<Rightarrow> (bs, map_option public_error e))"


section \<open>What the document delivers\<close>

fun segments_from :: "nat \<Rightarrow> nat \<Rightarrow> nat \<Rightarrow> json_batch list \<Rightarrow> bool" where
  "segments_from root i start [] \<longleftrightarrow> True"
| "segments_from root i start (b # bs) \<longleftrightarrow>
     jb_trees b \<noteq> [] \<and> hd (jb_trees b) = array_root root i start (jb_records b) (jb_is_last b) \<and>
     segments_from root (i + 1) (start + jb_records b) bs"

definition children :: "json_batch list \<Rightarrow> tree_node list" where
  "children bs = concat (map (\<lambda>b. tl (jb_trees b)) bs)"

definition doc_books :: "json_run \<Rightarrow> doc_state \<Rightarrow> json_batch list \<Rightarrow> bool" where
  "doc_books R d out \<longleftrightarrow> stream_books R (dc_stream d) out \<and> dc_start d + ss_records (dc_stream d) = ss_total (dc_stream d) \<and>
     (ss_pending (dc_stream d) \<noteq> [] \<longrightarrow> length (ss_pending (dc_stream d)) + 1 \<le> jl_batch_nodes (jr_limits R)) \<and>
     (ss_pending (dc_stream d) = [] \<longrightarrow> ss_records (dc_stream d) = 0)"

lemma segments_append:
  "segments_from root i start (a @ b) \<longleftrightarrow>
     segments_from root i start a \<and> segments_from root (i + length a) (start + sum_list (map jb_records a)) b"
  by (induction a arbitrary: i start) (auto simp: ac_simps)

lemma children_append [simp]: "children (a @ b) = children a @ children b" "children [] = []"
  by (simp_all add: children_def)

lemma doc_books_lexer [simp]: "doc_books R (with_lexer d s) out = doc_books R d out" "doc_books R (d\<lparr>dc_token := t\<rparr>) out = doc_books R d out"
  by (simp_all add: doc_books_def) (simp add: with_lexer_def stream_books_update)

lemma yield_segment_step:
  assumes "yield_segment R root False d = Inr (b, d')" "doc_books R d out" "ss_pending (dc_stream d) \<noteq> []"
    and "ss_records (dc_stream d) \<le> jc_batch_size (jr_context R)"
  shows "doc_books R d' (out @ [b])" "segments_from root (ss_index (dc_stream d)) (dc_start d) [b]" "children [b] = ss_pending (dc_stream d)"
    "modest R b" "ss_pending (dc_stream d') = []" "ss_records (dc_stream d') = 0" "ss_total (dc_stream d') = ss_total (dc_stream d)"
    "ss_index (dc_stream d') = ss_index (dc_stream d) + 1" "dc_start d' = dc_start d + jb_records b"
proof -
  obtain s where e: "ensure_batch_slot R (ss_index (dc_stream d)) False = Inr ()"
    and b: "b = stream_batch R (dc_stream d) (array_root root (ss_index (dc_stream d)) (dc_start d) (ss_records (dc_stream d)) False # ss_pending (dc_stream d)) False"
    and d': "d' = d\<lparr>dc_stream := (next_stream (dc_stream d) b)\<lparr>ss_counters := s\<rparr>, dc_start := ss_total (dc_stream d)\<rparr>"
    using assms(1) by (cases rule: yield_segment_cases) blast
  have "stream_books R (dc_stream d) out" using assms(2) by (simp add: doc_books_def)
  from next_stream_books [OF this e] have "stream_books R (dc_stream d') (out @ [b])" unfolding d' b by (simp add: stream_books_update)
  then show "doc_books R d' (out @ [b])" using d' by (simp add: doc_books_def next_stream_def)
  show "segments_from root (ss_index (dc_stream d)) (dc_start d) [b]" "children [b] = ss_pending (dc_stream d)"
    by (simp_all add: b children_def)
  show "modest R b" using assms(2-4) by (simp add: b modest_def doc_books_def)
  show "ss_pending (dc_stream d') = []" "ss_records (dc_stream d') = 0" "ss_total (dc_stream d') = ss_total (dc_stream d)"
    "ss_index (dc_stream d') = ss_index (dc_stream d) + 1"
    by (simp_all add: d' next_stream_def)
  show "dc_start d' = dc_start d + jb_records b" using assms(2) by (simp add: d' b doc_books_def)
qed

text \<open>An item is added, after a full segment was closed.\<close>

lemma segment_room_step:
  assumes "segment_room R root (length nodes) chars d = Inr (more_out, d')" "doc_books R d out" "nodes \<noteq> []"
    and "check_tree R (length nodes + 1) chars = Inr ()" "ss_records (dc_stream d) < jc_batch_size (jr_context R)"
    and "d2 = d'\<lparr>dc_stream := add_tree (dc_stream d') nodes chars\<rparr>"
  shows "doc_books R d2 (out @ more_out)" "segments_from root (ss_index (dc_stream d)) (dc_start d) more_out"
    "children more_out @ ss_pending (dc_stream d2) = ss_pending (dc_stream d) @ nodes" "list_all (modest R) more_out"
    "ss_records (dc_stream d2) \<le> jc_batch_size (jr_context R)" "ss_total (dc_stream d2) = ss_total (dc_stream d) + 1"
    "ss_index (dc_stream d2) = ss_index (dc_stream d) + length more_out" "dc_start d2 = dc_start d + sum_list (map jb_records more_out)"
    "ss_pending (dc_stream d2) \<noteq> []"
proof -
  have c: "length nodes + 1 \<le> jl_batch_nodes (jr_limits R)" using assms(4) by (auto simp: check_tree_def Let_def split: if_split_asm)
  have d2: "ss_pending (dc_stream d2) = ss_pending (dc_stream d') @ nodes" "ss_records (dc_stream d2) = ss_records (dc_stream d') + 1"
    "ss_total (dc_stream d2) = ss_total (dc_stream d') + 1" "ss_index (dc_stream d2) = ss_index (dc_stream d')" "dc_start d2 = dc_start d'"
    "stream_books R (dc_stream d') out' \<Longrightarrow> stream_books R (dc_stream d2) out'" for out'
    using assms(6) by (simp_all add: stream_books_update) (simp_all add: add_tree_def)
  show ne: "ss_pending (dc_stream d2) \<noteq> []" using d2(1) assms(3) by simp
  have "doc_books R d2 (out @ more_out) \<and> segments_from root (ss_index (dc_stream d)) (dc_start d) more_out \<and>
    children more_out @ ss_pending (dc_stream d2) = ss_pending (dc_stream d) @ nodes \<and> list_all (modest R) more_out \<and>
    ss_records (dc_stream d2) \<le> jc_batch_size (jr_context R) \<and> ss_total (dc_stream d2) = ss_total (dc_stream d) + 1 \<and>
    ss_index (dc_stream d2) = ss_index (dc_stream d) + length more_out \<and> dc_start d2 = dc_start d + sum_list (map jb_records more_out)"
    using assms(1)
  proof (cases rule: segment_room_cases)
    case 1
    have "length (ss_pending (dc_stream d2)) + 1 \<le> jl_batch_nodes (jr_limits R)"
      using 1(2,3) c d2(1) by (auto simp: segment_overflow_def)
    then show ?thesis using 1 d2 assms(2,5) ne by (simp add: doc_books_def)
  next
    case (2 b)
    have p: "ss_pending (dc_stream d) \<noteq> []" using assms(1) 2(2) by (auto simp: segment_room_def segment_overflow_def split: if_split_asm)
    note y = yield_segment_step [OF 2(1) assms(2) p less_imp_le [OF assms(5)]]
    show ?thesis using y 2(2) d2 c assms(5) ne by (simp add: doc_books_def children_def)
  qed
  then show "doc_books R d2 (out @ more_out)" "segments_from root (ss_index (dc_stream d)) (dc_start d) more_out"
    "children more_out @ ss_pending (dc_stream d2) = ss_pending (dc_stream d) @ nodes" "list_all (modest R) more_out"
    "ss_records (dc_stream d2) \<le> jc_batch_size (jr_context R)" "ss_total (dc_stream d2) = ss_total (dc_stream d) + 1"
    "ss_index (dc_stream d2) = ss_index (dc_stream d) + length more_out" "dc_start d2 = dc_start d + sum_list (map jb_records more_out)"
    by blast+
qed


lemma last_segment_step:
  assumes "yield_segment R root True d = Inr (b, d')" "doc_books R d out" "ss_pending (dc_stream d) \<noteq> []"
    and "ss_records (dc_stream d) \<le> jc_batch_size (jr_context R)"
  shows "run_delivered R (out @ [b]) (ss_total (dc_stream d))" "segments_from root (ss_index (dc_stream d)) (dc_start d) [b]"
    "children [b] = ss_pending (dc_stream d)" "modest R b"
proof -
  obtain s where e: "ensure_batch_slot R (ss_index (dc_stream d)) True = Inr ()"
    and b: "b = stream_batch R (dc_stream d) (array_root root (ss_index (dc_stream d)) (dc_start d) (ss_records (dc_stream d)) True # ss_pending (dc_stream d)) True"
    using assms(1) by (cases rule: yield_segment_cases) blast
  have "stream_books R (dc_stream d) out" using assms(2) by (simp add: doc_books_def)
  from last_stream_books [OF this e] show "run_delivered R (out @ [b]) (ss_total (dc_stream d))" unfolding b .
  show "segments_from root (ss_index (dc_stream d)) (dc_start d) [b]" "children [b] = ss_pending (dc_stream d)"
    by (simp_all add: b children_def)
  show "modest R b" using assms(2-4) by (simp add: b modest_def doc_books_def)
qed

lemma end_of_input_text:
  assumes "end_of_input l s = Inr s'"
  shows "list_all json_space (lx_text s)"
proof -
  obtain t where t: "next_token l s = Inr (t, s')" "tk_kind t = End_Of_File"
    using assms unfolding end_of_input_def by (elim bindPE) (auto split: if_split_asm)
  obtain w where w: "moves l s w s'" "list_all json_space w" "exhausted s'" using next_token_moves [OF t(1)] t(2) by auto
  have "lx_text s' = []" using w(3) by (simp add: peek_Inr)
  then show ?thesis using moves_text [OF w(1)] w(2) by simp
qed

text \<open>From an item to the token of the next one, or to the end.\<close>

definition item_done :: "json_run \<Rightarrow> nat \<Rightarrow> doc_state \<Rightarrow> json_batch list \<Rightarrow> bool" where
  "item_done R root d more_out \<longleftrightarrow>
     segments_from root (ss_index (dc_stream d)) (dc_start d) more_out \<and> list_all (modest R) more_out"

lemma item_done_append:
  assumes "item_done R root d a" "ss_index (dc_stream d') = ss_index (dc_stream d) + length a"
    and "dc_start d' = dc_start d + sum_list (map jb_records a)" "item_done R root d' b"
  shows "item_done R root d (a @ b)"
  using assms by (simp add: item_done_def segments_append)

lemma close_item_step:
  assumes "close_item R root is_last d = (more_out, result)" "doc_books R d out" "ss_pending (dc_stream d) \<noteq> []"
    and "ss_records (dc_stream d) \<le> jc_batch_size (jr_context R)" "0 < jc_batch_size (jr_context R)"
  shows "case result of
      Doc_Raised e \<Rightarrow> True
    | Doc_Going d' \<Rightarrow> \<not> is_last \<and> doc_books R d' (out @ more_out) \<and> ss_records (dc_stream d') < jc_batch_size (jr_context R) \<and>
        item_done R root d more_out \<and> children more_out @ ss_pending (dc_stream d') = ss_pending (dc_stream d) \<and>
        ss_total (dc_stream d') = ss_total (dc_stream d) \<and> ss_index (dc_stream d') = ss_index (dc_stream d) + length more_out \<and>
        dc_start d' = dc_start d + sum_list (map jb_records more_out) \<and>
        (\<exists>w x. lx_text (lexer_of d) = w @ x @ lx_text (lexer_of d') \<and> list_all json_space w \<and>
          (tk_kind (dc_token d') \<noteq> End_Of_File \<longrightarrow> token_fits (jr_limits R) (tk_kind (dc_token d')) (tk_value (dc_token d')) x)) \<and>
        id_nodes (lexer_of d') = id_nodes (lexer_of d) \<and> id_values (lexer_of d') = id_values (lexer_of d)
    | Doc_Finished \<Rightarrow> is_last \<and> list_all json_space (lx_text (lexer_of d)) \<and> run_delivered R (out @ more_out) (ss_total (dc_stream d)) \<and>
        item_done R root d more_out \<and> children more_out = ss_pending (dc_stream d)"
  using assms(1)
proof (cases rule: close_item_cases)
  case (2 d')
  obtain w x where n: "lx_text (lexer_of d) = w @ x @ lx_text (lexer_of d')" "list_all json_space w"
    "tk_kind (dc_token d') \<noteq> End_Of_File \<longrightarrow> token_fits (jr_limits R) (tk_kind (dc_token d')) (tk_value (dc_token d')) x"
    "id_nodes (lexer_of d') = id_nodes (lexer_of d)" "id_values (lexer_of d') = id_values (lexer_of d)"
    "dc_stream d' = (dc_stream d)\<lparr>ss_counters := lexer_of d'\<rparr>" "dc_start d' = dc_start d"
    using next_item_text [OF 2(4)] by metis
  have "doc_books R d' out" using assms(2) n(6,7) by (simp add: doc_books_def stream_books_update)
  then show ?thesis using 2 n by (auto simp: item_done_def)
next
  case (3 b d1 d')
  obtain w x where n: "lx_text (lexer_of d1) = w @ x @ lx_text (lexer_of d')" "list_all json_space w"
    "tk_kind (dc_token d') \<noteq> End_Of_File \<longrightarrow> token_fits (jr_limits R) (tk_kind (dc_token d')) (tk_value (dc_token d')) x"
    "id_nodes (lexer_of d') = id_nodes (lexer_of d1)" "id_values (lexer_of d') = id_values (lexer_of d1)"
    "dc_stream d' = (dc_stream d1)\<lparr>ss_counters := lexer_of d'\<rparr>" "dc_start d' = dc_start d1"
    using next_item_text [OF 3(4)] by metis
  note y = yield_segment_step [OF 3(2) assms(2-4)]
  have "doc_books R d' (out @ [b])" using y(1) n(6,7) by (simp add: doc_books_def stream_books_update)
  then show ?thesis using 3(1,3,5) n y(2-) yield_segment_lexer [OF 3(2)] assms(5) by (auto simp: item_done_def)
next
  case (4 s b d1)
  have "doc_books R (with_lexer d s) out" "ss_pending (dc_stream (with_lexer d s)) \<noteq> []"
    "ss_records (dc_stream (with_lexer d s)) \<le> jc_batch_size (jr_context R)"
    using assms(2-4) by simp_all
  note y = last_segment_step [OF 4(3) this]
  then show ?thesis using 4(1,4,5) end_of_input_text [OF 4(2)] by (simp add: item_done_def)
qed simp

text \<open>One item of the array: its value, and the white space and delimiter after it.\<close>

lemma nat_text_digits: "\<forall>c \<in> set (nat_text n). 48 \<le> c \<and> c \<le> 57"
proof (induction n rule: nat_text.induct)
  case (1 n)
  show ?case using 1 unfolding nat_text.simps [of n] by (auto split: if_splits)
qed

lemma escape_plain: "\<forall>c \<in> set s. c \<noteq> 126 \<and> c \<noteq> 47 \<Longrightarrow> escape_segment s = s"
  by (induction s) (auto simp: escape_segment_def)

lemma array_item_place: "array_item root k = item_place root root_place k"
proof -
  have e: "escape_segment (nat_text k) = nat_text k" using nat_text_digits [of k] by (intro escape_plain) auto
  show ?thesis by (simp add: array_item_def item_place_def root_place_def child_pointer_def e)
qed

lemma read_item_sound:
  assumes "read_item R root k t s = Inr (nodes, chars, delimiter, s')" "token_fits (jr_limits R) (tk_kind t) (tk_value t) x"
  obtains j y w where "lx_text s = y @ w @ (if tk_kind delimiter = Array_End then 93 else 44) # lx_text s'" "list_all json_space w"
    "value_text (jr_limits R) j (x @ y)" "map plain nodes = fst (outline (run_env R None) (item_place root root_place k) (id_nodes s, id_values s) j)"
    "id_nodes s' = id_nodes s + json_nodes j" "id_values s' = id_values s + json_scalars j" "nodes \<noteq> []"
    "check_tree R (length nodes + 1) chars = Inr ()" "tk_kind delimiter \<noteq> Array_End \<Longrightarrow> tk_kind delimiter = Comma"
    "within (run_env R None) (child_pointer [] (nat_text k)) 2 j"
  using assms(1)
proof (cases rule: read_item_parts)
  case (1 stop s1)
  have l: "je_limits (run_env R None) = jr_limits R" by (simp add: run_env_def)
  have "sound_value (run_env R None) (array_item root k) 2 (new_parser s) x nodes s1"
    using parse_sound(1) 1(1) assms(2) unfolding l [symmetric] by blast
  then obtain j y where y: "moves (jr_limits R) (new_parser s) y s1" "value_text (jr_limits R) j (x @ y)"
    "counted (new_parser s) (json_nodes j) (json_keys j) (json_scalars j) s1"
    "map plain nodes = fst (outline (run_env R None) (array_item root k) (id_nodes s, id_values s) j)"
    "within (run_env R None) (pl_pointer (array_item root k)) 2 j"
    unfolding sound_value_def l by auto
  obtain w d where w: "lx_text s1 = w @ d @ lx_text s'" "list_all json_space w" "counters s' = counters s1"
    "tk_kind delimiter \<noteq> End_Of_File \<Longrightarrow> token_fits (jr_limits R) (tk_kind delimiter) (tk_value delimiter) d"
    using next_after_record_sound [OF 1(2)] by metis
  have d: "d = [if tk_kind delimiter = Array_End then 93 else 44]"
    using w(4) 1(3) mark_text by (auto simp: token_fits_def)
  have "lx_text s = y @ w @ (if tk_kind delimiter = Array_End then 93 else 44) # lx_text s'"
    using moves_text [OF y(1)] w(1) d by (simp add: new_parser_def)
  moreover have "nodes \<noteq> []"
    using arg_cong [OF y(4), of length] json_nodes_pos [of j] by (auto simp: length_outline)
  moreover have "id_nodes s' = id_nodes s + json_nodes j" "id_values s' = id_values s + json_scalars j"
    using y(3) w(3) by (simp_all add: counted_def counters_def)
  moreover have "within (run_env R None) (child_pointer [] (nat_text k)) 2 j"
    using y(5) unfolding array_item_place by (simp add: item_place_def root_place_def)
  ultimately show thesis using that w(2) y(2) y(4) [unfolded array_item_place] 1(3,4) by blast
qed


lemma step_item_books:
  assumes "step_item R root d = (more_out, result)" "token_fits (jr_limits R) (tk_kind (dc_token d)) (tk_value (dc_token d)) x"
    and "doc_books R d out" "ss_records (dc_stream d) < jc_batch_size (jr_context R)"
  shows "case result of
      Doc_Raised e \<Rightarrow> True
    | Doc_Going d' \<Rightarrow> doc_books R d' (out @ more_out) \<and> ss_records (dc_stream d') < jc_batch_size (jr_context R) \<and>
        item_done R root d more_out \<and> ss_total (dc_stream d') = ss_total (dc_stream d) + 1 \<and>
        ss_index (dc_stream d') = ss_index (dc_stream d) + length more_out \<and> dc_start d' = dc_start d + sum_list (map jb_records more_out) \<and>
        (\<exists>j y w w' x'. lx_text (lexer_of d) = y @ w @ 44 # w' @ x' @ lx_text (lexer_of d') \<and> list_all json_space w \<and> list_all json_space w' \<and>
          (tk_kind (dc_token d') \<noteq> End_Of_File \<longrightarrow> token_fits (jr_limits R) (tk_kind (dc_token d')) (tk_value (dc_token d')) x') \<and>
          value_text (jr_limits R) j (x @ y) \<and>
          map plain (children more_out @ ss_pending (dc_stream d')) = map plain (ss_pending (dc_stream d)) @
            fst (outline (run_env R None) (item_place root root_place (ss_total (dc_stream d))) (id_nodes (lexer_of d), id_values (lexer_of d)) j) \<and>
          id_nodes (lexer_of d') = id_nodes (lexer_of d) + json_nodes j \<and> id_values (lexer_of d') = id_values (lexer_of d) + json_scalars j)
    | Doc_Finished \<Rightarrow> run_delivered R (out @ more_out) (ss_total (dc_stream d) + 1) \<and> item_done R root d more_out \<and>
        (\<exists>j y w w'. lx_text (lexer_of d) = y @ w @ 93 # w' \<and> list_all json_space w \<and> list_all json_space w' \<and>
          value_text (jr_limits R) j (x @ y) \<and>
          map plain (children more_out) = map plain (ss_pending (dc_stream d)) @
            fst (outline (run_env R None) (item_place root root_place (ss_total (dc_stream d))) (id_nodes (lexer_of d), id_values (lexer_of d)) j))"
  using assms(1)
proof (cases rule: step_item_cases)
  case (2 nodes chars delimiter s o1 d1 others)
  let ?k = "ss_total (dc_stream d)" and ?d2 = "d1\<lparr>dc_stream := add_tree (dc_stream d1) nodes chars\<rparr>"
  obtain j y w where i: "lx_text (lexer_of d) = y @ w @ (if tk_kind delimiter = Array_End then 93 else 44) # lx_text s" "list_all json_space w"
    "value_text (jr_limits R) j (x @ y)"
    "map plain nodes = fst (outline (run_env R None) (item_place root root_place ?k) (id_nodes (lexer_of d), id_values (lexer_of d)) j)"
    "id_nodes s = id_nodes (lexer_of d) + json_nodes j" "id_values s = id_values (lexer_of d) + json_scalars j" "nodes \<noteq> []"
    "check_tree R (length nodes + 1) chars = Inr ()"
    using read_item_sound [OF 2(1) assms(2)] by metis
  have b: "doc_books R (with_lexer d s) out" "ss_records (dc_stream (with_lexer d s)) < jc_batch_size (jr_context R)" using assms(3,4) by simp_all
  note r = segment_room_step [OF 2(3) b(1) i(7,8) b(2) refl, simplified with_lexer_fields]
  have lx: "lx_text (lexer_of ?d2) = lx_text s" "id_nodes (lexer_of ?d2) = id_nodes s" "id_values (lexer_of ?d2) = id_values s"
    using segment_room_lexer [OF 2(3)] by simp_all
  have first: "item_done R root d o1" using r(2,4) by (simp add: item_done_def)
  have m: "map plain (children o1) @ map plain (ss_pending (dc_stream ?d2)) = map plain (ss_pending (dc_stream d)) @ map plain nodes"
    using arg_cong [OF r(3), of "map plain"] by simp
  have "0 < jc_batch_size (jr_context R)" using assms(4) by simp
  note c = close_item_step [OF 2(4) r(1,9,5) this]
  show ?thesis
  proof (cases result)
    case (Doc_Going d')
    have k: "tk_kind delimiter \<noteq> Array_End" using c Doc_Going by simp
    obtain w' x' where t: "lx_text s = w' @ x' @ lx_text (lexer_of d')" "list_all json_space w'"
      "tk_kind (dc_token d') \<noteq> End_Of_File \<longrightarrow> token_fits (jr_limits R) (tk_kind (dc_token d')) (tk_value (dc_token d')) x'"
      using c lx(1) unfolding Doc_Going doc_outcome.case by metis
    have g: "doc_books R d' ((out @ o1) @ others)" "ss_records (dc_stream d') < jc_batch_size (jr_context R)" "item_done R root ?d2 others"
      "children others @ ss_pending (dc_stream d') = ss_pending (dc_stream ?d2)" "ss_total (dc_stream d') = ss_total (dc_stream ?d2)"
      "ss_index (dc_stream d') = ss_index (dc_stream ?d2) + length others" "dc_start d' = dc_start ?d2 + sum_list (map jb_records others)"
      using c unfolding Doc_Going doc_outcome.case by blast+
    have ids: "id_nodes (lexer_of d') = id_nodes s" "id_values (lexer_of d') = id_values s"
      using c lx(2,3) unfolding Doc_Going doc_outcome.case by simp_all
    have dn: "item_done R root d (o1 @ others)" using item_done_append [OF first r(7,8) g(3)] .
    have "map plain (children more_out @ ss_pending (dc_stream d')) = map plain (ss_pending (dc_stream d)) @ map plain nodes"
      using m arg_cong [OF g(4), of "map plain"] 2(5) by simp
    then have "\<exists>j y w w' x'. lx_text (lexer_of d) = y @ w @ 44 # w' @ x' @ lx_text (lexer_of d') \<and> list_all json_space w \<and> list_all json_space w' \<and>
          (tk_kind (dc_token d') \<noteq> End_Of_File \<longrightarrow> token_fits (jr_limits R) (tk_kind (dc_token d')) (tk_value (dc_token d')) x') \<and>
          value_text (jr_limits R) j (x @ y) \<and>
          map plain (children more_out @ ss_pending (dc_stream d')) = map plain (ss_pending (dc_stream d)) @
            fst (outline (run_env R None) (item_place root root_place ?k) (id_nodes (lexer_of d), id_values (lexer_of d)) j) \<and>
          id_nodes (lexer_of d') = id_nodes (lexer_of d) + json_nodes j \<and> id_values (lexer_of d') = id_values (lexer_of d) + json_scalars j"
      using i(1-6) k t ids by (intro exI [of _ j] exI [of _ y] exI [of _ w] exI [of _ w'] exI [of _ x']) simp
    then show ?thesis unfolding Doc_Going doc_outcome.case using g(1,2,5-7) dn r(6-8) 2(5) by simp
  next
    case Doc_Finished
    have g: "tk_kind delimiter = Array_End" "list_all json_space (lx_text s)" "run_delivered R ((out @ o1) @ others) (ss_total (dc_stream ?d2))"
      "item_done R root ?d2 others" "children others = ss_pending (dc_stream ?d2)"
      using c lx unfolding Doc_Finished doc_outcome.case by simp_all
    have dn: "item_done R root d (o1 @ others)" using item_done_append [OF first r(7,8) g(4)] .
    have "map plain (children more_out) = map plain (ss_pending (dc_stream d)) @ map plain nodes"
      using m g(5) 2(5) by simp
    then have "\<exists>j y w w'. lx_text (lexer_of d) = y @ w @ 93 # w' \<and> list_all json_space w \<and> list_all json_space w' \<and>
          value_text (jr_limits R) j (x @ y) \<and>
          map plain (children more_out) = map plain (ss_pending (dc_stream d)) @
            fst (outline (run_env R None) (item_place root root_place ?k) (id_nodes (lexer_of d), id_values (lexer_of d)) j)"
      using i(1-4) g(1,2) by (intro exI [of _ j] exI [of _ y] exI [of _ w] exI [of _ "lx_text s"]) simp
    then show ?thesis unfolding Doc_Finished doc_outcome.case using g(3) dn r(6) 2(5) by simp
  qed simp
qed simp


lemma doc_items_token:
  assumes "doc_items R root d = (more_out, None)"
  shows "tk_kind (dc_token d) \<noteq> End_Of_File"
proof -
  obtain out result where s: "step_item R root d = (out, result)" by fastforce
  have ne: "result \<noteq> Doc_Raised e" for e using assms s unfolding doc_items.simps [of R root d] by auto
  show ?thesis using s
  proof (cases rule: step_item_cases)
    case (2 nodes chars delimiter s out d1 others)
    from 2(1) show ?thesis by (cases rule: read_item_parts) (rule parse_kind(1))
  qed (use ne in blast)
qed

lemma outline_items_step:
  "fst (outline_items E root root_place k c (j # js)) =
     fst (outline E (item_place root root_place k) c j) @ fst (outline_items E root root_place (k + 1) (fst c + json_nodes j, snd c + json_scalars j) js)"
proof -
  obtain ns c1 where o1: "outline E (item_place root root_place k) c j = (ns, c1)" by (meson surj_pair)
  then have "c1 = (fst c + json_nodes j, snd c + json_scalars j)" using outline_counts(1) [of E "item_place root root_place k" c j] by simp
  then show ?thesis using o1 by (simp split: prod.split)
qed

lemma doc_items_sound:
  "doc_items R root d = (more_out, None) \<Longrightarrow> token_fits (jr_limits R) (tk_kind (dc_token d)) (tk_value (dc_token d)) x \<Longrightarrow>
    doc_books R d out \<Longrightarrow> ss_records (dc_stream d) < jc_batch_size (jr_context R) \<Longrightarrow>
    \<exists>js y w. lx_text (lexer_of d) = y @ w \<and> list_all json_space w \<and> items_text (jr_limits R) js (x @ y) \<and>
      map plain (children more_out) = map plain (ss_pending (dc_stream d)) @
        fst (outline_items (run_env R None) root root_place (ss_total (dc_stream d)) (id_nodes (lexer_of d), id_values (lexer_of d)) js) \<and>
      run_delivered R (out @ more_out) (ss_total (dc_stream d) + length js) \<and> item_done R root d more_out"
proof (induction R root d arbitrary: more_out out x rule: doc_items.induct)
  case (1 R root d)
  obtain o1 result where s: "step_item R root d = (o1, result)" by fastforce
  note b = step_item_books [OF s 1(3-5)]
  show ?case
  proof (cases result)
    case (Doc_Raised e)
    then show ?thesis using 1(2) s unfolding doc_items.simps [of R root d] by simp
  next
    case Doc_Finished
    then have m: "more_out = o1" using 1(2) s unfolding doc_items.simps [of R root d] by simp
    obtain j y w w' where f: "lx_text (lexer_of d) = y @ w @ 93 # w'" "list_all json_space w" "list_all json_space w'" "value_text (jr_limits R) j (x @ y)"
      "map plain (children o1) = map plain (ss_pending (dc_stream d)) @
            fst (outline (run_env R None) (item_place root root_place (ss_total (dc_stream d))) (id_nodes (lexer_of d), id_values (lexer_of d)) j)"
      "run_delivered R (out @ o1) (ss_total (dc_stream d) + 1)" "item_done R root d o1"
      using b unfolding Doc_Finished doc_outcome.case by blast
    have "items_text (jr_limits R) [j] ((x @ y) @ w @ [93])" by (intro value_text_members_text_items_text.last_item f(2,4))
    then show ?thesis unfolding m using f(1,3,5,6,7)
      by (intro exI [of _ "[j]"] exI [of _ "y @ w @ [93]"] exI [of _ w']) (simp add: outline_items_step del: outline_items.simps(2))
  next
    case (Doc_Going d')
    obtain o2 where m: "doc_items R root d' = (o2, None)" "more_out = o1 @ o2"
      using 1(2) s Doc_Going unfolding doc_items.simps [of R root d] by (auto split: prod.splits)
    obtain j y w w' x' where g: "lx_text (lexer_of d) = y @ w @ 44 # w' @ x' @ lx_text (lexer_of d')" "list_all json_space w" "list_all json_space w'"
      "tk_kind (dc_token d') \<noteq> End_Of_File \<longrightarrow> token_fits (jr_limits R) (tk_kind (dc_token d')) (tk_value (dc_token d')) x'"
      "value_text (jr_limits R) j (x @ y)"
      "map plain (children o1 @ ss_pending (dc_stream d')) = map plain (ss_pending (dc_stream d)) @
            fst (outline (run_env R None) (item_place root root_place (ss_total (dc_stream d))) (id_nodes (lexer_of d), id_values (lexer_of d)) j)"
      "id_nodes (lexer_of d') = id_nodes (lexer_of d) + json_nodes j" "id_values (lexer_of d') = id_values (lexer_of d) + json_scalars j"
      using b unfolding Doc_Going doc_outcome.case by blast
    have h: "doc_books R d' (out @ o1)" "ss_records (dc_stream d') < jc_batch_size (jr_context R)" "item_done R root d o1"
      "ss_total (dc_stream d') = ss_total (dc_stream d) + 1" "ss_index (dc_stream d') = ss_index (dc_stream d) + length o1"
      "dc_start d' = dc_start d + sum_list (map jb_records o1)"
      using b unfolding Doc_Going doc_outcome.case by blast+
    have t: "token_fits (jr_limits R) (tk_kind (dc_token d')) (tk_value (dc_token d')) x'" using g(4) doc_items_token [OF m(1)] by blast
    obtain js y' v where ih: "lx_text (lexer_of d') = y' @ v" "list_all json_space v" "items_text (jr_limits R) js (x' @ y')"
      "map plain (children o2) = map plain (ss_pending (dc_stream d')) @
        fst (outline_items (run_env R None) root root_place (ss_total (dc_stream d')) (id_nodes (lexer_of d'), id_values (lexer_of d')) js)"
      "run_delivered R ((out @ o1) @ o2) (ss_total (dc_stream d') + length js)" "item_done R root d' o2"
      using "1.IH" [OF s [symmetric] Doc_Going m(1) t h(1,2)] by blast
    have "items_text (jr_limits R) (j # js) ((x @ y) @ w @ 44 # w' @ x' @ y')"
      by (intro value_text_members_text_items_text.item g(2,3,5) ih(3))
    moreover have "item_done R root d more_out" unfolding m(2) by (rule item_done_append [OF h(3,5,6) ih(6)])
    moreover have "map plain (children more_out) = map plain (ss_pending (dc_stream d)) @
        fst (outline_items (run_env R None) root root_place (ss_total (dc_stream d)) (id_nodes (lexer_of d), id_values (lexer_of d)) (j # js))"
      using g(6) ih(4) h(4) g(7,8) unfolding m(2) outline_items_step by (simp flip: append_assoc)
    ultimately show ?thesis using g(1) ih(1,2,5) h(4) m(2)
      by (intro exI [of _ "j # js"] exI [of _ "y @ w @ 44 # w' @ x' @ y'"] exI [of _ v]) simp
  qed
qed


lemma single_batch:
  assumes "0 < jc_max_batches (jr_context R)"
  shows "run_delivered R [build_json_batch R 0 trees n [] [] True] n"
    "jb_trees (build_json_batch R 0 trees n [] [] True) = trees" "jb_records (build_json_batch R 0 trees n [] [] True) = n"
    "jb_is_last (build_json_batch R 0 trees n [] [] True)"
proof -
  let ?p = "(new_stream fresh_counters)\<lparr>ss_records := n, ss_total := n\<rparr>"
  have b: "build_json_batch R 0 trees n [] [] True = stream_batch R ?p trees True" by (simp add: stream_batch_def new_stream_def)
  have "stream_books R ?p []" by (simp add: stream_books_def new_stream_def)
  moreover have "ensure_batch_slot R (ss_index ?p) True = Inr ()" using assms by (simp add: ensure_batch_slot_def new_stream_def)
  ultimately show "run_delivered R [build_json_batch R 0 trees n [] [] True] n"
    using last_stream_books [of R ?p "[]" "()" trees] by (simp add: b new_stream_def)
  show "jb_trees (build_json_batch R 0 trees n [] [] True) = trees" "jb_records (build_json_batch R 0 trees n [] [] True) = n"
    "jb_is_last (build_json_batch R 0 trees n [] [] True)"
    by (simp_all add: build_json_batch_def Let_def)
qed

definition array_delivered :: "json_run \<Rightarrow> json list \<Rightarrow> json_batch list \<Rightarrow> bool" where
  "array_delivered R js bs \<longleftrightarrow> run_delivered R bs (length js) \<and> segments_from 0 0 0 bs \<and>
     map plain (children bs) = fst (outline_items (run_env R None) 0 root_place 0 (1, 0) js) \<and> list_all (modest R) bs"

lemma array_document_sound:
  assumes "array_document R s0 = Inr (bs, None)" "id_nodes s0 = 0" "id_values s0 = 0" "0 < jc_batch_size (jr_context R)" "0 < jc_max_batches (jr_context R)"
    and "0 < jl_batch_nodes (jr_limits R)"
  obtains js y w where "lx_text s0 = y @ w" "list_all json_space w" "value_text (jr_limits R) (JArray js) (91 # y)" "array_delivered R js bs"
proof -
  let ?E = "run_env R None"
  obtain s2 where s2: "claim_node ?E False (abandon_record s0) = Inr s2"
    and r: "(case node_id s2 of (root, s3) \<Rightarrow>
       bindE (next_token (jr_limits R) (begin_record s3)) (\<lambda>(t, s).
         if tk_kind t = Array_End
         then bindE (end_of_input (jr_limits R) (abandon_record s)) (\<lambda>_.
           Inr ([build_json_batch R 0 [array_root root 0 0 0 True] 0 [] [] True], None))
         else Inr (doc_items R root \<lparr>dc_stream = new_stream s, dc_start = 0, dc_token = t\<rparr>))) = Inr (bs, None)"
    using assms(1) unfolding array_document_def Let_def by (auto simp: bindE_eq_Inr split: if_split_asm)
  define s3 where "s3 = snd (node_id s2)"
  have n: "node_id s2 = (0, s3)" "lx_text s3 = lx_text s0" "id_nodes s3 = 1" "id_values s3 = 0"
    using s2 assms(2,3) by (auto simp: s3_def node_id_def claim_node_def abandon_record_def Let_def split: if_split_asm)
  obtain t s where t: "next_token (jr_limits R) (begin_record s3) = Inr (t, s)"
    and q: "(if tk_kind t = Array_End
         then bindE (end_of_input (jr_limits R) (abandon_record s)) (\<lambda>_.
           Inr ([build_json_batch R 0 [array_root 0 0 0 0 True] 0 [] [] True], None))
         else Inr (doc_items R 0 \<lparr>dc_stream = new_stream s, dc_start = 0, dc_token = t\<rparr>)) = Inr (bs, None)"
    using r unfolding n(1) prod.case by (rule bindPE)
  obtain w x where x: "moves (jr_limits R) (begin_record s3) (w @ x) s" "list_all json_space w" "counters s = counters (begin_record s3)"
    and k: "if tk_kind t = End_Of_File then x = [] \<and> exhausted s else token_text (tk_kind t) (tk_value t) x \<and> token_room (jr_limits R) (tk_kind t) x"
    using next_token_moves [OF t] by blast
  have tx: "lx_text s0 = w @ x @ lx_text s" using moves_text [OF x(1)] n(2) by (simp add: begin_record_def)
  have ids: "id_nodes s = 1" "id_values s = 0" using x(3) n(3,4) by (simp_all add: counters_def begin_record_def)
  show thesis
  proof (cases "tk_kind t = Array_End")
    case True
    obtain s' where e: "end_of_input (jr_limits R) (abandon_record s) = Inr s'" "bs = [build_json_batch R 0 [array_root 0 0 0 0 True] 0 [] [] True]"
      using q True by (auto simp: bindE_eq_Inr)
    have "x = [93]" using k True mark_text(4) by auto
    then have "lx_text s0 = (w @ [93]) @ lx_text s" "value_text (jr_limits R) (JArray []) (91 # w @ [93])"
      using tx value_text_members_text_items_text.empty_array [OF x(2)] by simp_all
    moreover have "list_all json_space (lx_text s)" using end_of_input_text [OF e(1)] by (simp add: abandon_record_def)
    moreover have "array_delivered R [] bs" using single_batch [OF assms(5)] e(2) assms(6) by (simp add: array_delivered_def children_def modest_def)
    ultimately show thesis using that by blast
  next
    case False
    let ?d = "\<lparr>dc_stream = new_stream s, dc_start = 0, dc_token = t\<rparr>"
    have d: "doc_items R 0 ?d = (bs, None)" using q False by simp
    have l: "lexer_of ?d = s" by (simp add: lexer_of_def new_stream_def)
    have b: "doc_books R ?d []" "ss_records (dc_stream ?d) < jc_batch_size (jr_context R)"
      using new_stream_books [of R s] assms(4) by (simp_all add: doc_books_def) (simp_all add: new_stream_def)
    have f: "token_fits (jr_limits R) (tk_kind (dc_token ?d)) (tk_value (dc_token ?d)) x"
      using k doc_items_token [OF d] by (simp add: token_fits_def)
    obtain js y v where i: "lx_text s = y @ v" "list_all json_space v" "items_text (jr_limits R) js (x @ y)"
      "map plain (children bs) = fst (outline_items ?E 0 root_place 0 (1, 0) js)" "run_delivered R bs (length js)" "item_done R 0 ?d bs"
      using doc_items_sound [OF d f b] unfolding l ids by (auto simp: new_stream_def)
    have "value_text (jr_limits R) (JArray js) (91 # w @ x @ y)" using value_text_members_text_items_text.array [OF x(2) i(3)] .
    moreover have "array_delivered R js bs" using i(4-6) by (simp add: array_delivered_def item_done_def new_stream_def)
    ultimately show thesis using that [of "w @ x @ y" v js] tx i(1,2) by simp
  qed
qed

lemma root_kind:
  assumes "parse_root E first s = Inr (T, s')" "tk_kind first \<noteq> Array_Start"
  shows "tn_kind (hd (map plain (pt_nodes T))) \<noteq> Array_Node"
proof -
  obtain nodes stop s2 where v: "parse_value E first root_place 1 s = Inr (nodes, stop, s2)" "pt_nodes T = nodes"
    using assms(1) unfolding parse_root_def by (elim bindP3E bindPE) (auto split: if_split_asm prod.splits)
  from v(1) show ?thesis
  proof (cases rule: parse_value_cases)
    case (scalar nid s0 n)
    obtain raw hint where "plain n = outline_node E Scalar_Node nid root_place
        (Some \<lparr>xv_id = id_values s0, xv_raw = raw, xv_hint = hint, xv_location = outline_location E root_place\<rparr>)"
      using scalar_node_Inr [OF scalar(3)] by metis
    then show ?thesis using v(2) scalar(4) by (simp add: outline_node_def)
  qed (use v(2) assms(2) in \<open>simp_all add: outline_node_def\<close>)
qed

lemma document_whole:
  assumes "stream_json_document R x = (bs, None)" "0 < jc_batch_size (jr_context R)" "0 < jc_max_batches (jr_context R)"
    and "0 < jl_batch_nodes (jr_limits R)"
  shows "\<exists>j. json_text (jr_limits R) j (jx_text x) \<and> list_all (modest R) bs \<and>
    (case j of
       JArray js \<Rightarrow> run_delivered R bs (length js) \<and> segments_from 0 0 0 bs \<and>
         map plain (children bs) = fst (outline_items (run_env R None) 0 root_place 0 (1, 0) js)
     | _ \<Rightarrow> run_delivered R bs 1 \<and> map plain (concat (map jb_trees bs)) = fst (outline (run_env R None) root_place (0, 0) j))"
proof -
  obtain s where s: "source_characters R x = Inr s" "document R s = Inr (bs, None)"
    using assms(1) by (auto simp: stream_json_document_def bindE_eq_Inr split: sum.splits prod.splits)
  have s0: "lx_text s = jx_text x" "id_nodes s = 0" "id_values s = 0"
    using s(1) by (auto simp: source_characters_def Let_def fresh_counters_def split: if_split_asm)
  obtain first s1 where f: "next_token (jr_limits R) (begin_record s) = Inr (first, s1)"
    and r: "(if tk_kind first = Array_Start then array_document R s1 else bindE (value_document R first s1) (\<lambda>bs. Inr (bs, None))) = Inr (bs, None)"
    using s(2) unfolding document_def by (rule bindPE)
  have b: "lx_text (begin_record s) = jx_text x" "id_nodes (begin_record s) = 0" "id_values (begin_record s) = 0"
    using s0 by (simp_all add: begin_record_def)
  show ?thesis
  proof (cases "tk_kind first = Array_Start")
    case True
    have first_kind: "tk_kind first \<noteq> End_Of_File" using True by simp
    obtain w x1 where x: "moves (jr_limits R) (begin_record s) (w @ x1) s1" "list_all json_space w" "counters s1 = counters (begin_record s)"
      "token_fits (jr_limits R) (tk_kind first) (tk_value first) x1"
      using next_token_mark [OF f first_kind] by blast
    have x1: "x1 = [91]" using x(4) True mark_text(3) by (auto simp: token_fits_def)
    have ids: "id_nodes s1 = 0" "id_values s1 = 0" using x(3) b(2,3) by (simp_all add: counters_def)
    have a: "array_document R s1 = Inr (bs, None)" using r True by simp
    obtain js y v where i: "lx_text s1 = y @ v" "list_all json_space v" "value_text (jr_limits R) (JArray js) (91 # y)" "array_delivered R js bs"
      using array_document_sound [OF a ids assms(2-4)] by blast
    have "jx_text x = w @ (91 # y) @ v" using moves_text [OF x(1)] b(1) x1 i(1) by simp
    then have "json_text (jr_limits R) (JArray js) (jx_text x)" unfolding json_text_def using x(2) i(2,3) by blast
    then show ?thesis using i(4) by (intro exI [of _ "JArray js"]) (simp add: array_delivered_def)
  next
    case False
    obtain T s2 where T: "parse_root (run_env R None) first s1 = Inr (T, s2)" "bs = [build_json_batch R 0 (pt_nodes T) 1 [] [] True]"
      "check_tree R (pt_count T) (pt_chars T) = Inr ()"
      using r False by (auto simp: value_document_def Let_def bindE_eq_Inr split: if_split_asm)
    have l: "je_limits (run_env R None) = jr_limits R" by (simp add: run_env_def)
    obtain j where j: "json_text (jr_limits R) j (jx_text x)" "map plain (pt_nodes T) = fst (outline (run_env R None) root_place (0, 0) j)"
      "pt_count T = json_nodes j"
      using root_sound [OF f [folded l] T(1)] unfolding l b by metis
    have "pt_count T \<le> jl_batch_nodes (jr_limits R)" using T(3) by (auto simp: check_tree_def Let_def split: if_split_asm)
    then have md: "list_all (modest R) bs"
      using T(2) j(3) arg_cong [OF j(2), of length] single_batch [OF assms(3)] assms(2) by (simp add: modest_def length_outline)
    have na: "j \<noteq> JArray js" for js
      using root_kind [OF T(1) False] arg_cong [OF j(2), of "\<lambda>ns. tn_kind (hd ns)"] by (auto simp: outline_node_def split: prod.splits)
    show ?thesis
    proof (intro exI [of _ j], cases j)
      case (JArray js)
      then show "json_text (jr_limits R) j (jx_text x) \<and> list_all (modest R) bs \<and> (case j of
          JArray js \<Rightarrow> run_delivered R bs (length js) \<and> segments_from 0 0 0 bs \<and>
            map plain (children bs) = fst (outline_items (run_env R None) 0 root_place 0 (1, 0) js)
        | _ \<Rightarrow> run_delivered R bs 1 \<and> map plain (concat (map jb_trees bs)) = fst (outline (run_env R None) root_place (0, 0) j))"
        using na [of js] by blast
    qed (use j(1,2) md T(2) single_batch [OF assms(3)] in simp_all)
  qed
qed

text \<open>C9: A JSON document is delivered whole or with an error. When the stream ends without one, the text is a value with
  white space around it. A root array is cut into segments: numbered batches with the same root, each segment starting
  at the child where the one before ended, and the children together are exactly the nodes the array has as one tree; any
  other value is one record in one batch.\<close>
theorem json_document_segments:
  assumes "stream_json_document R x = (bs, None)" "0 < jc_batch_size (jr_context R)" "0 < jc_max_batches (jr_context R)"
    and "0 < jl_batch_nodes (jr_limits R)"
  shows "\<exists>j. json_text (jr_limits R) j (jx_text x) \<and> list_all (modest R) bs \<and>
    (case j of
       JArray js \<Rightarrow> run_delivered R bs (length js) \<and> segments_from 0 0 0 bs \<and>
         map plain (children bs) = fst (outline_items (run_env R None) 0 root_place 0 (1, 0) js)
     | _ \<Rightarrow> run_delivered R bs 1 \<and> map plain (concat (map jb_trees bs)) = fst (outline (run_env R None) root_place (0, 0) j))"
  using document_whole [OF assms] .


definition example_document :: json_source where
  "example_document = \<lparr>jx_size = 8, jx_text = pstr ''[1,true]'', jx_fault = None\<rparr>"

lemma example_document_run:
  obtains bs where "stream_json_document example_run example_document = (bs, None)" "length bs = 2"
proof -
  have "snd (stream_json_document example_run example_document) = None \<and> length (fst (stream_json_document example_run example_document)) = 2"
    by code_simp
  then show thesis using that by (cases "stream_json_document example_run example_document") auto
qed

theorem json_document_segments_witness:
  "\<exists>bs. stream_json_document example_run example_document = (bs, None) \<and> length bs = 2 \<and> list_all (modest example_run) bs"
proof -
  obtain bs where r: "stream_json_document example_run example_document = (bs, None)" "length bs = 2"
    by (rule example_document_run)
  have "0 < jc_batch_size (jr_context example_run)" "0 < jc_max_batches (jr_context example_run)" "0 < jl_batch_nodes (jr_limits example_run)"
    by code_simp+
  then show ?thesis using r json_document_segments [OF r(1)] by auto
qed

end
