(* ===== verification/Extraction_Contract.thy ===== *)
theory Extraction_Contract
  imports Json_Batches
begin

text \<open>
  The contract between a parser and its consumers for batches of trees (\<open>contracts/source.py\<close>): what is checked when
  an \<open>ExtractedBatch\<close> or an \<open>ExtractedDatasetManifest\<close> is constructed, and \<open>validate_batches\<close>, with which a consumer
  checks a whole run. Schema version, source, extraction and parser identity are the same everywhere in a run and left
  out, as are the texts that identifiers are written with. Errors are all \<open>ValueError\<close>: a check holds or not.
\<close>

section \<open>Physical references\<close>

fun ref_batch :: "tree_ref \<Rightarrow> nat" where
  "ref_batch (Node_Ref i n) = i"
| "ref_batch (Tree_Value_Ref i n) = i"

definition value_numbers :: "tree_node list \<Rightarrow> nat list" where
  "value_numbers trees = List.map_filter (\<lambda>n. map_option xv_id (tn_value n)) trees"

definition physical_refs :: "nat \<Rightarrow> tree_node list \<Rightarrow> tree_ref list" where
  "physical_refs i trees = map (\<lambda>n. Node_Ref i (tn_id n)) trees @ map (Tree_Value_Ref i) (value_numbers trees)"

definition contains_physical_refs :: "json_batch \<Rightarrow> tree_ref list \<Rightarrow> bool" where
  "contains_physical_refs b refs \<longleftrightarrow>
     list_all (\<lambda>r. ref_batch r = jb_index b) refs \<and> list_all (\<lambda>r. r \<in> set (physical_refs (jb_index b) (jb_trees b))) refs"

section \<open>Links inside a batch\<close>

text \<open>
  The walk from a node to its root over the dictionary of parents. It stops at a node resolved before, returns the
  nodes visited, and fails on a node visited twice.
\<close>

function climb :: "(nat \<times> nat option) list \<Rightarrow> nat list \<Rightarrow> nat list \<Rightarrow> nat option \<Rightarrow> nat list option" where
  "climb parents resolved visited None = Some visited"
| "climb parents resolved visited (Some n) =
     (if n \<in> set resolved then Some visited
      else if n \<in> set visited then None
      else case map_of parents n of None \<Rightarrow> None | Some parent \<Rightarrow> climb parents resolved (n # visited) parent)"
  by pat_completeness auto
termination
proof (relation "measure (\<lambda>(parents, _, visited, _). length (filter (\<lambda>m. m \<notin> set visited) (map fst parents)))", goal_cases)
  case (2 parents resolved visited n parent)
  have "n \<in> set (filter (\<lambda>m. m \<notin> set visited) (map fst parents))"
    using 2 by (auto dest: map_of_SomeD intro: rev_image_eqI)
  then have "length (filter (\<lambda>m. m \<noteq> n) (filter (\<lambda>m. m \<notin> set visited) (map fst parents)))
      < length (filter (\<lambda>m. m \<notin> set visited) (map fst parents))"
    by (intro length_filter_less) auto
  then show ?case by (simp add: conj_commute)
qed simp

declare climb.simps [simp del]

fun resolve :: "(nat \<times> nat option) list \<Rightarrow> nat list \<Rightarrow> nat list \<Rightarrow> bool" where
  "resolve parents resolved [] \<longleftrightarrow> True"
| "resolve parents resolved (n # ns) \<longleftrightarrow>
     (case climb parents resolved [] (Some n) of None \<Rightarrow> False | Some visited \<Rightarrow> resolve parents (visited @ resolved) ns)"

definition child_orders :: "tree_node list \<Rightarrow> nat \<Rightarrow> nat list" where
  "child_orders trees nid = sort (map tn_order (filter (\<lambda>n. tn_parent n = Some nid) trees))"

definition valid_range :: "tree_node list \<Rightarrow> tree_node \<Rightarrow> bool" where
  "valid_range trees n \<longleftrightarrow> (case tn_segment n of None \<Rightarrow> True
     | Some g \<Rightarrow> child_orders trees (tn_id n) = [ts_child_start g..<ts_child_start g + ts_child_count g])"

definition valid_tree_links :: "tree_node list \<Rightarrow> bool" where
  "valid_tree_links trees \<longleftrightarrow> (let parents = map (\<lambda>n. (tn_id n, tn_parent n)) trees in
     list_all (\<lambda>(_, parent). case parent of None \<Rightarrow> True | Some p \<Rightarrow> p \<in> set (map fst parents)) parents \<and>
     resolve parents [] (map fst parents) \<and> list_all (valid_range trees) trees)"

definition valid_local_ids :: "tree_node list \<Rightarrow> bool" where
  "valid_local_ids trees \<longleftrightarrow> distinct (map tn_id trees) \<and> distinct (value_numbers trees) \<and> valid_tree_links trees"

section \<open>Manifest and batch\<close>

definition refs_of_batch :: "json_manifest \<Rightarrow> nat \<Rightarrow> tree_ref list" where
  "refs_of_batch m i = filter (\<lambda>r. ref_batch r = i) (jm_refs m)"

definition valid_source_index :: "tree_ref list \<Rightarrow> bool" where
  "valid_source_index refs \<longleftrightarrow> length refs \<le> max_tree_refs \<and> distinct refs"

definition valid_manifest :: "json_manifest \<Rightarrow> bool" where
  "valid_manifest m \<longleftrightarrow> valid_source_index (jm_refs m) \<and> jm_batches m \<noteq> [] \<and>
     map js_index (jm_batches m) = [0..<length (jm_batches m)] \<and> distinct (map js_fingerprint (jm_batches m)) \<and>
     list_all (\<lambda>r. ref_batch r \<in> set (map js_index (jm_batches m))) (jm_refs m) \<and>
     list_all (\<lambda>s. length (refs_of_batch m (js_index s)) \<le> js_physical s) (jm_batches m) \<and>
     sum_list (map js_records (jm_batches m)) = jm_records m"

definition validate_batch :: "json_manifest \<Rightarrow> json_batch \<Rightarrow> bool" where
  "validate_batch m b \<longleftrightarrow> jb_index b < length (jm_batches m) \<and> json_summary_of b = jm_batches m ! jb_index b \<and>
     (let terminal = (jb_index b + 1 = length (jm_batches m)) in
        jb_is_last b = terminal \<and> (terminal \<longrightarrow> jb_manifest b = Some m)) \<and>
     contains_physical_refs b (refs_of_batch m (jb_index b))"

definition valid_terminal_manifest :: "json_batch \<Rightarrow> bool" where
  "valid_terminal_manifest b \<longleftrightarrow> (case jb_manifest b of None \<Rightarrow> \<not> jb_is_last b
     | Some m \<Rightarrow> jb_is_last b \<and> jm_batches m \<noteq> [] \<and> js_index (last (jm_batches m)) = jb_index b \<and>
         js_fingerprint (last (jm_batches m)) = jb_fingerprint b)"

definition valid_indexed_refs :: "json_batch \<Rightarrow> bool" where
  "valid_indexed_refs b \<longleftrightarrow> length (jb_refs b) \<le> max_tree_refs \<and> distinct (jb_refs b) \<and> contains_physical_refs b (jb_refs b)"

definition valid_manifest_index :: "json_batch \<Rightarrow> bool" where
  "valid_manifest_index b \<longleftrightarrow>
     (case jb_manifest b of None \<Rightarrow> True | Some m \<Rightarrow> contains_physical_refs b (refs_of_batch m (jb_index b)))"

definition valid_batch :: "json_batch \<Rightarrow> bool" where
  "valid_batch b \<longleftrightarrow> valid_terminal_manifest b \<and> valid_local_ids (jb_trees b) \<and> valid_indexed_refs b \<and> valid_manifest_index b \<and>
     (case jb_manifest b of None \<Rightarrow> True | Some m \<Rightarrow> validate_batch m b)"

section \<open>A whole run\<close>

text \<open>
  The next segment a tree must continue with: its index, its first child, whether the tree is closed, the kind of its
  container. There is one segmented tree, \<open>tree-0\<close>, so the dictionary of trees has at most one entry.
\<close>

type_synonym open_tree = "(nat \<times> nat \<times> bool \<times> node_kind) option"

definition step_segment :: "open_tree \<Rightarrow> tree_node \<Rightarrow> open_tree option" where
  "step_segment tree n = (case tn_segment n of
     None \<Rightarrow> Some tree
   | Some g \<Rightarrow> let further = Some (Some (ts_index g + 1, ts_child_start g + ts_child_count g, ts_is_last g, tn_kind n)) in
       (case tree of
          None \<Rightarrow> if ts_index g \<noteq> 0 \<or> ts_child_start g \<noteq> 0 then None else further
        | Some (segment, child, closed, kind) \<Rightarrow>
            if closed \<or> kind \<noteq> tn_kind n then None
            else if ts_index g \<noteq> segment \<or> ts_child_start g \<noteq> child then None else further))"

fun walk_nodes :: "open_tree \<Rightarrow> tree_node list \<Rightarrow> open_tree option" where
  "walk_nodes tree [] = Some tree"
| "walk_nodes tree (n # ns) = (case step_segment tree n of None \<Rightarrow> None | Some tree' \<Rightarrow> walk_nodes tree' ns)"

fun walk_batches :: "json_manifest \<Rightarrow> nat \<Rightarrow> nat \<Rightarrow> open_tree \<Rightarrow> json_batch list \<Rightarrow> bool" where
  "walk_batches m i offset tree [] \<longleftrightarrow> i = length (jm_batches m) \<and> offset = length (jm_refs m) \<and>
     (case tree of None \<Rightarrow> True | Some (_, _, closed, _) \<Rightarrow> closed)"
| "walk_batches m i offset tree (b # bs) \<longleftrightarrow> i < length (jm_batches m) \<and> jb_index b = i \<and> validate_batch m b \<and>
     (case walk_nodes tree (jb_trees b) of None \<Rightarrow> False
      | Some tree' \<Rightarrow> let next_offset = offset + length (jb_refs b) in
          next_offset \<le> length (jm_refs m) \<and> jb_refs b = take (length (jb_refs b)) (drop offset (jm_refs m)) \<and>
          walk_batches m (i + 1) next_offset tree' bs)"

definition validate_batches :: "json_manifest \<Rightarrow> json_batch list \<Rightarrow> bool" where
  "validate_batches m bs \<longleftrightarrow> walk_batches m 0 0 None bs"

section \<open>Trees that descend\<close>

text \<open>When every parent has a smaller number than its child, walks end.\<close>

definition descends :: "(nat \<times> nat option) list \<Rightarrow> bool" where
  "descends parents \<longleftrightarrow> (\<forall>(n, parent) \<in> set parents. case parent of None \<Rightarrow> True | Some p \<Rightarrow> p < n \<and> p \<in> fst ` set parents)"

lemma climb_descends:
  assumes "descends parents"
  shows "n \<in> fst ` set parents \<Longrightarrow> \<forall>m \<in> set visited. n < m \<Longrightarrow> climb parents resolved visited (Some n) \<noteq> None"
proof (induction n arbitrary: visited rule: less_induct)
  case (less n)
  obtain parent where p: "map_of parents n = Some parent" using less.prems(1) by (metis map_of_eq_None_iff option.exhaust)
  have v: "n \<notin> set visited" using less.prems(2) by auto
  show ?case
  proof (cases parent)
    case None
    then show ?thesis using p v by (simp add: climb.simps)
  next
    case (Some q)
    then have q: "q < n" "q \<in> fst ` set parents" using assms map_of_SomeD [OF p] by (auto simp: descends_def)
    have "\<forall>m \<in> set (n # visited). q < m" using q(1) less.prems(2) by auto
    then have "climb parents resolved (n # visited) (Some q) \<noteq> None" by (rule less.IH [OF q])
    then show ?thesis using p v Some by (simp add: climb.simps(2) [of parents resolved visited n])
  qed
qed

lemma resolve_descends: "descends parents \<Longrightarrow> set ns \<subseteq> fst ` set parents \<Longrightarrow> resolve parents resolved ns"
proof (induction ns arbitrary: resolved)
  case (Cons n ns)
  then obtain visited where "climb parents resolved [] (Some n) = Some visited"
    using climb_descends [of parents n "[]" resolved] by auto
  then show ?case using Cons by simp
qed simp

lemma valid_linksI:
  assumes "\<forall>n \<in> set trees. case tn_parent n of None \<Rightarrow> True | Some p \<Rightarrow> p < tn_id n \<and> p \<in> tn_id ` set trees"
    and "list_all (valid_range trees) trees"
  shows "valid_tree_links trees"
proof -
  let ?parents = "map (\<lambda>n. (tn_id n, tn_parent n)) trees"
  have f: "fst ` set ?parents = tn_id ` set trees" by force
  have "descends ?parents" using assms(1) unfolding descends_def f by auto
  then have "resolve ?parents [] (map fst ?parents)" by (rule resolve_descends) (simp add: image_image)
  moreover have "list_all (\<lambda>(_, parent). case parent of None \<Rightarrow> True | Some p \<Rightarrow> p \<in> set (map fst ?parents)) ?parents"
    using assms(1) f by (auto simp: list_all_iff split: option.splits)
  ultimately show ?thesis using assms(2) unfolding valid_tree_links_def Let_def by blast
qed

end
