(* ===== verification/Json_Contract.thy ===== *)
theory Json_Contract
  imports Json_Valid Json_Document Extraction_Contract
begin

text \<open>
  The streams of JSON keep the contract of physical batches: whatever they yield passes the checks of its construction,
  and a run that ends without error passes \<open>validate_batches\<close> of its manifest. Fingerprints enter through one
  assumption: batches with different indices have different fingerprints.
\<close>

section \<open>Families of nodes\<close>

text \<open>
  Nodes that were numbered one after the other, from \<open>a\<close> up to \<open>n\<close> (their values from \<open>v\<close> up to \<open>w\<close>), with parents
  among themselves or in \<open>ext\<close>.
\<close>

definition family :: "nat set \<Rightarrow> nat \<Rightarrow> nat \<Rightarrow> tree_node list \<Rightarrow> nat \<Rightarrow> nat \<Rightarrow> bool" where
  "family ext a v ns n w \<longleftrightarrow> map tn_id ns = [a..<n] \<and> value_numbers ns = [v..<w] \<and> a \<le> n \<and> v \<le> w \<and>
     (\<forall>m \<in> set ns. tn_segment m = None \<and> valid_tree_node m \<and>
        (case tn_parent m of None \<Rightarrow> True | Some p \<Rightarrow> p < tn_id m \<and> (p \<in> ext \<or> a \<le> p)))"

lemma value_numbers_append [simp]: "value_numbers (ns @ ms) = value_numbers ns @ value_numbers ms"
  and value_numbers_Nil [simp]: "value_numbers [] = []"
  by (simp_all add: value_numbers_def map_filter_def)

lemma value_numbers_Cons:
  "value_numbers (n # ns) = (case tn_value n of None \<Rightarrow> [] | Some x \<Rightarrow> [xv_id x]) @ value_numbers ns"
  by (simp add: value_numbers_def map_filter_def split: option.split)

lemma family_Nil: "family ext a v [] a v"
  by (simp add: family_def)

lemma family_append: "family ext a v ns n w \<Longrightarrow> family ext n w ms n' w' \<Longrightarrow> family ext a v (ns @ ms) n' w'"
  using upt_add_eq_append [of a n "n' - n"] upt_add_eq_append [of v w "w' - w"]
  by (auto simp: family_def split: option.splits)

lemma family_ids: "family ext a v ns n w \<Longrightarrow> tn_id ` set ns = {a..<n}"
  by (metis family_def atLeastLessThan_upt list.set_map)

subsection \<open>The nodes of a value\<close>

lemma plain_fields [simp]:
  "tn_order (plain n) = tn_order n" "tn_segment (plain n) = tn_segment n" "value_numbers (map plain ns) = value_numbers ns"
proof -
  show "tn_order (plain n) = tn_order n" "tn_segment (plain n) = tn_segment n" by (simp_all add: plain_def)
  show "value_numbers (map plain ns) = value_numbers ns"
    by (induction ns) (auto simp: value_numbers_Cons plain_def split: option.splits)
qed

lemma outline_head:
  "\<exists>h t. fst (outline E pl c j) = h # t \<and> tn_parent h = pl_parent pl \<and> tn_order h = pl_order pl \<and> tn_id h = fst c"
  by (cases j; cases c) (auto simp: outline_scalar_def outline_node_def split: prod.split)

lemma outline_values:
  "value_numbers (fst (outline E pl c j)) = [snd c..<snd c + json_scalars j] \<and> (\<forall>m \<in> set (fst (outline E pl c j)). tn_segment m = None)"
  "value_numbers (fst (outline_members E nid pl order occ c ms)) = [snd c..<snd c + sum_list (map (\<lambda>(k, j). json_scalars j) ms)] \<and>
     (\<forall>m \<in> set (fst (outline_members E nid pl order occ c ms)). tn_segment m = None)"
  "value_numbers (fst (outline_items E nid pl order c js)) = [snd c..<snd c + sum_list (map json_scalars js)] \<and>
     (\<forall>m \<in> set (fst (outline_items E nid pl order c js)). tn_segment m = None)"
proof (induction E pl c j and E nid pl order occ c ms and E nid pl order c js rule: outline_outline_members_outline_items.induct)
  case (9 E nid pl order occ c k j ms)
  obtain ns c1 where o1: "outline E (member_place nid pl k order (occ k)) c j = (ns, c1)" by (meson surj_pair)
  then have "snd c1 = snd c + json_scalars j" using outline_counts(1) [of E "member_place nid pl k order (occ k)" c j] by simp
  moreover obtain os c2 where "outline_members E nid pl (order + 1) (occ(k := occ k + 1)) c1 ms = (os, c2)" by (meson surj_pair)
  ultimately show ?case using 9(1) 9(2) [OF o1 [symmetric]] o1
      upt_add_eq_append [of "snd c" "snd c + json_scalars j" "sum_list (map (\<lambda>(k, j). json_scalars j) ms)"]
    by (auto simp: add.assoc simp del: fun_upd_apply)
next
  case (11 E nid pl order c j js)
  obtain ns c1 where o1: "outline E (item_place nid pl order) c j = (ns, c1)" by (meson surj_pair)
  then have "snd c1 = snd c + json_scalars j" using outline_counts(1) [of E "item_place nid pl order" c j] by simp
  moreover obtain os c2 where "outline_items E nid pl (order + 1) c1 js = (os, c2)" by (meson surj_pair)
  ultimately show ?case using 11(1) 11(2) [OF o1 [symmetric]] o1
      upt_add_eq_append [of "snd c" "snd c + json_scalars j" "sum_list (map json_scalars js)"] by (auto simp: add.assoc)
qed (auto simp: outline_scalar_def outline_node_def value_numbers_Cons split: prod.splits)

lemma outline_parents:
  "\<forall>m \<in> set (tl (fst (outline E pl c j))). \<exists>p. tn_parent m = Some p \<and> fst c \<le> p \<and> p < tn_id m"
  "nid < fst c \<longrightarrow> (\<forall>m \<in> set (fst (outline_members E nid pl order occ c ms)). \<exists>p. tn_parent m = Some p \<and> nid \<le> p \<and> p < tn_id m)"
  "nid < fst c \<longrightarrow> (\<forall>m \<in> set (fst (outline_items E nid pl order c js)). \<exists>p. tn_parent m = Some p \<and> nid \<le> p \<and> p < tn_id m)"
proof (induction E pl c j and E nid pl order occ c ms and E nid pl order c js rule: outline_outline_members_outline_items.induct)
  case (9 E nid pl order occ c k j ms)
  obtain ns c1 where o1: "outline E (member_place nid pl k order (occ k)) c j = (ns, c1)" by (meson surj_pair)
  then have "fst c1 = fst c + json_nodes j" using outline_counts(1) [of E "member_place nid pl k order (occ k)" c j] by simp
  moreover obtain os c2 where "outline_members E nid pl (order + 1) (occ(k := occ k + 1)) c1 ms = (os, c2)" by (meson surj_pair)
  moreover obtain h t where "ns = h # t" "tn_parent h = Some nid" "tn_id h = fst c"
    using outline_head [of E "member_place nid pl k order (occ k)" c j] o1 by (auto simp: member_place_def)
  ultimately show ?case using 9(1) 9(2) [OF o1 [symmetric]] o1 by (fastforce simp del: fun_upd_apply)
next
  case (11 E nid pl order c j js)
  obtain ns c1 where o1: "outline E (item_place nid pl order) c j = (ns, c1)" by (meson surj_pair)
  then have "fst c1 = fst c + json_nodes j" using outline_counts(1) [of E "item_place nid pl order" c j] by simp
  moreover obtain os c2 where "outline_items E nid pl (order + 1) c1 js = (os, c2)" by (meson surj_pair)
  moreover obtain h t where "ns = h # t" "tn_parent h = Some nid" "tn_id h = fst c"
    using outline_head [of E "item_place nid pl order" c j] o1 by (auto simp: item_place_def)
  ultimately show ?case using 11(1) 11(2) [OF o1 [symmetric]] o1 by fastforce
next
  case (6 E pl c ms)
  then show ?case by (fastforce split: prod.splits)
next
  case (7 E pl c js)
  then show ?case by (fastforce split: prod.splits)
qed (auto simp: outline_scalar_def split: prod.splits)

lemma parsed_family:
  assumes "map plain nodes = fst (outline E pl (n, v) j)" "list_all valid_tree_node nodes"
    and "case pl_parent pl of None \<Rightarrow> True | Some p \<Rightarrow> p < n \<and> p \<in> ext"
  shows "family ext n v nodes (n + json_nodes j) (v + json_scalars j)"
proof -
  obtain h t where h: "map plain nodes = h # t" "tn_parent h = pl_parent pl" "tn_id h = n"
    using outline_head [of E pl "(n, v)" j] assms(1) by auto
  have p: "\<forall>m \<in> set t. \<exists>p. tn_parent m = Some p \<and> n \<le> p \<and> p < tn_id m"
    using outline_parents(1) [of E pl "(n, v)" j] unfolding assms(1) [symmetric] h(1) by simp
  have "\<forall>m \<in> set (map plain nodes). case tn_parent m of None \<Rightarrow> True | Some p \<Rightarrow> p < tn_id m \<and> (p \<in> ext \<or> n \<le> p)"
    using p h(2,3) assms(3) unfolding h(1) by (auto split: option.splits)
  then have a: "\<forall>m \<in> set nodes. case tn_parent m of None \<Rightarrow> True | Some p \<Rightarrow> p < tn_id m \<and> (p \<in> ext \<or> n \<le> p)"
    by (auto split: option.splits)
  have "\<forall>m \<in> set (map plain nodes). tn_segment m = None"
    using outline_values(1) [of E pl "(n, v)" j] unfolding assms(1) [symmetric] by blast
  then have s: "\<forall>m \<in> set nodes. tn_segment m = None" by simp
  have "map tn_id (map plain nodes) = [n..<n + json_nodes j]" unfolding assms(1) outline_numbers by simp
  then have i: "map tn_id nodes = [n..<n + json_nodes j]" by (simp add: comp_def)
  have "value_numbers (map plain nodes) = [v..<v + json_scalars j]" using outline_values(1) [of E pl "(n, v)" j] unfolding assms(1) by simp
  then show ?thesis using a s i assms(2) by (simp add: family_def list_all_iff)
qed

section \<open>Batches\<close>

lemma no_segment_range: "tn_segment n = None \<Longrightarrow> valid_range trees n"
  by (simp add: valid_range_def)

lemma family_local_ids:
  assumes "family {} a v ns n w"
  shows "valid_local_ids ns"
proof -
  have i: "tn_id ` set ns = {a..<n}" using family_ids [OF assms] .
  have "\<forall>m \<in> set ns. case tn_parent m of None \<Rightarrow> True | Some p \<Rightarrow> p < tn_id m \<and> p \<in> tn_id ` set ns"
  proof
    fix m assume m: "m \<in> set ns"
    then have "tn_id m < n" using i by auto
    then show "case tn_parent m of None \<Rightarrow> True | Some p \<Rightarrow> p < tn_id m \<and> p \<in> tn_id ` set ns"
      using assms m unfolding i by (auto simp: family_def split: option.splits)
  qed
  moreover have "list_all (valid_range ns) ns" using assms by (auto simp: family_def list_all_iff no_segment_range)
  ultimately have "valid_tree_links ns" by (rule valid_linksI)
  moreover have "distinct (map tn_id ns)" "distinct (value_numbers ns)" using assms by (simp_all add: family_def)
  ultimately show ?thesis by (simp add: valid_local_ids_def)
qed

lemma array_root_fields [simp]:
  "tn_id (array_root r i k c e) = r" "tn_parent (array_root r i k c e) = None" "tn_value (array_root r i k c e) = None"
  "tn_segment (array_root r i k c e) = Some \<lparr>ts_index = i, ts_child_start = k, ts_child_count = c, ts_is_last = e\<rparr>"
  "tn_kind (array_root r i k c e) = Array_Node"
  by (simp_all add: array_root_def)

lemma array_root_valid: "c \<noteq> 0 \<or> e \<Longrightarrow> valid_tree_node (array_root r i k c e)"
  by (auto simp: valid_tree_node_def array_root_def valid_json_location_def)

lemma segment_local_ids:
  assumes "family {r} a v ns n w" "r < a" "map tn_order (filter (\<lambda>m. tn_parent m = Some r) ns) = [k..<k + c]"
  shows "valid_local_ids (array_root r i k c e # ns)"
proof -
  let ?h = "array_root r i k c e"
  have ids: "tn_id ` set ns = {a..<n}" using family_ids [OF assms(1)] .
  have "\<forall>m \<in> set ns. case tn_parent m of None \<Rightarrow> True | Some p \<Rightarrow> p < tn_id m \<and> p \<in> tn_id ` set (?h # ns)"
  proof
    fix m assume m: "m \<in> set ns"
    then have "tn_id m < n" using ids by auto
    then show "case tn_parent m of None \<Rightarrow> True | Some p \<Rightarrow> p < tn_id m \<and> p \<in> tn_id ` set (?h # ns)"
      using assms(1) m ids by (force simp: family_def split: option.splits)
  qed
  then have a: "\<forall>m \<in> set (?h # ns). case tn_parent m of None \<Rightarrow> True | Some p \<Rightarrow> p < tn_id m \<and> p \<in> tn_id ` set (?h # ns)" by simp
  have "valid_range (?h # ns) ?h"
    using assms(3) sorted_sort_id [of "[k..<k + c]"] by (simp add: valid_range_def child_orders_def del: upt_Suc)
  then have "list_all (valid_range (?h # ns)) (?h # ns)"
    using assms(1) by (auto simp: family_def list_all_iff no_segment_range)
  with a have "valid_tree_links (?h # ns)" by (rule valid_linksI)
  moreover have "distinct (map tn_id (?h # ns))" "distinct (value_numbers (?h # ns))"
    using assms(1,2) ids by (auto simp: family_def value_numbers_Cons)
  ultimately show ?thesis by (simp add: valid_local_ids_def)
qed

text \<open>Indexed references are the first of the physical ones.\<close>

lemma collect_refs_take: "collect_refs limit refs xs = refs @ take (limit - length refs) xs"
proof (induction xs arbitrary: refs)
  case (Cons x xs)
  show ?case
  proof (cases "limit \<le> length refs")
    case False
    then have "limit - length refs = Suc (limit - Suc (length refs))" by simp
    then show ?thesis using False Cons [of "refs @ [x]"] by simp
  qed simp
qed simp

lemma tree_refs_take: "tree_refs i trees limit = take limit (physical_refs i trees)"
proof -
  have "List.map_filter (\<lambda>n. map_option (\<lambda>v. Tree_Value_Ref i (xv_id v)) (tn_value n)) trees = map (Tree_Value_Ref i) (value_numbers trees)"
    by (induction trees) (auto simp: value_numbers_def map_filter_def)
  moreover have "limit - min (length trees) limit = limit - length trees" by simp
  ultimately show ?thesis by (simp add: tree_refs_def collect_refs_take physical_refs_def)
qed

definition sealed :: "json_run \<Rightarrow> json_batch \<Rightarrow> bool" where
  "sealed R b \<longleftrightarrow> valid_local_ids (jb_trees b) \<and> list_all valid_tree_node (jb_trees b) \<and>
     (\<exists>k \<le> max_tree_refs. jb_refs b = take k (physical_refs (jb_index b) (jb_trees b))) \<and>
     (\<exists>d. jb_fingerprint b = jr_hash R d \<and> jb_index d = jb_index b)"

lemma stream_batch_sealed:
  assumes "valid_local_ids t" "list_all valid_tree_node t"
  shows "sealed R (stream_batch R p t e)"
proof -
  let ?b = "stream_batch R p t e"
  have "jb_refs ?b = take (max_tree_refs - length (ss_refs p)) (physical_refs (ss_index p) t)"
    by (simp add: stream_batch_def build_json_batch_def Let_def tree_refs_take)
  then have "\<exists>k \<le> max_tree_refs. jb_refs ?b = take k (physical_refs (ss_index p) t)" by (intro exI [of _ "max_tree_refs - length (ss_refs p)"]) simp
  moreover have "\<exists>d. jb_fingerprint ?b = jr_hash R d \<and> jb_index d = ss_index p"
    unfolding stream_batch_def build_json_batch_def Let_def by fastforce
  ultimately show ?thesis using assms by (simp add: sealed_def)
qed

lemma ref_batch_physical: "r \<in> set (physical_refs i trees) \<Longrightarrow> ref_batch r = i"
  by (auto simp: physical_refs_def)

lemma distinct_physical: "valid_local_ids trees \<Longrightarrow> distinct (physical_refs i trees)"
  by (auto simp: physical_refs_def valid_local_ids_def distinct_map inj_on_def)

lemma length_physical: "length (physical_refs i trees) = physical_ref_count trees"
  unfolding physical_refs_def physical_ref_count_def
  by (induction trees) (auto simp: value_numbers_Cons split: option.splits)

lemma sealed_refs:
  assumes "sealed R b"
  shows "distinct (jb_refs b)" "\<forall>r \<in> set (jb_refs b). ref_batch r = jb_index b" "length (jb_refs b) \<le> physical_ref_count (jb_trees b)"
    "valid_indexed_refs b" "set rs \<subseteq> set (jb_refs b) \<Longrightarrow> contains_physical_refs b rs"
proof -
  obtain k where k: "k \<le> max_tree_refs" "jb_refs b = take k (physical_refs (jb_index b) (jb_trees b))" using assms by (auto simp: sealed_def)
  have s: "set (jb_refs b) \<subseteq> set (physical_refs (jb_index b) (jb_trees b))" unfolding k(2) by (rule set_take_subset)
  show d: "distinct (jb_refs b)" unfolding k(2) using assms distinct_physical by (simp add: sealed_def)
  show r: "\<forall>r \<in> set (jb_refs b). ref_batch r = jb_index b" using s ref_batch_physical by blast
  show "length (jb_refs b) \<le> physical_ref_count (jb_trees b)" unfolding k(2) by (simp add: length_physical)
  show c: "set rs \<subseteq> set (jb_refs b) \<Longrightarrow> contains_physical_refs b rs" for rs
    using s r by (auto simp: contains_physical_refs_def list_all_iff)
  show "valid_indexed_refs b" using d c [of "jb_refs b"] k by (simp add: valid_indexed_refs_def)
qed

lemma sealed_not_last: "sealed R b \<Longrightarrow> not_last b \<Longrightarrow> valid_batch b"
  using sealed_refs(4) by (auto simp: valid_batch_def sealed_def not_last_def valid_terminal_manifest_def valid_manifest_index_def)

section \<open>Delivered runs\<close>

lemma filter_own_refs:
  assumes "distinct (map jb_index bs)" "b \<in> set bs" "\<forall>b \<in> set bs. \<forall>r \<in> set (jb_refs b). ref_batch r = jb_index b"
  shows "filter (\<lambda>r. ref_batch r = jb_index b) (concat (map jb_refs bs)) = jb_refs b"
  using assms
proof (induction bs)
  case (Cons d ds)
  show ?case
  proof (cases "b = d")
    case True
    have "ref_batch r \<noteq> jb_index b" if r: "r \<in> set (concat (map jb_refs ds))" for r
    proof -
      obtain b' where b': "b' \<in> set ds" "r \<in> set (jb_refs b')" using r by auto
      then have "ref_batch r = jb_index b'" using Cons.prems(3) by simp
      moreover have "jb_index b' \<in> jb_index ` set ds" using b'(1) by (rule imageI)
      ultimately show ?thesis using True Cons.prems(1) by auto
    qed
    then have "filter (\<lambda>r. ref_batch r = jb_index b) (concat (map jb_refs ds)) = []"
      unfolding filter_empty_conv by blast
    moreover have "filter (\<lambda>r. ref_batch r = jb_index b) (jb_refs d) = jb_refs d" using Cons.prems(3) True by (auto simp: filter_id_conv)
    ultimately show ?thesis using True by simp
  next
    case False
    then have b: "b \<in> set ds" using Cons.prems(2) by simp
    then have "jb_index b \<in> jb_index ` set ds" by (rule imageI)
    then have "jb_index b \<noteq> jb_index d" using Cons.prems(1) by auto
    then have "filter (\<lambda>r. ref_batch r = jb_index b) (jb_refs d) = []" using Cons.prems(3) by (auto simp: filter_empty_conv)
    then show ?thesis using Cons.IH b Cons.prems(1,3) by simp
  qed
qed simp

lemma distinct_own_refs:
  assumes "distinct (map jb_index bs)" "\<forall>b \<in> set bs. distinct (jb_refs b) \<and> (\<forall>r \<in> set (jb_refs b). ref_batch r = jb_index b)"
  shows "distinct (concat (map jb_refs bs))"
  using assms
proof (induction bs)
  case (Cons d ds)
  have "set (jb_refs d) \<inter> set (concat (map jb_refs ds)) = {}"
  proof (rule ccontr)
    assume "set (jb_refs d) \<inter> set (concat (map jb_refs ds)) \<noteq> {}"
    then obtain r b where r: "r \<in> set (jb_refs d)" "b \<in> set ds" "r \<in> set (jb_refs b)" by auto
    then have "jb_index d = jb_index b" using Cons.prems(2) by (metis list.set_intros(1,2))
    moreover have "jb_index b \<in> jb_index ` set ds" using r(2) by (rule imageI)
    ultimately show False using Cons.prems(1) by auto
  qed
  then show ?case using Cons by simp
qed simp

definition separates :: "json_run \<Rightarrow> bool" where
  "separates R \<longleftrightarrow> (\<forall>b b'. jr_hash R b = jr_hash R b' \<longrightarrow> jb_index b = jb_index b')"

lemma delivered_contract:
  assumes "run_delivered R bs k" "list_all (sealed R) bs" "separates R"
  obtains m where "jb_manifest (last bs) = Some m" "jm_batches m = map json_summary_of bs" "jm_refs m = concat (map jb_refs bs)"
    "valid_manifest m" "list_all (validate_batch m) bs" "list_all valid_batch bs"
proof -
  obtain m where m: "jb_manifest (last bs) = Some m" "jm_batches m = map json_summary_of bs" "jm_refs m = concat (map jb_refs bs)"
    "length (jm_refs m) \<le> max_tree_refs" "jm_records m = k"
    and d: "bs \<noteq> []" "map jb_index bs = [0..<length bs]" "list_all not_last (butlast bs)" "jb_is_last (last bs)" "sum_list (map jb_records bs) = k"
    using assms(1) unfolding run_delivered_def by blast
  have s: "sealed R b" if "b \<in> set bs" for b using assms(2) that by (simp add: list_all_iff)
  have at: "jb_index (bs ! i) = i" if "i < length bs" for i using d(2) that by (metis add_0 nth_map nth_upt)
  have pos: "jb_index b < length bs \<and> bs ! jb_index b = b" if "b \<in> set bs" for b
    using that at by (metis in_set_conv_nth)
  have di: "distinct (map jb_index bs)" unfolding d(2) by simp
  have own: "refs_of_batch m (jb_index b) = jb_refs b" if "b \<in> set bs" for b
    unfolding refs_of_batch_def m(3) by (rule filter_own_refs [OF di that]) (use s sealed_refs(2) in blast)
  have "distinct (jm_refs m)" unfolding m(3) by (rule distinct_own_refs [OF di]) (use s sealed_refs(1,2) in blast)
  then have ix: "valid_source_index (jm_refs m)" using m(4) by (simp add: valid_source_index_def)
  have "inj_on jb_fingerprint (set bs)"
  proof (rule inj_onI)
    fix b b' assume b: "b \<in> set bs" "b' \<in> set bs" "jb_fingerprint b = jb_fingerprint b'"
    then have "jb_index b = jb_index b'" using s assms(3) unfolding sealed_def separates_def by metis
    then show "b = b'" using pos b(1,2) by metis
  qed
  moreover have "distinct bs" using di by (simp add: distinct_map)
  ultimately have f: "distinct (map js_fingerprint (jm_batches m))" by (simp add: m(2) distinct_map comp_def json_summary_of_def)
  have ids: "map js_index (jm_batches m) = [0..<length (jm_batches m)]" using d(2) by (simp add: m(2) comp_def json_summary_of_def)
  have "\<forall>r \<in> set (jm_refs m). ref_batch r < length bs" using s sealed_refs(2) pos unfolding m(3) by fastforce
  then have inside: "list_all (\<lambda>r. ref_batch r \<in> set (map js_index (jm_batches m))) (jm_refs m)"
    unfolding ids by (simp add: list_all_iff m(2))
  have count: "list_all (\<lambda>s. length (refs_of_batch m (js_index s)) \<le> js_physical s) (jm_batches m)"
    using own s sealed_refs(3) by (auto simp: list_all_iff m(2) json_summary_of_def)
  have records: "sum_list (map js_records (jm_batches m)) = jm_records m" using d(5) m(5) by (simp add: m(2) comp_def json_summary_of_def)
  have vm: "valid_manifest m"
    using ix d(1) ids f inside count records unfolding valid_manifest_def by (simp add: m(2))
  have inner: "b \<in> set (butlast bs)" if "b \<in> set bs" "jb_index b + 1 \<noteq> length bs" for b
  proof -
    have "jb_index b < length bs - 1" using pos [OF that(1)] that(2) by linarith
    then show ?thesis using pos [OF that(1)] by (metis length_butlast nth_butlast nth_mem)
  qed
  have fin: "jb_is_last b = (jb_index b + 1 = length bs)" if "b \<in> set bs" for b
  proof (cases "jb_index b + 1 = length bs")
    case True
    then have "b = last bs" using pos [OF that] d(1) by (metis add_diff_cancel_right' last_conv_nth)
    then show ?thesis using True d(4) by simp
  next
    case False
    then have "b \<in> set (butlast bs)" using inner that by blast
    then show ?thesis using False d(3) by (auto simp: list_all_iff not_last_def)
  qed
  have last: "b = last bs" if "b \<in> set bs" "jb_index b + 1 = length bs" for b
    using pos [OF that(1)] d(1) that(2) by (metis add_diff_cancel_right' last_conv_nth)
  have vb: "validate_batch m b" if "b \<in> set bs" for b
  proof -
    have "json_summary_of b = jm_batches m ! jb_index b" using pos [OF that] by (simp add: m(2))
    moreover have "contains_physical_refs b (refs_of_batch m (jb_index b))" using own [OF that] sealed_refs(5) [OF s [OF that], of "jb_refs b"] by simp
    ultimately show ?thesis using pos [OF that] fin [OF that] last [OF that] m(1) by (auto simp: validate_batch_def m(2))
  qed
  have "valid_batch b" if "b \<in> set bs" for b
  proof (cases "jb_index b + 1 = length bs")
    case True
    then have l: "b = last bs" using last that by blast
    have "js_index (last (jm_batches m)) = jb_index b" "js_fingerprint (last (jm_batches m)) = jb_fingerprint b"
      using d(1) l by (simp_all add: m(2) last_map json_summary_of_def)
    then have "valid_terminal_manifest b" using l m(1,2) d(1,4) by (simp add: valid_terminal_manifest_def)
    moreover have "valid_manifest_index b" using vb [OF that] l m(1) by (simp add: valid_manifest_index_def validate_batch_def)
    ultimately show ?thesis using s [OF that] sealed_refs(4) vb [OF that] m(1) l by (simp add: valid_batch_def sealed_def)
  next
    case False
    then have "b \<in> set (butlast bs)" using inner that by blast
    then show ?thesis using d(3) sealed_not_last [OF s [OF that]] by (auto simp: list_all_iff)
  qed
  then show thesis using that m(1-3) vm vb by (simp add: list_all_iff)
qed

text \<open>The walk over a run: segments are judged node by node, references batch by batch.\<close>

lemma walk_nodes_append: "walk_nodes tree (xs @ ys) = (case walk_nodes tree xs of None \<Rightarrow> None | Some tree' \<Rightarrow> walk_nodes tree' ys)"
  by (induction xs arbitrary: tree) (auto split: option.split)

lemma walk_nodes_plain: "\<forall>n \<in> set ns. tn_segment n = None \<Longrightarrow> walk_nodes tree ns = Some tree"
  by (induction ns) (auto simp: step_segment_def)

lemma walk_batches_iff:
  assumes "jm_batches m = map json_summary_of (pre @ bs)" "jm_refs m = concat (map jb_refs (pre @ bs))" "list_all (validate_batch m) bs"
    and "map jb_index (pre @ bs) = [0..<length (pre @ bs)]" "walk_nodes tree (concat (map jb_trees bs)) = Some tree'"
    and "case tree' of None \<Rightarrow> True | Some (_, _, closed, _) \<Rightarrow> closed"
  shows "walk_batches m (length pre) (length (concat (map jb_refs pre))) tree bs"
  using assms
proof (induction bs arbitrary: pre tree)
  case Nil
  then show ?case by simp
next
  case (Cons b bs)
  obtain tree1 where t: "walk_nodes tree (jb_trees b) = Some tree1" "walk_nodes tree1 (concat (map jb_trees bs)) = Some tree'"
    using Cons.prems(5) by (auto simp: walk_nodes_append split: option.splits)
  have "walk_batches m (length (pre @ [b])) (length (concat (map jb_refs (pre @ [b])))) tree1 bs"
    using Cons.prems t(2) by (intro Cons.IH) simp_all
  moreover have "jb_index b = length pre"
    using arg_cong [OF Cons.prems(4), of "\<lambda>xs. xs ! length pre"] by (simp add: nth_append del: upt_Suc)
  ultimately show ?case using Cons.prems(1-3) t(1) by (simp add: Let_def)
qed

lemma walk_segments:
  assumes "segments_from r i start bs" "\<forall>n \<in> set (children bs). tn_segment n = None" "list_all not_last (butlast bs)" "bs \<noteq> []"
    and "jb_is_last (last bs)" "tree = Some (i, start, False, Array_Node) \<or> (tree = None \<and> i = 0 \<and> start = 0)"
  shows "\<exists>j k. walk_nodes tree (concat (map jb_trees bs)) = Some (Some (j, k, True, Array_Node))"
  using assms
proof (induction bs arbitrary: i start tree)
  case (Cons b bs)
  obtain ns where ns: "jb_trees b = array_root r i start (jb_records b) (jb_is_last b) # ns"
    using Cons.prems(1) by (cases "jb_trees b") auto
  have n: "\<forall>n \<in> set ns. tn_segment n = None" using Cons.prems(2) ns by (simp add: children_def)
  have w: "walk_nodes tree (jb_trees b) = Some (Some (i + 1, start + jb_records b, jb_is_last b, Array_Node))"
    using Cons.prems(6) n unfolding ns by (auto simp: step_segment_def walk_nodes_plain)
  show ?case
  proof (cases "bs = []")
    case True
    then show ?thesis using w Cons.prems(5) by (simp add: walk_nodes_append)
  next
    case False
    then have l: "\<not> jb_is_last b" using Cons.prems(3) by (simp add: not_last_def)
    have "\<exists>j k. walk_nodes (Some (i + 1, start + jb_records b, False, Array_Node)) (concat (map jb_trees bs)) = Some (Some (j, k, True, Array_Node))"
      using Cons.prems(1-5) False by (intro Cons.IH) (auto simp: children_def)
    then show ?thesis using w l by (simp add: walk_nodes_append)
  qed
qed simp

section \<open>The stream of lines\<close>

text \<open>The pending nodes end where the counters stood.\<close>

definition pending_family :: "stream_state \<Rightarrow> nat \<Rightarrow> nat \<Rightarrow> bool" where
  "pending_family p n w \<longleftrightarrow> (\<exists>a v. family {} a v (ss_pending p) n w)"

lemma pending_family_Nil: "ss_pending p = [] \<Longrightarrow> pending_family p n w"
  using family_Nil unfolding pending_family_def by metis

definition sound_out :: "json_run \<Rightarrow> bool \<Rightarrow> json_batch list \<Rightarrow> bool" where
  "sound_out R ended out \<longleftrightarrow> list_all (sealed R) out \<and> (\<not> ended \<longrightarrow> list_all not_last out)"

lemma sound_out_simps [simp]:
  "sound_out R ended []" "sound_out R False a \<Longrightarrow> sound_out R ended (a @ b) = sound_out R ended b"
  by (auto simp: sound_out_def)

lemma family_valid: "family ext a v ns n w \<Longrightarrow> list_all valid_tree_node ns"
  by (simp add: family_def list_all_iff)

lemma parse_line_family:
  assumes "parse_line R k line s = Inr (T, s')" "0 < sl_number line" "contract_limits (jr_limits R)"
  shows "family {} (id_nodes s) (id_values s) (pt_nodes T) (id_nodes s') (id_values s')"
proof -
  have r: "parse_complete_record (run_env R (Some k)) (sl_text line) (sl_number line) s = Inr (T, s')"
    using assms(1) by (auto simp: parse_line_def split: sum.splits json_error.splits)
  have l: "contract_limits (je_limits (run_env R (Some k)))" using assms(3) by (simp add: run_env_def)
  obtain j where j: "map plain (pt_nodes T) = fst (outline (run_env R (Some k)) root_place (id_nodes s, id_values s) j)"
    "id_nodes s' = id_nodes s + json_nodes j" "id_values s' = id_values s + json_scalars j"
    using parse_line_sound [OF assms(1)] by metis
  show ?thesis unfolding j(2,3) using parsed_family [OF j(1) record_tidy [OF r l assms(2)]] by (simp add: root_place_def)
qed

lemma stream_batch_out:
  assumes "pending_family p n w"
  shows "sound_out R e [stream_batch R p (ss_pending p) e]"
  using assms stream_batch_sealed [of "ss_pending p" R p e] family_local_ids family_valid
  by (auto simp: pending_family_def sound_out_def not_last_def)

lemma yield_batch_out:
  assumes "yield_batch R p = Inr (b, p')" "pending_family p n w"
  shows "sound_out R False [b]" "pending_family p' n w" "ss_counters p' = ss_counters p"
proof -
  have e: "b = stream_batch R p (ss_pending p) False" "p' = next_stream p b"
    using assms(1) by (auto simp: yield_batch_def bindE_eq_Inr Let_def)
  show "sound_out R False [b]" unfolding e(1) by (rule stream_batch_out [OF assms(2)])
  show "pending_family p' n w" "ss_counters p' = ss_counters p" using pending_family_Nil [of p'] by (simp_all add: e(2) next_stream_def)
qed

lemma line_room_out:
  assumes "line_room R p T = Inr (out, p')" "pending_family p n w"
  shows "sound_out R False out" "pending_family p' n w" "ss_counters p' = ss_counters p"
proof -
  consider "out = []" "p' = p" | b where "yield_batch R p = Inr (b, p')" "out = [b]"
    using assms(1) by (auto simp: line_room_def bindE_eq_Inr split: if_split_asm)
  then have "sound_out R False out \<and> pending_family p' n w \<and> ss_counters p' = ss_counters p"
    using yield_batch_out assms(2) by cases auto
  then show "sound_out R False out" "pending_family p' n w" "ss_counters p' = ss_counters p" by blast+
qed

lemma close_line_out:
  assumes "close_line R p is_last = (out, result)" "pending_family p n w"
  shows "sound_out R (result = Json_Finished) out" "result = Json_Going p' \<Longrightarrow> pending_family p' n w \<and> ss_counters p' = ss_counters p"
proof -
  consider "out = []" "result = Json_Going p" | e where "out = []" "result = Json_Raised e"
    | "out = [stream_batch R p (ss_pending p) True]" "result = Json_Finished"
    | b q where "yield_batch R p = Inr (b, q)" "out = [b]" "result = Json_Going q"
    using assms(1) by (auto simp: close_line_def split: if_split_asm sum.splits)
  then have "sound_out R (result = Json_Finished) out \<and> (\<forall>p'. result = Json_Going p' \<longrightarrow> pending_family p' n w \<and> ss_counters p' = ss_counters p)"
    using yield_batch_out assms(2) stream_batch_out [OF assms(2), of R True] by cases auto
  then show "sound_out R (result = Json_Finished) out" "result = Json_Going p' \<Longrightarrow> pending_family p' n w \<and> ss_counters p' = ss_counters p" by blast+
qed

definition line_books :: "stream_state \<Rightarrow> bool" where
  "line_books p \<longleftrightarrow> pending_family p (id_nodes (ss_counters p)) (id_values (ss_counters p))"

lemma step_line_out:
  assumes "step_line R p line = (out, result)" "0 < sl_number line" "contract_limits (jr_limits R)" "line_books p"
  shows "sound_out R (result = Json_Finished) out \<and> (\<forall>p'. result = Json_Going p' \<longrightarrow> line_books p')"
proof -
  consider "out = []" "result = Json_Going p" | e where "out = []" "result = Json_Raised e"
    | T s o1 p1 o2 where "parse_line R (ss_total p) line (ss_counters p) = Inr (T, s)" "line_room R (p\<lparr>ss_counters := s\<rparr>) T = Inr (o1, p1)"
      "close_line R (add_tree p1 (pt_nodes T) (pt_chars T)) (sl_last line) = (o2, result)" "out = o1 @ o2"
    using assms(1) by (auto simp: step_line_def Let_def split: if_split_asm sum.splits prod.splits)
  then show ?thesis
  proof cases
    case (3 T s o1 p1 o2)
    have q: "pending_family (p\<lparr>ss_counters := s\<rparr>) (id_nodes (ss_counters p)) (id_values (ss_counters p))"
      using assms(4) by (simp add: line_books_def pending_family_def)
    note r = line_room_out [OF 3(2) q]
    have "pending_family (add_tree p1 (pt_nodes T) (pt_chars T)) (id_nodes s) (id_values s)"
      using r(2) parse_line_family [OF 3(1) assms(2,3)] family_append by (fastforce simp: pending_family_def add_tree_def)
    note c = close_line_out [OF 3(3) this]
    have "ss_counters (add_tree p1 (pt_nodes T) (pt_chars T)) = s" using r(3) by (simp add: add_tree_def)
    then show ?thesis using r(1) c 3(4) by (auto simp: line_books_def)
  qed (use assms(4) in simp_all)
qed

lemma run_lines_out:
  "run_lines R p lines = (out, result) \<Longrightarrow> \<forall>line \<in> set lines. 0 < sl_number line \<Longrightarrow> contract_limits (jr_limits R) \<Longrightarrow> line_books p \<Longrightarrow>
    sound_out R (result = Json_Finished) out \<and> (\<forall>p'. result = Json_Going p' \<longrightarrow> line_books p')"
proof (induction lines arbitrary: p out)
  case (Cons line lines)
  obtain o1 r1 where s: "step_line R p line = (o1, r1)" by fastforce
  have n: "0 < sl_number line" using Cons.prems(2) by simp
  note b = step_line_out [OF s n Cons.prems(3,4)]
  show ?case
  proof (cases r1)
    case (Json_Going p')
    obtain o2 where r: "run_lines R p' lines = (o2, result)" "out = o1 @ o2"
      using Cons.prems(1) s Json_Going by (auto split: prod.splits)
    have "line_books p'" "sound_out R False o1" using b Json_Going by auto
    then show ?thesis using Cons.IH [OF r(1) _ Cons.prems(3)] Cons.prems(2) r(2) by simp
  qed (use b s Cons.prems(1) in auto)
qed auto

lemma source_line_numbers:
  "0 < sc_number r \<Longrightarrow> (\<forall>n txt. sc_pending r = Some (n, txt) \<longrightarrow> 0 < n) \<Longrightarrow> \<forall>line \<in> set (fst (source_lines l r s)). 0 < sl_number line"
proof (induction l r s rule: source_lines.induct)
  case (1 l r s)
  note step = source_lines.simps [of l r s]
  have rel: "\<forall>line \<in> set (release_pending r b). 0 < sl_number line" for b
    using 1(5) by (cases "sc_pending r") (auto simp: release_pending_def)
  show ?case
  proof (cases "peek_char s")
    case (Inl e)
    then show ?thesis unfolding step by simp
  next
    case (Inr q)
    show ?thesis
    proof (cases q)
      case None
      then show ?thesis using rel 1(4) Inr unfolding step by (auto simp: end_lines_def)
    next
      case (Some ch)
      note p = Inr [unfolded Some]
      show ?thesis
      proof (cases "code_point ch \<noteq> 13 \<and> code_point ch \<noteq> 10")
        case True
        then show ?thesis using 1(1,2) [OF p refl] 1(4,5) rel [of False] unfolding step p by (auto simp: prepend_def)
      next
        case False
        note nl = step [unfolded p sum.case option.case if_not_P [OF False]]
        show ?thesis
        proof (cases "skip_line_feed (code_point ch) (shift (code_point ch) s)")
          case (Inl e)
          then show ?thesis unfolding nl by simp
        next
          case (Inr s')
          have "0 < sc_number (end_line r)" "\<forall>n txt. sc_pending (end_line r) = Some (n, txt) \<longrightarrow> 0 < n"
            using 1(4,5) by (auto simp: end_line_def Let_def)
          then show ?thesis using 1(3) [OF p refl False Inr] rel [of False] unfolding nl Inr by (auto simp: prepend_def ended_lines_def)
        qed
      qed
    qed
  qed
qed

lemma json_lines_out:
  assumes "stream_json_lines R x = (bs, e)" "contract_limits (jr_limits R)"
  shows "sound_out R (e = None) bs"
proof (cases "source_characters R x")
  case (Inl a)
  then show ?thesis using assms(1) by (auto simp: stream_json_lines_def)
next
  case (Inr s)
  let ?src = "source_lines (jr_limits R) new_scan s" and ?p = "new_stream fresh_counters"
  obtain out result where r: "run_lines R ?p (fst ?src) = (out, result)" by fastforce
  have n: "\<forall>line \<in> set (fst ?src). 0 < sl_number line" by (rule source_line_numbers) (simp_all add: new_scan_def)
  have "line_books ?p" unfolding line_books_def by (rule pending_family_Nil) (simp add: new_stream_def)
  note o = run_lines_out [OF r n assms(2) this]
  have st: "stream_lines R fresh_counters ?src = (bs, e)" using assms(1) Inr by (simp add: stream_json_lines_def)
  show ?thesis
  proof (cases result)
    case (Json_Going p)
    then have p: "line_books p" "sound_out R False out" using o by auto
    consider "bs = out" "e \<noteq> None" | "bs = out @ [stream_batch R p (ss_pending p) True]" "e = None"
      using st r Json_Going by (cases "snd ?src"; cases e) (simp_all add: stream_lines_def after_lines_def split: if_split_asm sum.splits)
    then show ?thesis using p stream_batch_out [of p _ _ R True] by cases (auto simp: line_books_def)
  qed (use st r o in \<open>auto simp: stream_lines_def\<close>)
qed

section \<open>The stream of a document\<close>

text \<open>
  Between items: the pending nodes belong to the root or to each other, and the items among them have the orders that
  the next segment announces.
\<close>

definition root_orders :: "nat \<Rightarrow> tree_node list \<Rightarrow> nat list" where
  "root_orders root ns = map tn_order (filter (\<lambda>m. tn_parent m = Some root) ns)"

definition segment_books :: "nat \<Rightarrow> nat \<Rightarrow> nat \<Rightarrow> doc_state \<Rightarrow> bool" where
  "segment_books root n w d \<longleftrightarrow> (\<exists>a v. root < a \<and> family {root} a v (ss_pending (dc_stream d)) n w) \<and>
     root_orders root (ss_pending (dc_stream d)) = [dc_start d..<ss_total (dc_stream d)] \<and>
     dc_start d + ss_records (dc_stream d) = ss_total (dc_stream d) \<and> (ss_pending (dc_stream d) = [] \<or> 0 < ss_records (dc_stream d))"

definition token_ready :: "json_limits \<Rightarrow> token \<Rightarrow> json_state \<Rightarrow> bool" where
  "token_ready l t s \<longleftrightarrow> read_token l t s \<and> (tk_kind t \<noteq> End_Of_File \<longrightarrow> (\<exists>x. token_fits l (tk_kind t) (tk_value t) x))"

definition item_books :: "json_run \<Rightarrow> nat \<Rightarrow> doc_state \<Rightarrow> bool" where
  "item_books R root d \<longleftrightarrow> token_ready (jr_limits R) (dc_token d) (lexer_of d) \<and> root < id_nodes (lexer_of d) \<and>
     segment_books root (id_nodes (lexer_of d)) (id_values (lexer_of d)) d"

lemma next_token_ready:
  assumes "next_token l s = Inr (t, s')" "steady s"
  shows "token_ready l t s'" "steady s'" "id_nodes s' = id_nodes s" "id_values s' = id_values s"
proof -
  obtain w x where x: "moves l s (w @ x) s'" "counters s' = counters s"
    "if tk_kind t = End_Of_File then x = [] \<and> exhausted s' else token_text (tk_kind t) (tk_value t) x \<and> token_room l (tk_kind t) x"
    using next_token_moves [OF assms(1)] by blast
  have r: "read_token l t s'" using next_token_read [OF assms] by blast
  show "token_ready l t s'" using r x(3) by (auto simp: token_ready_def token_fits_def split: if_split_asm)
  show "steady s'" using r by (simp add: read_token_def)
  show "id_nodes s' = id_nodes s" "id_values s' = id_values s" using x(2) by (simp_all add: counters_def)
qed

lemma next_after_record_ready:
  assumes "next_after_record l s = Inr (t, chars, s')" "steady s"
  shows "steady s'" "id_nodes s' = id_nodes s" "id_values s' = id_values s"
proof -
  obtain s1 where s1: "skip_space l s = Inr s1"
    and r1: "bindE (peek_char s1) (\<lambda>c. case end_record (case c of None \<Rightarrow> lx_pos s1 | Some ch \<Rightarrow> char_start ch) s1 of
       (chars, s) \<Rightarrow> bindE (next_token l s) (\<lambda>(t, s). Inr (t, chars, s))) = Inr (t, chars, s')"
    using assms(1) unfolding next_after_record_def bindE_eq_Inr by blast
  obtain c where r2: "(case end_record (case c of None \<Rightarrow> lx_pos s1 | Some ch \<Rightarrow> char_start ch) s1 of
       (chars, s) \<Rightarrow> bindE (next_token l s) (\<lambda>(t, s). Inr (t, chars, s))) = Inr (t, chars, s')"
    using r1 unfolding bindE_eq_Inr by blast
  obtain k s2 where e: "end_record (case c of None \<Rightarrow> lx_pos s1 | Some ch \<Rightarrow> char_start ch) s1 = (k, s2)" by (meson surj_pair)
  have n: "next_token l s2 = Inr (t, s')" using r2 unfolding e prod.case by (elim bindPE) simp
  obtain w where w: "takes l s w s1" using skip_space_takes [OF s1] by blast
  have a: "steady s1" using after_steady [OF assms(2)] takes_after [OF w] by simp
  have s2: "s2 = s1\<lparr>lx_record := None\<rparr>" using e by (simp add: end_record_def)
  then have "steady s2" using a by (simp add: steady_def)
  note n = next_token_ready [OF n this]
  show "steady s'" by (rule n(2))
  show "id_nodes s' = id_nodes s" "id_values s' = id_values s" using n(3,4) s2 takes_books [OF w] by (simp_all add: counters_def)
qed

lemma root_orders_outline:
  assumes "map plain nodes = fst (outline E pl (n, v) j)" "pl_parent pl = Some root" "root < n"
  shows "root_orders root nodes = [pl_order pl]"
proof -
  obtain h t where h: "map plain nodes = h # t" "tn_parent h = pl_parent pl" "tn_order h = pl_order pl"
    using outline_head [of E pl "(n, v)" j] assms(1) by auto
  have p: "\<forall>m \<in> set t. \<exists>p. tn_parent m = Some p \<and> n \<le> p \<and> p < tn_id m"
    using outline_parents(1) [of E pl "(n, v)" j] unfolding assms(1) [symmetric] h(1) by simp
  then have "filter (\<lambda>m. tn_parent m = Some root) t = []" using assms(3) by (fastforce simp: filter_empty_conv)
  then have "root_orders root (map plain nodes) = [pl_order pl]" using h assms(2) by (simp add: root_orders_def)
  then show ?thesis by (simp add: root_orders_def filter_map comp_def)
qed

lemma read_item_ready:
  assumes "read_item R root k t s = Inr (nodes, chars, delimiter, s')" "token_ready (jr_limits R) t s" "root < id_nodes s"
    and "contract_limits (jr_limits R)"
  shows "steady s'" "family {root} (id_nodes s) (id_values s) nodes (id_nodes s') (id_values s')" "root_orders root nodes = [k]"
    "id_nodes s \<le> id_nodes s'"
proof -
  obtain stop s1 where p: "parse_value (run_env R None) t (array_item root k) 2 (new_parser s) = Inr (nodes, stop, s1)"
    "next_after_record (jr_limits R) s1 = Inr (delimiter, chars, s')"
    using read_item_parts [OF assms(1)] by metis
  have l: "je_limits (run_env R None) = jr_limits R" by (simp add: run_env_def)
  have "tk_kind t \<noteq> End_Of_File" using parse_kind(1) [OF p(1)] .
  then obtain x where x: "token_fits (jr_limits R) (tk_kind t) (tk_value t) x" using assms(2) by (auto simp: token_ready_def)
  have "sound_value (run_env R None) (array_item root k) 2 (new_parser s) x nodes s1"
    using parse_sound(1) p(1) x unfolding l [symmetric] by blast
  then obtain j where j: "counted (new_parser s) (json_nodes j) (json_keys j) (json_scalars j) s1"
    "map plain nodes = fst (outline (run_env R None) (array_item root k) (id_nodes s, id_values s) j)"
    unfolding sound_value_def by auto
  have rt: "read_token (jr_limits R) t (new_parser s)" using assms(2) by (simp add: token_ready_def read_token_def steady_def new_parser_def)
  have "well_placed (jr_limits R) root_place (id_nodes s)" by (rule well_placed_root)
  then have wp: "well_placed (jr_limits R) (array_item root k) (id_nodes (new_parser s))"
    unfolding array_item_place using well_placed_item assms(3) by simp
  have "tidy_value t (new_parser s) nodes stop s1" using parse_tidy(1) p(1) assms(4) rt wp unfolding l [symmetric] by blast
  then have v: "list_all valid_tree_node nodes" "steady s1" by (simp_all add: tidy_value_def)
  note n = next_after_record_ready [OF p(2) v(2)]
  have ids: "id_nodes s' = id_nodes s + json_nodes j" "id_values s' = id_values s + json_scalars j"
    using j(1) n(2,3) by (simp_all add: counted_def counters_def)
  show "steady s'" by (rule n(1))
  show "family {root} (id_nodes s) (id_values s) nodes (id_nodes s') (id_values s')"
    unfolding ids using assms(3) by (intro parsed_family [OF j(2) v(1)]) (simp add: array_item_def)
  show "root_orders root nodes = [k]" using root_orders_outline [OF j(2), of root] assms(3) by (simp add: array_item_def)
  show "id_nodes s \<le> id_nodes s'" by (simp add: ids)
qed

lemma yield_segment_out:
  assumes "yield_segment R root is_last d = Inr (b, d')" "segment_books root n w d" "root < n" "ss_pending (dc_stream d) \<noteq> []"
  shows "sound_out R is_last [b]" "segment_books root n w d'" "steady (lexer_of d) \<Longrightarrow> steady (lexer_of d')"
    "id_nodes (lexer_of d') = id_nodes (lexer_of d)" "id_values (lexer_of d') = id_values (lexer_of d)"
proof -
  let ?p = "dc_stream d" and ?h = "array_root root (ss_index (dc_stream d)) (dc_start d) (ss_records (dc_stream d)) is_last"
  obtain s where s: "core s = core (lexer_of d)" "id_nodes s = id_nodes (lexer_of d)" "id_values s = id_values (lexer_of d)"
    and b: "b = stream_batch R ?p (?h # ss_pending ?p) is_last"
    and d': "d' = d\<lparr>dc_stream := (next_stream ?p b)\<lparr>ss_counters := s\<rparr>, dc_start := ss_total ?p\<rparr>"
    using assms(1) by (cases rule: yield_segment_cases) blast
  obtain a v where f: "root < a" "family {root} a v (ss_pending ?p) n w" using assms(2) by (auto simp: segment_books_def)
  have o: "map tn_order (filter (\<lambda>m. tn_parent m = Some root) (ss_pending ?p)) = [dc_start d..<dc_start d + ss_records ?p]"
    and r: "0 < ss_records ?p" using assms(2,4) by (simp_all add: segment_books_def root_orders_def)
  have "valid_tree_node ?h" using r by (intro array_root_valid) simp
  then have "list_all valid_tree_node (?h # ss_pending ?p)" using family_valid [OF f(2)] by simp
  then have "sealed R b" unfolding b by (rule stream_batch_sealed [OF segment_local_ids [OF f(2,1) o]])
  then show "sound_out R is_last [b]" by (simp add: sound_out_def b not_last_def)
  have l: "lexer_of d' = s" by (simp add: d' lexer_of_def)
  show "steady (lexer_of d')" if "steady (lexer_of d)" using core_steady [OF s(1)] that unfolding l by blast
  show "id_nodes (lexer_of d') = id_nodes (lexer_of d)" "id_values (lexer_of d') = id_values (lexer_of d)" using s l by simp_all
  have "dc_start d' = ss_total (dc_stream d')" "ss_pending (dc_stream d') = []" "ss_records (dc_stream d') = 0"
    by (simp_all add: d' next_stream_def)
  moreover have "\<exists>a v. root < a \<and> family {root} a v [] n w" using assms(3) family_Nil by blast
  ultimately show "segment_books root n w d'" by (simp add: segment_books_def root_orders_def)
qed

lemma with_lexer_stream [simp]: "dc_stream (with_lexer d s) = (dc_stream d)\<lparr>ss_counters := s\<rparr>"
  by (simp add: with_lexer_def)

lemma segment_books_lexer [simp]:
  "segment_books root n w (with_lexer d s) = segment_books root n w d"
  "segment_books root n w (d\<lparr>dc_token := t\<rparr>) = segment_books root n w d"
  by (simp_all add: segment_books_def with_lexer_def)

lemma segment_room_out:
  assumes "segment_room R root nodes chars d = Inr (out, d')" "segment_books root n w d" "root < n"
  shows "sound_out R False out" "segment_books root n w d'" "steady (lexer_of d) \<Longrightarrow> steady (lexer_of d')"
    "id_nodes (lexer_of d') = id_nodes (lexer_of d)" "id_values (lexer_of d') = id_values (lexer_of d)"
    "ss_total (dc_stream d') = ss_total (dc_stream d)"
proof -
  have "sound_out R False out \<and> segment_books root n w d' \<and> (steady (lexer_of d) \<longrightarrow> steady (lexer_of d')) \<and>
    id_nodes (lexer_of d') = id_nodes (lexer_of d) \<and> id_values (lexer_of d') = id_values (lexer_of d) \<and>
    ss_total (dc_stream d') = ss_total (dc_stream d)"
    using assms(1)
  proof (cases rule: segment_room_cases)
    case 1
    then show ?thesis using assms(2) by simp
  next
    case (2 b)
    have p: "ss_pending (dc_stream d) \<noteq> []" using assms(1) 2(2) by (auto simp: segment_room_def segment_overflow_def split: if_split_asm)
    have "ss_total (dc_stream d') = ss_total (dc_stream d)" using 2(1) by (cases rule: yield_segment_cases) (simp add: next_stream_def)
    then show ?thesis using yield_segment_out [OF 2(1) assms(2,3) p] 2(2) by blast
  qed
  then show "sound_out R False out" "segment_books root n w d'" "steady (lexer_of d) \<Longrightarrow> steady (lexer_of d')"
    "id_nodes (lexer_of d') = id_nodes (lexer_of d)" "id_values (lexer_of d') = id_values (lexer_of d)"
    "ss_total (dc_stream d') = ss_total (dc_stream d)" by blast+
qed

lemma next_item_books:
  assumes "next_item R d = Inr d'" "steady (lexer_of d)" "root < id_nodes (lexer_of d)"
    and "segment_books root (id_nodes (lexer_of d)) (id_values (lexer_of d)) d"
  shows "item_books R root d'"
proof -
  obtain t s where t: "next_token (jr_limits R) (begin_record (lexer_of d)) = Inr (t, s)" "d' = (with_lexer d s)\<lparr>dc_token := t\<rparr>"
    using assms(1) by (rule next_item_cases)
  have "steady (begin_record (lexer_of d))" using assms(2) by (simp add: begin_record_def steady_def)
  note n = next_token_ready [OF t(1) this]
  have l: "lexer_of d' = s" "dc_token d' = t" by (simp_all add: t(2) lexer_of_def with_lexer_def)
  have ids: "id_nodes s = id_nodes (lexer_of d)" "id_values s = id_values (lexer_of d)" using n(3,4) by (simp_all add: begin_record_def)
  have "segment_books root (id_nodes s) (id_values s) d'" unfolding t(2) ids using assms(4) by simp
  then show ?thesis unfolding item_books_def l using n(1) ids(1) assms(3) by simp
qed

lemma close_item_out:
  assumes "close_item R root is_last d = (out, result)" "steady (lexer_of d)" "root < id_nodes (lexer_of d)"
    and "segment_books root (id_nodes (lexer_of d)) (id_values (lexer_of d)) d" "ss_pending (dc_stream d) \<noteq> []"
  shows "sound_out R (result = Doc_Finished) out \<and> (\<forall>d'. result = Doc_Going d' \<longrightarrow> item_books R root d')"
proof -
  let ?n = "id_nodes (lexer_of d)" and ?w = "id_values (lexer_of d)"
  have w: "with_lexer d (lexer_of d) = d" by (simp add: with_lexer_def lexer_of_def)
  consider e where "out = []" "result = Doc_Raised e"
    | "out = []" "result = go_on (next_item R d)"
    | b d1 where "yield_segment R root False d = Inr (b, d1)" "out = [b]" "result = go_on (next_item R d1)"
    | s b d1 where "yield_segment R root True (with_lexer d s) = Inr (b, d1)" "out = [b]" "result = Doc_Finished"
    using assms(1) w by (cases is_last) (auto simp: close_item_def split: sum.splits if_split_asm)
  then show ?thesis
  proof cases
    case 2
    then show ?thesis using next_item_books assms(2-4) by (auto simp: go_on_Going go_on_def split: sum.splits)
  next
    case (3 b d1)
    note y = yield_segment_out [OF 3(1) assms(4,3,5)]
    have "item_books R root d'" if "next_item R d1 = Inr d'" for d'
      using next_item_books [OF that] y(2-5) assms(2,3) by simp
    then show ?thesis using y(1) 3 by (auto simp: go_on_Going go_on_def split: sum.splits)
  next
    case (4 s b d1)
    have "segment_books root ?n ?w (with_lexer d s)" "ss_pending (dc_stream (with_lexer d s)) \<noteq> []" using assms(4,5) by simp_all
    then show ?thesis using yield_segment_out(1) [OF 4(1) _ assms(3)] 4(2,3) by simp
  qed simp
qed

lemma add_item_books:
  assumes "segment_books root n w d" "root < n" "family {root} n w nodes n' w'" "root_orders root nodes = [ss_total (dc_stream d)]"
  shows "segment_books root n' w' (d\<lparr>dc_stream := add_tree (dc_stream d) nodes chars\<rparr>)"
proof -
  let ?p = "dc_stream d"
  obtain a v where f: "root < a" "family {root} a v (ss_pending ?p) n w" using assms(1) by (auto simp: segment_books_def)
  have "family {root} a v (ss_pending ?p @ nodes) n' w'" using family_append [OF f(2) assms(3)] .
  moreover have "root_orders root (ss_pending ?p @ nodes) = [dc_start d..<Suc (ss_total ?p)]"
    using assms(1,4) by (auto simp: segment_books_def root_orders_def)
  ultimately show ?thesis using assms(1) f(1) by (auto simp: segment_books_def add_tree_def simp del: upt_Suc)
qed

lemma step_item_out:
  assumes "step_item R root d = (out, result)" "item_books R root d" "contract_limits (jr_limits R)"
  shows "sound_out R (result = Doc_Finished) out \<and> (\<forall>d'. result = Doc_Going d' \<longrightarrow> item_books R root d')"
proof -
  let ?n = "id_nodes (lexer_of d)" and ?w = "id_values (lexer_of d)"
  consider e where "out = []" "result = Doc_Raised e"
    | nodes chars delimiter s o1 d1 o2 where
      "read_item R root (ss_total (dc_stream d)) (dc_token d) (lexer_of d) = Inr (nodes, chars, delimiter, s)"
      "segment_room R root (length nodes) chars (with_lexer d s) = Inr (o1, d1)"
      "close_item R root (tk_kind delimiter = Array_End) (d1\<lparr>dc_stream := add_tree (dc_stream d1) nodes chars\<rparr>) = (o2, result)"
      "out = o1 @ o2"
    using assms(1) by (auto simp: step_item_def Let_def split: if_split_asm sum.splits prod.splits)
  then show ?thesis
  proof cases
    case (2 nodes chars delimiter s o1 d1 o2)
    have b: "token_ready (jr_limits R) (dc_token d) (lexer_of d)" "root < ?n" "segment_books root ?n ?w d"
      using assms(2) by (simp_all add: item_books_def)
    note i = read_item_ready [OF 2(1) b(1,2) assms(3)]
    have "segment_books root ?n ?w (with_lexer d s)" using b(3) by simp
    note r = segment_room_out [OF 2(2) this b(2)]
    let ?d2 = "d1\<lparr>dc_stream := add_tree (dc_stream d1) nodes chars\<rparr>"
    have t: "root_orders root nodes = [ss_total (dc_stream d1)]" using i(3) r(6) by simp
    have l: "id_nodes (lexer_of ?d2) = id_nodes s" "id_values (lexer_of ?d2) = id_values s" "steady (lexer_of ?d2)"
      using r(3-5) i(1) by simp_all
    have "segment_books root (id_nodes (lexer_of ?d2)) (id_values (lexer_of ?d2)) ?d2"
      unfolding l(1,2) by (rule add_item_books [OF r(2) b(2) i(2) t])
    moreover have "nodes \<noteq> []" using t by (auto simp: root_orders_def)
    then have "ss_pending (dc_stream ?d2) \<noteq> []" by (simp add: add_tree_def)
    moreover have "root < id_nodes (lexer_of ?d2)" unfolding l(1) using b(2) i(4) by simp
    ultimately show ?thesis using close_item_out [OF 2(3) l(3)] r(1) 2(4) by simp
  qed simp
qed

lemma doc_items_out:
  "doc_items R root d = (out, e) \<Longrightarrow> item_books R root d \<Longrightarrow> contract_limits (jr_limits R) \<Longrightarrow> sound_out R (e = None) out"
proof (induction R root d arbitrary: out rule: doc_items.induct)
  case (1 R root d)
  obtain o1 result where s: "step_item R root d = (o1, result)" by fastforce
  note b = step_item_out [OF s 1(3,4)]
  show ?case
  proof (cases result)
    case (Doc_Going d')
    obtain o2 where m: "doc_items R root d' = (o2, e)" "out = o1 @ o2"
      using 1(2) s Doc_Going unfolding doc_items.simps [of R root d] by (auto split: prod.splits)
    have "item_books R root d'" "sound_out R False o1" using b Doc_Going by auto
    then show ?thesis using "1.IH" [OF s [symmetric] Doc_Going m(1) _ 1(4)] m(2) by simp
  qed (use b s 1(2) in \<open>auto simp: doc_items.simps [of R root d]\<close>)
qed


text \<open>A batch of its own is the first of a new stream.\<close>

lemma single_batch_out:
  assumes "valid_local_ids trees" "list_all valid_tree_node trees"
  shows "sound_out R True [build_json_batch R 0 trees n [] [] True]"
proof -
  let ?p = "(new_stream fresh_counters)\<lparr>ss_records := n\<rparr>"
  have "build_json_batch R 0 trees n [] [] True = stream_batch R ?p trees True" by (simp add: stream_batch_def new_stream_def)
  then show ?thesis using stream_batch_sealed [OF assms, of R ?p True] by (simp add: sound_out_def)
qed

lemma array_document_out:
  assumes "array_document R s0 = Inr (bs, e)" "steady s0" "contract_limits (jr_limits R)"
  shows "sound_out R (e = None) bs"
proof -
  let ?E = "run_env R None"
  obtain s2 where s2: "claim_node ?E False (abandon_record s0) = Inr s2"
    and r: "(case node_id s2 of (root, s3) \<Rightarrow>
       bindE (next_token (jr_limits R) (begin_record s3)) (\<lambda>(t, s).
         if tk_kind t = Array_End
         then bindE (end_of_input (jr_limits R) (abandon_record s)) (\<lambda>_.
           Inr ([build_json_batch R 0 [array_root root 0 0 0 True] 0 [] [] True], None))
         else Inr (doc_items R root \<lparr>dc_stream = new_stream s, dc_start = 0, dc_token = t\<rparr>))) = Inr (bs, e)"
    using assms(1) unfolding array_document_def Let_def by (auto simp: bindE_eq_Inr split: if_split_asm)
  obtain root s3 where n: "node_id s2 = (root, s3)" by (meson surj_pair)
  have s3: "root < id_nodes s3" "steady s3"
    using n s2 assms(2) by (auto simp: node_id_def claim_node_def abandon_record_def steady_def Let_def split: if_split_asm)
  obtain t s where t: "next_token (jr_limits R) (begin_record s3) = Inr (t, s)"
    and q: "(if tk_kind t = Array_End
         then bindE (end_of_input (jr_limits R) (abandon_record s)) (\<lambda>_.
           Inr ([build_json_batch R 0 [array_root root 0 0 0 True] 0 [] [] True], None))
         else Inr (doc_items R root \<lparr>dc_stream = new_stream s, dc_start = 0, dc_token = t\<rparr>)) = Inr (bs, e)"
    using r unfolding n prod.case by (rule bindPE)
  have b: "steady (begin_record s3)" "id_nodes (begin_record s3) = id_nodes s3" using s3(2) by (simp_all add: begin_record_def steady_def)
  note ready = next_token_ready [OF t b(1)]
  show ?thesis
  proof (cases "tk_kind t = Array_End")
    case True
    then have bs: "bs = [build_json_batch R 0 [array_root root 0 0 0 True] 0 [] [] True]" "e = None" using q by (auto simp: bindE_eq_Inr)
    have "valid_local_ids [array_root root 0 0 0 True]"
      using segment_local_ids [OF family_Nil [of "{root}" "Suc root" 0], of 0 0 0 True] by simp
    moreover have "list_all valid_tree_node [array_root root 0 0 0 True]" by (simp add: array_root_valid)
    ultimately show ?thesis unfolding bs by (simp add: single_batch_out)
  next
    case False
    let ?d = "\<lparr>dc_stream = new_stream s, dc_start = 0, dc_token = t\<rparr>"
    have l: "lexer_of ?d = s" by (simp add: lexer_of_def new_stream_def)
    have d: "doc_items R root ?d = (bs, e)" using q False by simp
    have root: "root < id_nodes s" using ready(3) b(2) s3(1) by simp
    have "family {root} (id_nodes s) (id_values s) [] (id_nodes s) (id_values s)" by (rule family_Nil)
    then have "segment_books root (id_nodes s) (id_values s) ?d"
      unfolding segment_books_def using root by (auto simp: new_stream_def root_orders_def)
    then have "item_books R root ?d" unfolding item_books_def l using ready(1) root by simp
    then show ?thesis using doc_items_out [OF d _ assms(3)] by blast
  qed
qed

lemma value_document_out:
  assumes "next_token (jr_limits R) s0 = Inr (first, s)" "value_document R first s = Inr bs" "steady s0" "contract_limits (jr_limits R)"
  shows "sound_out R True bs"
proof -
  let ?E = "run_env R None"
  have l: "je_limits ?E = jr_limits R" by (simp add: run_env_def)
  obtain T s2 where T: "parse_root ?E first s = Inr (T, s2)" "bs = [build_json_batch R 0 (pt_nodes T) 1 [] [] True]"
    using assms(2) by (auto simp: value_document_def Let_def bindE_eq_Inr split: if_split_asm)
  have v: "list_all valid_tree_node (pt_nodes T)" by (rule root_tidy [OF assms(1) [folded l] T(1) assms(3)]) (simp add: l assms(4))
  obtain j where "map plain (pt_nodes T) = fst (outline ?E root_place (id_nodes s0, id_values s0) j)"
    using root_sound [OF assms(1) [folded l] T(1)] by metis
  then have "family {} (id_nodes s0) (id_values s0) (pt_nodes T) (id_nodes s0 + json_nodes j) (id_values s0 + json_scalars j)"
    using parsed_family [OF _ v] by (simp add: root_place_def)
  then show ?thesis unfolding T(2) by (intro single_batch_out family_local_ids v)
qed

lemma json_document_out:
  assumes "stream_json_document R x = (bs, e)" "contract_limits (jr_limits R)"
  shows "sound_out R (e = None) bs"
proof -
  consider "bs = []" | s e' where "source_characters R x = Inr s" "document R s = Inr (bs, e')" "e = map_option public_error e'"
    using assms(1) by (auto simp: stream_json_document_def bindE_eq_Inr split: sum.splits prod.splits)
  then show ?thesis
  proof cases
    case (2 s e')
    have "steady (begin_record s)"
      using 2(1) by (auto simp: source_characters_def Let_def fresh_counters_def begin_record_def steady_def split: if_split_asm)
    moreover obtain first s1 where f: "next_token (jr_limits R) (begin_record s) = Inr (first, s1)"
      and r: "(if tk_kind first = Array_Start then array_document R s1 else bindE (value_document R first s1) (\<lambda>bs. Inr (bs, None))) = Inr (bs, e')"
      using 2(2) unfolding document_def by (rule bindPE)
    ultimately have st: "steady s1" "steady (begin_record s)" using next_token_ready(2) by blast+
    have "sound_out R (e' = None) bs"
    proof (cases "tk_kind first = Array_Start")
      case True
      then show ?thesis using array_document_out [OF _ st(1) assms(2)] r by simp
    next
      case False
      then have "value_document R first s1 = Inr bs" "e' = None" using r by (auto simp: bindE_eq_Inr)
      then show ?thesis using value_document_out [OF f _ st(2) assms(2)] by simp
    qed
    then show ?thesis using 2(3) by simp
  qed simp
qed


section \<open>Runs that end\<close>

definition closed_tree :: "open_tree \<Rightarrow> bool" where
  "closed_tree tree \<longleftrightarrow> (case tree of None \<Rightarrow> True | Some (_, _, closed, _) \<Rightarrow> closed)"

definition walks_closed :: "json_batch list \<Rightarrow> bool" where
  "walks_closed bs \<longleftrightarrow> (\<exists>tree. walk_nodes None (concat (map jb_trees bs)) = Some tree \<and> closed_tree tree)"

lemma no_segments_closed: "\<forall>n \<in> set (concat (map jb_trees bs)). tn_segment n = None \<Longrightarrow> walks_closed bs"
  using walk_nodes_plain [of "concat (map jb_trees bs)" None] by (simp add: walks_closed_def closed_tree_def)

lemma plain_segments: "\<forall>n \<in> set (map plain ns). tn_segment n = None \<Longrightarrow> \<forall>n \<in> set ns. tn_segment n = None"
  by simp

lemma lines_outline_segments: "\<forall>n \<in> set (lines_outline R k c js). tn_segment n = None"
  by (induction js arbitrary: k c) (use outline_values(1) in auto)

lemma segments_closed:
  assumes "run_delivered R bs k" "segments_from 0 0 0 bs" "\<forall>n \<in> set (children bs). tn_segment n = None"
  shows "walks_closed bs"
proof -
  have "bs \<noteq> []" "list_all not_last (butlast bs)" "jb_is_last (last bs)" using assms(1) by (simp_all add: run_delivered_def)
  then have "\<exists>j k. walk_nodes None (concat (map jb_trees bs)) = Some (Some (j, k, True, Array_Node))"
    using walk_segments [OF assms(2,3), of None] by simp
  then show ?thesis by (auto simp: walks_closed_def closed_tree_def)
qed

definition real_context :: "json_run \<Rightarrow> bool" where
  "real_context R \<longleftrightarrow> 0 < jc_batch_size (jr_context R) \<and> 0 < jc_max_batches (jr_context R) \<and> 0 < jl_batch_nodes (jr_limits R)"

lemma json_lines_finished:
  assumes "stream_json_lines R x = (bs, None)" "real_context R"
  shows "(\<exists>k. run_delivered R bs k) \<and> walks_closed bs"
proof -
  have "0 < jc_batch_size (jr_context R)" using assms(2) by (simp add: real_context_def)
  then obtain js where js: "map plain (concat (map jb_trees bs)) = lines_outline R 0 (0, 0) js"
    "run_delivered R bs (length (value_lines (jx_text x)))"
    using lines_whole [OF assms(1)] by blast
  have "\<forall>n \<in> set (concat (map jb_trees bs)). tn_segment n = None"
    by (rule plain_segments) (unfold js(1), rule lines_outline_segments)
  then show ?thesis using js(2) no_segments_closed by blast
qed

lemma json_document_finished:
  assumes "stream_json_document R x = (bs, None)" "real_context R"
  shows "(\<exists>k. run_delivered R bs k) \<and> walks_closed bs"
proof -
  let ?E = "run_env R None"
  have pos: "0 < jc_batch_size (jr_context R)" "0 < jc_max_batches (jr_context R)" "0 < jl_batch_nodes (jr_limits R)"
    using assms(2) by (simp_all add: real_context_def)
  obtain j where j: "case j of
       JArray js \<Rightarrow> run_delivered R bs (length js) \<and> segments_from 0 0 0 bs \<and>
         map plain (children bs) = fst (outline_items ?E 0 root_place 0 (1, 0) js)
     | _ \<Rightarrow> run_delivered R bs 1 \<and> map plain (concat (map jb_trees bs)) = fst (outline ?E root_place (0, 0) j)"
    using document_whole [OF assms(1) pos] by (elim exE conjE) (rule that, assumption)
  then consider js where "run_delivered R bs (length js)" "segments_from 0 0 0 bs"
      "map plain (children bs) = fst (outline_items ?E 0 root_place 0 (1, 0) js)"
    | "run_delivered R bs 1" "map plain (concat (map jb_trees bs)) = fst (outline ?E root_place (0, 0) j)"
    by (cases j) auto
  then show ?thesis
  proof cases
    case (1 js)
    have "\<forall>n \<in> set (children bs). tn_segment n = None"
      by (rule plain_segments) (unfold 1(3), use outline_values(3) in blast)
    then show ?thesis using 1(1,2) segments_closed by blast
  next
    case 2
    have "\<forall>n \<in> set (concat (map jb_trees bs)). tn_segment n = None"
      by (rule plain_segments) (unfold 2(2), use outline_values(1) in blast)
    then show ?thesis using 2(1) no_segments_closed by blast
  qed
qed

section \<open>Producers\<close>

text \<open>
  What consumers rely on, for any stream of batches: what it yields is sealed, and marked as last only in a run that ends;
  a run that ends is delivered, and its segments close. From this the checks of \<open>contracts/source.py\<close> follow.
\<close>

locale json_producer =
  fixes produce :: "json_run \<Rightarrow> json_source \<Rightarrow> json_batch list \<times> json_error option"
  assumes yielded: "produce R x = (bs, e) \<Longrightarrow> contract_limits (jr_limits R) \<Longrightarrow> sound_out R (e = None) bs"
    and finished: "produce R x = (bs, None) \<Longrightarrow> real_context R \<Longrightarrow> (\<exists>k. run_delivered R bs k) \<and> walks_closed bs"
begin

lemma yielded_nodes:
  assumes "produce R x = (bs, e)" "contract_limits (jr_limits R)"
  shows "list_all (\<lambda>b. list_all valid_tree_node (jb_trees b)) bs"
  using yielded [OF assms] by (simp add: sound_out_def sealed_def list_all_iff)

lemma ended_run:
  assumes "produce R x = (bs, None)" "contract_limits (jr_limits R)" "real_context R" "separates R"
  shows "list_all valid_batch bs \<and> (\<exists>m. jb_manifest (last bs) = Some m \<and> valid_manifest m \<and> validate_batches m bs)"
proof -
  obtain k where k: "run_delivered R bs k" "walks_closed bs" using finished [OF assms(1,3)] by blast
  have s: "list_all (sealed R) bs" using yielded [OF assms(1,2)] by (simp add: sound_out_def)
  obtain m where m: "jb_manifest (last bs) = Some m" "jm_batches m = map json_summary_of bs" "jm_refs m = concat (map jb_refs bs)"
    "valid_manifest m" "list_all (validate_batch m) bs" "list_all valid_batch bs"
    by (rule delivered_contract [OF k(1) s assms(4)])
  obtain tree where t: "walk_nodes None (concat (map jb_trees bs)) = Some tree" "closed_tree tree"
    using k(2) by (auto simp: walks_closed_def)
  have "map jb_index bs = [0..<length bs]" using k(1) by (simp add: run_delivered_def)
  then have "validate_batches m bs"
    using walk_batches_iff [of m "[]" bs None tree] m(2,3,5) t by (simp add: validate_batches_def closed_tree_def)
  then show ?thesis using m(1,4,6) by blast
qed

lemma stopped_run:
  assumes "produce R x = (bs, Some e)" "contract_limits (jr_limits R)"
  shows "list_all valid_batch bs"
  using yielded [OF assms] sealed_not_last by (auto simp: sound_out_def list_all_iff)

end

interpretation lines_producer: json_producer stream_json_lines
  by unfold_locales (fact json_lines_out, fact json_lines_finished)

interpretation document_producer: json_producer stream_json_document
  by unfold_locales (fact json_document_out, fact json_document_finished)

section \<open>The contract of extraction\<close>

definition keeps_contract :: "json_batch list \<times> json_error option \<Rightarrow> bool" where
  "keeps_contract r \<longleftrightarrow> list_all (\<lambda>b. list_all valid_tree_node (jb_trees b)) (fst r) \<and> list_all valid_batch (fst r) \<and> (snd r = None \<longrightarrow>
     (\<exists>m. jb_manifest (last (fst r)) = Some m \<and> valid_manifest m \<and> validate_batches m (fst r)))"

lemma valid_limits_batch_nodes: "valid_json_limits l \<Longrightarrow> 0 < jl_batch_nodes l"
  by (simp add: valid_json_limits_def)

text \<open>C10: The JSON parser keeps the contract of extraction. Under valid limits neither a batch it yields, of JSON Lines or of a document, nor a node in it
  is refused when it is constructed (identifiers are unique, parents exist and links have no cycle, a segment holds the children it
  announces, indexed references are distinct and local); and when a stream ends without error, its last batch carries a manifest
  that is well formed and accepts the whole run in \<open>validate_batches\<close>: order, references and segments agree.\<close>
theorem json_extraction_contract:
  assumes "valid_json_limits (jr_limits R)" "separates R" "0 < jc_batch_size (jr_context R)" "0 < jc_max_batches (jr_context R)"
  shows "keeps_contract (stream_json_lines R x) \<and> keeps_contract (stream_json_document R x)"
proof -
  have l: "contract_limits (jr_limits R)" "real_context R"
    using assms valid_limits_contract valid_limits_batch_nodes by (simp_all add: real_context_def)
  obtain bs e where r: "stream_json_lines R x = (bs, e)" by fastforce
  have "keeps_contract (stream_json_lines R x)" unfolding r keeps_contract_def
    using lines_producer.yielded_nodes [OF _ l(1), of x bs] lines_producer.ended_run [OF _ l assms(2), of x bs]
      lines_producer.stopped_run [OF _ l(1), of x bs] r by (cases e) simp_all
  moreover obtain ds d where d: "stream_json_document R x = (ds, d)" by fastforce
  have "keeps_contract (stream_json_document R x)" unfolding d keeps_contract_def
    using document_producer.yielded_nodes [OF _ l(1), of x ds] document_producer.ended_run [OF _ l assms(2), of x ds]
      document_producer.stopped_run [OF _ l(1), of x ds] d by (cases d) simp_all
  ultimately show ?thesis by blast
qed

theorem json_extraction_contract_witness:
  "\<exists>bs. stream_json_document example_run example_document = (bs, None) \<and> length bs = 2 \<and> list_all valid_batch bs"
proof -
  obtain bs where r: "stream_json_document example_run example_document = (bs, None)" "length bs = 2"
    by (rule example_document_run)
  have "valid_json_limits (jr_limits example_run)" "separates example_run"
    "0 < jc_batch_size (jr_context example_run)" "0 < jc_max_batches (jr_context example_run)"
    by (simp_all add: example_run_def example_limits_def example_context_def valid_json_limits_def separates_def)
  then have "keeps_contract (stream_json_document example_run example_document)" using json_extraction_contract by blast
  then show ?thesis using r by (simp add: keeps_contract_def)
qed

end
