(* ===== verification/Spec2Isabelle.thy ===== *)
theory Spec2Isabelle
  imports Staging_Properties Dependency_Order Pipeline_State Router_Properties Parser_Selection Load_Transaction Delimited_Roundtrip Delimited_Batches
    Json_Contract
begin

text \<open>
  Verification of the core of structuraguard, a Python library that takes a file of unknown format, parses it
  technically, lets plans made by rules or by a language model describe its structure and its mapping to a
  relational schema, and loads the validated rows into a database. Paths are relative to
  \<open>src/packages/structuraguard/src/structuraguard\<close>.

  \<^bold>\<open>The parts and how they meet.\<close> A source is probed by the registered parsers and one of them is selected
  (\<open>parsers/selection.py\<close>, \<open>parsers/execution.py\<close>). The parser turns bytes into bounded batches of physical
  objects: tables for delimited text (\<open>parsers/builtin/delimited.py\<close>), trees of nodes for JSON
  (\<open>parsers/builtin/_json.py\<close>). A language model is asked only through a router that enforces the privacy policy
  and the run budget (\<open>llm/router.py\<close>), and every resource is charged to one security session
  (\<open>security/session.py\<close>). The results of a run wait in a staging store with a strict lifecycle
  (\<open>stores/_core.py\<close>, \<open>stores/memory.py\<close>, \<open>contracts/staging.py\<close>), the run itself moves through the statuses of
  \<open>pipeline/state.py\<close>, and the load is planned and written in groups that are written or set aside as a whole
  (\<open>loading/groups.py\<close>, \<open>loading/planning.py\<close>, \<open>database/_load_queries.py\<close>, \<open>database/_load_transaction.py\<close>), in
  an order of tables computed by \<open>domain/database_graph.py\<close> and against the catalog of \<open>contracts/database.py\<close>.

  \<^bold>\<open>Conventions\<close> (\<open>Prelude\<close>). Python text is a list of code points (\<open>pystr\<close>); texts of a fixed vocabulary are HOL
  strings. Python integers are unbounded and are \<open>nat\<close> or \<open>int\<close>, where the code compares with a bound the bound is
  written out (such as \<open>2 ^ 63\<close>). Code that may raise returns \<open>error + result\<close>, sequenced by \<open>bindE\<close>; a generator is
  the list of what it yields together with the error that ends it. Objects are records, updated by passing the new
  state on. Identity, hashes, clocks, providers and adapters are parameters: records of functions with \<open>env\<close> or
  \<open>run\<close> in their name. Every loop is a total function, structural or with a measure that is proved to decrease, so
  there is no fuel anywhere and no theorem that holds only because a computation does not return.

  \<^bold>\<open>Staging.\<close> \<open>Bounded_Input\<close> models \<open>bounded\<close>, the guard that walks a value before it is stored, on an explicit
  heap of objects so that shared and cyclic values are covered: it accepts exactly the trees within its budgets.
  \<open>Staging_Store\<close> holds the contracts of \<open>contracts/staging.py\<close> with their validators, every method of
  \<open>StagingOperations\<close> and the in-memory backend. \<open>Staging_Lifecycle\<close> gives the abstract lifecycle as an inductive
  relation, the invariant of a run and the backend interface as a locale (\<open>staging_backend\<close>), interpreted on the
  memory backend; \<open>Staging_Properties\<close> holds the consequences for histories of requests: the refinement, the
  store invariant, at most one accepted change per revision, idempotent stages, exact pages and safe clean-up.

  \<^bold>\<open>Run, budget, language model.\<close> \<open>Pipeline_State\<close> is the status machine. \<open>Resource_Session\<close> models limits,
  policies and \<open>SecuritySession\<close> (charging, deadlines, guarded calls, the terminal event), \<open>Session_Properties\<close> its
  step relation, its invariant and the locale \<open>charged_budget\<close> of a budget that a client charges before it acts.
  \<open>LLM_Contracts\<close> and \<open>LLM_Router\<close> model the contracts of a request and the router; \<open>Router_Properties\<close> shows what
  is sent where, that the run budget is kept and that a router with a session as its guard reserves exactly what
  the session is charged (the locale \<open>router_guard\<close>, interpreted on the session).

  \<^bold>\<open>Parsers.\<close> \<open>Parser_Selection\<close> models probe contracts, the rebuilding of adapter errors and the choice of the
  winner. \<open>Delimited_Tokenizer\<close> is \<open>_RowTokenizer\<close> character by character; \<open>Delimited_Chunks\<close>, \<open>Delimited_Shape\<close>,
  \<open>Delimited_Roundtrip\<close> and \<open>Delimited_Rows\<close> show that chunk borders are invisible, that the shape-only pass agrees
  with the full one, that written tables are read back and that rows keep the limits. \<open>Delimited_Detection\<close> is the
  choice of the dialect, \<open>Delimited_Batches\<close> the extraction of tables into batches. \<open>Json_Lexer\<close> is \<open>_JsonLexer\<close>
  over a character source; \<open>Json_Grammar\<close> is the lexical grammar of RFC 8259 and the agreement of the lexer with
  it. \<open>Json_Tree\<close> is \<open>_TreeParser\<close> with its budget and identifiers; \<open>Json_Values\<close> defines JSON values, the texts
  that denote them, the nodes a value stands for and the limits it keeps, and proves the parser sound,
  \<open>Json_Complete\<close> proves it complete. \<open>Json_Records\<close> is one record and the probes, \<open>Json_Paths\<close> shows that nodes can
  be told apart and \<open>Json_Valid\<close> that they satisfy the contracts they are built with. \<open>Json_Batches\<close>,
  \<open>Json_Streams\<close> and \<open>Json_Document\<close> are the batches, the line scanner and the two streams, the segmented stream
  of a root array among them. \<open>Extraction_Contract\<close> models what \<open>contracts/source.py\<close> checks when a batch or a
  manifest of trees is constructed and in \<open>validate_batches\<close>; \<open>Json_Contract\<close> states what consumers rely on as the
  locale \<open>json_producer\<close>, interpreted on both streams, and shows that no check refuses their output when limits are
  valid and fingerprints of batches with different indices differ.

  \<^bold>\<open>Loading.\<close> \<open>Database_Catalog\<close> models the catalog contracts and \<open>unique_keys\<close>; \<open>Dependency_Order\<close> the order of
  tables. \<open>Reachability\<close> holds the work-list search that grouping and quarantine share. \<open>Loading_Groups\<close> shows that
  groups are the classes of rows that hang together, \<open>Loading_Plan\<close> models dependencies, quarantine, lookups and
  steps of a plan, \<open>Load_Statements\<close> the batching of write statements, and \<open>Load_Transaction\<close> the writing of groups
  under savepoints: a group is written as planned or not at all, and no row without the rows it depends on.

  \<^bold>\<open>What is not modelled.\<close> Third-party engines decide the behaviour of the XML, HTML, YAML, Markdown, PDF, Office
  and Tika adapters, of JSON schema validation, of the SQL adapters and of the PostgreSQL stores; regular expressions
  that of the text and log parsers, the scanners and the redaction; Python's decimal, datetime and Unicode functions
  that of normalization. Their code is not in the repository. Reading and decoding of bytes is an input of the
  parsers: decoded text with the error that ends it. Hashing of canonical JSON is a function parameter wherever
  fingerprints are compared. Asynchronous wiring (sessions of \<open>parsing\<close> and \<open>pipeline\<close>, registries, runners,
  facades) has no logic beyond the parts it calls. Structure analysis, profiling and the scoring of mappings are
  heuristics over the extracted batches that the modelled parts do not call; their results are inputs of the load
  planning. The files of every part are listed with the reason in the manifest.
\<close>

end
